(* ===== verification/Prelude.thy ===== *)
theory Prelude
  imports Main "HOL-Library.Char_ord" "HOL-Library.List_Lexorder" "HOL-Library.Tree"
    "HOL-Library.Word"
begin

text \<open>
  What the components share: the C library's string and number routines that the sources call
  (\<open>strcasecmp\<close>, \<open>strncasecmp\<close>, \<open>isspace\<close>, \<open>strtol\<close>, \<open>atoi\<close>, \<open>snprintf\<close> and the
  repository's own \<open>snprintfcat\<close>), sockets as explicit write logs, a generic transition system
  with reachability, and the list and option lemmas the components use.

  Conventions of the whole development:
  \<^item> a C string is a \<^typ>\<open>string\<close> holding the bytes before the terminating NUL;
  \<^item> a pointer that may be NULL is an \<^typ>\<open>'a option\<close>;
  \<^item> a C \<open>int\<close> is an \<^typ>\<open>int\<close>, with the conversion to 32 bits written out (\<open>int32\<close>) where
    a wider value is stored in it; bit flags are \<^typ>\<open>32 word\<close>;
  \<^item> the clock read by \<open>time()\<close> is an argument \<open>now\<close>, read once per handler call;
  \<^item> the result of a system call (bytes read, whether a write was taken in full) is an argument
    or an entry of the socket's list of coming write results.
\<close>

named_theorems c_eval \<open>evaluation of the C library routines on concrete arguments\<close>

section \<open>Characters and strings of the C library\<close>

abbreviation cc :: "char \<Rightarrow> int" where
  "cc c \<equiv> of_char c"

text \<open>A \<open>char\<close> promoted to \<open>int\<close>: the type is signed on the platforms the program targets.\<close>

definition schar :: "char \<Rightarrow> int" where
  "schar c = (if cc c < 128 then cc c else cc c - 256)"

text \<open>\<open>isspace\<close> in the C locale.\<close>

definition isspace_c :: "int \<Rightarrow> bool" where
  "isspace_c n \<longleftrightarrow> n = 32 \<or> (9 \<le> n \<and> n \<le> 13)"

definition tolower :: "char \<Rightarrow> char" where
  "tolower c = (let n = (of_char c :: nat) in if 65 \<le> n \<and> n \<le> 90 then char_of (n + 32) else c)"

abbreviation lower :: "string \<Rightarrow> string" where
  "lower s \<equiv> map tolower s"

text \<open>Only the sign of the result of \<open>strcasecmp\<close> is specified; the sources only test the sign.\<close>

fun strcasecmp :: "string \<Rightarrow> string \<Rightarrow> int" where
  "strcasecmp [] [] = 0"
| "strcasecmp [] (y # ys) = -1"
| "strcasecmp (x # xs) [] = 1"
| "strcasecmp (x # xs) (y # ys) =
     (if tolower x = tolower y then strcasecmp xs ys
      else if (of_char (tolower x) :: nat) < of_char (tolower y) then -1 else 1)"

definition strcaseeq :: "string \<Rightarrow> string \<Rightarrow> bool" where
  "strcaseeq a b \<longleftrightarrow> strcasecmp a b = 0"

definition strncaseeq :: "string \<Rightarrow> string \<Rightarrow> nat \<Rightarrow> bool" where
  "strncaseeq a b n \<longleftrightarrow> strcasecmp (take n a) (take n b) = 0"

definition strneq :: "string \<Rightarrow> string \<Rightarrow> nat \<Rightarrow> bool" where
  "strneq a b n \<longleftrightarrow> take n a = take n b"

lemma strcasecmp_eq_0 [simp]: "strcasecmp a b = 0 \<longleftrightarrow> lower a = lower b"
  by (induction a b rule: strcasecmp.induct) auto

lemma strcasecmp_neg [simp]: "strcasecmp a b < 0 \<longleftrightarrow> lower a < lower b"
  by (induction a b rule: strcasecmp.induct) (auto simp: less_char_def)

lemma strcasecmp_pos [simp]: "0 < strcasecmp a b \<longleftrightarrow> lower b < lower a"
  by (induction a b rule: strcasecmp.induct) (auto simp: less_char_def not_less order_le_less)

lemma strcaseeq_iff: "strcaseeq a b \<longleftrightarrow> lower a = lower b"
  by (simp add: strcaseeq_def)

lemma strcaseeq_refl [simp, intro]: "strcaseeq a a"
  by (simp add: strcaseeq_iff)

lemma strcaseeq_sym: "strcaseeq a b = strcaseeq b a"
  by (auto simp: strcaseeq_iff)

lemma strcaseeq_trans [trans]: "strcaseeq a b \<Longrightarrow> strcaseeq b c \<Longrightarrow> strcaseeq a c"
  by (simp add: strcaseeq_iff)

section \<open>Numbers\<close>

text \<open>The value a C \<open>int\<close> holds after a wider integer is stored in it.\<close>

definition int32 :: "int \<Rightarrow> int" where
  "int32 x = (x + 2 ^ 31) mod 2 ^ 32 - 2 ^ 31"

abbreviation in_int32 :: "int \<Rightarrow> bool" where
  "in_int32 x \<equiv> - (2 ^ 31) \<le> x \<and> x < 2 ^ 31"

definition is_digit :: "char \<Rightarrow> bool" where
  "is_digit c \<longleftrightarrow> 48 \<le> cc c \<and> cc c \<le> 57"

fun digits_val :: "int \<Rightarrow> string \<Rightarrow> int" where
  "digits_val acc [] = acc"
| "digits_val acc (c # cs) = (if is_digit c then digits_val (10 * acc + (cc c - 48)) cs else acc)"

text \<open>\<open>strtol(s, NULL, 10)\<close> with a 64-bit \<open>long\<close>: white space, a sign, digits; an overflow gives
  \<open>LONG_MIN\<close> or \<open>LONG_MAX\<close>.\<close>

definition strtol10 :: "string \<Rightarrow> int" where
  "strtol10 s =
     (let t = dropWhile (\<lambda>c. isspace_c (cc c)) s;
          v = (case t of [] \<Rightarrow> 0
               | c # r \<Rightarrow> if c = CHR ''-'' then - digits_val 0 r
                         else if c = CHR ''+'' then digits_val 0 r else digits_val 0 t)
      in max (- (2 ^ 63)) (min (2 ^ 63 - 1) v))"

text \<open>\<open>atoi\<close>, and a \<open>long\<close> from \<open>strtol\<close> assigned to an \<open>int\<close>.\<close>

definition atoi :: "string \<Rightarrow> int" where
  "atoi s = int32 (strtol10 s)"

definition digit_char :: "nat \<Rightarrow> char" where
  "digit_char d = char_of (48 + d)"

fun show_nat :: "nat \<Rightarrow> string" where
  "show_nat n = (if n < 10 then [digit_char n] else show_nat (n div 10) @ [digit_char (n mod 10)])"

declare show_nat.simps [simp del]

text \<open>The conversions \<open>%d\<close> and \<open>%i\<close> of \<open>printf\<close>.\<close>

definition show_int :: "int \<Rightarrow> string" where
  "show_int i = (if i < 0 then CHR ''-'' # show_nat (nat (- i)) else show_nat (nat i))"

lemma of_char_digit_char [simp]: "d < 10 \<Longrightarrow> (of_char (digit_char d) :: nat) = 48 + d"
  by (simp add: digit_char_def)

lemma cc_digit_char [simp]: "d < 10 \<Longrightarrow> cc (digit_char d) = 48 + int d"
  using of_char_digit_char [of d] by (metis of_nat_add of_nat_numeral of_nat_of_char)

lemma is_digit_digit_char [simp]: "d < 10 \<Longrightarrow> is_digit (digit_char d)"
  by (simp add: is_digit_def)

lemma digits_val_append:
  "list_all is_digit xs \<Longrightarrow> digits_val acc (xs @ ys) = digits_val (digits_val acc xs) ys"
  by (induction xs arbitrary: acc) auto

lemma show_nat_digits: "list_all is_digit (show_nat n)"
  by (induction n rule: show_nat.induct) (subst show_nat.simps, auto)

lemma show_nat_nonempty [simp]: "show_nat n \<noteq> []"
  by (subst show_nat.simps) simp

lemma digits_val_show_nat [simp]: "digits_val 0 (show_nat n) = int n"
proof (induction n rule: show_nat.induct)
  case (1 n)
  show ?case
  proof (cases "n < 10")
    case True
    then show ?thesis by (subst show_nat.simps) simp
  next
    case False
    then have "digits_val 0 (show_nat (n div 10)) = int (n div 10)"
      by (rule "1.IH")
    moreover have "10 * int (n div 10) + int (n mod 10) = int n"
      using div_mult_mod_eq [of n 10] by linarith
    ultimately show ?thesis using False
      by (subst show_nat.simps) (simp add: digits_val_append show_nat_digits)
  qed
qed

lemma is_digit_not_space: "is_digit c \<Longrightarrow> \<not> isspace_c (cc c)"
  by (auto simp: is_digit_def isspace_c_def)

lemma is_digit_not_sign: "is_digit c \<Longrightarrow> c \<noteq> CHR ''-'' \<and> c \<noteq> CHR ''+''"
  by (auto simp: is_digit_def)

lemma show_nat_Cons: obtains c cs where "show_nat n = c # cs" "is_digit c"
  using show_nat_digits [of n] show_nat_nonempty [of n] by (cases "show_nat n") auto

lemma int32_id [simp]: "in_int32 x \<Longrightarrow> int32 x = x"
  by (simp add: int32_def)

lemma int32_range: "in_int32 (int32 x)"
  by (simp add: int32_def)

text \<open>Printing an \<open>int\<close> and reading it back with \<open>atoi\<close> gives the same \<open>int\<close>.\<close>

lemma atoi_show_int [simp]: assumes "in_int32 i" shows "atoi (show_int i) = i"
proof -
  have "strtol10 (show_int i) = i"
  proof (cases "i < 0")
    case True
    with assms show ?thesis
      by (simp add: strtol10_def show_int_def isspace_c_def)
  next
    case False
    obtain c cs where c: "show_nat (nat i) = c # cs" "is_digit c"
      by (rule show_nat_Cons)
    moreover have "digits_val 0 (c # cs) = i"
      using False c digits_val_show_nat [of "nat i"] by simp
    ultimately show ?thesis
      using False assms is_digit_not_space [of c] is_digit_not_sign [of c]
      by (simp add: strtol10_def show_int_def)
  qed
  with assms show ?thesis by (simp add: atoi_def)
qed

text \<open>The integer division of C rounds towards zero.\<close>

definition cdiv :: "int \<Rightarrow> int \<Rightarrow> int" where
  "cdiv a b = sgn a * sgn b * (\<bar>a\<bar> div \<bar>b\<bar>)"

lemma cdiv_nonneg: "0 \<le> a \<Longrightarrow> 0 < b \<Longrightarrow> cdiv a b = a div b"
  by (cases "a = 0") (simp_all add: cdiv_def)

section \<open>Formatted output into fixed buffers\<close>

text \<open>The string left in a buffer of \<open>sz\<close> bytes by \<open>snprintf(buf, sz, ...)\<close> when the
  formatted text is \<open>s\<close>.\<close>

definition snprintf :: "nat \<Rightarrow> string \<Rightarrow> string" where
  "snprintf sz s = take (sz - 1) s"

text \<open>\<open>snprintfcat(dst, sz, ...)\<close> of \<open>common/common.c\<close>. It decrements \<open>sz\<close> before passing
  \<open>sz - len\<close> to \<open>vsnprintf\<close>, which itself keeps one byte for the NUL.\<close>

definition snprintfcat :: "string \<Rightarrow> nat \<Rightarrow> string \<Rightarrow> string" where
  "snprintfcat dst sz s = (let m = sz - 1 in dst @ take (m - length dst - 1) s)"

definition SMALLBUF :: nat where "SMALLBUF = 512"
definition LARGEBUF :: nat where "LARGEBUF = 1024"

lemma snprintf_length: "0 < sz \<Longrightarrow> length (snprintf sz s) < sz"
  by (simp add: snprintf_def)

lemma snprintf_id [simp]: "length s < sz \<Longrightarrow> snprintf sz s = s"
  by (simp add: snprintf_def)

lemma snprintfcat_length: "length dst < sz \<Longrightarrow> length (snprintfcat dst sz s) < sz"
  by (auto simp: snprintfcat_def Let_def)

lemma snprintfcat_id [simp]:
  "length dst + length s + 1 < sz \<Longrightarrow> snprintfcat dst sz s = dst @ s"
  by (simp add: snprintfcat_def)

text \<open>The end of a line, and a string between quotes.\<close>

abbreviation nl :: string where "nl \<equiv> [CHR 0x0A]"

abbreviation quoted :: "string \<Rightarrow> string" where
  "quoted t \<equiv> CHR 0x22 # t @ [CHR 0x22]"

section \<open>Sockets\<close>

text \<open>A stream socket the program writes to: the messages accepted so far, and whether each of
  the coming writes is taken in full (\<open>write\<close> returns the length) or not; a write beyond the end
  of the list is taken in full.\<close>

record sock =
  sent :: "string list"
  wplan :: "bool list"

definition sock_write :: "sock \<Rightarrow> string \<Rightarrow> sock \<times> bool" where
  "sock_write k s =
     (case wplan k of
        [] \<Rightarrow> (k\<lparr>sent := sent k @ [s]\<rparr>, True)
      | True # p \<Rightarrow> (k\<lparr>sent := sent k @ [s], wplan := p\<rparr>, True)
      | False # p \<Rightarrow> (k\<lparr>wplan := p\<rparr>, False))"

abbreviation sock_new :: "bool list \<Rightarrow> sock" where
  "sock_new p \<equiv> \<lparr>sent = [], wplan = p\<rparr>"

lemma sock_write_sent:
  "sock_write k s = (k', r) \<Longrightarrow> sent k' = sent k @ (if r then [s] else [])"
  by (auto simp: sock_write_def split: list.splits bool.splits)

lemma sock_write_ok [simp]: "wplan k = [] \<Longrightarrow> sock_write k s = (k\<lparr>sent := sent k @ [s]\<rparr>, True)"
  by (simp add: sock_write_def)

text \<open>What a \<open>read\<close> on a non-blocking descriptor gives: bytes (none at the end of the stream),
  \<open>EINTR\<close> or \<open>EAGAIN\<close>, or another error.\<close>

datatype rd = RdData string | RdAgain | RdError

section \<open>Transition systems\<close>

text \<open>Every daemon of the repository is a loop that handles one event after another. The locale
  gives the reachable states of such a loop and the invariant rule; each daemon interprets it on
  its own step function.\<close>

locale event_loop =
  fixes init :: "'s \<Rightarrow> bool" and step :: "'s \<Rightarrow> 'e \<Rightarrow> 's" and inv :: "'s \<Rightarrow> bool"
  assumes inv_init: "init s \<Longrightarrow> inv s"
    and inv_step: "inv s \<Longrightarrow> inv (step s e)"
begin

inductive reachable :: "'s \<Rightarrow> bool" where
  start: "init s \<Longrightarrow> reachable s"
| next_event: "reachable s \<Longrightarrow> reachable (step s e)"

lemma reachable_inv: "reachable s \<Longrightarrow> inv s"
  by (induction rule: reachable.induct) (auto intro: inv_init inv_step)

lemma run_inv: "inv s \<Longrightarrow> inv (foldl step s es)"
  by (induction es arbitrary: s) (auto intro: inv_step)

lemma run_reachable: "reachable s \<Longrightarrow> reachable (foldl step s es)"
  by (induction es arbitrary: s) (auto intro: next_event)

lemma init_run_inv: "init s \<Longrightarrow> inv (foldl step s es)"
  by (intro run_inv inv_init)

end

text \<open>The same for events that only keep the invariant under a condition.\<close>

locale guarded_loop =
  fixes step :: "'s \<Rightarrow> 'e \<Rightarrow> 's" and ok :: "'e \<Rightarrow> bool" and inv :: "'s \<Rightarrow> bool"
  assumes inv_step: "inv s \<Longrightarrow> ok e \<Longrightarrow> inv (step s e)"
begin

lemma run_inv: "inv s \<Longrightarrow> list_all ok es \<Longrightarrow> inv (foldl step s es)"
  by (induction es arbitrary: s) (auto intro: inv_step)

end

section \<open>Lists and options\<close>

text \<open>\<open>find_index\<close>: the position of the first element with a property, as a scan of a linked list
  for a pointer gives it.\<close>

fun find_index :: "('a \<Rightarrow> bool) \<Rightarrow> 'a list \<Rightarrow> nat option" where
  "find_index P [] = None"
| "find_index P (x # xs) = (if P x then Some 0 else map_option Suc (find_index P xs))"

lemma find_index_None: "find_index P xs = None \<longleftrightarrow> (\<forall>x\<in>set xs. \<not> P x)"
  by (induction xs) auto

lemma find_index_Some:
  "find_index P xs = Some i \<Longrightarrow> i < length xs \<and> P (xs ! i) \<and> (\<forall>j<i. \<not> P (xs ! j))"
proof (induction xs arbitrary: i)
  case (Cons x xs)
  then show ?case by (cases i) (auto split: if_splits simp: less_Suc_eq_0_disj)
qed simp

lemma find_index_SomeD:
  assumes "find_index P xs = Some i"
  shows "i < length xs" "P (xs ! i)"
  using find_index_Some [OF assms] by auto

lemma option_eqI: "(\<And>x. a = Some x \<longleftrightarrow> b = Some x) \<Longrightarrow> a = b"
  by (cases a; cases b) auto

lemma set_update_subset: "set (xs[i := x]) \<subseteq> insert x (set xs)"
  by (rule set_update_subset_insert)

lemma map_update_same: "f x = f (xs ! i) \<Longrightarrow> map f (xs[i := x]) = map f xs"
  by (metis list_update_id map_update)

lemma dropWhile_length: "length (dropWhile P xs) \<le> length xs"
  by (rule length_dropWhile_le)

end
