(* ===== verification/Parseconf.thy ===== *)
theory Parseconf
  imports Prelude
begin

text \<open>
  The configuration and protocol parser, \<open>common/parseconf.c\<close>: every configuration file and every
  line between a driver, upsd and a client goes through it. The context keeps the C buffers
  explicitly: \<open>wordbuf\<close> with its allocated size and write position, \<open>arglist\<close> with the allocated
  size of each word. The words beyond \<open>numargs\<close> are left over from earlier lines, as in the code.

  The concrete machine is shown to refine an abstract one over (state, words, current word); the
  round trip between \<open>pconf_encode\<close> and the parser is proved on the abstract machine.

  Allocation failure (\<open>pconf_fatal\<close>) ends the process and is not modelled, nor is the error
  handler that only \<open>pconf_fatal\<close> calls.
\<close>

named_theorems pconf_defs \<open>definitions of the parser's operations\<close>

section \<open>The context\<close>

datatype pstate = STATE_FINDWORDSTART | STATE_FINDEOL | STATE_QUOTECOLLECT | STATE_QC_LITERAL
  | STATE_COLLECT | STATE_COLLECTLITERAL | STATE_ENDOFLINE | STATE_PARSEERR

definition PCONF_CTX_t_MAGIC :: int where "PCONF_CTX_t_MAGIC = 0x00726630"
definition PCONF_ERR_LEN :: nat where "PCONF_ERR_LEN = 256"
definition PCONF_DEFAULT_ARG_LIMIT :: nat where "PCONF_DEFAULT_ARG_LIMIT = 32"
definition PCONF_DEFAULT_WORDLEN_LIMIT :: nat where "PCONF_DEFAULT_WORDLEN_LIMIT = 512"

text \<open>\<open>pc_f\<close> is the open file as the bytes not yet read; \<open>wordptr\<close> is the offset of the write
  position in \<open>wordbuf\<close>.\<close>

record pconf_ctx =
  pc_f :: "string option"
  pc_state :: pstate
  pc_ch :: int
  arglist :: "string list"
  argsize :: "nat list"
  numargs :: nat
  maxargs :: nat
  wordbuf :: string
  wordptr :: nat
  wordbufsize :: nat
  linenum :: int
  pc_error :: int
  errmsg :: string
  magic :: int
  arg_limit :: nat
  wordlen_limit :: nat

section \<open>Words\<close>

definition add_arg_word :: "pconf_ctx \<Rightarrow> pconf_ctx" where
  "add_arg_word ctx =
     (let argpos = numargs ctx;
          ctx1 = ctx\<lparr>numargs := numargs ctx + 1\<rparr>;
          ctx2 = (if numargs ctx1 > maxargs ctx1
                  then ctx1\<lparr>maxargs := numargs ctx1,
                            arglist := take argpos (arglist ctx1) @ [[]],
                            argsize := take argpos (argsize ctx1) @ [0]\<rparr>
                  else ctx1);
          wbuflen = length (wordbuf ctx2);
          ctx3 = (if wbuflen \<ge> argsize ctx2 ! argpos
                  then ctx2\<lparr>argsize := (argsize ctx2)[argpos := wbuflen + 1]\<rparr>
                  else ctx2)
      in ctx3\<lparr>arglist := (arglist ctx3)[argpos := wordbuf ctx3]\<rparr>)"

definition addchar :: "pconf_ctx \<Rightarrow> pconf_ctx" where
  "addchar ctx =
     (let wbuflen = length (wordbuf ctx)
      in if pc_ch ctx < 0x20 \<or> pc_ch ctx > 0x7f then ctx
         else if wordlen_limit ctx \<noteq> 0 \<and> wbuflen \<ge> wordlen_limit ctx then ctx
         else
           let ctx1 = (if wbuflen \<ge> wordbufsize ctx - 1
                       then ctx\<lparr>wordbufsize := wordbufsize ctx + 8, wordptr := wbuflen\<rparr>
                       else ctx)
           in ctx1\<lparr>wordbuf := take (wordptr ctx1) (wordbuf ctx1) @ [char_of (pc_ch ctx1)],
                   wordptr := wordptr ctx1 + 1\<rparr>)"

definition endofword :: "pconf_ctx \<Rightarrow> pconf_ctx" where
  "endofword ctx =
     (if arg_limit ctx \<noteq> 0 \<and> numargs ctx \<ge> arg_limit ctx
      then ctx\<lparr>wordptr := 0, wordbuf := []\<rparr>
      else (add_arg_word ctx)\<lparr>wordptr := 0, wordbuf := []\<rparr>)"

section \<open>The state machine\<close>

definition findwordstart :: "pconf_ctx \<Rightarrow> pstate \<times> pconf_ctx" where
  "findwordstart ctx =
     (if pc_ch ctx = 10 then (STATE_ENDOFLINE, ctx)
      else if pc_ch ctx = cc CHR ''#'' then (STATE_FINDEOL, ctx)
      else if isspace_c (pc_ch ctx) then (STATE_FINDWORDSTART, ctx)
      else if pc_ch ctx = cc CHR 0x5C then (STATE_COLLECTLITERAL, ctx)
      else if pc_ch ctx = cc CHR 0x22 then (STATE_QUOTECOLLECT, ctx)
      else
        let ctx1 = addchar ctx
        in if pc_ch ctx1 = cc CHR ''='' then (STATE_FINDWORDSTART, endofword ctx1)
           else (STATE_COLLECT, ctx1))"

definition findeol :: "pconf_ctx \<Rightarrow> pstate \<times> pconf_ctx" where
  "findeol ctx = (if pc_ch ctx = 10 then (STATE_ENDOFLINE, ctx) else (STATE_FINDEOL, ctx))"

definition pconf_seterr :: "pconf_ctx \<Rightarrow> string \<Rightarrow> pconf_ctx" where
  "pconf_seterr ctx msg = ctx\<lparr>errmsg := snprintf PCONF_ERR_LEN msg, pc_error := 1\<rparr>"

definition quotecollect :: "pconf_ctx \<Rightarrow> pstate \<times> pconf_ctx" where
  "quotecollect ctx =
     (if pc_ch ctx = cc CHR ''#''
      then (STATE_PARSEERR,
            endofword (pconf_seterr ctx ''Unbalanced word due to unescaped # in quotes''))
      else if pc_ch ctx = cc CHR 0x22 then (STATE_FINDWORDSTART, endofword ctx)
      else if pc_ch ctx = cc CHR 0x5C then (STATE_QC_LITERAL, ctx)
      else (STATE_QUOTECOLLECT, addchar ctx))"

definition qc_literal :: "pconf_ctx \<Rightarrow> pstate \<times> pconf_ctx" where
  "qc_literal ctx =
     (if pc_ch ctx = 10 then (STATE_QUOTECOLLECT, ctx) else (STATE_QUOTECOLLECT, addchar ctx))"

definition collect :: "pconf_ctx \<Rightarrow> pstate \<times> pconf_ctx" where
  "collect ctx =
     (if pc_ch ctx = cc CHR ''#'' then (STATE_FINDEOL, endofword ctx)
      else if pc_ch ctx = 10 then (STATE_ENDOFLINE, endofword ctx)
      else if isspace_c (pc_ch ctx) then (STATE_FINDWORDSTART, endofword ctx)
      else if pc_ch ctx = cc CHR ''='' then (STATE_FINDWORDSTART, snd (findwordstart (endofword ctx)))
      else if pc_ch ctx = cc CHR 0x5C then (STATE_COLLECTLITERAL, ctx)
      else (STATE_COLLECT, addchar ctx))"

definition collectliteral :: "pconf_ctx \<Rightarrow> pstate \<times> pconf_ctx" where
  "collectliteral ctx =
     (if pc_ch ctx = 10 then (STATE_COLLECT, ctx) else (STATE_COLLECT, addchar ctx))"

definition parse_char :: "pconf_ctx \<Rightarrow> pconf_ctx" where
  "parse_char ctx =
     (case pc_state ctx of
        STATE_FINDWORDSTART \<Rightarrow> let (st, ctx1) = findwordstart ctx in ctx1\<lparr>pc_state := st\<rparr>
      | STATE_FINDEOL \<Rightarrow> let (st, ctx1) = findeol ctx in ctx1\<lparr>pc_state := st\<rparr>
      | STATE_QUOTECOLLECT \<Rightarrow> let (st, ctx1) = quotecollect ctx in ctx1\<lparr>pc_state := st\<rparr>
      | STATE_QC_LITERAL \<Rightarrow> let (st, ctx1) = qc_literal ctx in ctx1\<lparr>pc_state := st\<rparr>
      | STATE_COLLECT \<Rightarrow> let (st, ctx1) = collect ctx in ctx1\<lparr>pc_state := st\<rparr>
      | STATE_COLLECTLITERAL \<Rightarrow> let (st, ctx1) = collectliteral ctx in ctx1\<lparr>pc_state := st\<rparr>
      | STATE_ENDOFLINE \<Rightarrow> ctx
      | STATE_PARSEERR \<Rightarrow> ctx)"

lemmas [pconf_defs] = findwordstart_def findeol_def quotecollect_def qc_literal_def collect_def
  collectliteral_def parse_char_def

section \<open>The interface\<close>

definition free_storage :: "pconf_ctx \<Rightarrow> pconf_ctx" where
  "free_storage ctx = ctx\<lparr>arglist := [], argsize := [], numargs := 0, maxargs := 0\<rparr>"

text \<open>\<open>pconf_init\<close> sets every field that the parser reads; \<open>errmsg\<close> and the last character are
  left as the caller's memory has them, here as in \<open>old\<close>.\<close>

definition pconf_init :: "pconf_ctx \<Rightarrow> pconf_ctx" where
  "pconf_init old =
     old\<lparr>pc_f := None, pc_state := STATE_FINDWORDSTART, numargs := 0, maxargs := 0,
         arg_limit := PCONF_DEFAULT_ARG_LIMIT, wordlen_limit := PCONF_DEFAULT_WORDLEN_LIMIT,
         linenum := 0, pc_error := 0, arglist := [], argsize := [],
         wordbufsize := 16, wordbuf := [], wordptr := 0, magic := PCONF_CTX_t_MAGIC\<rparr>"

definition check_magic :: "pconf_ctx \<Rightarrow> bool \<times> pconf_ctx" where
  "check_magic ctx =
     (if magic ctx \<noteq> PCONF_CTX_t_MAGIC
      then (False, ctx\<lparr>errmsg := snprintf PCONF_ERR_LEN ''Invalid ctx buffer''\<rparr>)
      else (True, ctx))"

text \<open>\<open>fopen\<close> is the environment's answer: the contents of the file, or the text of the error.\<close>

definition pconf_file_begin :: "(string \<Rightarrow> string + string) \<Rightarrow> pconf_ctx \<Rightarrow> string \<Rightarrow> int \<times> pconf_ctx" where
  "pconf_file_begin fopen ctx fn =
     (case check_magic ctx of
        (False, ctx1) \<Rightarrow> (0, ctx1)
      | (True, ctx1) \<Rightarrow>
          (case fopen fn of
             Inl err \<Rightarrow> (0, ctx1\<lparr>pc_f := None,
                         errmsg := snprintf PCONF_ERR_LEN (''Can''  @ [CHR 0x27] @ ''t open '' @ fn @ '': '' @ err)\<rparr>)
           | Inr contents \<Rightarrow> (1, ctx1\<lparr>pc_f := Some contents\<rparr>)))"

definition pconf_parse_error :: "pconf_ctx \<Rightarrow> int \<times> pconf_ctx" where
  "pconf_parse_error ctx =
     (case check_magic ctx of
        (False, ctx1) \<Rightarrow> (0, ctx1)
      | (True, ctx1) \<Rightarrow> if pc_error ctx1 = 1 then (1, ctx1\<lparr>pc_error := 0\<rparr>) else (0, ctx1))"

definition pconf_finish :: "pconf_ctx \<Rightarrow> pconf_ctx" where
  "pconf_finish ctx =
     (case check_magic ctx of
        (False, ctx1) \<Rightarrow> ctx1
      | (True, ctx1) \<Rightarrow> (free_storage (ctx1\<lparr>pc_f := None\<rparr>))\<lparr>magic := 0\<rparr>)"

abbreviation line_over :: "pconf_ctx \<Rightarrow> bool" where
  "line_over ctx \<equiv> pc_state ctx = STATE_PARSEERR \<or> pc_state ctx = STATE_ENDOFLINE"

text \<open>The \<open>while\<close> loop of \<open>pconf_file_next\<close>: \<open>fgetc\<close> gives an unsigned char or EOF. The flag
  tells whether the loop was left by its \<open>return 1\<close>; the last component is what is left to read.\<close>

fun file_loop :: "pconf_ctx \<Rightarrow> string \<Rightarrow> bool \<times> pconf_ctx \<times> string" where
  "file_loop ctx [] = (False, ctx\<lparr>pc_ch := -1\<rparr>, [])"
| "file_loop ctx (c # cs) =
     (let ctx1 = parse_char (ctx\<lparr>pc_ch := cc c\<rparr>)
      in if line_over ctx1 then (True, ctx1, cs) else file_loop ctx1 cs)"

definition pconf_file_next :: "pconf_ctx \<Rightarrow> int \<times> pconf_ctx" where
  "pconf_file_next ctx =
     (case check_magic ctx of
        (False, ctx1) \<Rightarrow> (0, ctx1)
      | (True, ctx1) \<Rightarrow>
          let ctx2 = ctx1\<lparr>linenum := linenum ctx1 + 1, numargs := 0,
                          pc_state := STATE_FINDWORDSTART\<rparr>;
              (stop, ctx3, rest) = file_loop ctx2 (case pc_f ctx2 of None \<Rightarrow> [] | Some s \<Rightarrow> s);
              ctx4 = ctx3\<lparr>pc_f := map_option (\<lambda>_. rest) (pc_f ctx3)\<rparr>
          in if stop then (1, ctx4)
             else if numargs ctx4 \<noteq> 0
             then (1, if wordptr ctx4 \<noteq> 0 then endofword ctx4 else ctx4)
             else (0, ctx4))"

fun line_loop :: "pconf_ctx \<Rightarrow> string \<Rightarrow> bool \<times> pconf_ctx" where
  "line_loop ctx [] = (False, ctx)"
| "line_loop ctx (c # cs) =
     (let ctx1 = parse_char (ctx\<lparr>pc_ch := schar c\<rparr>)
      in if line_over ctx1 then (True, ctx1) else line_loop ctx1 cs)"

definition pconf_line :: "pconf_ctx \<Rightarrow> string \<Rightarrow> int \<times> pconf_ctx" where
  "pconf_line ctx line =
     (case check_magic ctx of
        (False, ctx1) \<Rightarrow> (0, ctx1)
      | (True, ctx1) \<Rightarrow>
          let ctx2 = ctx1\<lparr>linenum := linenum ctx1 + 1, numargs := 0,
                          pc_state := STATE_FINDWORDSTART\<rparr>;
              (stop, ctx3) = line_loop ctx2 line
          in if stop then (1, ctx3)
             else (1, if wordptr ctx3 \<noteq> 0 then endofword ctx3 else ctx3))"

definition pconf_char :: "pconf_ctx \<Rightarrow> char \<Rightarrow> int \<times> pconf_ctx" where
  "pconf_char ctx ch =
     (case check_magic ctx of
        (False, ctx1) \<Rightarrow> (-1, ctx1)
      | (True, ctx1) \<Rightarrow>
          let ctx2 = (if line_over ctx1
                      then ctx1\<lparr>numargs := 0, pc_state := STATE_FINDWORDSTART\<rparr> else ctx1);
              ctx3 = parse_char (ctx2\<lparr>pc_ch := schar ch\<rparr>)
          in if pc_state ctx3 = STATE_ENDOFLINE then (1, ctx3)
             else if pc_state ctx3 = STATE_PARSEERR then (-1, ctx3)
             else (0, ctx3))"

text \<open>\<open>pconf_encode\<close> on the destination buffer as the array of its \<open>destsize\<close> bytes. The
  subtraction \<open>maxlen - 1\<close> is on \<open>size_t\<close>: for \<open>maxlen = 0\<close> it wraps to the largest value.\<close>

definition pconf_escape :: "char \<Rightarrow> bool" where
  "pconf_escape c \<longleftrightarrow> c = CHR ''#'' \<or> c = CHR 0x5C \<or> c = CHR 0x22"

fun encode_loop :: "nat \<Rightarrow> string \<Rightarrow> nat \<Rightarrow> string \<Rightarrow> string" where
  "encode_loop maxlen dest destlen [] = dest"
| "encode_loop maxlen dest destlen (c # cs) =
     (if pconf_escape c
      then (if int destlen \<ge> (int maxlen - 1) mod 2 ^ 64 then dest
            else
              let dest1 = dest[destlen := CHR 0x5C]; destlen1 = destlen + 1
              in if destlen1 \<ge> maxlen then dest1
                 else encode_loop maxlen (dest1[destlen1 := c]) (destlen1 + 1) cs)
      else if destlen \<ge> maxlen then dest
      else encode_loop maxlen (dest[destlen := c]) (destlen + 1) cs)"

definition pconf_encode_buf :: "string \<Rightarrow> string \<Rightarrow> nat \<Rightarrow> string" where
  "pconf_encode_buf src dest destsize =
     (if destsize < 1 then dest
      else encode_loop (destsize - 1) (replicate destsize (CHR 0x00)) 0 src)"

text \<open>The C string in the buffer: the bytes before the first NUL.\<close>

abbreviation cstring :: "string \<Rightarrow> string" where
  "cstring buf \<equiv> takeWhile (\<lambda>c. c \<noteq> CHR 0x00) buf"

definition pconf_encode :: "string \<Rightarrow> nat \<Rightarrow> string" where
  "pconf_encode src destsize = cstring (pconf_encode_buf src (replicate destsize (CHR 0x00)) destsize)"


section \<open>The buffers stay within their allocations\<close>

abbreviation word_char :: "char \<Rightarrow> bool" where
  "word_char c \<equiv> 0x20 \<le> cc c \<and> cc c \<le> 0x7f"

text \<open>The invariant of a context between two characters: the write position is the end of the
  current word and leaves room for the NUL, every stored word fits its allocation, the configured
  limits hold, and only the accepted characters occur.\<close>

definition pconf_inv :: "pconf_ctx \<Rightarrow> bool" where
  "pconf_inv ctx \<longleftrightarrow>
     wordptr ctx = length (wordbuf ctx) \<and> length (wordbuf ctx) < wordbufsize ctx \<and>
     numargs ctx \<le> maxargs ctx \<and> length (arglist ctx) = maxargs ctx \<and>
     length (argsize ctx) = maxargs ctx \<and>
     (\<forall>i<maxargs ctx. length (arglist ctx ! i) < argsize ctx ! i) \<and>
     (wordlen_limit ctx \<noteq> 0 \<longrightarrow> (\<forall>w\<in>insert (wordbuf ctx) (set (arglist ctx)). length w \<le> wordlen_limit ctx)) \<and>
     (arg_limit ctx \<noteq> 0 \<longrightarrow> maxargs ctx \<le> arg_limit ctx) \<and>
     (\<forall>w\<in>insert (wordbuf ctx) (set (arglist ctx)). list_all word_char w)"

lemma pconf_inv_ch [simp]: "pconf_inv (ctx\<lparr>pc_ch := c\<rparr>) = pconf_inv ctx"
  and pconf_inv_state [simp]: "pconf_inv (ctx\<lparr>pc_state := st\<rparr>) = pconf_inv ctx"
  and pconf_inv_f [simp]: "pconf_inv (ctx\<lparr>pc_f := f\<rparr>) = pconf_inv ctx"
  and pconf_inv_linenum [simp]: "pconf_inv (ctx\<lparr>linenum := n\<rparr>) = pconf_inv ctx"
  and pconf_inv_error [simp]: "pconf_inv (ctx\<lparr>pc_error := e\<rparr>) = pconf_inv ctx"
  and pconf_inv_errmsg [simp]: "pconf_inv (ctx\<lparr>errmsg := m\<rparr>) = pconf_inv ctx"
  by (simp_all add: pconf_inv_def)

lemma pconf_inv_numargs_0: "pconf_inv ctx \<Longrightarrow> pconf_inv (ctx\<lparr>numargs := 0\<rparr>)"
  by (simp add: pconf_inv_def)

lemma pconf_inv_clear_word:
  "pconf_inv ctx \<Longrightarrow> pconf_inv (ctx\<lparr>wordptr := 0, wordbuf := []\<rparr>)"
  by (auto simp: pconf_inv_def)

lemma add_arg_word_fields [simp]:
  "pc_f (add_arg_word ctx) = pc_f ctx" "pc_state (add_arg_word ctx) = pc_state ctx"
  "pc_ch (add_arg_word ctx) = pc_ch ctx" "numargs (add_arg_word ctx) = numargs ctx + 1"
  "wordbuf (add_arg_word ctx) = wordbuf ctx" "wordptr (add_arg_word ctx) = wordptr ctx"
  "wordbufsize (add_arg_word ctx) = wordbufsize ctx" "linenum (add_arg_word ctx) = linenum ctx"
  "pc_error (add_arg_word ctx) = pc_error ctx" "errmsg (add_arg_word ctx) = errmsg ctx"
  "magic (add_arg_word ctx) = magic ctx" "arg_limit (add_arg_word ctx) = arg_limit ctx"
  "wordlen_limit (add_arg_word ctx) = wordlen_limit ctx"
  by (simp_all add: add_arg_word_def Let_def)

lemma addchar_fields [simp]:
  "pc_f (addchar ctx) = pc_f ctx" "pc_state (addchar ctx) = pc_state ctx"
  "pc_ch (addchar ctx) = pc_ch ctx" "numargs (addchar ctx) = numargs ctx"
  "arglist (addchar ctx) = arglist ctx" "argsize (addchar ctx) = argsize ctx"
  "maxargs (addchar ctx) = maxargs ctx" "linenum (addchar ctx) = linenum ctx"
  "pc_error (addchar ctx) = pc_error ctx" "errmsg (addchar ctx) = errmsg ctx"
  "magic (addchar ctx) = magic ctx" "arg_limit (addchar ctx) = arg_limit ctx"
  "wordlen_limit (addchar ctx) = wordlen_limit ctx"
  by (simp_all add: addchar_def Let_def)

lemma endofword_fields [simp]:
  "pc_f (endofword ctx) = pc_f ctx" "pc_state (endofword ctx) = pc_state ctx"
  "pc_ch (endofword ctx) = pc_ch ctx" "linenum (endofword ctx) = linenum ctx"
  "pc_error (endofword ctx) = pc_error ctx" "errmsg (endofword ctx) = errmsg ctx"
  "magic (endofword ctx) = magic ctx" "arg_limit (endofword ctx) = arg_limit ctx"
  "wordlen_limit (endofword ctx) = wordlen_limit ctx"
  "wordbuf (endofword ctx) = []" "wordptr (endofword ctx) = 0"
  by (simp_all add: endofword_def)

lemma add_arg_word_maxargs:
  "pconf_inv ctx \<Longrightarrow> maxargs (add_arg_word ctx) = max (maxargs ctx) (numargs ctx + 1)"
  by (auto simp: add_arg_word_def Let_def pconf_inv_def)

lemma add_arg_word_arglist:
  "pconf_inv ctx \<Longrightarrow> arglist (add_arg_word ctx) =
     take (numargs ctx) (arglist ctx) @ wordbuf ctx # drop (numargs ctx + 1) (arglist ctx)"
  by (auto simp: add_arg_word_def Let_def pconf_inv_def list_update_append upd_conv_take_nth_drop)

lemma add_arg_word_argsize:
  "pconf_inv ctx \<Longrightarrow> length (argsize (add_arg_word ctx)) = maxargs (add_arg_word ctx) \<and>
     (\<forall>i<maxargs (add_arg_word ctx).
        length (arglist (add_arg_word ctx) ! i) < argsize (add_arg_word ctx) ! i)"
  by (auto simp: add_arg_word_def Let_def pconf_inv_def nth_append nth_list_update less_Suc_eq)

lemma add_arg_word_inv:
  assumes inv: "pconf_inv ctx" and lim: "arg_limit ctx = 0 \<or> numargs ctx < arg_limit ctx"
  shows "pconf_inv (add_arg_word ctx)"
proof -
  have set: "insert (wordbuf ctx) (set (arglist (add_arg_word ctx))) \<subseteq> insert (wordbuf ctx) (set (arglist ctx))"
    using inv by (auto simp: add_arg_word_arglist dest: in_set_takeD in_set_dropD)
  from inv have "length (arglist (add_arg_word ctx)) = maxargs (add_arg_word ctx)"
    by (auto simp: add_arg_word_arglist add_arg_word_maxargs pconf_inv_def)
  then show ?thesis
    using inv lim add_arg_word_argsize [OF inv] set
    unfolding pconf_inv_def [of "add_arg_word ctx"]
    by (auto simp: add_arg_word_maxargs) (auto simp: pconf_inv_def)
qed

lemma endofword_inv: "pconf_inv ctx \<Longrightarrow> pconf_inv (endofword ctx)"
  by (simp add: endofword_def pconf_inv_clear_word add_arg_word_inv)

lemma addchar_inv:
  assumes "pconf_inv ctx"
  shows "pconf_inv (addchar ctx)"
  using assms by (auto simp: pconf_inv_def addchar_def Let_def)

text \<open>What a run of the state machine never touches.\<close>

lemma parse_char_fields [simp]:
  "pc_f (parse_char ctx) = pc_f ctx" "pc_ch (parse_char ctx) = pc_ch ctx"
  "linenum (parse_char ctx) = linenum ctx" "magic (parse_char ctx) = magic ctx"
  "arg_limit (parse_char ctx) = arg_limit ctx"
  "wordlen_limit (parse_char ctx) = wordlen_limit ctx"
  by (auto simp: pconf_defs pconf_seterr_def Let_def split: pstate.splits)

lemma parse_char_inv: "pconf_inv ctx \<Longrightarrow> pconf_inv (parse_char ctx)"
  by (auto simp: pconf_defs pconf_seterr_def Let_def endofword_inv addchar_inv split: pstate.splits)

lemma pconf_init_inv: "pconf_inv (pconf_init old)"
  by (simp add: pconf_inv_def pconf_init_def)

lemma pconf_char_inv: "pconf_inv ctx \<Longrightarrow> pconf_inv (snd (pconf_char ctx c))"
  by (auto simp: pconf_char_def check_magic_def Let_def intro!: parse_char_inv pconf_inv_numargs_0)

lemma line_loop_inv: "pconf_inv ctx \<Longrightarrow> pconf_inv (snd (line_loop ctx s))"
  by (induction ctx s rule: line_loop.induct) (auto simp: Let_def parse_char_inv)

lemma file_loop_inv: "pconf_inv ctx \<Longrightarrow> pconf_inv (fst (snd (file_loop ctx s)))"
  by (induction ctx s rule: file_loop.induct) (auto simp: Let_def parse_char_inv)

lemma pconf_line_inv: assumes "pconf_inv ctx" shows "pconf_inv (snd (pconf_line ctx s))"
proof -
  let ?c = "ctx\<lparr>linenum := linenum ctx + 1, numargs := 0, pc_state := STATE_FINDWORDSTART\<rparr>"
  from assms have "pconf_inv ?c"
    using pconf_inv_numargs_0 [of "ctx\<lparr>linenum := linenum ctx + 1\<rparr>"] by simp
  then have "pconf_inv (snd (line_loop ?c s))" by (rule line_loop_inv)
  with assms show ?thesis
    by (auto simp: pconf_line_def check_magic_def Let_def endofword_inv split: prod.splits)
qed

lemma pconf_file_next_inv: assumes "pconf_inv ctx" shows "pconf_inv (snd (pconf_file_next ctx))"
proof -
  let ?c = "ctx\<lparr>linenum := linenum ctx + 1, numargs := 0, pc_state := STATE_FINDWORDSTART\<rparr>"
  let ?s = "case pc_f ctx of None \<Rightarrow> [] | Some s \<Rightarrow> s"
  from assms have "pconf_inv ?c"
    using pconf_inv_numargs_0 [of "ctx\<lparr>linenum := linenum ctx + 1\<rparr>"] by simp
  then have "pconf_inv (fst (snd (file_loop ?c ?s)))" by (rule file_loop_inv)
  with assms show ?thesis
    by (auto simp: pconf_file_next_def check_magic_def Let_def endofword_inv split: prod.splits)
qed

text \<open>The parser as an event loop over the bytes of a connection.\<close>

interpretation pconf: event_loop "\<lambda>ctx. \<exists>old. ctx = pconf_init old"
  "\<lambda>ctx c. snd (pconf_char ctx c)" pconf_inv
  by unfold_locales (auto intro: pconf_init_inv pconf_char_inv)

section \<open>The abstract machine\<close>

text \<open>The state, the words completed on this line and the word being collected, under an argument
  limit \<open>al\<close> and a word length limit \<open>wl\<close> (0 for none).\<close>

type_synonym amach = "pstate \<times> string list \<times> string"

definition a_addchar :: "nat \<Rightarrow> int \<Rightarrow> string \<Rightarrow> string" where
  "a_addchar wl ch w =
     (if ch < 0x20 \<or> ch > 0x7f \<or> (wl \<noteq> 0 \<and> wl \<le> length w) then w else w @ [char_of ch])"

definition a_endword :: "nat \<Rightarrow> string list \<Rightarrow> string \<Rightarrow> string list" where
  "a_endword al ws w = (if al \<noteq> 0 \<and> al \<le> length ws then ws else ws @ [w])"

fun astep :: "nat \<Rightarrow> nat \<Rightarrow> int \<Rightarrow> amach \<Rightarrow> amach" where
  "astep al wl ch (STATE_FINDWORDSTART, ws, w) =
     (if ch = 10 then (STATE_ENDOFLINE, ws, w)
      else if ch = cc CHR ''#'' then (STATE_FINDEOL, ws, w)
      else if isspace_c ch then (STATE_FINDWORDSTART, ws, w)
      else if ch = cc CHR 0x5C then (STATE_COLLECTLITERAL, ws, w)
      else if ch = cc CHR 0x22 then (STATE_QUOTECOLLECT, ws, w)
      else if ch = cc CHR ''='' then (STATE_FINDWORDSTART, a_endword al ws (a_addchar wl ch w), [])
      else (STATE_COLLECT, ws, a_addchar wl ch w))"
| "astep al wl ch (STATE_FINDEOL, ws, w) =
     (if ch = 10 then (STATE_ENDOFLINE, ws, w) else (STATE_FINDEOL, ws, w))"
| "astep al wl ch (STATE_QUOTECOLLECT, ws, w) =
     (if ch = cc CHR ''#'' then (STATE_PARSEERR, a_endword al ws w, [])
      else if ch = cc CHR 0x22 then (STATE_FINDWORDSTART, a_endword al ws w, [])
      else if ch = cc CHR 0x5C then (STATE_QC_LITERAL, ws, w)
      else (STATE_QUOTECOLLECT, ws, a_addchar wl ch w))"
| "astep al wl ch (STATE_QC_LITERAL, ws, w) =
     (STATE_QUOTECOLLECT, ws, if ch = 10 then w else a_addchar wl ch w)"
| "astep al wl ch (STATE_COLLECT, ws, w) =
     (if ch = cc CHR ''#'' then (STATE_FINDEOL, a_endword al ws w, [])
      else if ch = 10 then (STATE_ENDOFLINE, a_endword al ws w, [])
      else if isspace_c ch then (STATE_FINDWORDSTART, a_endword al ws w, [])
      else if ch = cc CHR ''='' then
        (STATE_FINDWORDSTART, a_endword al (a_endword al ws w) (a_addchar wl ch []), [])
      else if ch = cc CHR 0x5C then (STATE_COLLECTLITERAL, ws, w)
      else (STATE_COLLECT, ws, a_addchar wl ch w))"
| "astep al wl ch (STATE_COLLECTLITERAL, ws, w) =
     (STATE_COLLECT, ws, if ch = 10 then w else a_addchar wl ch w)"
| "astep al wl ch (STATE_ENDOFLINE, ws, w) = (STATE_ENDOFLINE, ws, w)"
| "astep al wl ch (STATE_PARSEERR, ws, w) = (STATE_PARSEERR, ws, w)"

definition pconf_abs :: "pconf_ctx \<Rightarrow> amach" where
  "pconf_abs ctx = (pc_state ctx, take (numargs ctx) (arglist ctx), wordbuf ctx)"

lemma addchar_wordbuf:
  "pconf_inv ctx \<Longrightarrow> wordbuf (addchar ctx) = a_addchar (wordlen_limit ctx) (pc_ch ctx) (wordbuf ctx)"
  by (auto simp: addchar_def a_addchar_def Let_def pconf_inv_def)

lemma endofword_args:
  "pconf_inv ctx \<Longrightarrow> take (numargs (endofword ctx)) (arglist (endofword ctx)) =
     a_endword (arg_limit ctx) (take (numargs ctx) (arglist ctx)) (wordbuf ctx)"
  by (auto simp: endofword_def a_endword_def add_arg_word_arglist pconf_inv_def)

lemma addchar_args [simp]:
  "take (numargs (addchar ctx)) (arglist (addchar ctx)) = take (numargs ctx) (arglist ctx)"
  by simp

text \<open>The refinement: one character takes the concrete context where the abstract machine goes.\<close>

lemma parse_char_refines:
  assumes "pconf_inv ctx"
  shows "pconf_abs (parse_char ctx) =
           astep (arg_limit ctx) (wordlen_limit ctx) (pc_ch ctx) (pconf_abs ctx)"
proof (cases "pc_state ctx")
  case STATE_FINDWORDSTART
  with assms show ?thesis
    by (simp add: pconf_abs_def pconf_defs Let_def addchar_wordbuf addchar_inv endofword_args)
next
  case STATE_QUOTECOLLECT
  with assms show ?thesis
    by (simp add: pconf_abs_def pconf_defs Let_def addchar_wordbuf endofword_args pconf_seterr_def)
next
  case STATE_COLLECT
  with assms show ?thesis
    by (simp add: pconf_abs_def pconf_defs Let_def addchar_wordbuf endofword_args endofword_inv
        addchar_inv isspace_c_def)
qed (use assms in \<open>simp_all add: pconf_abs_def pconf_defs Let_def addchar_wordbuf\<close>)

section \<open>Encoding and its inverse\<close>

definition esc1 :: "char \<Rightarrow> string" where
  "esc1 c = (if pconf_escape c then [CHR 0x5C, c] else [c])"

definition escape :: "string \<Rightarrow> string" where
  "escape s = concat (map esc1 s)"

lemma escape_simps [simp]: "escape [] = []" "escape (c # cs) = esc1 c @ escape cs"
  by (simp_all add: escape_def)

lemma escape_append [simp]: "escape (a @ b) = escape a @ escape b"
  by (simp add: escape_def)

lemma escape_length: "length s \<le> length (escape s)"
  by (induction s) (auto simp: esc1_def)

text \<open>What fits in \<open>m\<close> bytes, an escape pair being taken or left as a whole.\<close>

fun enc_fit :: "nat \<Rightarrow> string \<Rightarrow> string" where
  "enc_fit m [] = []"
| "enc_fit m (c # cs) =
     (if length (esc1 c) \<le> m then esc1 c @ enc_fit (m - length (esc1 c)) cs else [])"

lemma enc_fit_length: "length (enc_fit m s) \<le> m"
proof (induction s arbitrary: m)
  case (Cons c cs)
  from Cons [of "m - length (esc1 c)"] show ?case by auto
qed simp

lemma enc_fit_full: "length (escape s) \<le> m \<Longrightarrow> enc_fit m s = escape s"
  by (induction s arbitrary: m) auto

text \<open>A truncated encoding is the encoding of a prefix: it never ends in half an escape pair.\<close>

lemma enc_fit_prefix: "\<exists>k. enc_fit m s = escape (take k s)"
proof (induction s arbitrary: m)
  case (Cons c cs)
  show ?case
  proof (cases "length (esc1 c) \<le> m")
    case True
    from Cons obtain k where "enc_fit (m - length (esc1 c)) cs = escape (take k cs)" by blast
    with True have "enc_fit m (c # cs) = escape (take (Suc k) (c # cs))" by simp
    then show ?thesis by blast
  next
    case False
    then have "enc_fit m (c # cs) = escape (take 0 (c # cs))" by simp
    then show ?thesis by blast
  qed
qed simp

lemma update_after_prefix:
  "(xs @ replicate n z)[length xs := c] = (if 0 < n then xs @ c # replicate (n - 1) z else xs @ replicate n z)"
  by (cases n) (simp_all add: list_update_append list_update_beyond)

lemma encode_loop_fit:
  assumes "1 \<le> m" "m < 2 ^ 64" "length pre \<le> m"
  shows "encode_loop m (pre @ replicate (m + 1 - length pre) z) (length pre) src =
     (let e = enc_fit (m - length pre) src in pre @ e @ replicate (m + 1 - length pre - length e) z)"
  using assms(3)
proof (induction src arbitrary: pre)
  case (Cons c cs)
  have wrap: "(int m - 1) mod 2 ^ 64 = int m - 1"
    using assms(1,2) by (intro mod_pos_pos_trivial) (simp_all add: of_nat_less_iff [symmetric])
  show ?case
  proof (cases "pconf_escape c")
    case esc: True
    show ?thesis
    proof (cases "length pre + 2 \<le> m")
      case True
      let ?pre = "pre @ [CHR 0x5C, c]"
      have upd: "(pre @ replicate (m + 1 - length pre) z)[length pre := CHR 0x5C, length pre + 1 := c]
          = ?pre @ replicate (m + 1 - length ?pre) z"
        using True update_after_prefix [of pre "m + 1 - length pre" z "CHR 0x5C"]
          update_after_prefix [of "pre @ [CHR 0x5C]" "m - length pre" z c] by simp
      from True Cons.IH [of ?pre] esc wrap upd show ?thesis
        by (simp add: esc1_def Let_def)
    next
      case False
      with esc wrap Cons.prems show ?thesis by (simp add: esc1_def)
    qed
  next
    case False
    show ?thesis
    proof (cases "length pre < m")
      case True
      let ?pre = "pre @ [c]"
      have "(pre @ replicate (m + 1 - length pre) z)[length pre := c] = ?pre @ replicate (m + 1 - length ?pre) z"
        using True update_after_prefix [of pre "m + 1 - length pre" z c] by simp
      with True Cons.IH [of ?pre] False show ?thesis
        by (simp add: esc1_def Let_def)
    next
      case full: False
      with False Cons.prems show ?thesis by (simp add: esc1_def)
    qed
  qed
qed simp

lemma pconf_encode_buf_eq:
  assumes "2 \<le> n" "n < 2 ^ 64"
  shows "pconf_encode_buf src dest n =
           (let e = enc_fit (n - 1) src in e @ replicate (n - length e) (CHR 0x00))"
  using encode_loop_fit [of "n - 1" "[]" "CHR 0x00" src] assms
  by (simp add: pconf_encode_buf_def Let_def)

abbreviation no_nul :: "string \<Rightarrow> bool" where
  "no_nul s \<equiv> CHR 0x00 \<notin> set s"

lemma esc1_no_nul: "c \<noteq> CHR 0x00 \<Longrightarrow> no_nul (esc1 c)"
  by (auto simp: esc1_def)

lemma escape_no_nul: "no_nul s \<Longrightarrow> no_nul (escape s)"
  by (induction s) (auto simp: esc1_def)

lemma enc_fit_no_nul: assumes "no_nul s" shows "no_nul (enc_fit m s)"
proof -
  obtain k where "enc_fit m s = escape (take k s)" using enc_fit_prefix by blast
  moreover have "no_nul (take k s)" using assms by (auto dest: in_set_takeD)
  ultimately show ?thesis using escape_no_nul by metis
qed

lemma takeWhile_replicate_False: "\<not> P z \<Longrightarrow> takeWhile P (replicate n z) = []"
  by (cases n) auto

lemma takeWhile_no_nul: "no_nul e \<Longrightarrow> cstring (e @ replicate n (CHR 0x00)) = e"
  by (induction e) (auto simp: takeWhile_replicate_False)

lemma pconf_encode_eq:
  assumes "2 \<le> n" "n < 2 ^ 64" "no_nul src"
  shows "pconf_encode src n = enc_fit (n - 1) src"
  using assms enc_fit_no_nul [OF assms(3)]
  by (simp add: pconf_encode_def pconf_encode_buf_eq Let_def takeWhile_no_nul)

section \<open>Messages: words, plain or quoted, on one line\<close>

datatype tok = Plain string | Quoted string

fun tok_word :: "tok \<Rightarrow> string" where
  "tok_word (Plain w) = w"
| "tok_word (Quoted w) = w"

fun tok_text :: "tok \<Rightarrow> string" where
  "tok_text (Plain w) = w"
| "tok_text (Quoted w) = CHR 0x22 # escape w @ [CHR 0x22]"

definition plain_char :: "char \<Rightarrow> bool" where
  "plain_char c \<longleftrightarrow> 0x20 < cc c \<and> cc c \<le> 0x7f \<and> \<not> pconf_escape c \<and> c \<noteq> CHR ''=''"

abbreviation plain_word :: "string \<Rightarrow> bool" where
  "plain_word w \<equiv> w \<noteq> [] \<and> list_all plain_char w"

fun tok_ok :: "nat \<Rightarrow> tok \<Rightarrow> bool" where
  "tok_ok wl (Plain w) = ((plain_word w \<or> w = ''='') \<and> (wl = 0 \<or> length w \<le> wl))"
| "tok_ok wl (Quoted w) = (list_all word_char w \<and> (wl = 0 \<or> length w \<le> wl))"

fun render :: "tok list \<Rightarrow> string" where
  "render [] = []"
| "render [t] = tok_text t"
| "render (t # ts) = tok_text t @ CHR '' '' # render ts"

definition message :: "tok list \<Rightarrow> string" where
  "message ts = render ts @ [CHR 0x0A]"

definition msg_ok :: "nat \<Rightarrow> nat \<Rightarrow> tok list \<Rightarrow> bool" where
  "msg_ok al wl ts \<longleftrightarrow> list_all (tok_ok wl) ts \<and> (al = 0 \<or> length ts \<le> al)"

definition arun :: "nat \<Rightarrow> nat \<Rightarrow> string \<Rightarrow> amach \<Rightarrow> amach" where
  "arun al wl s m = fold (\<lambda>c. astep al wl (schar c)) s m"

lemma arun_simps [simp]:
  "arun al wl [] m = m"
  "arun al wl (c # s) m = arun al wl s (astep al wl (schar c) m)"
  "arun al wl (s @ t) m = arun al wl t (arun al wl s m)"
  by (simp_all add: arun_def)

lemma schar_word_char: "word_char c \<Longrightarrow> schar c = cc c"
  by (simp add: schar_def)

lemma cc_eq_iff [simp]: "cc a = cc b \<longleftrightarrow> a = b"
  by (simp add: of_char_eq_iff)

lemma char_of_cc [simp]: "char_of (cc c) = c"
  by (rule char_of_char)

lemma cc_lits:
  "cc c = 35 \<longleftrightarrow> c = CHR ''#''" "cc c = 92 \<longleftrightarrow> c = CHR 0x5C" "cc c = 34 \<longleftrightarrow> c = CHR 0x22"
  "cc c = 61 \<longleftrightarrow> c = CHR ''=''" "cc c = 10 \<longleftrightarrow> c = CHR 0x0A"
  using cc_eq_iff [of c "CHR ''#''"] cc_eq_iff [of c "CHR 0x5C"] cc_eq_iff [of c "CHR 0x22"]
    cc_eq_iff [of c "CHR ''=''"] cc_eq_iff [of c "CHR 0x0A"] by simp_all

lemma arun_escape:
  "list_all word_char w \<Longrightarrow> wl = 0 \<or> length u + length w \<le> wl \<Longrightarrow>
   arun al wl (escape w) (STATE_QUOTECOLLECT, ws, u) = (STATE_QUOTECOLLECT, ws, u @ w)"
proof (induction w arbitrary: u)
  case (Cons c w)
  then have c: "schar c = cc c" "a_addchar wl (cc c) u = u @ [c]" "cc c \<noteq> 10"
    by (auto simp: schar_word_char a_addchar_def)
  have "arun al wl (esc1 c) (STATE_QUOTECOLLECT, ws, u) = (STATE_QUOTECOLLECT, ws, u @ [c])"
    using c by (cases "pconf_escape c")
      (auto simp: esc1_def pconf_escape_def schar_def cc_lits)
  with Cons.IH [of "u @ [c]"] Cons.prems show ?case by auto
qed simp

lemma plain_charD:
  assumes "plain_char c"
  shows "word_char c" "schar c = cc c" "\<not> isspace_c (cc c)" "cc c \<noteq> 10" "cc c \<noteq> 35"
    "cc c \<noteq> 92" "cc c \<noteq> 34" "cc c \<noteq> 61"
  using assms by (auto simp: plain_char_def isspace_c_def schar_def pconf_escape_def cc_lits)

lemma arun_plain_collect:
  "list_all plain_char w \<Longrightarrow> wl = 0 \<or> length u + length w \<le> wl \<Longrightarrow>
   arun al wl w (STATE_COLLECT, ws, u) = (STATE_COLLECT, ws, u @ w)"
proof (induction w arbitrary: u)
  case (Cons c w)
  then have "plain_char c" by simp
  note c = plain_charD [OF this]
  from c Cons.prems have "astep al wl (schar c) (STATE_COLLECT, ws, u) = (STATE_COLLECT, ws, u @ [c])"
    by (auto simp: a_addchar_def)
  with Cons.IH [of "u @ [c]"] Cons.prems show ?case by auto
qed simp

lemma arun_plain:
  assumes "plain_word w" "wl = 0 \<or> length w \<le> wl"
  shows "arun al wl w (STATE_FINDWORDSTART, ws, []) = (STATE_COLLECT, ws, w)"
proof -
  from assms obtain c v where w: "w = c # v" "plain_char c" by (cases w) auto
  note c = plain_charD [OF w(2)]
  from c w assms have "astep al wl (schar c) (STATE_FINDWORDSTART, ws, []) = (STATE_COLLECT, ws, [c])"
    by (auto simp: a_addchar_def)
  with w assms arun_plain_collect [of v wl "[c]" al ws] show ?thesis by auto
qed

lemma arun_equals:
  assumes "wl = 0 \<or> 1 \<le> wl" "al = 0 \<or> length ws < al"
  shows "arun al wl ''='' (STATE_FINDWORDSTART, ws, []) = (STATE_FINDWORDSTART, ws @ [''=''], [])"
proof -
  have "char_of (61 :: int) = CHR ''=''" using char_of_cc [of "CHR ''=''"] by simp
  with assms show ?thesis by (auto simp: a_endword_def a_addchar_def schar_def isspace_c_def)
qed

text \<open>One word of a message, ended by a space or by the newline.\<close>

lemma arun_tok:
  assumes "tok_ok wl t" "al = 0 \<or> length ws < al"
  shows "arun al wl (tok_text t @ [CHR '' '']) (STATE_FINDWORDSTART, ws, []) =
           (STATE_FINDWORDSTART, ws @ [tok_word t], [])"
    and "arun al wl (tok_text t @ [CHR 0x0A]) (STATE_FINDWORDSTART, ws, []) =
           (STATE_ENDOFLINE, ws @ [tok_word t], [])"
    and "fst (arun al wl (tok_text t) (STATE_FINDWORDSTART, ws, [])) \<in> {STATE_FINDWORDSTART, STATE_COLLECT}"
proof -
  have space: "arun al wl '' '' (STATE_FINDWORDSTART, us, []) = (STATE_FINDWORDSTART, us, [])"
    and newline: "arun al wl [CHR 0x0A] (STATE_FINDWORDSTART, us, []) = (STATE_ENDOFLINE, us, [])" for us
    by (simp_all add: schar_def isspace_c_def)
  note old = arun_escape [of "tok_word t" wl "[]" al ws] arun_plain [of "tok_word t" wl al ws]
  have eq: "arun al wl ''='' (STATE_FINDWORDSTART, ws, []) = (STATE_FINDWORDSTART, ws @ [''=''], [])"
    if "t = Plain ''=''" using that assms by (intro arun_equals) auto
  show "arun al wl (tok_text t @ [CHR '' '']) (STATE_FINDWORDSTART, ws, []) =
           (STATE_FINDWORDSTART, ws @ [tok_word t], [])"
  proof (cases "t = Plain ''=''")
    case True
    show ?thesis
      unfolding True tok_text.simps arun_simps(3) eq [OF True] space by simp
  qed (use assms old in \<open>cases t; auto simp: a_endword_def schar_def isspace_c_def\<close>)
  show "arun al wl (tok_text t @ [CHR 0x0A]) (STATE_FINDWORDSTART, ws, []) =
           (STATE_ENDOFLINE, ws @ [tok_word t], [])"
  proof (cases "t = Plain ''=''")
    case True
    show ?thesis
      unfolding True tok_text.simps arun_simps(3) eq [OF True] newline by simp
  qed (use assms old in \<open>cases t; auto simp: a_endword_def schar_def isspace_c_def\<close>)
  show "fst (arun al wl (tok_text t) (STATE_FINDWORDSTART, ws, [])) \<in> {STATE_FINDWORDSTART, STATE_COLLECT}"
  proof (cases "t = Plain ''=''")
    case True
    with eq show ?thesis by (simp del: arun_simps(2))
  qed (use assms old in \<open>cases t; auto simp: a_endword_def schar_def isspace_c_def\<close>)
qed

lemma arun_render:
  "list_all (tok_ok wl) ts \<Longrightarrow> al = 0 \<or> length ws + length ts \<le> al \<Longrightarrow>
   arun al wl (message ts) (STATE_FINDWORDSTART, ws, []) = (STATE_ENDOFLINE, ws @ map tok_word ts, []) \<and>
   fst (arun al wl (render ts) (STATE_FINDWORDSTART, ws, [])) \<in> {STATE_FINDWORDSTART, STATE_COLLECT}"
proof (induction ts arbitrary: ws rule: render.induct)
  case 1
  then show ?case by (simp add: message_def schar_def)
next
  case (2 t)
  then show ?case using arun_tok [of wl t al ws] by (auto simp: message_def simp del: arun_simps)
next
  case (3 t u us)
  from 3 have t: "arun al wl (tok_text t @ [CHR '' '']) (STATE_FINDWORDSTART, ws, []) =
           (STATE_FINDWORDSTART, ws @ [tok_word t], [])"
    by (intro arun_tok) auto
  have split: "message (t # u # us) = (tok_text t @ [CHR '' '']) @ message (u # us)"
    "render (t # u # us) = (tok_text t @ [CHR '' '']) @ render (u # us)"
    by (simp_all add: message_def)
  from 3 show ?case
    unfolding split arun_simps(3) [of _ _ "tok_text t @ [CHR '' '']"] t
    using "3.IH" [of "ws @ [tok_word t]"] by auto
qed

section \<open>Feeding a connection\<close>

text \<open>The context after a run of bytes, and that none of them completed a line or was an error.\<close>

definition feed :: "pconf_ctx \<Rightarrow> string \<Rightarrow> pconf_ctx" where
  "feed ctx s = foldl (\<lambda>ctx c. snd (pconf_char ctx c)) ctx s"

fun quiet :: "pconf_ctx \<Rightarrow> string \<Rightarrow> bool" where
  "quiet ctx [] = True"
| "quiet ctx (c # cs) = (fst (pconf_char ctx c) = 0 \<and> quiet (snd (pconf_char ctx c)) cs)"

lemma feed_simps [simp]:
  "feed ctx [] = ctx" "feed ctx (c # s) = feed (snd (pconf_char ctx c)) s"
  "feed ctx (s @ t) = feed (feed ctx s) t"
  by (simp_all add: feed_def)

lemma feed_inv: "pconf_inv ctx \<Longrightarrow> pconf_inv (feed ctx s)"
  unfolding feed_def by (rule pconf.run_inv)

text \<open>A context that can take characters: initialised, not finished.\<close>

definition pconf_live :: "nat \<Rightarrow> nat \<Rightarrow> pconf_ctx \<Rightarrow> bool" where
  "pconf_live al wl ctx \<longleftrightarrow> pconf_inv ctx \<and> magic ctx = PCONF_CTX_t_MAGIC \<and>
     arg_limit ctx = al \<and> wordlen_limit ctx = wl"

text \<open>Where the abstract machine is when the next character comes: \<open>pconf_char\<close> starts a new line
  after a completed one.\<close>

definition pconf_from :: "pconf_ctx \<Rightarrow> amach" where
  "pconf_from ctx = (if line_over ctx then (STATE_FINDWORDSTART, [], wordbuf ctx) else pconf_abs ctx)"

lemma pconf_char_abs:
  assumes "pconf_live al wl ctx"
  shows "pconf_abs (snd (pconf_char ctx c)) = astep al wl (schar c) (pconf_from ctx)"
    and "pconf_live al wl (snd (pconf_char ctx c))"
    and "fst (pconf_char ctx c) =
           (let st = fst (astep al wl (schar c) (pconf_from ctx))
            in if st = STATE_ENDOFLINE then 1 else if st = STATE_PARSEERR then -1 else 0)"
proof -
  let ?c = "(if line_over ctx then ctx\<lparr>numargs := 0, pc_state := STATE_FINDWORDSTART\<rparr> else ctx)\<lparr>pc_ch := schar c\<rparr>"
  have inv: "pconf_inv ?c"
    using assms pconf_inv_numargs_0 by (auto simp: pconf_live_def)
  have abs: "pconf_abs ?c = pconf_from ctx" "arg_limit ?c = al" "wordlen_limit ?c = wl"
    "pc_ch ?c = schar c" "magic ?c = PCONF_CTX_t_MAGIC"
    using assms by (auto simp: pconf_from_def pconf_abs_def pconf_live_def)
  have ch: "pconf_char ctx c = (let d = parse_char ?c in
      (if pc_state d = STATE_ENDOFLINE then 1 else if pc_state d = STATE_PARSEERR then -1 else 0, d))"
    using assms by (simp add: pconf_char_def check_magic_def pconf_live_def Let_def)
  have ref: "pconf_abs (parse_char ?c) = astep al wl (schar c) (pconf_from ctx)"
    using parse_char_refines [OF inv] abs by simp
  then have st: "pc_state (parse_char ?c) = fst (astep al wl (schar c) (pconf_from ctx))"
    by (metis fst_conv pconf_abs_def)
  show "pconf_abs (snd (pconf_char ctx c)) = astep al wl (schar c) (pconf_from ctx)"
    using ref by (simp add: ch Let_def)
  show "pconf_live al wl (snd (pconf_char ctx c))"
    using parse_char_inv [OF inv] abs by (simp add: ch Let_def pconf_live_def)
  show "fst (pconf_char ctx c) =
      (let st = fst (astep al wl (schar c) (pconf_from ctx))
       in if st = STATE_ENDOFLINE then 1 else if st = STATE_PARSEERR then -1 else 0)"
    using st by (simp add: ch Let_def)
qed

abbreviation st_over :: "pstate \<Rightarrow> bool" where
  "st_over st \<equiv> st = STATE_ENDOFLINE \<or> st = STATE_PARSEERR"

lemma arun_over: "st_over (fst m) \<Longrightarrow> arun al wl s m = m"
  by (induction s) (cases m; auto)+

lemma pconf_from_abs: "\<not> st_over (fst (pconf_abs ctx)) \<Longrightarrow> pconf_from ctx = pconf_abs ctx"
  by (simp add: pconf_from_def pconf_abs_def)

text \<open>Fed with a run that does not end a line, the parser stays quiet and follows the abstract
  machine.\<close>

lemma feed_quiet:
  assumes "pconf_live al wl ctx" "\<not> st_over (fst (arun al wl s (pconf_from ctx)))"
  shows "quiet ctx s \<and> pconf_live al wl (feed ctx s) \<and> pconf_from (feed ctx s) = arun al wl s (pconf_from ctx)"
  using assms
proof (induction s arbitrary: ctx)
  case (Cons c s)
  let ?d = "snd (pconf_char ctx c)"
  note abs = pconf_char_abs [OF Cons.prems(1), of c]
  have no: "\<not> st_over (fst (pconf_abs ?d))"
    using Cons.prems(2) arun_over [of "pconf_abs ?d" al wl s] by (auto simp: abs(1))
  then have d: "pconf_from ?d = astep al wl (schar c) (pconf_from ctx)"
    using pconf_from_abs abs(1) by metis
  have "fst (pconf_char ctx c) = 0"
    using no abs by (auto simp: Let_def)
  with Cons.IH [of ?d] abs(2) d Cons.prems(2) show ?case by simp
qed simp

text \<open>Ready for a new line.\<close>

definition pconf_ready :: "nat \<Rightarrow> nat \<Rightarrow> pconf_ctx \<Rightarrow> bool" where
  "pconf_ready al wl ctx \<longleftrightarrow> pconf_live al wl ctx \<and> pconf_from ctx = (STATE_FINDWORDSTART, [], [])"

abbreviation pconf_words :: "pconf_ctx \<Rightarrow> string list" where
  "pconf_words ctx \<equiv> take (numargs ctx) (arglist ctx)"

lemma pconf_init_ready:
  "pconf_ready PCONF_DEFAULT_ARG_LIMIT PCONF_DEFAULT_WORDLEN_LIMIT (pconf_init old)"
  by (simp add: pconf_ready_def pconf_live_def pconf_init_inv pconf_from_def)
    (simp add: pconf_abs_def pconf_init_def)

lemma pconf_live_numargs: "pconf_live al wl ctx \<Longrightarrow> length (pconf_words ctx) = numargs ctx"
  by (auto simp: pconf_live_def pconf_inv_def)

text \<open>A whole message: quiet until the newline, which completes the line with exactly the words.\<close>

lemma feed_message:
  assumes "pconf_ready al wl ctx" "msg_ok al wl ts"
  shows "quiet ctx (render ts)" "fst (pconf_char (feed ctx (render ts)) (CHR 0x0A)) = 1"
    and "pconf_ready al wl (feed ctx (message ts))"
    and "pconf_words (feed ctx (message ts)) = map tok_word ts"
    and "numargs (feed ctx (message ts)) = length ts"
proof -
  from assms have live: "pconf_live al wl ctx" and from0: "pconf_from ctx = (STATE_FINDWORDSTART, [], [])"
    by (auto simp: pconf_ready_def)
  have run: "arun al wl (message ts) (pconf_from ctx) = (STATE_ENDOFLINE, map tok_word ts, [])"
    "\<not> st_over (fst (arun al wl (render ts) (pconf_from ctx)))"
    using arun_render [of wl ts al "[]"] assms(2) by (auto simp: msg_ok_def from0)
  let ?d = "feed ctx (render ts)"
  note q = feed_quiet [OF live run(2)]
  then have "pconf_live al wl ?d" by simp
  note step = pconf_char_abs [OF this, of "CHR 0x0A"]
  have last: "astep al wl (schar (CHR 0x0A)) (pconf_from ?d) = (STATE_ENDOFLINE, map tok_word ts, [])"
    using run(1) q by (simp add: message_def)
  show "quiet ctx (render ts)" using q by simp
  show "fst (pconf_char ?d (CHR 0x0A)) = 1" using step(3) last by simp
  have abs: "pconf_abs (feed ctx (message ts)) = (STATE_ENDOFLINE, map tok_word ts, [])"
    using step(1) last by (simp add: message_def)
  then show "pconf_ready al wl (feed ctx (message ts))"
    using step(2) by (simp add: pconf_ready_def pconf_from_def pconf_abs_def message_def)
  from abs show words: "pconf_words (feed ctx (message ts)) = map tok_word ts"
    by (simp add: pconf_abs_def)
  have "pconf_live al wl (feed ctx (message ts))"
    using step(2) by (simp add: message_def)
  from pconf_live_numargs [OF this] words show "numargs (feed ctx (message ts)) = length ts"
    by simp
qed

text \<open>A stream with no parse error in it, such as a sequence of messages.\<close>

fun clean :: "pconf_ctx \<Rightarrow> string \<Rightarrow> bool" where
  "clean ctx [] = True"
| "clean ctx (c # cs) = (fst (pconf_char ctx c) \<in> {0, 1} \<and> clean (snd (pconf_char ctx c)) cs)"

lemma clean_append [simp]: "clean ctx (xs @ ys) \<longleftrightarrow> clean ctx xs \<and> clean (feed ctx xs) ys"
  by (induction xs arbitrary: ctx) auto

lemma quiet_clean: "quiet ctx xs \<Longrightarrow> clean ctx xs"
  by (induction xs arbitrary: ctx) auto

lemma feed_messages:
  assumes "pconf_ready al wl ctx" "list_all (msg_ok al wl) tss"
  shows "pconf_ready al wl (feed ctx (concat (map message tss)))"
    and "clean ctx (concat (map message tss))"
  using assms
proof (induction tss arbitrary: ctx)
  case (Cons ts tss)
  {
    case 1
    with Cons.IH(1) [of "feed ctx (message ts)"] feed_message(3) [of al wl ctx ts] show ?case
      by simp
  next
    case 2
    then have "clean ctx (message ts)"
      using feed_message(1,2) [of al wl ctx ts] by (simp add: message_def quiet_clean)
    with 2 Cons.IH(2) [of "feed ctx (message ts)"] feed_message(3) [of al wl ctx ts] show ?case
      by simp
  }
qed auto

section \<open>Line readers\<close>

text \<open>upsd's \<open>client_readline\<close> and \<open>sstate_readline\<close> and the driver's \<open>sock_read\<close> are the same
  loop: give each byte to \<open>pconf_char\<close>, handle the line when one is complete, stop at a parse
  error. The contract of the loop, and what it gives: messages sent one after another are handled
  one by one, with their words, however the bytes were split into reads.\<close>

locale line_reader =
  fixes getctx :: "'s \<Rightarrow> pconf_ctx" and setctx :: "pconf_ctx \<Rightarrow> 's \<Rightarrow> 's"
    and handle :: "'s \<Rightarrow> 's" and loop :: "'s \<Rightarrow> string \<Rightarrow> 's" and ok :: "'s \<Rightarrow> bool"
  assumes loop_Nil: "loop s [] = s"
    and loop_line: "ok s \<Longrightarrow> pconf_char (getctx s) c = (1, ctx) \<Longrightarrow>
          loop s (c # cs) = loop (handle (setctx ctx s)) cs"
    and loop_more: "ok s \<Longrightarrow> pconf_char (getctx s) c = (0, ctx) \<Longrightarrow>
          loop s (c # cs) = loop (setctx ctx s) cs"
    and loop_error: "ok s \<Longrightarrow> pconf_char (getctx s) c = (-1, ctx) \<Longrightarrow>
          loop s (c # cs) = setctx ctx s"
    and get_set: "ok s \<Longrightarrow> getctx (setctx ctx s) = ctx"
    and set_set: "setctx ctx (setctx ctx' s) = setctx ctx s"
    and ok_set: "ok s \<Longrightarrow> ok (setctx ctx s)"
begin

lemma loop_quiet:
  "ok s \<Longrightarrow> quiet (getctx s) xs \<Longrightarrow>
   loop s (xs @ ys) = loop (if xs = [] then s else setctx (feed (getctx s) xs) s) ys"
proof (induction xs arbitrary: s)
  case (Cons c xs)
  obtain ctx where ctx: "pconf_char (getctx s) c = (0, ctx)"
    using Cons.prems(2) by (cases "pconf_char (getctx s) c") auto
  with loop_more [OF Cons.prems(1) ctx, of "xs @ ys"] Cons.prems
    Cons.IH [of "setctx ctx s"] get_set [OF Cons.prems(1)] ok_set [OF Cons.prems(1)]
  show ?case by (auto simp: set_set)
qed simp

text \<open>The line \<open>ts\<close> is handled with the context that holds its words.\<close>

lemma loop_message:
  assumes "ok s" "pconf_ready al wl (getctx s)" "msg_ok al wl ts"
  shows "loop s (message ts @ rest) = loop (handle (setctx (feed (getctx s) (message ts)) s)) rest"
proof -
  note f = feed_message [OF assms(2,3)]
  let ?d = "feed (getctx s) (render ts)"
  obtain ctx where ctx: "pconf_char ?d (CHR 0x0A) = (1, ctx)"
    using f(2) by (cases "pconf_char ?d (CHR 0x0A)") auto
  have "loop s (message ts @ rest) = loop s (render ts @ CHR 0x0A # rest)"
    by (simp add: message_def)
  also have "\<dots> = loop (if render ts = [] then s else setctx ?d s) (CHR 0x0A # rest)"
    by (rule loop_quiet [OF assms(1) f(1)])
  also have "\<dots> = loop (handle (setctx ctx s)) rest"
    using ctx assms(1) loop_line [of "setctx ?d s"] loop_line [of s] get_set ok_set
    by (auto simp: set_set)
  finally show ?thesis using ctx by (simp add: message_def)
qed

end

section \<open>Reading a file line by line\<close>

lemma file_loop_rest: "length (snd (snd (file_loop ctx s))) \<le> length s"
  by (induction ctx s rule: file_loop.induct) (auto simp: Let_def)

lemma file_loop_stop_rest:
  "fst (file_loop ctx s) \<Longrightarrow> length (snd (snd (file_loop ctx s))) < length s"
proof (induction ctx s rule: file_loop.induct)
  case (2 ctx c cs)
  then show ?case by (auto simp: Let_def less_Suc_eq split: if_splits)
qed simp

lemma file_loop_numargs_0: "numargs (fst (snd (file_loop ctx []))) = numargs ctx"
  by simp

lemma file_loop_f: "pc_f (fst (snd (file_loop ctx s))) = pc_f ctx"
  by (induction ctx s rule: file_loop.induct) (auto simp: Let_def)

abbreviation unread :: "pconf_ctx \<Rightarrow> string" where
  "unread ctx \<equiv> (case pc_f ctx of None \<Rightarrow> [] | Some s \<Rightarrow> s)"

text \<open>A call that returns a line has read at least one character, so the loops over a
  configuration file end.\<close>

lemma pconf_file_next_reads:
  assumes "pconf_file_next ctx = (r, ctx')" "r \<noteq> 0"
  shows "length (unread ctx') < length (unread ctx)"
proof -
  let ?c = "ctx\<lparr>linenum := linenum ctx + 1, numargs := 0, pc_state := STATE_FINDWORDSTART\<rparr>"
  obtain stop d rest where fl: "file_loop ?c (unread ctx) = (stop, d, rest)"
    by (cases "file_loop ?c (unread ctx)") auto
  have f: "pc_f d = pc_f ctx" using file_loop_f [of ?c "unread ctx"] fl by simp
  have d: "unread ctx = [] \<Longrightarrow> \<not> stop \<and> numargs d = 0"
    using fl by (cases "unread ctx") auto
  have rest: "\<not> stop \<Longrightarrow> rest = []"
  proof -
    have "\<not> fst (file_loop c s) \<Longrightarrow> snd (snd (file_loop c s)) = []" for c s
      by (induction c s rule: file_loop.induct) (auto simp: Let_def split: if_splits)
    then show "\<not> stop \<Longrightarrow> rest = []" using fl by (metis fst_conv snd_conv)
  qed
  have stop: "stop \<Longrightarrow> length rest < length (unread ctx)"
    using file_loop_stop_rest [of ?c "unread ctx"] fl by simp
  show ?thesis
  proof (cases "unread ctx = []")
    case True
    with assms fl d show ?thesis
      by (auto simp: pconf_file_next_def check_magic_def Let_def split: if_splits)
  next
    case False
    then obtain s where s: "pc_f ctx = Some s" "s \<noteq> []" by (auto split: option.splits)
    with assms fl f stop rest show ?thesis
      by (cases stop) (auto simp: pconf_file_next_def check_magic_def Let_def split: if_splits)
  qed
qed

lemma pconf_parse_error_f [simp]: "pc_f (snd (pconf_parse_error ctx)) = pc_f ctx"
  by (simp add: pconf_parse_error_def check_magic_def)

lemma read_lines_decreases:
  "(r, ctx1) = pconf_file_next ctx \<Longrightarrow> r \<noteq> 0 \<Longrightarrow> (e, ctx2) = pconf_parse_error ctx1 \<Longrightarrow>
   length (unread ctx2) < length (unread ctx)"
  by (metis pconf_file_next_reads pconf_parse_error_f snd_conv)

text \<open>The loop every program runs over its configuration file: a line with a parse error is
  skipped, any other is given to the handler.\<close>

function read_lines :: "(pconf_ctx \<Rightarrow> 's \<Rightarrow> 's) \<Rightarrow> pconf_ctx \<Rightarrow> 's \<Rightarrow> pconf_ctx \<times> 's" where
  "read_lines h ctx s =
     (case pconf_file_next ctx of
        (r, ctx1) \<Rightarrow>
          if r = 0 then (ctx1, s)
          else (case pconf_parse_error ctx1 of
                  (e, ctx2) \<Rightarrow> if e \<noteq> 0 then read_lines h ctx2 s else read_lines h ctx2 (h ctx2 s)))"
  by pat_completeness auto
termination
  by (relation "measure (\<lambda>(h, ctx, s). length (unread ctx))",
      simp_all only: wf_measure in_measure case_prod_conv) (erule (2) read_lines_decreases)+

declare read_lines.simps [simp del]

text \<open>What every handled line keeps holds at the end of the file.\<close>

lemma read_lines_keeps:
  "(\<And>ctx s. P s \<Longrightarrow> P (h ctx s)) \<Longrightarrow> P s \<Longrightarrow> P (snd (read_lines h ctx s))"
proof (induction h ctx s rule: read_lines.induct)
  case (1 h ctx s)
  show ?case
    by (subst read_lines.simps) (auto intro!: "1.IH" "1.prems" split: prod.splits)
qed

lemma file_loop_run:
  assumes "pconf_live al wl ctx" "\<not> st_over (fst (arun al wl s (pconf_abs ctx)))"
    "list_all (\<lambda>c. cc c < 128) s"
  shows "\<exists>d. file_loop ctx (s @ t) = file_loop d t \<and> pconf_live al wl d \<and> pc_f d = pc_f ctx \<and>
             pconf_abs d = arun al wl s (pconf_abs ctx) \<and> pc_error d = pc_error ctx"
  using assms
proof (induction s arbitrary: ctx)
  case (Cons c s)
  let ?c = "ctx\<lparr>pc_ch := cc c\<rparr>"
  let ?d = "parse_char ?c"
  have inv: "pconf_inv ?c" using Cons.prems by (simp add: pconf_live_def)
  have abs: "pconf_abs ?d = astep al wl (schar c) (pconf_abs ctx)"
    using parse_char_refines [OF inv] Cons.prems
    by (simp add: pconf_live_def schar_def) (simp add: pconf_abs_def)
  have no: "\<not> st_over (fst (pconf_abs ?d))"
    using Cons.prems(2) arun_over [of "pconf_abs ?d" al wl s] by (auto simp: abs)
  have live: "pconf_live al wl ?d"
    using parse_char_inv [OF inv] Cons.prems(1) by (simp add: pconf_live_def)
  have err: "pc_error ?d = pc_error ctx"
    using no by (auto simp: pconf_abs_def pconf_defs Let_def pconf_seterr_def split: pstate.splits)
  have "file_loop ctx ((c # s) @ t) = file_loop ?d (s @ t)"
    using no by (auto simp: pconf_abs_def Let_def)
  with Cons.IH [OF live] Cons.prems abs err show ?case by auto
qed auto

lemma line_loop_run:
  assumes "pconf_live al wl ctx" "\<not> st_over (fst (arun al wl s (pconf_abs ctx)))"
  shows "\<exists>d. line_loop ctx (s @ t) = line_loop d t \<and> pconf_live al wl d \<and>
             pconf_abs d = arun al wl s (pconf_abs ctx)"
  using assms
proof (induction s arbitrary: ctx)
  case (Cons c s)
  let ?c = "ctx\<lparr>pc_ch := schar c\<rparr>"
  let ?d = "parse_char ?c"
  have inv: "pconf_inv ?c" using Cons.prems by (simp add: pconf_live_def)
  have abs: "pconf_abs ?d = astep al wl (schar c) (pconf_abs ctx)"
    using parse_char_refines [OF inv] Cons.prems(1) by (simp add: pconf_live_def pconf_abs_def)
  have no: "\<not> st_over (fst (pconf_abs ?d))"
    using Cons.prems(2) arun_over [of "pconf_abs ?d" al wl s] by (auto simp: abs)
  have live: "pconf_live al wl ?d"
    using parse_char_inv [OF inv] Cons.prems(1) by (simp add: pconf_live_def)
  have "line_loop ctx ((c # s) @ t) = line_loop ?d (s @ t)"
    using no by (auto simp: pconf_abs_def Let_def)
  with Cons.IH [OF live] Cons.prems(2) abs show ?case by auto
qed auto

lemma plain_7bit: "list_all plain_char w \<Longrightarrow> list_all (\<lambda>c. cc c < 128) w"
  by (induction w) (auto simp: plain_char_def)

lemma render_7bit: "list_all (tok_ok wl) ts \<Longrightarrow> list_all (\<lambda>c. cc c < 128) (render ts)"
proof (induction ts rule: render.induct)
  have esc: "list_all word_char w \<Longrightarrow> list_all (\<lambda>c. cc c < 128) (escape w)" for w
    by (induction w) (auto simp: esc1_def)
  have tok: "tok_ok wl t \<Longrightarrow> list_all (\<lambda>c. cc c < 128) (tok_text t)" for t
    using esc plain_7bit by (cases t) auto
  { case 2 then show ?case using tok by simp }
  { case 3 then show ?case using tok by simp }
qed simp

text \<open>A file line that is a message is read back as its words, and the file position is after it.\<close>

lemma pconf_file_next_message:
  assumes "pconf_live al wl ctx" "wordbuf ctx = []" "msg_ok al wl ts" "pc_f ctx = Some (message ts @ rest)"
  shows "\<exists>d. pconf_file_next ctx = (1, d) \<and> pconf_live al wl d \<and> wordbuf d = [] \<and>
             pc_f d = Some rest \<and> pconf_words d = map tok_word ts \<and> numargs d = length ts \<and>
             pc_error d = pc_error ctx"
proof -
  let ?c = "ctx\<lparr>linenum := linenum ctx + 1, numargs := 0, pc_state := STATE_FINDWORDSTART\<rparr>"
  have live: "pconf_live al wl ?c"
    using assms(1) pconf_inv_numargs_0 [of "ctx\<lparr>linenum := linenum ctx + 1\<rparr>"] by (simp add: pconf_live_def)
  have abs: "pconf_abs ?c = (STATE_FINDWORDSTART, [], [])"
    using assms(2) by (simp add: pconf_abs_def)
  have run: "arun al wl (message ts) (pconf_abs ?c) = (STATE_ENDOFLINE, map tok_word ts, [])"
    "\<not> st_over (fst (arun al wl (render ts) (pconf_abs ?c)))"
    using arun_render [of wl ts al "[]"] assms(3) by (auto simp: abs msg_ok_def)
  obtain d where d: "file_loop ?c (render ts @ CHR 0x0A # rest) = file_loop d (CHR 0x0A # rest)"
    "pconf_live al wl d" "pc_f d = pc_f ctx" "pconf_abs d = arun al wl (render ts) (pconf_abs ?c)"
    "pc_error d = pc_error ctx"
    using file_loop_run [OF live run(2) render_7bit, of wl "CHR 0x0A # rest"] assms(3)
    by (auto simp: msg_ok_def)
  let ?e = "parse_char (d\<lparr>pc_ch := 10\<rparr>)"
  have inv: "pconf_inv (d\<lparr>pc_ch := 10\<rparr>)" using d(2) by (simp add: pconf_live_def)
  have "pconf_abs ?e = astep al wl 10 (pconf_abs d)"
    using parse_char_refines [OF inv] d(2) by (simp add: pconf_live_def) (simp add: pconf_abs_def)
  also have "\<dots> = (STATE_ENDOFLINE, map tok_word ts, [])"
    using run(1) d(4) by (simp add: message_def schar_def)
  finally have e: "pconf_abs ?e = (STATE_ENDOFLINE, map tok_word ts, [])" .
  have live_e: "pconf_live al wl ?e"
    using parse_char_inv [OF inv] d(2) by (simp add: pconf_live_def)
  have err: "pc_error ?e = pc_error ctx"
    using e d(5) by (auto simp: pconf_abs_def pconf_defs Let_def pconf_seterr_def split: pstate.splits if_splits)
  have "file_loop ?c (message ts @ rest) = (True, ?e, rest)"
    using d(1) e by (simp add: message_def pconf_abs_def Let_def)
  then have "pconf_file_next ctx = (1, ?e\<lparr>pc_f := Some rest\<rparr>)"
    using assms(1,4) d(3) by (simp add: pconf_file_next_def check_magic_def Let_def pconf_live_def)
  moreover have "pconf_live al wl (?e\<lparr>pc_f := Some rest\<rparr>)"
    using live_e by (simp add: pconf_live_def)
  ultimately show ?thesis
    using e pconf_live_numargs [OF live_e] err by (auto simp: pconf_abs_def)
qed

section \<open>Properties of the parser\<close>

lemma feed_live: "pconf_live al wl ctx \<Longrightarrow> pconf_live al wl (feed ctx s)"
  by (induction s arbitrary: ctx) (auto intro: pconf_char_abs(2))

lemma pconf_init_live:
  "pconf_live PCONF_DEFAULT_ARG_LIMIT PCONF_DEFAULT_WORDLEN_LIMIT (pconf_init old)"
  using pconf_init_ready by (auto simp: pconf_ready_def)

lemma pconf_limits [simp]: "PCONF_DEFAULT_ARG_LIMIT = 32" "PCONF_DEFAULT_WORDLEN_LIMIT = 512"
  by (simp_all add: PCONF_DEFAULT_ARG_LIMIT_def PCONF_DEFAULT_WORDLEN_LIMIT_def)

text \<open>A connection's bytes on the abstract machine: a character after a completed line starts a
  new one.\<close>

definition achar :: "nat \<Rightarrow> nat \<Rightarrow> amach \<Rightarrow> char \<Rightarrow> amach" where
  "achar al wl m c =
     astep al wl (schar c) (if st_over (fst m) then (STATE_FINDWORDSTART, [], snd (snd m)) else m)"

lemma feed_refines:
  "pconf_live al wl ctx \<Longrightarrow> pconf_abs (feed ctx s) = foldl (achar al wl) (pconf_abs ctx) s"
proof (induction s arbitrary: ctx)
  case (Cons c s)
  note abs = pconf_char_abs [OF Cons.prems, of c]
  have "pconf_from ctx = (let m = pconf_abs ctx in
      if st_over (fst m) then (STATE_FINDWORDSTART, [], snd (snd m)) else m)"
    by (simp add: pconf_from_def pconf_abs_def)
  with Cons.IH [OF abs(2)] abs(1) show ?case by (simp add: achar_def Let_def)
qed simp

text \<open>C6: after any sequence of bytes on a connection whose context was set up by
  \<open>pconf_init\<close>, the parser has stayed inside its buffers (the write position leaves room for the
  NUL, every stored word is shorter than its allocation), there are at most 32 words, none longer
  than 512 characters, and none contains a character outside 0x20 to 0x7f.\<close>

theorem pconf_stream_safe:
  "let ctx = feed (pconf_init old) s
   in wordptr ctx = length (wordbuf ctx) \<and> wordptr ctx < wordbufsize ctx \<and>
      numargs ctx \<le> maxargs ctx \<and> maxargs ctx \<le> 32 \<and>
      list_all2 (\<lambda>w n. length w < n) (arglist ctx) (argsize ctx) \<and>
      list_all (\<lambda>w. length w \<le> 512 \<and> list_all word_char w) (wordbuf ctx # arglist ctx)"
  using feed_live [OF pconf_init_live, of old s]
  by (auto simp: pconf_live_def pconf_inv_def Let_def list_all2_conv_all_nth list_all_iff)

text \<open>C21: the parser with its reallocated buffers, left-over words and write pointer computes
  exactly what the abstract machine over (state, words, current word) computes, on every byte
  sequence.\<close>

theorem pconf_refines_abstract:
  "pconf_abs (feed (pconf_init old) s) = foldl (achar 32 512) (STATE_FINDWORDSTART, [], []) s"
  using feed_refines [OF pconf_init_live, of old s] by (simp add: pconf_abs_def pconf_init_def)

text \<open>C23: a line of words, each plain or quoted and escaped, is parsed back to exactly those
  words: no byte before the newline completes a line or raises an error, and the newline completes
  it.\<close>

theorem message_roundtrip:
  assumes "msg_ok 32 512 ts"
  shows "quiet (pconf_init old) (render ts) \<and>
         fst (pconf_char (feed (pconf_init old) (render ts)) (CHR 0x0A)) = 1 \<and>
         pconf_words (feed (pconf_init old) (message ts)) = map tok_word ts"
  using feed_message [OF pconf_init_ready, of ts old] assms by simp

definition zero_ctx :: pconf_ctx where
  "zero_ctx = \<lparr>pc_f = None, pc_state = STATE_FINDWORDSTART, pc_ch = 0, arglist = [], argsize = [],
     numargs = 0, maxargs = 0, wordbuf = [], wordptr = 0, wordbufsize = 0, linenum = 0,
     pc_error = 0, errmsg = [], magic = 0, arg_limit = 0, wordlen_limit = 0\<rparr>"

theorem message_roundtrip_witness:
  "msg_ok 32 512 [Plain ''SET'', Plain ''ups.id'', Quoted (''rack #'' @ [CHR 0x22] @ '' 4'')] \<and>
   pconf_words (feed (pconf_init zero_ctx)
     (message [Plain ''SET'', Plain ''ups.id'', Quoted (''rack #'' @ [CHR 0x22] @ '' 4'')])) =
   [''SET'', ''ups.id'', ''rack #'' @ [CHR 0x22] @ '' 4'']"
proof -
  have ok: "msg_ok 32 512 [Plain ''SET'', Plain ''ups.id'', Quoted (''rack #'' @ [CHR 0x22] @ '' 4'')]"
    by (simp add: msg_ok_def plain_char_def pconf_escape_def)
  show ?thesis using ok message_roundtrip [OF ok, of zero_ctx] by simp
qed

text \<open>C24: what \<open>pconf_encode\<close> writes between quotes is decoded by the parser to a prefix of the
  source, and to the whole source when the encoding fits the destination. The destination has at least two
  bytes, and the source is printable ASCII of at most 512 characters, the longest word of the parser.\<close>

theorem pconf_encode_decodes:
  assumes "2 \<le> n" "n < 2 ^ 64" "list_all word_char src" "length src \<le> 512"
  shows "\<exists>k. pconf_words (feed (pconf_init old)
            (CHR 0x22 # pconf_encode src n @ [CHR 0x22, CHR 0x0A])) = [take k src] \<and>
          (length (escape src) < n \<longrightarrow> take k src = src)"
proof -
  have nul: "no_nul src" using assms(3) by (auto simp: list_all_iff)
  obtain k where k: "pconf_encode src n = escape (take k src)"
    "length (escape src) < n \<Longrightarrow> take k src = src"
  proof (cases "length (escape src) < n")
    case True
    then show ?thesis
      using that [of "length src"] pconf_encode_eq [OF assms(1,2) nul] enc_fit_full [of src "n - 1"]
      by simp
  next
    case False
    then show ?thesis using that pconf_encode_eq [OF assms(1,2) nul] enc_fit_prefix by metis
  qed
  have "msg_ok 32 512 [Quoted (take k src)]"
    using assms(3,4) by (auto simp: msg_ok_def list_all_iff dest: in_set_takeD)
  from feed_message(4) [OF pconf_init_ready, unfolded pconf_limits, OF this, of old] k show ?thesis
    by (auto simp: message_def)
qed

theorem pconf_encode_decodes_witness:
  "\<exists>k. pconf_words (feed (pconf_init zero_ctx)
      (CHR 0x22 # pconf_encode ''a#b'' 4 @ [CHR 0x22, CHR 0x0A])) = [take k ''a#b'']"
  using pconf_encode_decodes [of 4 "''a#b''" zero_ctx] by auto

text \<open>for a destination of at least two bytes \<open>pconf_encode\<close> fills exactly the buffer: an
  encoded prefix, then NULs up to the end, so the result is always terminated and an escape pair is
  never split.\<close>

theorem pconf_encode_terminates_buffer:
  assumes "2 \<le> n" "n < 2 ^ 64"
  shows "length (pconf_encode_buf src dest n) = n \<and> last (pconf_encode_buf src dest n) = CHR 0x00 \<and>
         (\<exists>k. pconf_encode_buf src dest n =
            escape (take k src) @ replicate (n - length (escape (take k src))) (CHR 0x00))"
proof -
  obtain k where k: "enc_fit (n - 1) src = escape (take k src)" using enc_fit_prefix by blast
  moreover have "length (escape (take k src)) < n"
    using enc_fit_length [of "n - 1" src] k assms(1) by simp
  ultimately show ?thesis
    using assms by (auto simp: pconf_encode_buf_eq Let_def last_append)
qed

theorem pconf_encode_terminates_buffer_witness:
  "length (pconf_encode_buf ''ab#'' [] 4) = 4 \<and> pconf_encode_buf ''ab#'' [] 4 = ''ab'' @ [CHR 0x00, CHR 0x00]"
proof
  show "length (pconf_encode_buf ''ab#'' [] 4) = 4"
    using pconf_encode_terminates_buffer [of 4 "''ab#''" "[]"] by simp
  show "pconf_encode_buf ''ab#'' [] 4 = ''ab'' @ [CHR 0x00, CHR 0x00]"
    by code_simp
qed

text \<open>with a destination of one byte the unsigned subtraction \<open>maxlen - 1\<close> wraps around, and a
  source that starts with a character to escape leaves a lone backslash and no terminating NUL.\<close>

theorem pconf_encode_one_byte:
  assumes "pconf_escape c"
  shows "pconf_encode_buf (c # cs) dest 1 = [CHR 0x5C]"
  using assms by (simp add: pconf_encode_buf_def Let_def)

theorem pconf_encode_one_byte_witness: "pconf_encode_buf ''#x'' [] 1 = [CHR 0x5C]"
  using pconf_encode_one_byte [of "CHR ''#''" "''x''" "[]"] by (simp add: pconf_escape_def)

lemma pconf_live_parse_error:
  "pconf_live al wl ctx \<Longrightarrow> pc_error ctx = 0 \<Longrightarrow> pconf_parse_error ctx = (0, ctx)"
  by (simp add: pconf_parse_error_def check_magic_def pconf_live_def)

lemma read_lines_messages:
  assumes "list_all (msg_ok al wl) tss" "pconf_live al wl ctx" "wordbuf ctx = []" "pc_error ctx = 0"
    "pc_f ctx = Some (concat (map message tss))"
  shows "snd (read_lines (\<lambda>ctx. g (pconf_words ctx)) ctx s) = foldl (\<lambda>s ts. g (map tok_word ts) s) s tss"
  using assms
proof (induction tss arbitrary: ctx s)
  case Nil
  then have "fst (pconf_file_next ctx) = 0"
    by (simp add: pconf_file_next_def check_magic_def pconf_live_def)
  then show ?case by (subst read_lines.simps) (auto split: prod.splits)
next
  case (Cons ts tss)
  from Cons.prems obtain d where d: "pconf_file_next ctx = (1, d)" "pconf_live al wl d" "wordbuf d = []"
    "pc_f d = Some (concat (map message tss))" "pconf_words d = map tok_word ts" "pc_error d = 0"
    using pconf_file_next_message [of al wl ctx ts "concat (map message tss)"] by auto
  have "read_lines (\<lambda>ctx. g (pconf_words ctx)) ctx s =
      read_lines (\<lambda>ctx. g (pconf_words ctx)) d (g (map tok_word ts) s)"
    using d by (subst read_lines.simps) (simp add: pconf_live_parse_error)
  with Cons.IH [OF _ d(2,3,6,4)] Cons.prems(1) show ?case by simp
qed

text \<open>reading a configuration file whose lines are messages gives the handler the words of
  every line, in order, and then ends.\<close>

theorem pconf_file_reads_all:
  assumes "list_all (msg_ok 32 512) tss"
  shows "snd (read_lines (\<lambda>ctx. g (pconf_words ctx))
              ((pconf_init old)\<lparr>pc_f := Some (concat (map message tss))\<rparr>) s) =
         foldl (\<lambda>s ts. g (map tok_word ts) s) s tss"
proof (rule read_lines_messages [where al = 32 and wl = 512])
  show "pconf_live 32 512 ((pconf_init old)\<lparr>pc_f := Some (concat (map message tss))\<rparr>)"
    using pconf_init_live [of old] by (simp add: pconf_live_def)
qed (use assms in \<open>simp_all add: pconf_init_def\<close>)

theorem pconf_file_reads_all_witness:
  "snd (read_lines (\<lambda>ctx. (\<lambda>w s. s @ [w]) (pconf_words ctx))
     ((pconf_init zero_ctx)\<lparr>pc_f := Some (concat (map message [[Plain ''MAXAGE'', Plain ''15''], []]))\<rparr>) []) =
   [[''MAXAGE'', ''15''], []]"
proof -
  have ok: "list_all (msg_ok 32 512) [[Plain ''MAXAGE'', Plain ''15''], []]"
    by (simp add: msg_ok_def plain_char_def pconf_escape_def)
  show ?thesis
    using pconf_file_reads_all [OF ok, where g = "\<lambda>w s. s @ [w]" and s = "[]" and old = zero_ctx] by simp
qed

text \<open>a file that ends in a single word without a newline loses that word, although
  \<open>pconf_line\<close> returns it: the check for left-over text in \<open>pconf_file_next\<close> looks at \<open>numargs\<close>,
  which counts completed words only.\<close>

theorem pconf_file_loses_last_word:
  assumes "plain_word w" "length w \<le> 512"
  shows "fst (pconf_file_next ((pconf_init old)\<lparr>pc_f := Some w\<rparr>)) = 0 \<and>
         pconf_words (snd (pconf_line (pconf_init old) w)) = [w]"
proof -
  let ?i = "(pconf_init old)\<lparr>linenum := 1, numargs := 0, pc_state := STATE_FINDWORDSTART\<rparr>"
  let ?j = "(pconf_init old)\<lparr>pc_f := Some w, linenum := 1, numargs := 0, pc_state := STATE_FINDWORDSTART\<rparr>"
  have bits: "list_all (\<lambda>c. cc c < 128) w" using assms(1) plain_7bit by blast
  have abs: "pconf_abs c = (STATE_FINDWORDSTART, [], []) \<Longrightarrow>
      arun 32 512 w (pconf_abs c) = (STATE_COLLECT, [], w)" for c
    using arun_plain [of w 512 32 "[]"] assms by simp
  have live: "pconf_live 32 512 ?i" "pconf_live 32 512 ?j"
    using pconf_init_live [of old] pconf_inv_numargs_0 by (simp_all add: pconf_live_def pconf_init_def pconf_inv_def)
  have i: "pconf_abs ?i = (STATE_FINDWORDSTART, [], [])"
    "pconf_abs ?j = (STATE_FINDWORDSTART, [], [])"
    by (simp_all add: pconf_abs_def pconf_init_def)
  obtain d where d: "file_loop ?j w = file_loop d []" "pconf_live 32 512 d"
    "pconf_abs d = (STATE_COLLECT, [], w)"
    using file_loop_run [OF live(2) _ bits, of "[]"] abs [OF i(2)] by auto
  have "numargs d = 0" using d(2,3) pconf_live_numargs [OF d(2)] by (auto simp: pconf_abs_def)
  with d(1) have lost: "fst (pconf_file_next ((pconf_init old)\<lparr>pc_f := Some w\<rparr>)) = 0"
    by (simp add: pconf_file_next_def check_magic_def Let_def) (simp add: pconf_init_def)
  obtain e where e: "line_loop ?i w = (False, e)" "pconf_live 32 512 e" "pconf_abs e = (STATE_COLLECT, [], w)"
    using line_loop_run [OF live(1), of w "[]"] abs [OF i(1)] by auto
  have inv: "pconf_inv e" "wordptr e \<noteq> 0" "arg_limit e = 32"
    using e(2,3) assms(1) by (auto simp: pconf_live_def pconf_inv_def pconf_abs_def)
  have "pconf_words (endofword e) = [w]"
    using endofword_args [OF inv(1)] e(3) inv(3) by (auto simp: pconf_abs_def a_endword_def)
  with e(1) inv(2) have "pconf_words (snd (pconf_line (pconf_init old) w)) = [w]"
    by (simp add: pconf_line_def check_magic_def Let_def) (simp add: pconf_init_def)
  with lost show ?thesis by simp
qed

theorem pconf_file_loses_last_word_witness:
  "fst (pconf_file_next ((pconf_init zero_ctx)\<lparr>pc_f := Some ''sdorder''\<rparr>)) = 0 \<and>
   pconf_words (snd (pconf_line (pconf_init zero_ctx) ''sdorder'')) = [''sdorder'']"
  by (rule pconf_file_loses_last_word) (simp_all add: plain_char_def pconf_escape_def)

end
