(* ===== verification/State.thy ===== *)
theory State
  imports Parseconf "HOL-Library.Multiset"
begin

text \<open>
  The variable store shared by the drivers and the server (\<open>common/state.c\<close>, \<open>include/state.h\<close>,
  \<open>include/extstate.h\<close>): a binary tree of variables ordered by \<open>strcasecmp\<close> on their names, each
  with its raw and its escaped value, flags, an auxiliary number and the lists of permitted values
  and ranges, and the sorted list of instant commands. The C loops walk with a pointer to a
  pointer; here each is a recursion on the tree or list that rebuilds the visited path.

  Shown here: every operation keeps the tree ordered and its nodes well formed, and seen as a map
  from the folded name to the node each operation is the expected map update
  (\<open>info_map\<close>, interpreted below); the command list stays sorted and behaves as a set.
\<close>

section \<open>Data\<close>

definition ST_MAX_VALUE_LEN :: nat where "ST_MAX_VALUE_LEN = 256"

definition ST_FLAG_RW :: "32 word" where "ST_FLAG_RW = 1"
definition ST_FLAG_STRING :: "32 word" where "ST_FLAG_STRING = 2"
definition ST_FLAG_IMMUTABLE :: "32 word" where "ST_FLAG_IMMUTABLE = 4"

unbundle bit_operations_syntax

text \<open>A flag is a bit.\<close>

lemma mask_zero: "i < 32 \<Longrightarrow> (w AND 2 ^ i = 0) = (\<not> bit w i)" for w :: "32 word"
proof
  assume i: "i < 32"
  show "\<not> bit w i" if "w AND 2 ^ i = 0"
    using that i by (auto simp: bit_eq_iff bit_simps)
  show "w AND 2 ^ i = 0" if "\<not> bit w i"
    using that by (auto intro!: bit_word_eqI simp: bit_simps)
qed

lemma flag_mask_bit: "(w AND 1 = 0) = (\<not> bit w 0)" "(w AND 2 = 0) = (\<not> bit w 1)" for w :: "32 word"
  using mask_zero [of 0 w] mask_zero [of 1 w] by simp_all

text \<open>The field \<open>val\<close> of the struct points to the node's own \<open>raw\<close> or \<open>safe\<close> buffer.\<close>

datatype valptr = VRaw | VSafe

record st_node =
  st_var :: string
  st_valp :: valptr
  st_raw :: string
  st_rawsize :: nat
  st_safe :: string
  st_safesize :: nat
  st_flags :: "32 word"
  st_aux :: int
  st_enum_list :: "string list"
  st_range_list :: "(int \<times> int) list"

type_synonym st_tree = "st_node tree"
type_synonym cmdlist = "string list"

definition st_val :: "st_node \<Rightarrow> string" where
  "st_val n = (case st_valp n of VRaw \<Rightarrow> st_raw n | VSafe \<Rightarrow> st_safe n)"

abbreviation st_key :: "st_node \<Rightarrow> string" where
  "st_key n \<equiv> lower (st_var n)"

section \<open>The tree of variables\<close>

definition val_escape :: "st_node \<Rightarrow> st_node" where
  "val_escape n =
     (let etmp = pconf_encode (st_raw n) ST_MAX_VALUE_LEN in
      if st_raw n = etmp then n\<lparr>st_valp := VRaw\<rparr>
      else
        let n1 = (if st_safesize n < length etmp + 1 then n\<lparr>st_safesize := length etmp + 1\<rparr> else n)
        in n1\<lparr>st_valp := VSafe, st_safe := snprintf (st_safesize n1) etmp\<rparr>)"

text \<open>What the freeing routines release, in their order.\<close>

fun st_tree_enum_free :: "string list \<Rightarrow> string list" where
  "st_tree_enum_free [] = []"
| "st_tree_enum_free (x # xs) = st_tree_enum_free xs @ [x]"

fun st_tree_range_free :: "(int \<times> int) list \<Rightarrow> (int \<times> int) list" where
  "st_tree_range_free [] = []"
| "st_tree_range_free (x # xs) = st_tree_range_free xs @ [x]"

fun st_tree_node_add :: "st_tree \<Rightarrow> st_tree \<Rightarrow> st_tree" where
  "st_tree_node_add t Leaf = t"
| "st_tree_node_add Leaf s = s"
| "st_tree_node_add (Node l n r) (Node sl sn sr) =
     (if strcasecmp (st_var n) (st_var sn) > 0
      then Node (st_tree_node_add l (Node sl sn sr)) n r
      else if strcasecmp (st_var n) (st_var sn) < 0
      then Node l n (st_tree_node_add r (Node sl sn sr))
      else Node l n r)"

fun state_delinfo :: "st_tree \<Rightarrow> string \<Rightarrow> st_tree \<times> int" where
  "state_delinfo Leaf v = (Leaf, 0)"
| "state_delinfo (Node l n r) v =
     (if strcasecmp (st_var n) v > 0
      then (let (l', rc) = state_delinfo l v in (Node l' n r, rc))
      else if strcasecmp (st_var n) v < 0
      then (let (r', rc) = state_delinfo r v in (Node l n r', rc))
      else (st_tree_node_add r l, 1))"

definition state_node_set :: "st_node \<Rightarrow> string \<Rightarrow> st_node \<times> int" where
  "state_node_set n x =
     (if strcasecmp (st_raw n) x = 0 then (n, 0)
      else if st_flags n AND ST_FLAG_IMMUTABLE \<noteq> 0 then (n, 0)
      else
        let n1 = (if st_rawsize n < length x + 1 then n\<lparr>st_rawsize := length x + 1\<rparr> else n);
            n2 = n1\<lparr>st_raw := snprintf (st_rawsize n1) x\<rparr>
        in (val_escape n2, 1))"

definition state_node_new :: "string \<Rightarrow> string \<Rightarrow> st_node" where
  "state_node_new v x =
     val_escape \<lparr>st_var = v, st_valp = VRaw, st_raw = x, st_rawsize = length x + 1, st_safe = [],
       st_safesize = 0, st_flags = 0, st_aux = 0, st_enum_list = [], st_range_list = []\<rparr>"

fun state_setinfo :: "st_tree \<Rightarrow> string \<Rightarrow> string \<Rightarrow> st_tree \<times> int" where
  "state_setinfo Leaf v x = (Node Leaf (state_node_new v x) Leaf, 1)"
| "state_setinfo (Node l n r) v x =
     (if strcasecmp (st_var n) v > 0
      then (let (l', rc) = state_setinfo l v x in (Node l' n r, rc))
      else if strcasecmp (st_var n) v < 0
      then (let (r', rc) = state_setinfo r v x in (Node l n r', rc))
      else (let (n', rc) = state_node_set n x in (Node l n' r, rc)))"

fun state_tree_find :: "st_tree \<Rightarrow> string \<Rightarrow> st_node option" where
  "state_tree_find Leaf v = None"
| "state_tree_find (Node l n r) v =
     (if strcasecmp (st_var n) v > 0 then state_tree_find l v
      else if strcasecmp (st_var n) v < 0 then state_tree_find r v
      else Some n)"

text \<open>A store through the pointer that \<open>state_tree_find\<close> returned.\<close>

fun state_tree_write :: "st_tree \<Rightarrow> string \<Rightarrow> st_node \<Rightarrow> st_tree" where
  "state_tree_write Leaf v m = Leaf"
| "state_tree_write (Node l n r) v m =
     (if strcasecmp (st_var n) v > 0 then Node (state_tree_write l v m) n r
      else if strcasecmp (st_var n) v < 0 then Node l n (state_tree_write r v m)
      else Node l m r)"

fun st_tree_enum_add :: "string list \<Rightarrow> string \<Rightarrow> string list \<times> int" where
  "st_tree_enum_add [] enc = ([enc], 1)"
| "st_tree_enum_add (x # xs) enc =
     (if x \<noteq> enc then (let (xs', rc) = st_tree_enum_add xs enc in (x # xs', rc))
      else (x # xs, 0))"

definition state_addenum :: "st_tree \<Rightarrow> string \<Rightarrow> string \<Rightarrow> st_tree \<times> int" where
  "state_addenum root v x =
     (case state_tree_find root v of
        None \<Rightarrow> (root, 0)
      | Some sttmp \<Rightarrow>
          let enc = pconf_encode x ST_MAX_VALUE_LEN;
              (el, rc) = st_tree_enum_add (st_enum_list sttmp) enc
          in (state_tree_write root v (sttmp\<lparr>st_enum_list := el\<rparr>), rc))"

fun st_tree_range_add :: "(int \<times> int) list \<Rightarrow> int \<Rightarrow> int \<Rightarrow> (int \<times> int) list \<times> int" where
  "st_tree_range_add [] mn mx = ([(mn, mx)], 1)"
| "st_tree_range_add (x # xs) mn mx =
     (if fst x \<noteq> mn \<and> snd x \<noteq> mx
      then (let (xs', rc) = st_tree_range_add xs mn mx in (x # xs', rc))
      else (x # xs, 0))"

definition state_addrange :: "st_tree \<Rightarrow> string \<Rightarrow> int \<Rightarrow> int \<Rightarrow> st_tree \<times> int" where
  "state_addrange root v mn mx =
     (if mn > mx then (root, 0)
      else case state_tree_find root v of
        None \<Rightarrow> (root, 0)
      | Some sttmp \<Rightarrow>
          let (rl, rc) = st_tree_range_add (st_range_list sttmp) mn mx
          in (state_tree_write root v (sttmp\<lparr>st_range_list := rl\<rparr>), rc))"

definition state_setaux :: "st_tree \<Rightarrow> string \<Rightarrow> string \<Rightarrow> st_tree \<times> int" where
  "state_setaux root v auxs =
     (case state_tree_find root v of
        None \<Rightarrow> (root, -1)
      | Some sttmp \<Rightarrow>
          let a = int32 (strtol10 auxs) in
          if st_aux sttmp = a then (root, 0)
          else (state_tree_write root v (sttmp\<lparr>st_aux := a\<rparr>), 1))"

definition state_getinfo :: "st_tree \<Rightarrow> string \<Rightarrow> string option" where
  "state_getinfo root v =
     (case state_tree_find root v of None \<Rightarrow> None | Some sttmp \<Rightarrow> Some (st_val sttmp))"

text \<open>The result \<open>-1\<close> of the next function is the word of all ones.\<close>

definition state_getflags :: "st_tree \<Rightarrow> string \<Rightarrow> 32 word" where
  "state_getflags root v =
     (case state_tree_find root v of None \<Rightarrow> -1 | Some sttmp \<Rightarrow> st_flags sttmp)"

definition state_getaux :: "st_tree \<Rightarrow> string \<Rightarrow> int" where
  "state_getaux root v =
     (case state_tree_find root v of None \<Rightarrow> -1 | Some sttmp \<Rightarrow> st_aux sttmp)"

text \<open>The head of an empty list and a missing node are both the NULL pointer.\<close>

definition state_getenumlist :: "st_tree \<Rightarrow> string \<Rightarrow> string list" where
  "state_getenumlist root v =
     (case state_tree_find root v of None \<Rightarrow> [] | Some sttmp \<Rightarrow> st_enum_list sttmp)"

definition state_getrangelist :: "st_tree \<Rightarrow> string \<Rightarrow> (int \<times> int) list" where
  "state_getrangelist root v =
     (case state_tree_find root v of None \<Rightarrow> [] | Some sttmp \<Rightarrow> st_range_list sttmp)"

fun setflags_loop :: "string list \<Rightarrow> 32 word \<Rightarrow> 32 word" where
  "setflags_loop [] fl = fl"
| "setflags_loop (f # fs) fl =
     (if strcaseeq f ''RW'' then setflags_loop fs (fl OR ST_FLAG_RW)
      else if strcaseeq f ''STRING'' then setflags_loop fs (fl OR ST_FLAG_STRING)
      else setflags_loop fs fl)"

definition state_setflags :: "st_tree \<Rightarrow> string \<Rightarrow> string list \<Rightarrow> st_tree" where
  "state_setflags root v fs =
     (case state_tree_find root v of
        None \<Rightarrow> root
      | Some sttmp \<Rightarrow> state_tree_write root v (sttmp\<lparr>st_flags := setflags_loop fs 0\<rparr>))"

fun st_tree_del_enum :: "string list \<Rightarrow> string \<Rightarrow> string list \<times> int" where
  "st_tree_del_enum [] x = ([], 0)"
| "st_tree_del_enum (e # es) x =
     (if strcasecmp e x \<noteq> 0 then (let (es', rc) = st_tree_del_enum es x in (e # es', rc))
      else (es, 1))"

definition state_delenum :: "st_tree \<Rightarrow> string \<Rightarrow> string \<Rightarrow> st_tree \<times> int" where
  "state_delenum root v x =
     (case state_tree_find root v of
        None \<Rightarrow> (root, 0)
      | Some sttmp \<Rightarrow>
          let (el, rc) = st_tree_del_enum (st_enum_list sttmp) x
          in (state_tree_write root v (sttmp\<lparr>st_enum_list := el\<rparr>), rc))"

fun st_tree_del_range :: "(int \<times> int) list \<Rightarrow> int \<Rightarrow> int \<Rightarrow> (int \<times> int) list \<times> int" where
  "st_tree_del_range [] mn mx = ([], 0)"
| "st_tree_del_range (x # xs) mn mx =
     (if fst x \<noteq> mn \<and> snd x \<noteq> mx
      then (let (xs', rc) = st_tree_del_range xs mn mx in (x # xs', rc))
      else (xs, 1))"

definition state_delrange :: "st_tree \<Rightarrow> string \<Rightarrow> int \<Rightarrow> int \<Rightarrow> st_tree \<times> int" where
  "state_delrange root v mn mx =
     (case state_tree_find root v of
        None \<Rightarrow> (root, 0)
      | Some sttmp \<Rightarrow>
          let (rl, rc) = st_tree_del_range (st_range_list sttmp) mn mx
          in (state_tree_write root v (sttmp\<lparr>st_range_list := rl\<rparr>), rc))"

text \<open>The nodes \<open>state_infofree\<close> releases, in its order.\<close>

fun state_infofree :: "st_tree \<Rightarrow> st_node list" where
  "state_infofree Leaf = []"
| "state_infofree (Node l n r) = state_infofree l @ state_infofree r @ [n]"

section \<open>The list of instant commands\<close>

fun state_addcmd :: "cmdlist \<Rightarrow> string \<Rightarrow> cmdlist \<times> int" where
  "state_addcmd [] cmd = ([cmd], 1)"
| "state_addcmd (x # xs) cmd =
     (if strcasecmp x cmd > 0 then (cmd # x # xs, 1)
      else if strcasecmp x cmd < 0 then (let (xs', rc) = state_addcmd xs cmd in (x # xs', rc))
      else (x # xs, 0))"

fun state_delcmd :: "cmdlist \<Rightarrow> string \<Rightarrow> cmdlist \<times> int" where
  "state_delcmd [] cmd = ([], 0)"
| "state_delcmd (x # xs) cmd =
     (if strcasecmp x cmd > 0 then (x # xs, 0)
      else if strcasecmp x cmd < 0 then (let (xs', rc) = state_delcmd xs cmd in (x # xs', rc))
      else (xs, 1))"

fun state_cmdfree :: "cmdlist \<Rightarrow> string list" where
  "state_cmdfree [] = []"
| "state_cmdfree (x # xs) = state_cmdfree xs @ [x]"

section \<open>Nodes\<close>

text \<open>A node is well formed when its buffers hold their strings and the visible value is the
  encoding of (a prefix of) the raw value that fits the encoding buffer.\<close>

definition node_ok :: "st_node \<Rightarrow> bool" where
  "node_ok n \<longleftrightarrow> length (st_raw n) < st_rawsize n \<and> no_nul (st_raw n) \<and>
     (st_safe n = [] \<or> length (st_safe n) < st_safesize n) \<and>
     st_val n = enc_fit (ST_MAX_VALUE_LEN - 1) (st_raw n)"

definition ordered :: "st_tree \<Rightarrow> bool" where
  "ordered t \<longleftrightarrow> bst_wrt (\<lambda>m n. st_key m < st_key n) t"

definition st_inv :: "st_tree \<Rightarrow> bool" where
  "st_inv t \<longleftrightarrow> ordered t \<and> (\<forall>n\<in>set_tree t. node_ok n)"

text \<open>A node as the other fields see it: everything but the buffers of the value.\<close>

lemma pconf_encode_value: "no_nul s \<Longrightarrow> pconf_encode s ST_MAX_VALUE_LEN = enc_fit (ST_MAX_VALUE_LEN - 1) s"
  by (simp add: pconf_encode_eq ST_MAX_VALUE_LEN_def)

lemma val_escape_fields [simp]:
  "st_var (val_escape n) = st_var n" "st_raw (val_escape n) = st_raw n"
  "st_rawsize (val_escape n) = st_rawsize n" "st_flags (val_escape n) = st_flags n"
  "st_aux (val_escape n) = st_aux n" "st_enum_list (val_escape n) = st_enum_list n"
  "st_range_list (val_escape n) = st_range_list n"
  by (auto simp: val_escape_def Let_def)

lemma val_escape_val:
  "no_nul (st_raw n) \<Longrightarrow> st_val (val_escape n) = enc_fit (ST_MAX_VALUE_LEN - 1) (st_raw n)"
  by (auto simp: val_escape_def st_val_def pconf_encode_value Let_def snprintf_def)

lemma val_escape_ok:
  "length (st_raw n) < st_rawsize n \<Longrightarrow> no_nul (st_raw n) \<Longrightarrow>
   st_safe n = [] \<or> length (st_safe n) < st_safesize n \<Longrightarrow> node_ok (val_escape n)"
  by (simp add: node_ok_def val_escape_val) (auto simp: val_escape_def Let_def snprintf_def)

lemma state_node_new_fields [simp]:
  "st_var (state_node_new v x) = v" "st_raw (state_node_new v x) = x"
  "st_flags (state_node_new v x) = 0" "st_aux (state_node_new v x) = 0"
  "st_enum_list (state_node_new v x) = []" "st_range_list (state_node_new v x) = []"
  by (auto simp: state_node_new_def)

lemma state_node_new_ok: "no_nul x \<Longrightarrow> node_ok (state_node_new v x)"
  unfolding state_node_new_def by (rule val_escape_ok) auto

lemma state_node_set_fields [simp]:
  "st_var (fst (state_node_set n x)) = st_var n" "st_flags (fst (state_node_set n x)) = st_flags n"
  "st_aux (fst (state_node_set n x)) = st_aux n"
  "st_enum_list (fst (state_node_set n x)) = st_enum_list n"
  "st_range_list (fst (state_node_set n x)) = st_range_list n"
  by (auto simp: state_node_set_def Let_def)

lemma state_node_set_raw:
  "st_raw (fst (state_node_set n x)) =
     (if strcaseeq (st_raw n) x \<or> st_flags n AND ST_FLAG_IMMUTABLE \<noteq> 0 then st_raw n else x)"
  by (auto simp: state_node_set_def Let_def snprintf_def strcaseeq_def)

lemma state_node_set_ok:
  assumes "node_ok n" "no_nul x" shows "node_ok (fst (state_node_set n x))"
  using assms assms(1) [unfolded node_ok_def]
  by (auto simp: state_node_set_def Let_def snprintf_def intro!: val_escape_ok)

section \<open>The tree as a map\<close>

lemma ordered_Leaf [simp]: "ordered Leaf"
  by (simp add: ordered_def)

lemma ordered_Node [simp]:
  "ordered (Node l n r) \<longleftrightarrow> ordered l \<and> ordered r \<and>
     (\<forall>m\<in>set_tree l. st_key m < st_key n) \<and> (\<forall>m\<in>set_tree r. st_key n < st_key m)"
  by (auto simp: ordered_def)

lemma set_st_tree_node_add:
  "ordered t \<Longrightarrow> (\<forall>x\<in>set_tree s. \<forall>y\<in>set_tree t. st_key x < st_key y) \<Longrightarrow>
   set_tree (st_tree_node_add t s) = set_tree t \<union> set_tree s"
proof (induction t s rule: st_tree_node_add.induct)
  case (3 l n r sl sn sr)
  then have "st_key sn < st_key n" by simp
  with 3 show ?case by auto
qed auto

lemma ordered_st_tree_node_add:
  "ordered t \<Longrightarrow> ordered s \<Longrightarrow> (\<forall>x\<in>set_tree s. \<forall>y\<in>set_tree t. st_key x < st_key y) \<Longrightarrow>
   ordered (st_tree_node_add t s)"
proof (induction t s rule: st_tree_node_add.induct)
  case (3 l n r sl sn sr)
  then have "st_key sn < st_key n" by simp
  with 3 show ?case by (auto simp: set_st_tree_node_add)
qed auto

lemma set_state_delinfo:
  "ordered t \<Longrightarrow> set_tree (fst (state_delinfo t v)) = {n \<in> set_tree t. st_key n \<noteq> lower v}"
proof (induction t)
  case (Node l n r)
  consider "st_key n > lower v" | "st_key n < lower v" | "st_key n = lower v"
    using linorder_less_linear by blast
  then show ?case
  proof cases
    case 3
    then have "\<forall>x\<in>set_tree l. \<forall>y\<in>set_tree r. st_key x < st_key y"
      using Node.prems by (auto intro: less_trans)
    with 3 Node.prems show ?thesis
      by (auto simp: set_st_tree_node_add)
  qed (use Node in \<open>auto split: prod.splits\<close>)
qed simp

lemma ordered_state_delinfo: "ordered t \<Longrightarrow> ordered (fst (state_delinfo t v))"
proof (induction t)
  case (Node l n r)
  then have "\<forall>x\<in>set_tree l. \<forall>y\<in>set_tree r. st_key x < st_key y"
    by (auto intro: less_trans)
  with Node set_state_delinfo [of l v] set_state_delinfo [of r v] show ?case
    by (auto split: prod.splits intro: ordered_st_tree_node_add)
qed simp

lemma state_tree_find_iff:
  "ordered t \<Longrightarrow> state_tree_find t v = Some n \<longleftrightarrow> n \<in> set_tree t \<and> st_key n = lower v"
  by (induction t) (auto dest: less_trans)

lemma state_tree_find_SomeD:
  "state_tree_find t v = Some n \<Longrightarrow> n \<in> set_tree t \<and> st_key n = lower v"
  by (induction t) (auto split: if_splits)

lemma state_tree_find_case:
  "lower v = lower w \<Longrightarrow> state_tree_find t v = state_tree_find t w"
  by (induction t) auto

lemma find_state_delinfo:
  "ordered t \<Longrightarrow> state_tree_find (fst (state_delinfo t v)) w =
     (if lower w = lower v then None else state_tree_find t w)"
  by (rule option_eqI)
    (auto simp: state_tree_find_iff ordered_state_delinfo set_state_delinfo)

lemma find_state_setinfo:
  "state_tree_find (fst (state_setinfo t v x)) w =
     (if lower w = lower v
      then Some (case state_tree_find t v of None \<Rightarrow> state_node_new v x
                 | Some n \<Rightarrow> fst (state_node_set n x))
      else state_tree_find t w)"
  by (induction t) (auto simp: case_prod_unfold Let_def)

lemma set_state_setinfo:
  "set_tree (fst (state_setinfo t v x)) \<subseteq>
     insert (case state_tree_find t v of None \<Rightarrow> state_node_new v x
             | Some n \<Rightarrow> fst (state_node_set n x)) (set_tree t)"
  by (induction t) (auto simp: case_prod_unfold Let_def)

lemma new_or_set_key:
  "st_key (case state_tree_find t v of None \<Rightarrow> state_node_new v x
           | Some n \<Rightarrow> fst (state_node_set n x)) = lower v"
  by (auto split: option.splits dest: state_tree_find_SomeD)

lemma ordered_state_setinfo: "ordered t \<Longrightarrow> ordered (fst (state_setinfo t v x))"
proof (induction t)
  case (Node l n r)
  have "\<forall>m\<in>set_tree (fst (state_setinfo s v x)). m \<in> set_tree s \<or> st_key m = lower v" for s
    using set_state_setinfo [where t = s and v = v and x = x]
      new_or_set_key [where t = s and v = v and x = x] by auto
  from this [of l] this [of r] Node show ?case
    by (auto simp: case_prod_unfold Let_def)
qed simp

lemma find_state_tree_write:
  "st_key m = lower v \<Longrightarrow> state_tree_find (state_tree_write t v m) w =
     (if lower w = lower v then map_option (\<lambda>_. m) (state_tree_find t v)
      else state_tree_find t w)"
  by (induction t) auto

lemma find_state_tree_write_found:
  "state_tree_find t v = Some n \<Longrightarrow> st_var m = st_var n \<Longrightarrow>
   state_tree_find (state_tree_write t v m) w =
     (if lower w = lower v then Some m else state_tree_find t w)"
  using state_tree_find_SomeD [of t v n] by (simp add: find_state_tree_write)

lemma set_state_tree_write: "set_tree (state_tree_write t v m) \<subseteq> insert m (set_tree t)"
  by (induction t) auto

lemma ordered_state_tree_write:
  "ordered t \<Longrightarrow> st_key m = lower v \<Longrightarrow> ordered (state_tree_write t v m)"
proof (induction t)
  case (Node l n r)
  with set_state_tree_write [of l v m] set_state_tree_write [of r v m] show ?case
    by auto
qed simp

section \<open>The interface: a store of keyed nodes\<close>

text \<open>The contract of a variable store as its clients use it: an operation names one variable
  (up to case) and changes what is stored under it by a function of what was there; nothing else
  changes. Whatever the clients interleave, the node of a variable is then the result of the
  operations on that variable alone.\<close>

locale keyed_store =
  fixes inv :: "'t \<Rightarrow> bool" and look :: "'t \<Rightarrow> string \<Rightarrow> 'n option"
    and app :: "'t \<Rightarrow> 'o \<Rightarrow> 't" and target :: "'o \<Rightarrow> string"
    and eff :: "'o \<Rightarrow> 'n option \<Rightarrow> 'n option"
  assumes app_inv: "inv t \<Longrightarrow> inv (app t x)"
    and look_app: "inv t \<Longrightarrow> look (app t x) w =
          (if strcaseeq w (target x) then eff x (look t w) else look t w)"
begin

lemma run_inv: "inv t \<Longrightarrow> inv (foldl app t xs)"
  by (induction xs arbitrary: t) (auto intro: app_inv)

lemma look_run:
  "inv t \<Longrightarrow> look (foldl app t xs) w =
     fold eff (filter (\<lambda>x. strcaseeq w (target x)) xs) (look t w)"
  by (induction xs arbitrary: t) (auto simp: app_inv look_app)

lemma look_run_other:
  "inv t \<Longrightarrow> (\<And>x. x \<in> set xs \<Longrightarrow> \<not> strcaseeq w (target x)) \<Longrightarrow>
   look (foldl app t xs) w = look t w"
  by (simp add: look_run filter_False)

lemma look_commute:
  "inv t \<Longrightarrow> \<not> strcaseeq (target x) (target y) \<Longrightarrow>
   look (app (app t x) y) w = look (app (app t y) x) w"
  by (auto simp: look_app app_inv strcaseeq_iff)

text \<open>Running a group of operations per variable, for variables with different names, leaves at
  each variable the effect of its group.\<close>

lemma look_groups:
  assumes "inv t" and "(v, xs) \<in> set gs" and "distinct (map (lower \<circ> fst) gs)"
    and "\<And>u ys y. (u, ys) \<in> set gs \<Longrightarrow> y \<in> set ys \<Longrightarrow> strcaseeq (target y) u"
  shows "look (foldl app t (concat (map snd gs))) v = fold eff xs (look t v)"
proof -
  have "filter (\<lambda>x. strcaseeq v (target x)) (concat (map snd gs)) = xs"
    using assms(2-4)
  proof (induction gs)
    case (Cons g gs)
    obtain u ys where g: "g = (u, ys)" by force
    have u: "\<And>y. y \<in> set ys \<Longrightarrow> lower (target y) = lower u"
      using Cons.prems(3) [of u ys] by (auto simp: g strcaseeq_iff)
    show ?case
    proof (cases "g = (v, xs)")
      case True
      then have "\<And>w zs. (w, zs) \<in> set gs \<Longrightarrow> lower w \<noteq> lower v"
        using Cons.prems(2) by (force simp: rev_image_eqI)
      then have "filter (\<lambda>x. strcaseeq v (target x)) (concat (map snd gs)) = []"
        using Cons.prems(3) by (fastforce simp: filter_empty_conv strcaseeq_iff)
      moreover have "filter (\<lambda>x. strcaseeq v (target x)) xs = xs"
        using u True g by (auto simp: filter_id_conv strcaseeq_iff)
      ultimately show ?thesis using True by simp
    next
      case False
      then have in_gs: "(v, xs) \<in> set gs" using Cons.prems(1) by simp
      then have "lower u \<noteq> lower v"
        using Cons.prems(2) g by (force simp: rev_image_eqI)
      then have "filter (\<lambda>x. strcaseeq v (target x)) ys = []"
        using u by (auto simp: filter_empty_conv strcaseeq_iff)
      moreover have "filter (\<lambda>x. strcaseeq v (target x)) (concat (map snd gs)) = xs"
        using in_gs Cons.prems(2,3) by (intro Cons.IH) auto
      ultimately show ?thesis by (simp add: g)
    qed
  qed simp
  with assms show ?thesis by (simp add: look_run)
qed

end

text \<open>The operations on a tree as data, what each does to the tree, and its abstract effect on the
  node it names.\<close>

datatype st_op =
    OpSetinfo string string | OpDelinfo string
  | OpAddenum string string | OpDelenum string string
  | OpAddrange string int int | OpDelrange string int int
  | OpSetaux string string | OpSetflags string "string list"

fun op_var :: "st_op \<Rightarrow> string" where
  "op_var (OpSetinfo v x) = v" | "op_var (OpDelinfo v) = v"
| "op_var (OpAddenum v x) = v" | "op_var (OpDelenum v x) = v"
| "op_var (OpAddrange v a b) = v" | "op_var (OpDelrange v a b) = v"
| "op_var (OpSetaux v x) = v" | "op_var (OpSetflags v fs) = v"

fun st_apply :: "st_tree \<Rightarrow> st_op \<Rightarrow> st_tree" where
  "st_apply t (OpSetinfo v x) = fst (state_setinfo t v x)"
| "st_apply t (OpDelinfo v) = fst (state_delinfo t v)"
| "st_apply t (OpAddenum v x) = fst (state_addenum t v x)"
| "st_apply t (OpDelenum v x) = fst (state_delenum t v x)"
| "st_apply t (OpAddrange v a b) = fst (state_addrange t v a b)"
| "st_apply t (OpDelrange v a b) = fst (state_delrange t v a b)"
| "st_apply t (OpSetaux v x) = fst (state_setaux t v x)"
| "st_apply t (OpSetflags v fs) = state_setflags t v fs"

fun node_eff :: "st_op \<Rightarrow> st_node option \<Rightarrow> st_node option" where
  "node_eff (OpSetinfo v x) None = Some (state_node_new v x)"
| "node_eff (OpSetinfo v x) (Some n) = Some (fst (state_node_set n x))"
| "node_eff (OpDelinfo v) m = None"
| "node_eff (OpAddenum v x) m = map_option (\<lambda>n. n\<lparr>st_enum_list :=
     fst (st_tree_enum_add (st_enum_list n) (pconf_encode x ST_MAX_VALUE_LEN))\<rparr>) m"
| "node_eff (OpDelenum v x) m = map_option (\<lambda>n. n\<lparr>st_enum_list :=
     fst (st_tree_del_enum (st_enum_list n) x)\<rparr>) m"
| "node_eff (OpAddrange v a b) m = map_option (\<lambda>n. if a > b then n else n\<lparr>st_range_list :=
     fst (st_tree_range_add (st_range_list n) a b)\<rparr>) m"
| "node_eff (OpDelrange v a b) m = map_option (\<lambda>n. n\<lparr>st_range_list :=
     fst (st_tree_del_range (st_range_list n) a b)\<rparr>) m"
| "node_eff (OpSetaux v x) m = map_option (\<lambda>n. n\<lparr>st_aux := int32 (strtol10 x)\<rparr>) m"
| "node_eff (OpSetflags v fs) m = map_option (\<lambda>n. n\<lparr>st_flags := setflags_loop fs 0\<rparr>) m"

lemmas state_node_ops = state_addenum_def state_delenum_def state_addrange_def state_delrange_def
  state_setaux_def state_setflags_def

lemma ordered_st_apply: "ordered t \<Longrightarrow> ordered (st_apply t x)"
  by (cases x)
    (auto simp: state_node_ops ordered_state_setinfo ordered_state_delinfo Let_def
      split: option.splits prod.splits dest!: state_tree_find_SomeD
      intro!: ordered_state_tree_write)

lemma find_st_apply:
  assumes "ordered t"
  shows "state_tree_find (st_apply t x) w =
    (if strcaseeq w (op_var x) then node_eff x (state_tree_find t w) else state_tree_find t w)"
proof (cases "lower w = lower (op_var x)")
  case True
  with state_tree_find_case [OF True, of t] assms show ?thesis
    by (cases x)
      (auto simp: state_node_ops find_state_setinfo find_state_delinfo find_state_tree_write_found
        strcaseeq_iff Let_def split: option.splits prod.splits)
next
  case False
  with assms show ?thesis
    by (cases x)
      (auto simp: state_node_ops find_state_setinfo find_state_delinfo find_state_tree_write_found
        strcaseeq_iff Let_def split: option.splits prod.splits)
qed

interpretation info_tree: keyed_store ordered state_tree_find st_apply op_var node_eff
  by unfold_locales (auto simp: ordered_st_apply find_st_apply)

section \<open>Well-formed nodes\<close>

text \<open>Every value that reaches the store is a C string.\<close>

fun op_ok :: "st_op \<Rightarrow> bool" where
  "op_ok (OpSetinfo v x) = no_nul x"
| "op_ok _ = True"

lemma node_ok_simps [simp]:
  "node_ok (n\<lparr>st_enum_list := e\<rparr>) = node_ok n" "node_ok (n\<lparr>st_range_list := g\<rparr>) = node_ok n"
  "node_ok (n\<lparr>st_aux := a\<rparr>) = node_ok n" "node_ok (n\<lparr>st_flags := f\<rparr>) = node_ok n"
  by (cases "st_valp n"; simp add: node_ok_def st_val_def)+

lemma st_inv_Leaf [simp]: "st_inv Leaf"
  by (simp add: st_inv_def)

lemma st_inv_find: "st_inv t \<Longrightarrow> state_tree_find t v = Some n \<Longrightarrow> node_ok n"
  by (auto simp: st_inv_def dest: state_tree_find_SomeD)

lemma node_ok_eff:
  "node_eff x m = Some n \<Longrightarrow> op_ok x \<Longrightarrow> (\<And>k. m = Some k \<Longrightarrow> node_ok k) \<Longrightarrow> node_ok n"
  by (cases "(x, m)" rule: node_eff.cases)
    (auto simp: state_node_new_ok state_node_set_ok split: if_splits)

lemma st_inv_apply: assumes "st_inv t" "op_ok x" shows "st_inv (st_apply t x)"
proof -
  have o: "ordered t" and o': "ordered (st_apply t x)"
    using assms by (auto simp: st_inv_def ordered_st_apply)
  have "node_ok n" if "n \<in> set_tree (st_apply t x)" for n
  proof -
    have "state_tree_find (st_apply t x) (st_var n) = Some n"
      using that o' by (simp add: state_tree_find_iff)
    then show ?thesis
      using assms by (auto simp: find_st_apply [OF o] split: if_splits
          intro: st_inv_find node_ok_eff)
  qed
  with o' show ?thesis by (simp add: st_inv_def)
qed

lemma st_inv_run: "st_inv t \<Longrightarrow> list_all op_ok xs \<Longrightarrow> st_inv (foldl st_apply t xs)"
  by (induction xs arbitrary: t) (auto intro: st_inv_apply)

lemma state_getinfo_ok:
  "st_inv t \<Longrightarrow> state_getinfo t v =
     map_option (\<lambda>n. enc_fit (ST_MAX_VALUE_LEN - 1) (st_raw n)) (state_tree_find t v)"
  by (auto simp: state_getinfo_def node_ok_def split: option.splits dest: st_inv_find)

lemma state_setinfo_rc:
  "snd (state_setinfo t v x) =
     (case state_tree_find t v of None \<Rightarrow> 1 | Some n \<Rightarrow> snd (state_node_set n x))"
  by (induction t) (auto simp: case_prod_unfold Let_def)

lemma state_setinfo_unchanged:
  "snd (state_setinfo t v x) = 0 \<Longrightarrow> fst (state_setinfo t v x) = t"
proof (induction t)
  case (Node l n r)
  then show ?case
    by (auto simp: case_prod_unfold Let_def state_node_set_def split: if_splits)
qed simp

lemma state_node_set_rc:
  "snd (state_node_set n x) =
     (if strcaseeq (st_raw n) x \<or> st_flags n AND ST_FLAG_IMMUTABLE \<noteq> 0 then 0 else 1)"
  by (auto simp: state_node_set_def strcaseeq_def Let_def)

lemma state_infofree_nodes: "mset (state_infofree t) = mset (inorder t)"
  by (induction t) auto

lemma ordered_inorder: "ordered t \<Longrightarrow> sorted_wrt (\<lambda>m n. st_key m < st_key n) (inorder t)"
proof (induction t)
  case (Node l n r)
  then have "\<forall>x\<in>set_tree l. \<forall>y\<in>set_tree r. st_key x < st_key y"
    by (auto intro: less_trans)
  with Node show ?case by (auto simp: sorted_wrt_append)
qed simp

lemma ordered_distinct: assumes "ordered t" shows "distinct (map st_key (inorder t))"
proof -
  have "sorted_wrt (<) (map st_key (inorder t))"
    using ordered_inorder [OF assms] by (simp add: sorted_wrt_map)
  then show ?thesis by (simp add: strict_sorted_iff)
qed

section \<open>The command list as a set\<close>

definition cmds_sorted :: "cmdlist \<Rightarrow> bool" where
  "cmds_sorted cs \<longleftrightarrow> sorted_wrt (<) (map lower cs)"

definition cmd_mem :: "cmdlist \<Rightarrow> string \<Rightarrow> bool" where
  "cmd_mem cs c \<longleftrightarrow> lower c \<in> set (map lower cs)"

lemma set_state_addcmd: "set (map lower (fst (state_addcmd cs c))) = insert (lower c) (set (map lower cs))"
  by (induction cs) (auto simp: case_prod_unfold Let_def)

lemma cmds_sorted_addcmd: "cmds_sorted cs \<Longrightarrow> cmds_sorted (fst (state_addcmd cs c))"
proof (induction cs)
  case (Cons x xs)
  have "set (map lower (fst (state_addcmd xs c))) = insert (lower c) (set (map lower xs))"
    by (rule set_state_addcmd)
  with Cons show ?case
    by (fastforce simp: cmds_sorted_def case_prod_unfold Let_def intro: less_trans)
qed (simp add: cmds_sorted_def)

lemma set_state_delcmd:
  "cmds_sorted cs \<Longrightarrow> set (map lower (fst (state_delcmd cs c))) = set (map lower cs) - {lower c}"
proof (induction cs)
  case (Cons x xs)
  then show ?case
    by (auto simp: cmds_sorted_def case_prod_unfold Let_def dest: less_trans)
qed simp

lemma cmds_sorted_delcmd: "cmds_sorted cs \<Longrightarrow> cmds_sorted (fst (state_delcmd cs c))"
proof (induction cs)
  case (Cons x xs)
  then have "cmds_sorted xs" by (simp add: cmds_sorted_def)
  from set_state_delcmd [OF this, of c] Cons show ?case
    by (auto simp: cmds_sorted_def case_prod_unfold Let_def)
qed simp

lemma state_addcmd_rc: "cmds_sorted cs \<Longrightarrow> snd (state_addcmd cs c) = (if cmd_mem cs c then 0 else 1)"
proof (induction cs)
  case (Cons x xs)
  then show ?case
    by (auto simp: cmds_sorted_def cmd_mem_def case_prod_unfold Let_def dest: less_trans)
qed (simp add: cmd_mem_def)

lemma state_delcmd_rc: "cmds_sorted cs \<Longrightarrow> snd (state_delcmd cs c) = (if cmd_mem cs c then 1 else 0)"
proof (induction cs)
  case (Cons x xs)
  then show ?case
    by (auto simp: cmds_sorted_def cmd_mem_def case_prod_unfold Let_def dest: less_trans)
qed (simp add: cmd_mem_def)

lemma cmd_mem_addcmd: "cmd_mem (fst (state_addcmd cs c)) d \<longleftrightarrow> cmd_mem cs d \<or> strcaseeq d c"
  unfolding cmd_mem_def set_state_addcmd strcaseeq_iff by blast

lemma cmd_mem_delcmd:
  "cmds_sorted cs \<Longrightarrow> cmd_mem (fst (state_delcmd cs c)) d \<longleftrightarrow> cmd_mem cs d \<and> \<not> strcaseeq d c"
  unfolding cmd_mem_def by (simp only: set_state_delcmd strcaseeq_iff) blast

section \<open>Properties of the store\<close>

text \<open>C9: The tree is a map from variable names (up to case) to nodes. Whatever sequence of the
  store's operations is run on an empty tree, looking up a name gives the node that the operations
  naming that variable, alone and in their order, produce; operations on other variables, and the
  shape the tree got from their order, do not matter.\<close>

theorem state_tree_is_map:
  "state_tree_find (foldl st_apply Leaf xs) w =
     fold node_eff (filter (\<lambda>x. strcaseeq w (op_var x)) xs) None"
  using info_tree.look_run [of Leaf xs w] by simp

lemma state_ops_keep_tree_facts:
  assumes "list_all op_ok xs" and "t = foldl st_apply Leaf xs"
  shows "sorted_wrt (\<lambda>m n. st_key m < st_key n) (inorder t)"
    and "list_all node_ok (inorder t)"
    and "state_getinfo t v =
           map_option (\<lambda>n. enc_fit (ST_MAX_VALUE_LEN - 1) (st_raw n)) (state_tree_find t v)"
    and "mset (state_infofree t) = mset (inorder t)"
proof -
  have inv: "st_inv t" using assms st_inv_run [of Leaf xs] by simp
  then show "sorted_wrt (\<lambda>m n. st_key m < st_key n) (inorder t)"
    by (simp add: st_inv_def ordered_inorder)
  show "list_all node_ok (inorder t)" using inv by (simp add: st_inv_def list_all_iff)
  show "state_getinfo t v =
          map_option (\<lambda>n. enc_fit (ST_MAX_VALUE_LEN - 1) (st_raw n)) (state_tree_find t v)"
    using inv by (rule state_getinfo_ok)
  show "mset (state_infofree t) = mset (inorder t)" by (rule state_infofree_nodes)
qed

text \<open>C32: After any sequence of operations with C strings the nodes come out of an in-order walk
  strictly ascending by folded name, every node's buffers hold their strings, the value shown for a
  variable is the encoding of its raw value cut to the 255 bytes of the encoding buffer, and
  \<open>state_infofree\<close> releases each node exactly once.\<close>

theorem state_ops_keep_tree:
  assumes "list_all op_ok xs" and "t = foldl st_apply Leaf xs"
  shows "sorted_wrt (\<lambda>m n. st_key m < st_key n) (inorder t) \<and>
     list_all node_ok (inorder t) \<and>
     state_getinfo t v =
       map_option (\<lambda>n. enc_fit (ST_MAX_VALUE_LEN - 1) (st_raw n)) (state_tree_find t v) \<and>
     mset (state_infofree t) = mset (inorder t)"
  by (intro conjI state_ops_keep_tree_facts [OF assms])

theorem state_ops_keep_tree_witness:
  "let t = foldl st_apply Leaf [OpSetinfo ''ups.status'' ''OL'', OpSetinfo ''battery.charge'' ''100'',
             OpSetinfo ''UPS.STATUS'' ''OB LB'', OpSetaux ''ups.status'' ''32'']
   in state_getinfo t ''ups.status'' = Some ''OB LB'' \<and> list_all node_ok (inorder t)"
proof -
  let ?xs = "[OpSetinfo ''ups.status'' ''OL'', OpSetinfo ''battery.charge'' ''100'',
             OpSetinfo ''UPS.STATUS'' ''OB LB'', OpSetaux ''ups.status'' ''32'']"
  have ok: "list_all op_ok ?xs" by code_simp
  have "map_option (\<lambda>n. enc_fit (ST_MAX_VALUE_LEN - 1) (st_raw n))
          (state_tree_find (foldl st_apply Leaf ?xs) ''ups.status'') = Some ''OB LB''"
    by code_simp
  with state_ops_keep_tree [OF ok refl, where v = "''ups.status''"] show ?thesis
    by (simp only: Let_def simp_thms)
qed

lemma state_setinfo_spec_facts:
  assumes "st_inv t" and "no_nul x" and "state_setinfo t v x = (t', rc)"
  shows "st_inv t'"
    and "rc = 1 \<Longrightarrow> state_getinfo t' v = Some (enc_fit (ST_MAX_VALUE_LEN - 1) x)"
    and "rc = 1 \<Longrightarrow> \<not> strcaseeq w v \<Longrightarrow> state_getinfo t' w = state_getinfo t w"
    and "rc \<noteq> 1 \<Longrightarrow> rc = 0 \<and> t' = t \<and> (\<exists>n. state_tree_find t v = Some n \<and>
           (strcaseeq (st_raw n) x \<or> st_flags n AND ST_FLAG_IMMUTABLE \<noteq> 0))"
proof -
  have t': "t' = fst (state_setinfo t v x)" and rc: "rc = snd (state_setinfo t v x)"
    using assms(3) by auto
  show inv': "st_inv t'"
    using st_inv_apply [of t "OpSetinfo v x"] assms by simp
  show "state_getinfo t' v = Some (enc_fit (ST_MAX_VALUE_LEN - 1) x)" if "rc = 1"
    unfolding state_getinfo_ok [OF inv'] using that
    by (auto simp: t' rc find_state_setinfo state_setinfo_rc state_node_set_raw state_node_set_rc
        split: option.splits if_splits)
  show "state_getinfo t' w = state_getinfo t w" if "rc = 1" "\<not> strcaseeq w v"
    using that by (simp add: state_getinfo_def t' find_state_setinfo strcaseeq_iff)
  show "rc = 0 \<and> t' = t \<and> (\<exists>n. state_tree_find t v = Some n \<and>
           (strcaseeq (st_raw n) x \<or> st_flags n AND ST_FLAG_IMMUTABLE \<noteq> 0))" if "rc \<noteq> 1"
    using that state_setinfo_unchanged [of t v x]
    by (auto simp: t' rc state_setinfo_rc state_node_set_rc split: option.splits if_splits)
qed

text \<open>\<open>state_setinfo\<close> reports 1 exactly when it stored the new value; the variable then shows
  the encoding of the new value and all others are untouched. It reports 0, leaving the tree
  exactly as it was, only when the variable exists and either its raw value equals the new one up
  to case or the variable is immutable.\<close>

theorem state_setinfo_spec:
  assumes "st_inv t" and "no_nul x" and "state_setinfo t v x = (t', rc)"
  shows "st_inv t' \<and>
    (rc = 1 \<longrightarrow> state_getinfo t' v = Some (enc_fit (ST_MAX_VALUE_LEN - 1) x)) \<and>
    (rc = 1 \<and> \<not> strcaseeq w v \<longrightarrow> state_getinfo t' w = state_getinfo t w) \<and>
    (rc \<noteq> 1 \<longrightarrow> rc = 0 \<and> t' = t \<and> (\<exists>n. state_tree_find t v = Some n \<and>
       (strcaseeq (st_raw n) x \<or> st_flags n AND ST_FLAG_IMMUTABLE \<noteq> 0)))"
  using state_setinfo_spec_facts [OF assms] by blast

theorem state_setinfo_spec_witness:
  "let t = fst (state_setinfo Leaf ''ups.id'' ''a'') in
   state_getinfo (fst (state_setinfo t ''ups.id'' ''say \"hi\"'')) ''UPS.id'' =
     Some [CHR ''s'', CHR ''a'', CHR ''y'', CHR '' '', CHR 0x5C, CHR 0x22, CHR ''h'', CHR ''i'',
           CHR 0x5C, CHR 0x22] \<and>
   state_setinfo t ''ups.id'' ''A'' = (t, 0)"
proof -
  let ?t = "fst (state_setinfo Leaf ''ups.id'' ''a'')"
  let ?x = "''say \"hi\"''"
  have inv: "st_inv ?t" using st_inv_apply [of Leaf "OpSetinfo ''ups.id'' ''a''"]
    by simp
  have nn: "no_nul ?x" "no_nul ''A''" by code_simp+
  have 1: "snd (state_setinfo ?t ''UPS.id'' ?x) = 1" by code_simp
  have 0: "snd (state_setinfo ?t ''ups.id'' ''A'') = 0" by code_simp
  have "fst (state_setinfo ?t ''ups.id'' ?x) = fst (state_setinfo ?t ''UPS.id'' ?x)" by code_simp
  moreover have "enc_fit (ST_MAX_VALUE_LEN - 1) ?x = [CHR ''s'', CHR ''a'', CHR ''y'', CHR '' '',
      CHR 0x5C, CHR 0x22, CHR ''h'', CHR ''i'', CHR 0x5C, CHR 0x22]" by code_simp
  ultimately show ?thesis
    using state_setinfo_spec [OF inv nn(1) surjective_pairing, of "''UPS.id''" "[]"] 1
      state_setinfo_spec [OF inv nn(2) surjective_pairing, of "''ups.id''" "[]"] 0
    by (simp add: Let_def prod_eq_iff)
qed

lemma state_cmds_are_a_set_facts:
  assumes "cmds_sorted cs"
  shows "cmds_sorted (fst (state_addcmd cs c))" and "cmds_sorted (fst (state_delcmd cs c))"
    and "cmd_mem (fst (state_addcmd cs c)) d \<longleftrightarrow> cmd_mem cs d \<or> strcaseeq d c"
    and "cmd_mem (fst (state_delcmd cs c)) d \<longleftrightarrow> cmd_mem cs d \<and> \<not> strcaseeq d c"
    and "snd (state_addcmd cs c) = 1 \<longleftrightarrow> \<not> cmd_mem cs c"
    and "snd (state_delcmd cs c) = 1 \<longleftrightarrow> cmd_mem cs c"
  using assms
  by (auto simp: cmds_sorted_addcmd cmds_sorted_delcmd cmd_mem_addcmd cmd_mem_delcmd
      state_addcmd_rc state_delcmd_rc)

text \<open>The list of instant commands is a sorted set of names: adding and deleting keep it
  strictly ascending (so without duplicates) up to case, add or remove exactly the named command,
  and return 1 exactly when the membership of the command changed.\<close>

theorem state_cmds_are_a_set:
  assumes "cmds_sorted cs"
  shows "cmds_sorted (fst (state_addcmd cs c)) \<and> cmds_sorted (fst (state_delcmd cs c)) \<and>
    (cmd_mem (fst (state_addcmd cs c)) d \<longleftrightarrow> cmd_mem cs d \<or> strcaseeq d c) \<and>
    (cmd_mem (fst (state_delcmd cs c)) d \<longleftrightarrow> cmd_mem cs d \<and> \<not> strcaseeq d c) \<and>
    (snd (state_addcmd cs c) = 1 \<longleftrightarrow> \<not> cmd_mem cs c) \<and>
    (snd (state_delcmd cs c) = 1 \<longleftrightarrow> cmd_mem cs c)"
  by (intro conjI state_cmds_are_a_set_facts [OF assms])

theorem state_cmds_are_a_set_witness:
  "cmds_sorted (fst (state_addcmd [''beeper.off'', ''Test.Battery''] ''load.on''))"
proof -
  have "cmds_sorted [''beeper.off'', ''Test.Battery'']" by code_simp
  from state_cmds_are_a_set [OF this] show ?thesis by blast
qed

lemma range_shared_endpoint_facts:
  assumes "g \<in> set rl" and "fst g = mn \<or> snd g = mx"
  shows "st_tree_range_add rl mn mx = (rl, 0)" and "snd (st_tree_del_range rl mn mx) = 1"
  using assms by (induction rl) (auto simp: case_prod_unfold)

text \<open>Two ranges are taken for the same one as soon as they share one endpoint: adding a range
  whose minimum or maximum occurs in the list is dropped as a duplicate, and deleting such a range
  removes the first range of the list that shares an endpoint with it.\<close>

theorem range_shared_endpoint:
  assumes "g \<in> set rl" and "fst g = mn \<or> snd g = mx"
  shows "st_tree_range_add rl mn mx = (rl, 0) \<and> snd (st_tree_del_range rl mn mx) = 1"
  by (intro conjI range_shared_endpoint_facts [OF assms])

theorem range_shared_endpoint_witness:
  "st_tree_range_add [(0, 100)] 0 50 = ([(0, 100)], 0) \<and>
   fst (st_tree_del_range [(0, 100)] 0 50) = []"
  using range_shared_endpoint [of "(0, 100)" "[(0, 100)]" 0 50] by simp

end
