(* ===== verification/Sstate.thy ===== *)
theory Sstate
  imports State
begin

text \<open>
  The server's end of the driver connection (\<open>server/sstate.c\<close>, \<open>server/upstype.h\<close>): per UPS
  the connection, the parser context, the copy of the driver's variables and commands, and the
  handling of the driver's messages.

  Every file descriptor of the source is kept (\<open>-1\<close> when there is none); the socket behind it is
  the field \<open>ups_sock\<close>. A read outside \<open>arglist\<close> has no defined result in C; \<open>parse_args\<close> returns
  \<^const>\<open>None\<close> there.

  Shown here: the driver's messages, as sent on the wire and split into reads in any way, are
  applied one by one and in order to the copy (\<open>sstate_replays_messages\<close>); when a UPS counts as
  dead; that a range message with a word missing reads a word that is not part of it.
\<close>

section \<open>State\<close>

record upstype =
  ups_name :: string
  ups_fn :: string
  ups_desc :: "string option"
  sock_fd :: int
  ups_sock :: sock
  ups_stale :: bool
  dumpdone :: bool
  data_ok :: bool
  ups_last_heard :: int
  ups_last_ping :: int
  ups_last_connfail :: int
  sock_ctx :: pconf_ctx
  inforoot :: st_tree
  ups_cmdlist :: cmdlist
  numlogins :: int
  ups_fsd :: bool
  ups_retain :: bool

definition SS_CONNFAIL_INT :: int where "SS_CONNFAIL_INT = 300"

section \<open>Operations\<close>

definition sstate_infofree :: "upstype \<Rightarrow> upstype" where
  "sstate_infofree ups = ups\<lparr>inforoot := Leaf\<rparr>"

definition sstate_cmdfree :: "upstype \<Rightarrow> upstype" where
  "sstate_cmdfree ups = ups\<lparr>ups_cmdlist := []\<rparr>"

definition sstate_disconnect :: "upstype \<Rightarrow> upstype" where
  "sstate_disconnect ups =
     (if sock_fd ups < 0 then ups
      else
        let ups1 = sstate_infofree ups;
            ups2 = sstate_cmdfree ups1;
            ups3 = ups2\<lparr>sock_ctx := pconf_finish (sock_ctx ups2)\<rparr>
        in ups3\<lparr>sock_fd := -1\<rparr>)"

text \<open>\<open>arg[i]\<close>: the words of the line are followed in \<open>arglist\<close> by words left over from
  longer lines.\<close>

definition arg_at :: "string list \<Rightarrow> nat \<Rightarrow> string option" where
  "arg_at arg i = (if i < length arg then Some (arg ! i) else None)"

definition parse_args :: "upstype \<Rightarrow> nat \<Rightarrow> string list \<Rightarrow> (upstype \<times> int) option" where
  "parse_args ups n arg =
     (if n < 1 then Some (ups, 0)
      else if strcaseeq (arg ! 0) ''PONG'' then Some (ups, 1)
      else if strcaseeq (arg ! 0) ''DUMPDONE'' then Some (ups\<lparr>dumpdone := True\<rparr>, 1)
      else if strcaseeq (arg ! 0) ''DATASTALE'' then Some (ups\<lparr>data_ok := False\<rparr>, 1)
      else if strcaseeq (arg ! 0) ''DATAOK'' then Some (ups\<lparr>data_ok := True\<rparr>, 1)
      else if n < 2 then Some (ups, 0)
      else if strcaseeq (arg ! 0) ''ADDCMD''
      then Some (ups\<lparr>ups_cmdlist := fst (state_addcmd (ups_cmdlist ups) (arg ! 1))\<rparr>, 1)
      else if strcaseeq (arg ! 0) ''DELCMD''
      then Some (ups\<lparr>ups_cmdlist := fst (state_delcmd (ups_cmdlist ups) (arg ! 1))\<rparr>, 1)
      else if strcaseeq (arg ! 0) ''DELINFO''
      then Some (ups\<lparr>inforoot := fst (state_delinfo (inforoot ups) (arg ! 1))\<rparr>, 1)
      else if n < 3 then Some (ups, 0)
      else if strcaseeq (arg ! 0) ''SETFLAGS''
      then Some (ups\<lparr>inforoot := state_setflags (inforoot ups) (arg ! 1)
                                   (take (n - 2) (drop 2 arg))\<rparr>, 1)
      else if strcaseeq (arg ! 0) ''SETINFO''
      then Some (ups\<lparr>inforoot := fst (state_setinfo (inforoot ups) (arg ! 1) (arg ! 2))\<rparr>, 1)
      else if strcaseeq (arg ! 0) ''ADDENUM''
      then Some (ups\<lparr>inforoot := fst (state_addenum (inforoot ups) (arg ! 1) (arg ! 2))\<rparr>, 1)
      else if strcaseeq (arg ! 0) ''ADDRANGE''
      then (case arg_at arg 3 of
              None \<Rightarrow> None
            | Some a3 \<Rightarrow> Some (ups\<lparr>inforoot :=
                fst (state_addrange (inforoot ups) (arg ! 1) (atoi (arg ! 2)) (atoi a3))\<rparr>, 1))
      else if strcaseeq (arg ! 0) ''DELENUM''
      then Some (ups\<lparr>inforoot := fst (state_delenum (inforoot ups) (arg ! 1) (arg ! 2))\<rparr>, 1)
      else if strcaseeq (arg ! 0) ''DELRANGE''
      then (case arg_at arg 3 of
              None \<Rightarrow> None
            | Some a3 \<Rightarrow> Some (ups\<lparr>inforoot :=
                fst (state_delrange (inforoot ups) (arg ! 1) (atoi (arg ! 2)) (atoi a3))\<rparr>, 1))
      else if strcaseeq (arg ! 0) ''SETAUX''
      then Some (ups\<lparr>inforoot := fst (state_setaux (inforoot ups) (arg ! 1) (arg ! 2))\<rparr>, 1)
      else Some (ups, 0))"

definition sendping :: "upstype \<Rightarrow> int \<Rightarrow> upstype" where
  "sendping ups now =
     (if sock_fd ups < 0 then ups
      else
        let (k, ok) = sock_write (ups_sock ups) (''PING'' @ [CHR 0x0A]);
            ups1 = ups\<lparr>ups_sock := k\<rparr>
        in if \<not> ok then sstate_disconnect ups1 else ups1\<lparr>ups_last_ping := now\<rparr>)"

text \<open>What the system does with the attempt to open the driver's socket; in the last case the
  descriptor and the results of the coming writes.\<close>

datatype conn_result = SocketFails | ConnectFails | FcntlFails | Connected int "bool list"

text \<open>The socket is stored in \<open>ups_sock\<close> at once; the callers store the returned descriptor.\<close>

definition sstate_connect :: "upstype \<Rightarrow> conn_result \<Rightarrow> int \<Rightarrow> upstype \<times> int" where
  "sstate_connect ups env now =
     (case env of
        SocketFails \<Rightarrow> (ups, -1)
      | ConnectFails \<Rightarrow>
          if now - ups_last_connfail ups < SS_CONNFAIL_INT then (ups, -1)
          else (ups\<lparr>ups_last_connfail := now\<rparr>, -1)
      | FcntlFails \<Rightarrow> (ups, -1)
      | Connected fd plan \<Rightarrow>
          let (k, ok) = sock_write (sock_new plan) (''DUMPALL'' @ [CHR 0x0A]) in
          if \<not> ok then (ups, -1)
          else
            let ups1 = ups\<lparr>ups_sock := k, sock_ctx := pconf_init (sock_ctx ups)\<rparr>;
                ups2 = ups1\<lparr>ups_stale := False, dumpdone := False, ups_last_heard := now\<rparr>
            in (ups2\<lparr>inforoot := fst (state_setinfo (inforoot ups2) ''ups.status'' ''WAIT'')\<rparr>, fd))"

fun sstate_read_loop :: "upstype \<Rightarrow> int \<Rightarrow> string \<Rightarrow> upstype option" where
  "sstate_read_loop ups now [] = Some ups"
| "sstate_read_loop ups now (c # cs) =
     (let (r, ctx) = pconf_char (sock_ctx ups) c;
          ups1 = ups\<lparr>sock_ctx := ctx\<rparr>
      in if r = 1
         then (case parse_args ups1 (numargs ctx) (arglist ctx) of
                 None \<Rightarrow> None
               | Some (ups2, rc) \<Rightarrow>
                   sstate_read_loop (if rc \<noteq> 0 then ups2\<lparr>ups_last_heard := now\<rparr> else ups2) now cs)
         else if r = 0 then sstate_read_loop ups1 now cs
         else Some ups1)"

definition sstate_readline :: "upstype \<Rightarrow> rd \<Rightarrow> int \<Rightarrow> upstype option" where
  "sstate_readline ups res now =
     (if sock_fd ups < 0 then Some ups
      else case res of
        RdAgain \<Rightarrow> Some ups
      | RdError \<Rightarrow> Some (sstate_disconnect ups)
      | RdData buf \<Rightarrow> sstate_read_loop ups now (take SMALLBUF buf))"

definition sstate_getinfo :: "upstype \<Rightarrow> string \<Rightarrow> string option" where
  "sstate_getinfo ups v = state_getinfo (inforoot ups) v"

definition sstate_getflags :: "upstype \<Rightarrow> string \<Rightarrow> 32 word" where
  "sstate_getflags ups v = state_getflags (inforoot ups) v"

definition sstate_getaux :: "upstype \<Rightarrow> string \<Rightarrow> int" where
  "sstate_getaux ups v = state_getaux (inforoot ups) v"

definition sstate_getenumlist :: "upstype \<Rightarrow> string \<Rightarrow> string list" where
  "sstate_getenumlist ups v = state_getenumlist (inforoot ups) v"

definition sstate_getrangelist :: "upstype \<Rightarrow> string \<Rightarrow> (int \<times> int) list" where
  "sstate_getrangelist ups v = state_getrangelist (inforoot ups) v"

definition sstate_getcmdlist :: "upstype \<Rightarrow> cmdlist" where
  "sstate_getcmdlist ups = ups_cmdlist ups"

definition sstate_dead :: "upstype \<Rightarrow> int \<Rightarrow> int \<Rightarrow> upstype \<times> bool" where
  "sstate_dead ups maxage now =
     (if sock_fd ups < 0 then (ups, True)
      else if dumpdone ups \<and> \<not> data_ok ups then (ups, True)
      else
        let elapsed = now - ups_last_heard ups;
            ups1 = (if elapsed > cdiv maxage 3 \<and> now - ups_last_ping ups > cdiv maxage 3
                    then sendping ups now else ups)
        in if elapsed > maxage then (ups1, True) else (ups1, False))"

definition sstate_sendline :: "upstype \<Rightarrow> string \<Rightarrow> upstype \<times> int" where
  "sstate_sendline ups buf =
     (if sock_fd ups < 0 then (ups, 0)
      else
        let (k, ok) = sock_write (ups_sock ups) buf;
            ups1 = ups\<lparr>ups_sock := k\<rparr>
        in if ok then (ups1, 1) else (sstate_disconnect ups1, 0))"

definition sstate_getnode :: "upstype \<Rightarrow> string \<Rightarrow> st_node option" where
  "sstate_getnode ups v = state_tree_find (inforoot ups) v"

section \<open>Invariant\<close>

definition ups_inv :: "upstype \<Rightarrow> bool" where
  "ups_inv ups \<longleftrightarrow> st_inv (inforoot ups) \<and> cmds_sorted (ups_cmdlist ups) \<and>
     (0 \<le> sock_fd ups \<longrightarrow>
        pconf_live PCONF_DEFAULT_ARG_LIMIT PCONF_DEFAULT_WORDLEN_LIMIT (sock_ctx ups))"

lemma st_inv_ops:
  assumes "st_inv t"
  shows "no_nul x \<Longrightarrow> st_inv (fst (state_setinfo t v x))" "st_inv (fst (state_delinfo t v))"
    "st_inv (fst (state_addenum t v x))" "st_inv (fst (state_delenum t v x))"
    "st_inv (fst (state_addrange t v a b))" "st_inv (fst (state_delrange t v a b))"
    "st_inv (fst (state_setaux t v x))" "st_inv (state_setflags t v fs)"
  using st_inv_apply [OF assms, of "OpSetinfo v x"] st_inv_apply [OF assms, of "OpDelinfo v"]
    st_inv_apply [OF assms, of "OpAddenum v x"] st_inv_apply [OF assms, of "OpDelenum v x"]
    st_inv_apply [OF assms, of "OpAddrange v a b"] st_inv_apply [OF assms, of "OpDelrange v a b"]
    st_inv_apply [OF assms, of "OpSetaux v x"] st_inv_apply [OF assms, of "OpSetflags v fs"]
  by simp_all

lemma cmds_sorted_Nil [simp]: "cmds_sorted []"
  by (simp add: cmds_sorted_def)

lemma word_chars_no_nul: "list_all word_char w \<Longrightarrow> no_nul w"
  by (induction w) auto

lemma parse_args_inv:
  assumes "parse_args ups n arg = Some (ups', rc)" "ups_inv ups" "n \<le> length arg"
    "list_all (list_all word_char) arg"
  shows "ups_inv ups'"
proof -
  have "no_nul (arg ! 2)" if "3 \<le> n"
    using that assms(3,4) by (intro word_chars_no_nul) (auto simp: list_all_length)
  with assms(1,2) show ?thesis
    unfolding parse_args_def ups_inv_def
    by (simp add: cmds_sorted_addcmd cmds_sorted_delcmd st_inv_ops not_less
        split: if_splits option.splits; force simp: st_inv_ops cmds_sorted_addcmd cmds_sorted_delcmd)
qed

lemma parse_args_keeps:
  assumes "parse_args ups n arg = Some (ups', rc)"
  shows "sock_ctx ups' = sock_ctx ups" "sock_fd ups' = sock_fd ups" "ups_sock ups' = ups_sock ups"
    "numlogins ups' = numlogins ups" "ups_name ups' = ups_name ups" "ups_fsd ups' = ups_fsd ups"
    "ups_last_heard ups' = ups_last_heard ups" "ups_fn ups' = ups_fn ups"
    "ups_stale ups' = ups_stale ups" "ups_retain ups' = ups_retain ups" "ups_desc ups' = ups_desc ups"
proof -
  have "ups'\<lparr>inforoot := Leaf, ups_cmdlist := [], dumpdone := False, data_ok := False\<rparr> =
      ups\<lparr>inforoot := Leaf, ups_cmdlist := [], dumpdone := False, data_ok := False\<rparr>"
    using assms unfolding parse_args_def by (auto split: if_splits option.splits)
  note rest = arg_cong [OF this]
  show "sock_ctx ups' = sock_ctx ups" "sock_fd ups' = sock_fd ups" "ups_sock ups' = ups_sock ups"
    "numlogins ups' = numlogins ups" "ups_name ups' = ups_name ups" "ups_fsd ups' = ups_fsd ups"
    "ups_last_heard ups' = ups_last_heard ups" "ups_fn ups' = ups_fn ups"
    "ups_stale ups' = ups_stale ups" "ups_retain ups' = ups_retain ups" "ups_desc ups' = ups_desc ups"
    using rest [of sock_ctx] rest [of sock_fd] rest [of ups_sock] rest [of numlogins] rest [of ups_name] rest [of ups_fsd]
      rest [of ups_last_heard] rest [of ups_fn] rest [of ups_stale] rest [of ups_retain] rest [of ups_desc]
    by simp_all
qed

lemma pconf_live_words:
  "pconf_live al wl ctx \<Longrightarrow> numargs ctx \<le> length (arglist ctx) \<and> list_all (list_all word_char) (arglist ctx)"
  by (auto simp: pconf_live_def pconf_inv_def list_all_iff)

lemma ups_inv_disconnect: "ups_inv ups \<Longrightarrow> ups_inv (sstate_disconnect ups)"
  by (simp add: sstate_disconnect_def ups_inv_def sstate_infofree_def sstate_cmdfree_def)

lemma ups_inv_read_loop:
  "sstate_read_loop ups now s = Some ups' \<Longrightarrow> ups_inv ups \<Longrightarrow> 0 \<le> sock_fd ups \<Longrightarrow> ups_inv ups'"
proof (induction ups now s rule: sstate_read_loop.induct)
  case (2 ups now c cs)
  obtain r ctx where rc: "pconf_char (sock_ctx ups) c = (r, ctx)" by force
  have live: "pconf_live PCONF_DEFAULT_ARG_LIMIT PCONF_DEFAULT_WORDLEN_LIMIT ctx"
    using pconf_char_abs(2) [of _ _ "sock_ctx ups" c] "2.prems" rc by (auto simp: ups_inv_def)
  let ?u = "ups\<lparr>sock_ctx := ctx\<rparr>"
  have u: "ups_inv ?u" "0 \<le> sock_fd ?u" using "2.prems" live by (auto simp: ups_inv_def)
  show ?case
  proof (cases "r = 1")
    case True
    then obtain ups2 k where p: "parse_args ?u (numargs ctx) (arglist ctx) = Some (ups2, k)"
      using "2.prems"(1) rc by (auto split: option.splits)
    let ?v = "if k \<noteq> 0 then ups2\<lparr>ups_last_heard := now\<rparr> else ups2"
    have "ups_inv ups2"
      using parse_args_inv [OF p u(1)] pconf_live_words [OF live] by simp
    then have "ups_inv ?v" "0 \<le> sock_fd ?v"
      using parse_args_keeps(2) [OF p] u(2) by (auto simp: ups_inv_def)
    with "2.IH"(1) [OF refl rc [symmetric] refl True p refl] "2.prems"(1) True rc p show ?thesis by simp
  next
    case False
    with "2.IH"(2) [OF refl rc [symmetric] refl False] "2.prems" rc u show ?thesis
      by (cases "r = 0") auto
  qed
qed simp

lemma ups_inv_readline: "sstate_readline ups res now = Some ups' \<Longrightarrow> ups_inv ups \<Longrightarrow> ups_inv ups'"
  by (auto simp: sstate_readline_def ups_inv_disconnect intro: ups_inv_read_loop
      split: if_splits rd.splits)

lemma ups_inv_field_upds [simp]:
  "ups_inv (ups\<lparr>ups_sock := k\<rparr>) = ups_inv ups" "ups_inv (ups\<lparr>ups_last_ping := a\<rparr>) = ups_inv ups"
  "ups_inv (ups\<lparr>ups_last_connfail := a\<rparr>) = ups_inv ups" "ups_inv (ups\<lparr>ups_stale := b\<rparr>) = ups_inv ups"
  "ups_inv (ups\<lparr>numlogins := a\<rparr>) = ups_inv ups" "ups_inv (ups\<lparr>ups_fsd := b\<rparr>) = ups_inv ups"
  "ups_inv (ups\<lparr>ups_retain := b\<rparr>) = ups_inv ups" "ups_inv (ups\<lparr>ups_desc := d\<rparr>) = ups_inv ups"
  by (simp_all add: ups_inv_def)

lemma ups_inv_sendping: "ups_inv ups \<Longrightarrow> ups_inv (sendping ups now)"
  by (auto simp: sendping_def ups_inv_disconnect Let_def split: prod.splits)

lemma ups_inv_dead: "ups_inv ups \<Longrightarrow> ups_inv (fst (sstate_dead ups maxage now))"
  by (auto simp: sstate_dead_def ups_inv_sendping Let_def)

lemma ups_inv_sendline: "ups_inv ups \<Longrightarrow> ups_inv (fst (sstate_sendline ups buf))"
  by (auto simp: sstate_sendline_def ups_inv_disconnect Let_def split: prod.splits)

lemma ups_inv_connect:
  assumes "ups_inv ups" "sstate_connect ups env now = (ups', fd)"
  shows "ups_inv (ups'\<lparr>sock_fd := fd\<rparr>)"
  using assms pconf_init_ready [of "sock_ctx ups"]
  by (auto simp: sstate_connect_def ups_inv_def pconf_ready_def st_inv_ops
      Let_def split: conn_result.splits if_splits prod.splits)

section \<open>The messages of a driver\<close>

text \<open>What a driver tells the server, the words it uses for it, and what it means for the
  server's copy.\<close>

datatype dmsg =
    DPong | DDumpdone | DDatastale | DDataok | DAddcmd string | DDelcmd string | DInfo st_op

fun op_words :: "st_op \<Rightarrow> string list" where
  "op_words (OpSetinfo v x) = [''SETINFO'', v, x]"
| "op_words (OpDelinfo v) = [''DELINFO'', v]"
| "op_words (OpAddenum v x) = [''ADDENUM'', v, x]"
| "op_words (OpDelenum v x) = [''DELENUM'', v, x]"
| "op_words (OpAddrange v a b) = [''ADDRANGE'', v, show_int a, show_int b]"
| "op_words (OpDelrange v a b) = [''DELRANGE'', v, show_int a, show_int b]"
| "op_words (OpSetaux v x) = [''SETAUX'', v, x]"
| "op_words (OpSetflags v fs) = ''SETFLAGS'' # v # fs"

fun op_sendable :: "st_op \<Rightarrow> bool" where
  "op_sendable (OpAddrange v a b) = (in_int32 a \<and> in_int32 b)"
| "op_sendable (OpDelrange v a b) = (in_int32 a \<and> in_int32 b)"
| "op_sendable (OpSetflags v fs) = (fs \<noteq> [])"
| "op_sendable _ = True"

fun dmsg_words :: "dmsg \<Rightarrow> string list" where
  "dmsg_words DPong = [''PONG'']"
| "dmsg_words DDumpdone = [''DUMPDONE'']"
| "dmsg_words DDatastale = [''DATASTALE'']"
| "dmsg_words DDataok = [''DATAOK'']"
| "dmsg_words (DAddcmd c) = [''ADDCMD'', c]"
| "dmsg_words (DDelcmd c) = [''DELCMD'', c]"
| "dmsg_words (DInfo x) = op_words x"

fun dmsg_ok :: "dmsg \<Rightarrow> bool" where
  "dmsg_ok (DInfo x) = op_sendable x"
| "dmsg_ok _ = True"

fun dmsg_apply :: "upstype \<Rightarrow> dmsg \<Rightarrow> upstype" where
  "dmsg_apply ups DPong = ups"
| "dmsg_apply ups DDumpdone = ups\<lparr>dumpdone := True\<rparr>"
| "dmsg_apply ups DDatastale = ups\<lparr>data_ok := False\<rparr>"
| "dmsg_apply ups DDataok = ups\<lparr>data_ok := True\<rparr>"
| "dmsg_apply ups (DAddcmd c) = ups\<lparr>ups_cmdlist := fst (state_addcmd (ups_cmdlist ups) c)\<rparr>"
| "dmsg_apply ups (DDelcmd c) = ups\<lparr>ups_cmdlist := fst (state_delcmd (ups_cmdlist ups) c)\<rparr>"
| "dmsg_apply ups (DInfo x) = ups\<lparr>inforoot := st_apply (inforoot ups) x\<rparr>"

text \<open>The words of the protocol differ from each other also up to case.\<close>

lemmas strcaseeq_eval = strcaseeq_def tolower_def

lemma parse_args_dmsg:
  assumes "dmsg_ok m" "take n arg = dmsg_words m" "n = length (dmsg_words m)"
  shows "parse_args ups n arg = Some (dmsg_apply ups m, 1)"
proof -
  have arg: "arg = dmsg_words m @ drop n arg"
    using assms(2) append_take_drop_id [of n arg] by simp
  show ?thesis
  proof (cases m)
    case (DInfo x)
    with assms(1,3) show ?thesis
      by (subst arg) (cases x; simp add: parse_args_def strcaseeq_eval arg_at_def neq_Nil_conv)
  qed (use assms(1,3) in \<open>subst arg, simp add: parse_args_def strcaseeq_eval\<close>)+
qed

section \<open>Reading from a driver\<close>

definition sst_ctx :: "upstype option \<Rightarrow> pconf_ctx" where
  "sst_ctx s = (case s of None \<Rightarrow> zero_ctx | Some ups \<Rightarrow> sock_ctx ups)"

definition sst_set :: "pconf_ctx \<Rightarrow> upstype option \<Rightarrow> upstype option" where
  "sst_set ctx s = map_option (\<lambda>ups. ups\<lparr>sock_ctx := ctx\<rparr>) s"

definition sst_line :: "int \<Rightarrow> upstype option \<Rightarrow> upstype option" where
  "sst_line now s =
     (case s of None \<Rightarrow> None
      | Some ups \<Rightarrow>
          (case parse_args ups (numargs (sock_ctx ups)) (arglist (sock_ctx ups)) of
             None \<Rightarrow> None
           | Some (ups2, rc) \<Rightarrow> Some (if rc \<noteq> 0 then ups2\<lparr>ups_last_heard := now\<rparr> else ups2)))"

definition sst_loop :: "int \<Rightarrow> upstype option \<Rightarrow> string \<Rightarrow> upstype option" where
  "sst_loop now s cs = (case s of None \<Rightarrow> None | Some ups \<Rightarrow> sstate_read_loop ups now cs)"

lemmas sst_defs = sst_ctx_def sst_set_def sst_line_def sst_loop_def

interpretation driver_line: line_reader sst_ctx sst_set "sst_line now" "sst_loop now" "\<lambda>s. s \<noteq> None"
  for now
  by unfold_locales
    (auto simp: sst_defs Let_def option.map_comp comp_def split: option.splits prod.splits)

lemma dmsg_apply_upd [simp]:
  "dmsg_apply (ups\<lparr>sock_ctx := ctx\<rparr>) m = (dmsg_apply ups m)\<lparr>sock_ctx := ctx\<rparr>"
  "dmsg_apply (ups\<lparr>ups_last_heard := t\<rparr>) m = (dmsg_apply ups m)\<lparr>ups_last_heard := t\<rparr>"
  "sock_ctx (dmsg_apply ups m) = sock_ctx ups" "sock_fd (dmsg_apply ups m) = sock_fd ups"
  by (cases m; simp)+

lemma foldl_dmsg_apply_upd [simp]:
  "foldl dmsg_apply (ups\<lparr>sock_ctx := ctx\<rparr>) ms = (foldl dmsg_apply ups ms)\<lparr>sock_ctx := ctx\<rparr>"
  "foldl dmsg_apply (ups\<lparr>ups_last_heard := t\<rparr>) ms = (foldl dmsg_apply ups ms)\<lparr>ups_last_heard := t\<rparr>"
  "sock_ctx (foldl dmsg_apply ups ms) = sock_ctx ups" "sock_fd (foldl dmsg_apply ups ms) = sock_fd ups"
  by (induction ms arbitrary: ups) simp_all

text \<open>A message as the driver sends it: words, some of them quoted.\<close>

definition carries :: "tok list \<Rightarrow> dmsg \<Rightarrow> bool" where
  "carries ts m \<longleftrightarrow> map tok_word ts = dmsg_words m \<and> dmsg_ok m \<and>
     msg_ok PCONF_DEFAULT_ARG_LIMIT PCONF_DEFAULT_WORDLEN_LIMIT ts"

abbreviation ctx_ready :: "pconf_ctx \<Rightarrow> bool" where
  "ctx_ready ctx \<equiv> pconf_ready PCONF_DEFAULT_ARG_LIMIT PCONF_DEFAULT_WORDLEN_LIMIT ctx"

abbreviation stream :: "tok list list \<Rightarrow> string" where
  "stream tss \<equiv> concat (map message tss)"

lemma read_loop_message:
  assumes "ctx_ready (sock_ctx ups)" "carries ts m"
  shows "sstate_read_loop ups now (message ts @ rest) =
     sstate_read_loop ((dmsg_apply ups m)\<lparr>sock_ctx := feed (sock_ctx ups) (message ts),
        ups_last_heard := now\<rparr>) now rest"
proof -
  have ok: "msg_ok PCONF_DEFAULT_ARG_LIMIT PCONF_DEFAULT_WORDLEN_LIMIT ts"
    using assms(2) by (simp add: carries_def)
  let ?ctx = "feed (sock_ctx ups) (message ts)"
  note f = feed_message [OF assms(1) ok]
  have "parse_args (ups\<lparr>sock_ctx := ?ctx\<rparr>) (numargs ?ctx) (arglist ?ctx) =
      Some (dmsg_apply (ups\<lparr>sock_ctx := ?ctx\<rparr>) m, 1)"
    using f(4,5) assms(2) length_map [of tok_word ts]
    by (intro parse_args_dmsg) (auto simp: carries_def simp del: length_map)
  with driver_line.loop_message [of "Some ups", OF _ _ ok] assms(1) show ?thesis
    by (simp add: sst_defs)
qed

lemma read_loop_stream:
  "ctx_ready (sock_ctx ups) \<Longrightarrow> list_all2 carries tss ms \<Longrightarrow>
   sstate_read_loop ups now (stream tss) =
     Some ((foldl dmsg_apply ups ms)\<lparr>
        sock_ctx := feed (sock_ctx ups) (stream tss),
        ups_last_heard := (if ms = [] then ups_last_heard ups else now)\<rparr>)"
proof (induction tss arbitrary: ups ms)
  case Nil
  then show ?case by simp
next
  case (Cons ts tss)
  then obtain m ms' where ms: "ms = m # ms'" "carries ts m" "list_all2 carries tss ms'"
    by (auto simp: list_all2_Cons1)
  let ?ctx = "feed (sock_ctx ups) (message ts)"
  have ready: "ctx_ready ?ctx"
    using feed_message(3) Cons.prems(1) ms(2) by (simp add: carries_def)
  with Cons.IH [of "(dmsg_apply ups m)\<lparr>sock_ctx := ?ctx, ups_last_heard := now\<rparr>" ms']
    read_loop_message [OF Cons.prems(1) ms(2), of now "stream tss"] ms
  show ?case by simp
qed

lemma read_loop_append:
  "clean (sock_ctx ups) xs \<Longrightarrow> sstate_read_loop ups now (xs @ ys) =
     Option.bind (sstate_read_loop ups now xs) (\<lambda>u. sstate_read_loop u now ys)"
proof (induction xs arbitrary: ups)
  case (Cons c xs)
  obtain r ctx where rc: "pconf_char (sock_ctx ups) c = (r, ctx)" by force
  show ?case
  proof (cases "r = 1")
    case True
    with Cons rc parse_args_keeps(1) [of "ups\<lparr>sock_ctx := ctx\<rparr>"] show ?thesis
      by (auto split: option.splits)
  qed (use Cons rc in auto)
qed simp

lemma read_loop_keeps:
  "sstate_read_loop ups now xs = Some u \<Longrightarrow> clean (sock_ctx ups) xs \<Longrightarrow>
   sock_ctx u = feed (sock_ctx ups) xs \<and> sock_fd u = sock_fd ups"
proof (induction xs arbitrary: ups)
  case (Cons c xs)
  obtain r ctx where rc: "pconf_char (sock_ctx ups) c = (r, ctx)" by force
  show ?case
  proof (cases "r = 1")
    case True
    with Cons rc parse_args_keeps(1,2) [of "ups\<lparr>sock_ctx := ctx\<rparr>"] show ?thesis
      by (auto split: option.splits if_splits)
  qed (use Cons rc in auto)
qed simp

text \<open>A sequence of reads that returned the given pieces.\<close>

fun sstate_reads :: "upstype \<Rightarrow> int \<Rightarrow> string list \<Rightarrow> upstype option" where
  "sstate_reads ups now [] = Some ups"
| "sstate_reads ups now (b # bs) =
     (case sstate_readline ups (RdData b) now of None \<Rightarrow> None | Some u \<Rightarrow> sstate_reads u now bs)"

lemma reads_concat:
  "0 \<le> sock_fd ups \<Longrightarrow> clean (sock_ctx ups) (concat bs) \<Longrightarrow> list_all (\<lambda>b. length b \<le> SMALLBUF) bs \<Longrightarrow>
   sstate_reads ups now bs = sstate_read_loop ups now (concat bs)"
proof (induction bs arbitrary: ups)
  case (Cons b bs)
  then have b: "clean (sock_ctx ups) b" by simp
  with Cons show ?case
    by (auto simp: sstate_readline_def read_loop_append dest: read_loop_keeps split: option.splits bind_splits)
qed simp

lemma reads_stream:
  assumes "0 \<le> sock_fd ups" "ctx_ready (sock_ctx ups)" "list_all2 carries tss ms"
    "concat bs = stream tss" "list_all (\<lambda>b. length b \<le> SMALLBUF) bs"
  shows "ctx_ready (feed (sock_ctx ups) (stream tss))"
    and "sstate_reads ups now bs = Some ((foldl dmsg_apply ups ms)\<lparr>
        sock_ctx := feed (sock_ctx ups) (stream tss),
        ups_last_heard := (if ms = [] then ups_last_heard ups else now)\<rparr>)"
proof -
  have "list_all (msg_ok PCONF_DEFAULT_ARG_LIMIT PCONF_DEFAULT_WORDLEN_LIMIT) tss"
    using assms(3) by (induction rule: list_all2_induct) (auto simp: carries_def)
  note fm = feed_messages [OF assms(2) this]
  have "sstate_reads ups now bs = sstate_read_loop ups now (stream tss)"
    using reads_concat [OF assms(1) _ assms(5)] fm(2) assms(4) by simp
  with read_loop_stream [OF assms(2,3)] fm(1)
  show "ctx_ready (feed (sock_ctx ups) (stream tss))"
    and "sstate_reads ups now bs = Some ((foldl dmsg_apply ups ms)\<lparr>
        sock_ctx := feed (sock_ctx ups) (stream tss),
        ups_last_heard := (if ms = [] then ups_last_heard ups else now)\<rparr>)" by simp_all
qed

text \<open>C31: Whatever the driver sends as messages, and however the transport splits the byte stream
  into reads of at most 512 bytes, the server applies exactly these messages, one by one and in
  order, to its copy of the variables and commands and to its view of the data's freshness, notes
  when it heard them, and is ready for the next line; nothing else of the UPS changes.\<close>

theorem sstate_replays_messages:
  assumes "0 \<le> sock_fd ups" and "ctx_ready (sock_ctx ups)" and "list_all2 carries tss ms"
    and "concat bs = stream tss" and "list_all (\<lambda>b. length b \<le> SMALLBUF) bs"
  shows "\<exists>ctx. ctx_ready ctx \<and> sstate_reads ups now bs =
     Some ((foldl dmsg_apply ups ms)\<lparr>
        sock_ctx := ctx, ups_last_heard := (if ms = [] then ups_last_heard ups else now)\<rparr>)"
  using reads_stream [OF assms] by blast

text \<open>A UPS entry as \<open>xcalloc\<close> leaves it, with a connection just opened.\<close>

definition upstype_zero :: upstype where
  "upstype_zero = \<lparr>ups_name = [], ups_fn = [], ups_desc = None, sock_fd = 0, ups_sock = sock_new [],
     ups_stale = False, dumpdone = False, data_ok = False, ups_last_heard = 0, ups_last_ping = 0,
     ups_last_connfail = 0, sock_ctx = zero_ctx, inforoot = Leaf, ups_cmdlist = [], numlogins = 0,
     ups_fsd = False, ups_retain = False\<rparr>"

definition upstype_open :: upstype where
  "upstype_open = upstype_zero\<lparr>sock_fd := 7, sock_ctx := pconf_init zero_ctx\<rparr>"

lemma upstype_open_ready: "0 \<le> sock_fd upstype_open" "ctx_ready (sock_ctx upstype_open)"
  using pconf_init_ready [of zero_ctx] by (simp_all add: upstype_open_def)

theorem sstate_replays_messages_witness:
  "\<exists>ups'. sstate_reads upstype_open 50 [''SETINFO ups.st'', ''atus \"OB'', '' LB\"'' @ [CHR 0x0A] @ ''DUMPD'',
       ''ONE'' @ [CHR 0x0A]] = Some ups' \<and>
     sstate_getinfo ups' ''ups.status'' = Some ''OB LB'' \<and> dumpdone ups' \<and> ups_last_heard ups' = 50"
proof -
  let ?bs = "[''SETINFO ups.st'', ''atus \"OB'', '' LB\"'' @ [CHR 0x0A] @ ''DUMPD'', ''ONE'' @ [CHR 0x0A]]"
  let ?tss = "[[Plain ''SETINFO'', Plain ''ups.status'', Quoted ''OB LB''], [Plain ''DUMPDONE'']]"
  let ?ms = "[DInfo (OpSetinfo ''ups.status'' ''OB LB''), DDumpdone]"
  have "list_all2 carries ?tss ?ms" by code_simp
  moreover have "concat ?bs = stream ?tss" by code_simp
  moreover have "list_all (\<lambda>b. length b \<le> SMALLBUF) ?bs" by code_simp
  ultimately obtain ctx where *: "sstate_reads upstype_open 50 ?bs =
      Some ((foldl dmsg_apply upstype_open ?ms)\<lparr>sock_ctx := ctx,
         ups_last_heard := (if ?ms = [] then ups_last_heard upstype_open else 50)\<rparr>)"
    using sstate_replays_messages [OF upstype_open_ready] by blast
  have "state_getinfo (inforoot (foldl dmsg_apply upstype_open ?ms)) ''ups.status'' = Some ''OB LB''"
    "dumpdone (foldl dmsg_apply upstype_open ?ms)"
    by code_simp+
  with * show ?thesis by (simp add: sstate_getinfo_def)
qed

section \<open>Dead drivers\<close>

text \<open>A connected driver whose data is not stale is prodded when it has been silent, and was not prodded,
  for more than a third of the maximum age.\<close>

definition prod_due :: "upstype \<Rightarrow> int \<Rightarrow> int \<Rightarrow> bool" where
  "prod_due ups maxage now \<longleftrightarrow> 0 \<le> sock_fd ups \<and> (dumpdone ups \<longrightarrow> data_ok ups) \<and>
     maxage div 3 < now - ups_last_heard ups \<and> maxage div 3 < now - ups_last_ping ups"

lemma sstate_dead_spec_facts:
  assumes "sstate_dead ups maxage now = (ups', d)" and "0 \<le> maxage"
    and "sock_write (ups_sock ups) (''PING'' @ [CHR 0x0A]) = (k, ok)"
  shows "d \<longleftrightarrow> sock_fd ups < 0 \<or> (dumpdone ups \<and> \<not> data_ok ups) \<or> now - ups_last_heard ups > maxage"
    and "\<not> prod_due ups maxage now \<Longrightarrow> ups' = ups"
    and "prod_due ups maxage now \<Longrightarrow> ok \<Longrightarrow> ups' = ups\<lparr>ups_sock := k, ups_last_ping := now\<rparr> \<and>
         sent k = sent (ups_sock ups) @ [''PING'' @ [CHR 0x0A]]"
    and "prod_due ups maxage now \<Longrightarrow> \<not> ok \<Longrightarrow> sock_fd ups' = -1 \<and> inforoot ups' = Leaf \<and> ups_cmdlist ups' = []"
    and "sent (ups_sock ups') \<noteq> sent (ups_sock ups) \<Longrightarrow> later - now \<le> maxage div 3 \<Longrightarrow>
         sent (ups_sock (fst (sstate_dead ups' maxage later))) = sent (ups_sock ups')"
  using assms
  by (auto simp: sstate_dead_def sendping_def sstate_disconnect_def sstate_infofree_def prod_due_def
      sstate_cmdfree_def Let_def cdiv_nonneg dest: sock_write_sent split: if_splits prod.splits)

text \<open>C33: A UPS is reported dead exactly when there is no connection, when the driver has finished
  its dump and called its data stale, or when it was silent for more than the maximum age. A check sends PING
  to a driver that is connected and not stale exactly when both its last sign of life and the last
  PING are more than a third of the maximum age ago, and otherwise changes nothing; when the PING cannot be written,
  the connection is given up with its data. Once pinged, a driver is not pinged again until
  another third of the maximum age has gone by.\<close>

theorem sstate_dead_spec:
  assumes "sstate_dead ups maxage now = (ups', d)" and "0 \<le> maxage"
    and "sock_write (ups_sock ups) (''PING'' @ [CHR 0x0A]) = (k, ok)"
  shows "(d \<longleftrightarrow> sock_fd ups < 0 \<or> (dumpdone ups \<and> \<not> data_ok ups) \<or> now - ups_last_heard ups > maxage) \<and>
    (if \<not> prod_due ups maxage now then ups' = ups
     else if ok then ups' = ups\<lparr>ups_sock := k, ups_last_ping := now\<rparr> \<and>
       sent k = sent (ups_sock ups) @ [''PING'' @ [CHR 0x0A]]
     else sock_fd ups' = -1 \<and> inforoot ups' = Leaf \<and> ups_cmdlist ups' = []) \<and>
    (sent (ups_sock ups') \<noteq> sent (ups_sock ups) \<and> later - now \<le> maxage div 3 \<longrightarrow>
     sent (ups_sock (fst (sstate_dead ups' maxage later))) = sent (ups_sock ups'))"
  using sstate_dead_spec_facts [OF assms] by (cases "prod_due ups maxage now"; cases ok) simp_all

theorem sstate_dead_spec_witness:
  "\<exists>ups'. sstate_dead upstype_open 15 6 = (ups', False) \<and> sent (ups_sock upstype_open) = [] \<and>
     sent (ups_sock ups') = [''PING'' @ [CHR 0x0A]] \<and>
     sent (ups_sock (fst (sstate_dead ups' 15 11))) = [''PING'' @ [CHR 0x0A]]"
proof -
  obtain ups' d where s: "sstate_dead upstype_open 15 6 = (ups', d)" by force
  obtain k ok where w: "sock_write (ups_sock upstype_open) (''PING'' @ [CHR 0x0A]) = (k, ok)" by force
  have e: "snd (sstate_dead upstype_open 15 6) = False" "sent (ups_sock upstype_open) = []" "prod_due upstype_open 15 6"
    "snd (sock_write (ups_sock upstype_open) (''PING'' @ [CHR 0x0A]))"
    by code_simp+
  then have d: "d = False" and ok: "ok" using s w by simp_all
  from sstate_dead_spec [OF s _ w, of 11] e(3) ok
  have 1: "sent (ups_sock ups') = sent (ups_sock upstype_open) @ [''PING'' @ [CHR 0x0A]]"
    and 2: "sent (ups_sock ups') \<noteq> sent (ups_sock upstype_open) \<longrightarrow>
       sent (ups_sock (fst (sstate_dead ups' 15 11))) = sent (ups_sock ups')" by auto
  from 2 1 have "sent (ups_sock (fst (sstate_dead ups' 15 11))) = [''PING'' @ [CHR 0x0A]]"
    using e(2) by simp
  with s d 1 e(2) show ?thesis by simp
qed

section \<open>A range message with a missing word\<close>

text \<open>\<open>ADDRANGE\<close> and \<open>DELRANGE\<close> need four words but are accepted with three. The fourth
  is then read from behind the line: from outside \<open>arglist\<close> when no longer line came before
  (shown for a fresh connection whose first line is such a message), and otherwise the word an
  earlier line left there becomes the maximum of the range.\<close>

theorem range_message_reads_past_line:
  "sstate_read_loop (ups\<lparr>sock_ctx := pconf_init zero_ctx\<rparr>) now (''ADDRANGE x 5'' @ [CHR 0x0A]) = None \<and>
   sstate_read_loop (ups\<lparr>sock_ctx := pconf_init zero_ctx\<rparr>) now (''DELRANGE x \"5 9\"'' @ [CHR 0x0A]) = None \<and>
   parse_args ups 3 [''ADDRANGE'', v, a, leftover] =
     Some (ups\<lparr>inforoot := fst (state_addrange (inforoot ups) v (atoi a) (atoi leftover))\<rparr>, 1)"
proof -
  let ?u = "Some (ups\<lparr>sock_ctx := pconf_init zero_ctx\<rparr>)"
  let ?a = "[Plain ''ADDRANGE'', Plain ''x'', Plain ''5'']"
  let ?d = "[Plain ''DELRANGE'', Plain ''x'', Quoted ''5 9'']"
  have ready: "ctx_ready (sst_ctx ?u)"
    using pconf_init_ready [of zero_ctx] by (simp add: sst_ctx_def)
  have m: "message ?a = ''ADDRANGE x 5'' @ [CHR 0x0A]"
    "message ?d = ''DELRANGE x \"5 9\"'' @ [CHR 0x0A]" by code_simp+
  have ok: "msg_ok PCONF_DEFAULT_ARG_LIMIT PCONF_DEFAULT_WORDLEN_LIMIT ?a"
    "msg_ok PCONF_DEFAULT_ARG_LIMIT PCONF_DEFAULT_WORDLEN_LIMIT ?d" by code_simp+
  have args: "numargs (feed (pconf_init zero_ctx) (message ?a)) = 3"
    "arglist (feed (pconf_init zero_ctx) (message ?a)) = [''ADDRANGE'', ''x'', ''5'']"
    "numargs (feed (pconf_init zero_ctx) (message ?d)) = 3"
    "arglist (feed (pconf_init zero_ctx) (message ?d)) = [''DELRANGE'', ''x'', ''5 9'']"
    by code_simp+
  have short: "parse_args u 3 [''ADDRANGE'', ''x'', ''5''] = None"
    "parse_args u 3 [''DELRANGE'', ''x'', ''5 9''] = None" for u
    by (simp_all add: parse_args_def strcaseeq_eval arg_at_def)
  show ?thesis
    using driver_line.loop_message [OF _ ready ok(1), of now "[]"]
      driver_line.loop_message [OF _ ready ok(2), of now "[]"] args short
    by (simp add: sst_defs m) (simp add: parse_args_def strcaseeq_eval arg_at_def)
qed

end
