(* ===== verification/User.thy ===== *)
theory User
  imports Parseconf
begin

text \<open>
  The user database of upsd (\<open>server/user.c\<close>, \<open>server/user-data.h\<close>): loading \<open>upsd.users\<close> and
  the two checks every privileged request goes through, \<open>user_checkaction\<close> and
  \<open>user_checkinstcmd\<close>. The static pointer \<open>curr_user\<close> is the position of the entry in the list of
  users, to which entries are only appended.

  Shown here: user names stay distinct, so a check succeeds exactly when an entry of that name has
  that password and grants the request; a well-formed file grants exactly what it says; and a
  repeated section header lets the settings below it go to another user.
\<close>

section \<open>State\<close>

record ulist =
  ul_username :: string
  ul_password :: "string option"
  ul_firstcmd :: "string list"
  ul_firstaction :: "string list"

record userdb =
  users :: "ulist list"
  curr_user :: "nat option"

section \<open>Operations\<close>

definition user_add :: "userdb \<Rightarrow> string \<Rightarrow> userdb" where
  "user_add db un =
     (if list_ex (\<lambda>tmp. ul_username tmp = un) (users db) then db
      else db\<lparr>users := users db @ [\<lparr>ul_username = un, ul_password = None, ul_firstcmd = [],
                                     ul_firstaction = []\<rparr>],
              curr_user := Some (length (users db))\<rparr>)"

definition user_password :: "userdb \<Rightarrow> string \<Rightarrow> userdb" where
  "user_password db pw =
     (case curr_user db of
        None \<Rightarrow> db
      | Some i \<Rightarrow>
          (case ul_password (users db ! i) of
             Some _ \<Rightarrow> db
           | None \<Rightarrow> db\<lparr>users := (users db)[i := (users db ! i)\<lparr>ul_password := Some pw\<rparr>]\<rparr>))"

definition user_add_instcmd :: "userdb \<Rightarrow> string \<Rightarrow> userdb" where
  "user_add_instcmd db cmd =
     (case curr_user db of
        None \<Rightarrow> db
      | Some i \<Rightarrow>
          let u = users db ! i in
          if list_ex (\<lambda>c. strcaseeq c cmd) (ul_firstcmd u) then db
          else db\<lparr>users := (users db)[i := u\<lparr>ul_firstcmd := ul_firstcmd u @ [cmd]\<rparr>]\<rparr>)"

definition addaction :: "string list \<Rightarrow> string \<Rightarrow> string list" where
  "addaction base action = base @ [action]"

definition user_add_action :: "userdb \<Rightarrow> string \<Rightarrow> userdb" where
  "user_add_action db act =
     (case curr_user db of
        None \<Rightarrow> db
      | Some i \<Rightarrow>
          let u = users db ! i in
          db\<lparr>users := (users db)[i := u\<lparr>ul_firstaction := addaction (ul_firstaction u) act\<rparr>]\<rparr>)"

definition user_flush :: "userdb \<Rightarrow> userdb" where
  "user_flush db = db\<lparr>users := []\<rparr>"

fun matchinstcmd_loop :: "string list \<Rightarrow> string \<Rightarrow> bool" where
  "matchinstcmd_loop [] cmd = False"
| "matchinstcmd_loop (c # cs) cmd =
     (if strcaseeq c cmd then True else if strcaseeq c ''all'' then True
      else matchinstcmd_loop cs cmd)"

definition user_matchinstcmd :: "ulist \<Rightarrow> string \<Rightarrow> bool" where
  "user_matchinstcmd u cmd = matchinstcmd_loop (ul_firstcmd u) cmd"

fun checkinstcmd_loop :: "ulist list \<Rightarrow> string \<Rightarrow> string \<Rightarrow> string \<Rightarrow> bool" where
  "checkinstcmd_loop [] un pw cmd = False"
| "checkinstcmd_loop (tmp # us) un pw cmd =
     (case ul_password tmp of
        None \<Rightarrow> checkinstcmd_loop us un pw cmd
      | Some p \<Rightarrow>
          if ul_username tmp \<noteq> un then checkinstcmd_loop us un pw cmd
          else if p \<noteq> pw then False
          else if \<not> user_matchinstcmd tmp cmd then False
          else True)"

definition user_checkinstcmd :: "userdb \<Rightarrow> string option \<Rightarrow> string option \<Rightarrow> string \<Rightarrow> bool" where
  "user_checkinstcmd db un pw cmd =
     (case (un, pw) of
        (Some un, Some pw) \<Rightarrow> checkinstcmd_loop (users db) un pw cmd
      | _ \<Rightarrow> False)"

fun matchaction_loop :: "string list \<Rightarrow> string \<Rightarrow> bool" where
  "matchaction_loop [] action = False"
| "matchaction_loop (a # as) action = (if strcaseeq a action then True else matchaction_loop as action)"

definition user_matchaction :: "ulist \<Rightarrow> string \<Rightarrow> bool" where
  "user_matchaction u action = matchaction_loop (ul_firstaction u) action"

fun checkaction_loop :: "ulist list \<Rightarrow> string \<Rightarrow> string \<Rightarrow> string \<Rightarrow> bool" where
  "checkaction_loop [] un pw action = False"
| "checkaction_loop (tmp # us) un pw action =
     (case ul_password tmp of
        None \<Rightarrow> checkaction_loop us un pw action
      | Some p \<Rightarrow>
          if ul_username tmp \<noteq> un then checkaction_loop us un pw action
          else if p \<noteq> pw then False
          else if \<not> user_matchaction tmp action then False
          else True)"

definition user_checkaction :: "userdb \<Rightarrow> string option \<Rightarrow> string option \<Rightarrow> string \<Rightarrow> bool" where
  "user_checkaction db un pw action =
     (case (un, pw) of
        (Some un, Some pw) \<Rightarrow> checkaction_loop (users db) un pw action
      | _ \<Rightarrow> False)"

definition set_upsmon_type :: "userdb \<Rightarrow> string \<Rightarrow> userdb" where
  "set_upsmon_type db ty =
     (if strcaseeq ty ''master''
      then user_add_action (user_add_action (user_add_action db ''login'') ''master'') ''fsd''
      else if strcaseeq ty ''slave'' then user_add_action db ''login''
      else db)"

definition user_parse_var :: "userdb \<Rightarrow> string \<Rightarrow> string \<Rightarrow> userdb" where
  "user_parse_var db v x =
     (if strcaseeq v ''password'' then user_password db x
      else if strcaseeq v ''instcmds'' then user_add_instcmd db x
      else if strcaseeq v ''actions'' then user_add_action db x
      else if strcaseeq v ''allowfrom'' then db
      else if strcaseeq v ''upsmon'' then set_upsmon_type db x
      else db)"

definition user_parse_rest :: "userdb \<Rightarrow> string \<Rightarrow> string \<Rightarrow> string list \<Rightarrow> userdb" where
  "user_parse_rest db v fval rest =
     (if curr_user db = None then db
      else foldl (\<lambda>db x. user_parse_var db v x) (user_parse_var db v fval) rest)"

text \<open>The word cut at its first \<open>=\<close>, when it has one.\<close>

fun cut_equals :: "string \<Rightarrow> (string \<times> string) option" where
  "cut_equals [] = None"
| "cut_equals (c # cs) =
     (if c = CHR ''='' then Some ([], cs)
      else map_option (\<lambda>(a, b). (c # a, b)) (cut_equals cs))"

definition user_parse_arg :: "string list \<Rightarrow> userdb \<Rightarrow> userdb" where
  "user_parse_arg arg db =
     (if arg = [] then db
      else if strcaseeq (arg ! 0) ''user'' then db
      else case cut_equals (arg ! 0) of
        Some (v, ep) \<Rightarrow> user_parse_rest db v ep (drop 1 arg)
      | None \<Rightarrow>
          if arg ! 0 \<noteq> [] \<and> hd (arg ! 0) = CHR ''['' \<and> last (arg ! 0) = CHR '']''
          then user_add db (tl (butlast (arg ! 0)))
          else if length arg < 2 then db
          else
            let db1 = (if strcaseeq (arg ! 0) ''upsmon'' then set_upsmon_type db (arg ! 1) else db)
            in if length arg < 3 then db1
               else if arg ! 1 = ''='' then user_parse_rest db1 (arg ! 0) (arg ! 2) (drop 3 arg)
               else db1)"

definition user_load :: "(string \<Rightarrow> string + string) \<Rightarrow> string \<Rightarrow> pconf_ctx \<Rightarrow> userdb \<Rightarrow> userdb" where
  "user_load fopen confpath stack_ctx db =
     (let db1 = db\<lparr>curr_user := None\<rparr>;
          fn = snprintf SMALLBUF (confpath @ ''/upsd.users'');
          ctx = pconf_init stack_ctx
      in case pconf_file_begin fopen ctx fn of
           (r, ctx1) \<Rightarrow>
             if r = 0 then db1
             else snd (read_lines (\<lambda>ctx. user_parse_arg (pconf_words ctx)) ctx1 db1))"

section \<open>Invariant\<close>

definition user_inv :: "userdb \<Rightarrow> bool" where
  "user_inv db \<longleftrightarrow> distinct (map ul_username (users db)) \<and>
     (case curr_user db of None \<Rightarrow> True | Some i \<Rightarrow> i < length (users db))"

lemma user_inv_add: "user_inv db \<Longrightarrow> user_inv (user_add db un)"
  by (auto simp: user_inv_def user_add_def list_ex_iff)

lemma user_inv_ops:
  assumes "user_inv db"
  shows "user_inv (user_password db x)" "user_inv (user_add_instcmd db x)" "user_inv (user_add_action db x)"
  using assms
  by (auto simp: user_inv_def user_password_def user_add_instcmd_def user_add_action_def map_update_same
      Let_def split: option.splits)

lemma user_inv_type: "user_inv db \<Longrightarrow> user_inv (set_upsmon_type db ty)"
  by (simp add: set_upsmon_type_def user_inv_ops)

lemma user_inv_var: "user_inv db \<Longrightarrow> user_inv (user_parse_var db v x)"
  by (simp add: user_parse_var_def user_inv_ops user_inv_type)

lemma user_inv_fold: "user_inv db \<Longrightarrow> user_inv (foldl (\<lambda>db x. user_parse_var db v x) db xs)"
  by (induction xs arbitrary: db) (auto simp: user_inv_var)

lemma user_inv_arg: "user_inv db \<Longrightarrow> user_inv (user_parse_arg arg db)"
  by (auto simp: user_parse_arg_def user_parse_rest_def user_inv_fold user_inv_var user_inv_type
      user_inv_add Let_def split: option.splits)

lemma user_inv_lines: "user_inv db \<Longrightarrow> user_inv (snd (read_lines (\<lambda>ctx. user_parse_arg (pconf_words ctx)) ctx db))"
  by (rule read_lines_keeps) (simp add: user_inv_arg)

lemma user_inv_load: "users db = [] \<Longrightarrow> user_inv (user_load fopen cp old db)"
  by (auto simp: user_load_def Let_def user_inv_def intro!: user_inv_lines [unfolded user_inv_def]
      split: prod.splits)

section \<open>The checks\<close>

lemma matchaction_iff: "user_matchaction u a \<longleftrightarrow> list_ex (\<lambda>x. strcaseeq x a) (ul_firstaction u)"
proof -
  have "matchaction_loop xs a \<longleftrightarrow> list_ex (\<lambda>x. strcaseeq x a) xs" for xs
    by (induction xs) auto
  then show ?thesis by (simp add: user_matchaction_def)
qed

lemma matchinstcmd_iff:
  "user_matchinstcmd u c \<longleftrightarrow> list_ex (\<lambda>x. strcaseeq x c \<or> strcaseeq x ''all'') (ul_firstcmd u)"
proof -
  have "matchinstcmd_loop xs c \<longleftrightarrow> list_ex (\<lambda>x. strcaseeq x c \<or> strcaseeq x ''all'') xs" for xs
    by (induction xs) auto
  then show ?thesis by (simp add: user_matchinstcmd_def)
qed

text \<open>What the database grants: an entry of that name has that password and the request.\<close>

definition grants_action :: "userdb \<Rightarrow> string \<Rightarrow> string \<Rightarrow> string \<Rightarrow> bool" where
  "grants_action db un pw a \<longleftrightarrow>
     list_ex (\<lambda>u. ul_username u = un \<and> ul_password u = Some pw \<and> user_matchaction u a) (users db)"

definition grants_instcmd :: "userdb \<Rightarrow> string \<Rightarrow> string \<Rightarrow> string \<Rightarrow> bool" where
  "grants_instcmd db un pw c \<longleftrightarrow>
     list_ex (\<lambda>u. ul_username u = un \<and> ul_password u = Some pw \<and> user_matchinstcmd u c) (users db)"

lemma checkaction_loop_iff:
  "distinct (map ul_username us) \<Longrightarrow> checkaction_loop us un pw a \<longleftrightarrow>
   (\<exists>u\<in>set us. ul_username u = un \<and> ul_password u = Some pw \<and> user_matchaction u a)"
proof (induction us)
  case (Cons u us)
  then show ?case by (cases "ul_password u"; cases "ul_username u = un") (auto simp: image_iff)
qed simp

lemma checkinstcmd_loop_iff:
  "distinct (map ul_username us) \<Longrightarrow> checkinstcmd_loop us un pw a \<longleftrightarrow>
   (\<exists>u\<in>set us. ul_username u = un \<and> ul_password u = Some pw \<and> user_matchinstcmd u a)"
proof (induction us)
  case (Cons u us)
  then show ?case by (cases "ul_password u"; cases "ul_username u = un") (auto simp: image_iff)
qed simp

lemma user_check_iff:
  assumes "user_inv db"
  shows "user_checkaction db (Some un) (Some pw) a \<longleftrightarrow> grants_action db un pw a"
    and "user_checkinstcmd db (Some un) (Some pw) c \<longleftrightarrow> grants_instcmd db un pw c"
  using assms
  by (auto simp: user_checkaction_def user_checkinstcmd_def grants_action_def grants_instcmd_def
      list_ex_iff checkaction_loop_iff checkinstcmd_loop_iff user_inv_def)

text \<open>C27: Whatever \<open>upsd.users\<close> holds, after loading it into an empty database the checks succeed
  exactly when some entry of that name has exactly that password and lists the action up to case
  (for a command: the command, or \<open>all\<close>), and never without a user name or a password.\<close>

theorem user_checks_exact:
  "let db = user_load fopen confpath old \<lparr>users = [], curr_user = c\<rparr> in
   (user_checkaction db (Some un) (Some pw) a \<longleftrightarrow> grants_action db un pw a) \<and>
   (user_checkinstcmd db (Some un) (Some pw) cmd \<longleftrightarrow> grants_instcmd db un pw cmd) \<and>
   \<not> user_checkaction db None pwo a \<and> \<not> user_checkaction db uno None a \<and>
   \<not> user_checkinstcmd db None pwo cmd \<and> \<not> user_checkinstcmd db uno None cmd"
proof -
  have "user_inv (user_load fopen confpath old \<lparr>users = [], curr_user = c\<rparr>)"
    by (rule user_inv_load) simp
  from user_check_iff [OF this] show ?thesis
    by (simp add: user_checkaction_def user_checkinstcmd_def Let_def split: option.splits)
qed

section \<open>Well-formed files\<close>

text \<open>A section of \<open>upsd.users\<close> as an administrator writes it, and the lines of it.\<close>

datatype upsmon_role = NoRole | Master | Slave

record usec =
  us_name :: string
  us_pw :: string
  us_role :: upsmon_role
  us_acts :: "string list"
  us_cmds :: "string list"

fun role_lines :: "upsmon_role \<Rightarrow> tok list list" where
  "role_lines NoRole = []"
| "role_lines Master = [[Plain ''upsmon'', Plain ''master'']]"
| "role_lines Slave = [[Plain ''upsmon'', Plain ''slave'']]"

fun role_actions :: "upsmon_role \<Rightarrow> string list" where
  "role_actions NoRole = []"
| "role_actions Master = [''login'', ''master'', ''fsd'']"
| "role_actions Slave = [''login'']"

definition setting :: "string \<Rightarrow> string list \<Rightarrow> tok list list" where
  "setting v xs = (if xs = [] then [] else [Plain v # Plain ''='' # map Quoted xs])"

definition usec_lines :: "usec \<Rightarrow> tok list list" where
  "usec_lines s = [[Plain (CHR ''['' # us_name s @ '']'')],
       [Plain ''password'', Plain ''='', Quoted (us_pw s)]] @ role_lines (us_role s) @
     setting ''actions'' (us_acts s) @ setting ''instcmds'' (us_cmds s)"

definition usec_ok :: "usec \<Rightarrow> bool" where
  "usec_ok s \<longleftrightarrow> list_all (msg_ok 32 512) (usec_lines s)"

definition sec_grants_action :: "usec list \<Rightarrow> string \<Rightarrow> string \<Rightarrow> string \<Rightarrow> bool" where
  "sec_grants_action ss un pw a \<longleftrightarrow> list_ex (\<lambda>s. us_name s = un \<and> us_pw s = pw \<and>
     list_ex (\<lambda>x. strcaseeq x a) (role_actions (us_role s) @ us_acts s)) ss"

definition sec_grants_instcmd :: "usec list \<Rightarrow> string \<Rightarrow> string \<Rightarrow> string \<Rightarrow> bool" where
  "sec_grants_instcmd ss un pw c \<longleftrightarrow> list_ex (\<lambda>s. us_name s = un \<and> us_pw s = pw \<and>
     list_ex (\<lambda>x. strcaseeq x c \<or> strcaseeq x ''all'') (us_cmds s)) ss"

text \<open>The last entry of the database is the current one.\<close>

abbreviation cur :: "ulist list \<Rightarrow> ulist \<Rightarrow> userdb" where
  "cur us u \<equiv> \<lparr>users = us @ [u], curr_user = Some (length us)\<rparr>"

abbreviation parse_line :: "userdb \<Rightarrow> tok list \<Rightarrow> userdb" where
  "parse_line db ts \<equiv> user_parse_arg (map tok_word ts) db"

fun add_cmds :: "string list \<Rightarrow> string list \<Rightarrow> string list" where
  "add_cmds ys [] = ys"
| "add_cmds ys (x # xs) =
     add_cmds (if list_ex (\<lambda>c. strcaseeq c x) ys then ys else ys @ [x]) xs"

lemma add_cmds_mem:
  "list_ex (\<lambda>x. strcaseeq x c \<or> strcaseeq x d) (add_cmds ys xs) \<longleftrightarrow>
   list_ex (\<lambda>x. strcaseeq x c \<or> strcaseeq x d) (ys @ xs)"
proof (induction xs arbitrary: ys)
  case (Cons x xs)
  show ?case
  proof (cases "list_ex (\<lambda>c. strcaseeq c x) ys")
    case True
    then obtain y where "y \<in> set ys" "lower y = lower x" by (auto simp: list_ex_iff strcaseeq_iff)
    with Cons True show ?thesis by (auto simp: list_ex_iff strcaseeq_iff)
  qed (use Cons in \<open>auto simp: list_ex_iff\<close>)
qed simp

lemmas user_word_eval = user_parse_arg_def user_parse_rest_def user_parse_var_def set_upsmon_type_def
  strcaseeq_def tolower_def Let_def

lemma cur_ops [simp]:
  "user_password (cur us u) x =
     (if ul_password u = None then cur us (u\<lparr>ul_password := Some x\<rparr>) else cur us u)"
  "user_add_action (cur us u) x = cur us (u\<lparr>ul_firstaction := ul_firstaction u @ [x]\<rparr>)"
  "user_add_instcmd (cur us u) x = (if list_ex (\<lambda>c. strcaseeq c x) (ul_firstcmd u) then cur us u
     else cur us (u\<lparr>ul_firstcmd := ul_firstcmd u @ [x]\<rparr>))"
  by (auto simp: user_password_def user_add_action_def user_add_instcmd_def addaction_def)

lemma cur_fold_actions:
  "foldl (\<lambda>db x. user_parse_var db ''actions'' x) (cur us u) xs =
     cur us (u\<lparr>ul_firstaction := ul_firstaction u @ xs\<rparr>)"
  by (induction xs arbitrary: u) (simp_all add: user_word_eval)

lemma cur_fold_cmds:
  "foldl (\<lambda>db x. user_parse_var db ''instcmds'' x) (cur us u) xs =
     cur us (u\<lparr>ul_firstcmd := add_cmds (ul_firstcmd u) xs\<rparr>)"
  by (induction xs arbitrary: u) (simp_all add: user_word_eval)

lemma cut_equals_None: "cut_equals w = None \<longleftrightarrow> CHR ''='' \<notin> set w"
  by (induction w) auto

lemma parse_header:
  assumes "CHR ''='' \<notin> set nm" "nm \<notin> ul_username ` set us"
  shows "user_parse_arg [CHR ''['' # nm @ '']''] \<lparr>users = us, curr_user = c\<rparr> =
     cur us \<lparr>ul_username = nm, ul_password = None, ul_firstcmd = [], ul_firstaction = []\<rparr>"
proof -
  have "cut_equals (CHR ''['' # nm @ '']'') = None" using assms(1) by (simp add: cut_equals_None)
  with assms(2) show ?thesis
    by (auto simp: user_parse_arg_def user_add_def list_ex_iff strcaseeq_def tolower_def butlast_append)
qed

lemma parse_setting:
  "foldl parse_line (cur us u) (setting ''actions'' xs) = cur us (u\<lparr>ul_firstaction := ul_firstaction u @ xs\<rparr>)"
  "foldl parse_line (cur us u) (setting ''instcmds'' xs) = cur us (u\<lparr>ul_firstcmd := add_cmds (ul_firstcmd u) xs\<rparr>)"
  "ul_password u = None \<Longrightarrow> user_parse_arg [''password'', ''='', y] (cur us u) =
     cur us (u\<lparr>ul_password := Some y\<rparr>)"
proof -
  have w: "map (tok_word \<circ> Quoted) ys = ys" for ys by (simp add: comp_def)
  have "user_parse_arg (''actions'' # ''='' # x # ys) (cur us u) = cur us (u\<lparr>ul_firstaction := ul_firstaction u @ x # ys\<rparr>)" for x ys
    using cur_fold_actions [of us u "x # ys"]
    by (simp add: user_parse_arg_def user_parse_rest_def strcaseeq_def tolower_def)
  then show "foldl parse_line (cur us u) (setting ''actions'' xs) =
      cur us (u\<lparr>ul_firstaction := ul_firstaction u @ xs\<rparr>)"
    by (cases xs) (simp_all add: setting_def w)
  have "user_parse_arg (''instcmds'' # ''='' # x # ys) (cur us u) = cur us (u\<lparr>ul_firstcmd := add_cmds (ul_firstcmd u) (x # ys)\<rparr>)" for x ys
    using cur_fold_cmds [of us u "x # ys"]
    by (simp add: user_parse_arg_def user_parse_rest_def strcaseeq_def tolower_def)
  then show "foldl parse_line (cur us u) (setting ''instcmds'' xs) =
      cur us (u\<lparr>ul_firstcmd := add_cmds (ul_firstcmd u) xs\<rparr>)"
    by (cases xs) (simp_all add: setting_def w)
  show "ul_password u = None \<Longrightarrow> user_parse_arg [''password'', ''='', y] (cur us u) =
     cur us (u\<lparr>ul_password := Some y\<rparr>)"
    by (simp add: user_word_eval)
qed

lemma parse_role:
  "foldl parse_line (cur us u) (role_lines r) = cur us (u\<lparr>ul_firstaction := ul_firstaction u @ role_actions r\<rparr>)"
  by (cases r) (simp_all add: user_word_eval)

definition usec_entry :: "usec \<Rightarrow> ulist" where
  "usec_entry s = \<lparr>ul_username = us_name s, ul_password = Some (us_pw s),
     ul_firstcmd = add_cmds [] (us_cmds s), ul_firstaction = role_actions (us_role s) @ us_acts s\<rparr>"

lemma usec_entry_simps [simp]:
  "ul_username (usec_entry s) = us_name s" "ul_password (usec_entry s) = Some (us_pw s)"
  "user_matchaction (usec_entry s) a \<longleftrightarrow> list_ex (\<lambda>x. strcaseeq x a) (role_actions (us_role s) @ us_acts s)"
  "user_matchinstcmd (usec_entry s) c \<longleftrightarrow> list_ex (\<lambda>x. strcaseeq x c \<or> strcaseeq x ''all'') (us_cmds s)"
  by (simp_all add: usec_entry_def matchaction_iff matchinstcmd_iff add_cmds_mem)

lemma plain_no_equals: "list_all plain_char w \<Longrightarrow> CHR ''='' \<notin> set w"
  by (induction w) (auto simp: plain_char_def)

lemma usec_ok_name: "usec_ok s \<Longrightarrow> CHR ''='' \<notin> set (us_name s)"
  by (auto simp: usec_ok_def usec_lines_def msg_ok_def dest: plain_no_equals)

lemma parse_usec:
  assumes "usec_ok s" "us_name s \<notin> ul_username ` set us"
  shows "foldl parse_line \<lparr>users = us, curr_user = c\<rparr> (usec_lines s) = cur us (usec_entry s)"
  using parse_header [OF usec_ok_name [OF assms(1)] assms(2)]
  by (simp add: usec_lines_def parse_role parse_setting usec_entry_def)

lemma parse_usecs:
  "list_all usec_ok ss \<Longrightarrow> distinct (map ul_username us @ map us_name ss) \<Longrightarrow>
   users (foldl parse_line \<lparr>users = us, curr_user = c\<rparr> (concat (map usec_lines ss))) =
     us @ map usec_entry ss"
proof (induction ss arbitrary: us c)
  case (Cons s ss)
  have "users (foldl parse_line (cur us (usec_entry s)) (concat (map usec_lines ss))) =
      (us @ [usec_entry s]) @ map usec_entry ss"
    using Cons.prems by (intro Cons.IH) (auto simp: usec_entry_def)
  with parse_usec [of s us c] Cons.prems show ?case by auto
qed simp

text \<open>C39: A file made of sections with different names, each with a password and optionally an
  upsmon role, actions and instant commands, grants exactly what its sections say: the role
  \<open>master\<close> means the actions login, master and fsd, \<open>slave\<close> means login, and \<open>all\<close> stands for
  every command.\<close>

theorem user_load_grants:
  assumes "list_all usec_ok ss" and "distinct (map us_name ss)"
    and "fopen (snprintf SMALLBUF (confpath @ ''/upsd.users'')) =
           Inr (concat (map message (concat (map usec_lines ss))))"
  shows "let db = user_load fopen confpath old \<lparr>users = [], curr_user = c\<rparr> in
    (user_checkaction db (Some un) (Some pw) a \<longleftrightarrow> sec_grants_action ss un pw a) \<and>
    (user_checkinstcmd db (Some un) (Some pw) cmd \<longleftrightarrow> sec_grants_instcmd ss un pw cmd)"
proof -
  let ?db = "user_load fopen confpath old \<lparr>users = [], curr_user = c\<rparr>"
  let ?lines = "concat (map usec_lines ss)"
  have ok: "list_all (msg_ok 32 512) ?lines"
    using assms(1) by (induction ss) (auto simp: usec_ok_def)
  have begin_file: "pconf_file_begin fopen (pconf_init old) (snprintf SMALLBUF (confpath @ ''/upsd.users'')) =
      (1, (pconf_init old)\<lparr>pc_f := Some (concat (map message ?lines))\<rparr>)"
    using assms(3) by (simp add: pconf_file_begin_def check_magic_def) (simp add: pconf_init_def)
  have live: "pconf_live 32 512 ((pconf_init old)\<lparr>pc_f := Some (concat (map message ?lines))\<rparr>)"
    using pconf_init_live [of old] by (simp add: pconf_live_def)
  have "?db = foldl parse_line \<lparr>users = [], curr_user = None\<rparr> ?lines"
    using read_lines_messages [OF ok live, of "user_parse_arg" "\<lparr>users = [], curr_user = None\<rparr>"]
    by (simp add: user_load_def begin_file Let_def) (simp add: pconf_init_def)
  then have us: "users ?db = map usec_entry ss"
    using parse_usecs [of ss "[]" None] assms(1,2) by simp
  have "user_inv ?db" by (rule user_inv_load) simp
  from user_check_iff [OF this] show ?thesis
    by (simp add: us Let_def grants_action_def grants_instcmd_def sec_grants_action_def
        sec_grants_instcmd_def list_ex_iff)
qed

theorem user_load_grants_witness:
  "let ss = [\<lparr>us_name = ''admin'', us_pw = ''a b'', us_role = NoRole, us_acts = [''SET'', ''FSD''], us_cmds = [''ALL'']\<rparr>,
             \<lparr>us_name = ''mon'', us_pw = ''s'', us_role = Slave, us_acts = [], us_cmds = []\<rparr>];
       db = user_load (\<lambda>fn. Inr (concat (map message (concat (map usec_lines ss))))) ''/etc/nut''
              zero_ctx \<lparr>users = [], curr_user = None\<rparr>
   in user_checkaction db (Some ''admin'') (Some ''a b'') ''set'' \<and>
      \<not> user_checkaction db (Some ''mon'') (Some ''s'') ''fsd''"
proof -
  let ?ss = "[\<lparr>us_name = ''admin'', us_pw = ''a b'', us_role = NoRole, us_acts = [''SET'', ''FSD''], us_cmds = [''ALL'']\<rparr>,
             \<lparr>us_name = ''mon'', us_pw = ''s'', us_role = Slave, us_acts = [], us_cmds = []\<rparr>]"
  let ?db = "user_load (\<lambda>fn. Inr (concat (map message (concat (map usec_lines ?ss))))) ''/etc/nut''
              zero_ctx \<lparr>users = [], curr_user = None\<rparr>"
  have ok: "list_all usec_ok ?ss" by code_simp
  have dist: "distinct (map us_name ?ss)" by code_simp
  have g: "sec_grants_action ?ss ''admin'' ''a b'' ''set''" "\<not> sec_grants_action ?ss ''mon'' ''s'' ''fsd''"
    by code_simp+
  have "user_checkaction ?db (Some un) (Some pw) a \<longleftrightarrow> sec_grants_action ?ss un pw a" for un pw a
    using user_load_grants [OF ok dist, of "\<lambda>fn. Inr (concat (map message (concat (map usec_lines ?ss))))"
        "''/etc/nut''" zero_ctx None un pw a] by (simp only: Let_def simp_thms)
  with g show ?thesis by (simp only: Let_def simp_thms)
qed

text \<open>A section header that repeats the name of an earlier user is ignored together with its
  effect on \<open>curr_user\<close>: the settings that follow it are given to the user defined just before.\<close>

theorem user_duplicate_section:
  assumes "list_ex (\<lambda>u. ul_username u = un) (users db)" and "CHR ''='' \<notin> set un"
    and "curr_user db = Some i"
  shows "user_parse_arg [''actions'', ''='', act] (user_parse_arg [CHR ''['' # un @ '']''] db) =
     db\<lparr>users := (users db)[i := (users db ! i)\<lparr>ul_firstaction := ul_firstaction (users db ! i) @ [act]\<rparr>]\<rparr>"
proof -
  have "cut_equals (CHR ''['' # un @ '']'') = None" using assms(2) by (simp add: cut_equals_None)
  then have "user_parse_arg [CHR ''['' # un @ '']''] db = db"
    using assms(1) by (simp add: user_parse_arg_def user_add_def strcaseeq_def tolower_def butlast_append)
  with assms(3) show ?thesis
    by (simp add: user_word_eval user_add_action_def addaction_def)
qed

theorem user_duplicate_section_witness:
  "let db = foldl (\<lambda>db w. user_parse_arg w db) \<lparr>users = [], curr_user = None\<rparr>
       [[''[admin]''], [''password'', ''='', ''x''], [''[guest]''], [''password'', ''='', ''g'']]
   in \<not> user_checkaction db (Some ''guest'') (Some ''g'') ''SET'' \<and>
      user_checkaction (user_parse_arg [''actions'', ''='', ''SET''] (user_parse_arg [''[admin]''] db))
        (Some ''guest'') (Some ''g'') ''SET''"
proof -
  let ?db = "foldl (\<lambda>db w. user_parse_arg w db) \<lparr>users = [], curr_user = None\<rparr>
       [[''[admin]''], [''password'', ''='', ''x''], [''[guest]''], [''password'', ''='', ''g'']]"
  have h: "list_ex (\<lambda>u. ul_username u = ''admin'') (users ?db)" "CHR ''='' \<notin> set ''admin''"
    "curr_user ?db = Some 1" "\<not> user_checkaction ?db (Some ''guest'') (Some ''g'') ''SET''"
    by code_simp+
  have "user_checkaction (?db\<lparr>users := (users ?db)[1 := (users ?db ! 1)\<lparr>ul_firstaction :=
      ul_firstaction (users ?db ! 1) @ [''SET'']\<rparr>]\<rparr>) (Some ''guest'') (Some ''g'') ''SET''"
    by code_simp
  with h(4) user_duplicate_section [OF h(1-3), of "''SET''"] show ?thesis
    by (simp only: Let_def append_Cons append_Nil simp_thms)
qed

end
