(* ===== verification/Desc.thy ===== *)
theory Desc
  imports State
begin

text \<open>
  The descriptions of variables and commands that upsd reads from \<open>cmdvartab\<close>
  (\<open>server/desc.c\<close>): two linked lists, searched by name up to case, whose entries are replaced
  when a name is described again. The list is the second interpretation of the keyed store.
\<close>

record dlist_db =
  cmd_list :: "(string \<times> string) list"
  var_list :: "(string \<times> string) list"

fun list_get :: "(string \<times> string) list \<Rightarrow> string \<Rightarrow> string option" where
  "list_get [] name = None"
| "list_get (x # xs) name = (if strcaseeq (fst x) name then Some (snd x) else list_get xs name)"

text \<open>The entries \<open>list_free\<close> releases, in order.\<close>

fun list_free :: "(string \<times> string) list \<Rightarrow> (string \<times> string) list" where
  "list_free [] = []"
| "list_free (x # xs) = x # list_free xs"

fun desc_replace :: "(string \<times> string) list \<Rightarrow> string \<Rightarrow> string \<Rightarrow> (string \<times> string) list option" where
  "desc_replace [] name d = None"
| "desc_replace (x # xs) name d =
     (if strcaseeq (fst x) name then Some ((fst x, d) # xs)
      else map_option (\<lambda>ys. x # ys) (desc_replace xs name d))"

definition desc_add :: "(string \<times> string) list \<Rightarrow> string \<Rightarrow> string \<Rightarrow> (string \<times> string) list" where
  "desc_add xs name d = (case desc_replace xs name d of None \<Rightarrow> (name, d) # xs | Some ys \<Rightarrow> ys)"

definition desc_line :: "string list \<Rightarrow> dlist_db \<Rightarrow> dlist_db" where
  "desc_line arg db =
     (if length arg < 3 then db
      else if arg ! 0 = ''CMDDESC'' then db\<lparr>cmd_list := desc_add (cmd_list db) (arg ! 1) (arg ! 2)\<rparr>
      else if arg ! 0 = ''VARDESC'' then db\<lparr>var_list := desc_add (var_list db) (arg ! 1) (arg ! 2)\<rparr>
      else db)"

definition desc_load :: "(string \<Rightarrow> string + string) \<Rightarrow> string \<Rightarrow> pconf_ctx \<Rightarrow> dlist_db \<Rightarrow> dlist_db" where
  "desc_load fopen datapath stack_ctx db =
     (case pconf_file_begin fopen (pconf_init stack_ctx) (snprintf SMALLBUF (datapath @ ''/cmdvartab'')) of
        (r, ctx) \<Rightarrow>
          if r = 0 then db
          else snd (read_lines (\<lambda>ctx. desc_line (pconf_words ctx)) ctx db))"

definition desc_free :: "dlist_db \<Rightarrow> dlist_db" where
  "desc_free db = db\<lparr>cmd_list := [], var_list := []\<rparr>"

definition desc_get_cmd :: "dlist_db \<Rightarrow> string \<Rightarrow> string option" where
  "desc_get_cmd db name = list_get (cmd_list db) name"

definition desc_get_var :: "dlist_db \<Rightarrow> string \<Rightarrow> string option" where
  "desc_get_var db name = list_get (var_list db) name"

lemma list_get_case: "strcaseeq a b \<Longrightarrow> list_get xs a = list_get xs b"
  by (induction xs) (auto simp: strcaseeq_iff)

lemma desc_replace_get:
  "desc_replace xs name d = Some ys \<Longrightarrow>
   list_get ys w = (if strcaseeq w name then Some d else list_get xs w)"
proof (induction xs arbitrary: ys)
  case (Cons x xs)
  then show ?case by (auto simp: strcaseeq_iff split: if_splits)
qed simp

lemma desc_replace_None: "desc_replace xs name d = None \<Longrightarrow> list_get xs name = None"
  by (induction xs) (auto split: if_splits)

lemma list_get_add: "list_get (desc_add xs name d) w = (if strcaseeq w name then Some d else list_get xs w)"
  by (auto simp: desc_add_def desc_replace_get strcaseeq_sym [of w] split: option.splits)

abbreviation desc_app :: "(string \<times> string) list \<Rightarrow> string \<times> string \<Rightarrow> (string \<times> string) list" where
  "desc_app xs p \<equiv> desc_add xs (fst p) (snd p)"

interpretation desc_store: keyed_store "\<lambda>_. True" list_get desc_app fst "\<lambda>p _. Some (snd p)"
  by unfold_locales (simp_all add: list_get_add)

text \<open>The descriptions a file gives, in order.\<close>

definition desc_of :: "string \<Rightarrow> tok list \<Rightarrow> (string \<times> string) list" where
  "desc_of kw ts = (let w = map tok_word ts in
     if 3 \<le> length w \<and> w ! 0 = kw then [(w ! 1, w ! 2)] else [])"

lemma desc_lines:
  "foldl (\<lambda>db ts. desc_line (map tok_word ts) db) db tss =
     db\<lparr>cmd_list := foldl desc_app (cmd_list db) (concat (map (desc_of ''CMDDESC'') tss)),
        var_list := foldl desc_app (var_list db) (concat (map (desc_of ''VARDESC'') tss))\<rparr>"
  by (induction tss arbitrary: db) (auto simp: desc_line_def desc_of_def Let_def)

lemma fold_last: "fold (\<lambda>p _. Some (snd p)) xs m = (if xs = [] then m else Some (snd (last xs)))"
  by (induction xs arbitrary: m) auto

text \<open>After \<open>cmdvartab\<close> is loaded, the description of a variable, or of a command, is the
  last one the file gives for that name up to case, and there is none when the file gives none.\<close>

theorem desc_load_last_wins:
  assumes "list_all (msg_ok 32 512) tss"
    and "fopen (snprintf SMALLBUF (datapath @ ''/cmdvartab'')) = Inr (concat (map message tss))"
  shows "let db = desc_load fopen datapath old \<lparr>cmd_list = [], var_list = []\<rparr>;
             given = (\<lambda>kw. filter (\<lambda>p. strcaseeq name (fst p)) (concat (map (desc_of kw) tss)));
             latest = (\<lambda>ps. if ps = [] then None else Some (snd (last ps)))
         in desc_get_var db name = latest (given ''VARDESC'') \<and>
            desc_get_cmd db name = latest (given ''CMDDESC'')"
proof -
  have live: "pconf_live 32 512 ((pconf_init old)\<lparr>pc_f := Some (concat (map message tss))\<rparr>)"
    using pconf_init_live [of old] by (simp add: pconf_live_def)
  have "desc_load fopen datapath old \<lparr>cmd_list = [], var_list = []\<rparr> =
      foldl (\<lambda>db ts. desc_line (map tok_word ts) db) \<lparr>cmd_list = [], var_list = []\<rparr> tss"
    using read_lines_messages [OF assms(1) live, of "desc_line"] assms(2)
    by (simp add: desc_load_def pconf_file_begin_def check_magic_def) (simp add: pconf_init_def)
  then show ?thesis
    by (simp add: desc_lines desc_get_var_def desc_get_cmd_def desc_store.look_run fold_last Let_def)
qed

theorem desc_load_last_wins_witness:
  "let tss = [[Plain ''VARDESC'', Plain ''ups.id'', Quoted ''old''], [Plain ''VARDESC'', Plain ''UPS.ID'', Quoted ''UPS id'']];
       db = desc_load (\<lambda>fn. Inr (concat (map message tss))) ''/usr/share'' zero_ctx \<lparr>cmd_list = [], var_list = []\<rparr>
   in desc_get_var db ''ups.id'' = Some ''UPS id'' \<and> desc_get_cmd db ''ups.id'' = None"
proof -
  let ?tss = "[[Plain ''VARDESC'', Plain ''ups.id'', Quoted ''old''], [Plain ''VARDESC'', Plain ''UPS.ID'', Quoted ''UPS id'']]"
  have ok: "list_all (msg_ok 32 512) ?tss" by code_simp
  have "filter (\<lambda>p. strcaseeq ''ups.id'' (fst p)) (concat (map (desc_of ''VARDESC'') ?tss)) =
      [(''ups.id'', ''old''), (''UPS.ID'', ''UPS id'')]"
    "filter (\<lambda>p. strcaseeq ''ups.id'' (fst p)) (concat (map (desc_of ''CMDDESC'') ?tss)) = []"
    by code_simp+
  with desc_load_last_wins [OF ok, of "\<lambda>fn. Inr (concat (map message ?tss))" "''/usr/share''" zero_ctx "''ups.id''"]
  show ?thesis by (simp only: Let_def simp_thms last.simps snd_conv if_False if_True list.distinct)
qed

end
