(* ===== verification/Server.thy ===== *)
theory Server
  imports Sstate User Desc
begin

text \<open>
  The state of upsd and the part of \<open>server/upsd.c\<close> that the network commands use
  (\<open>server/nut_ctype.h\<close>, \<open>server/upsd.h\<close>, \<open>server/neterr.h\<close>): the list of UPSes, the list of
  clients, finding a UPS by name, answering a client. A pointer to a UPS or to a client is its
  position in the list; none of the commands adds or removes an entry of either list.

  The build without SSL is modelled, with \<open>HAVE_WRAP\<close>: what tcp-wrappers answer for a client's
  address and user name is the field \<open>hosts_access\<close>; the version string of the build is the field
  \<open>ups_version\<close>.
\<close>

section \<open>State\<close>

record nut_ctype =
  cl_addr :: string
  cl_sock :: sock
  cl_last_heard :: int
  loginups :: "string option"
  cl_password :: "string option"
  cl_username :: "string option"
  cl_ctx :: pconf_ctx

record upsd =
  firstups :: "upstype list"
  firstclient :: "nut_ctype list"
  user_db :: userdb
  desc_db :: dlist_db
  maxage :: int
  maxconn :: int
  hosts_access :: "string \<Rightarrow> string \<Rightarrow> bool"
  ups_version :: string

abbreviation client_at :: "upsd \<Rightarrow> nat \<Rightarrow> nut_ctype" where
  "client_at s i \<equiv> firstclient s ! i"

definition set_client :: "upsd \<Rightarrow> nat \<Rightarrow> nut_ctype \<Rightarrow> upsd" where
  "set_client s i c = s\<lparr>firstclient := (firstclient s)[i := c]\<rparr>"

definition set_ups :: "upsd \<Rightarrow> nat \<Rightarrow> upstype \<Rightarrow> upsd" where
  "set_ups s u x = s\<lparr>firstups := (firstups s)[u := x]\<rparr>"

section \<open>Operations\<close>

definition get_ups_ptr :: "upsd \<Rightarrow> string \<Rightarrow> nat option" where
  "get_ups_ptr s name = find_index (\<lambda>tmp. strcaseeq (ups_name tmp) name) (firstups s)"

definition ups_data_stale :: "upstype \<Rightarrow> upstype" where
  "ups_data_stale ups = (if ups_stale ups then ups else ups\<lparr>ups_stale := True\<rparr>)"

definition ups_data_ok :: "upstype \<Rightarrow> upstype" where
  "ups_data_ok ups = (if \<not> ups_stale ups then ups else ups\<lparr>ups_stale := False\<rparr>)"

definition NUT_NET_ANSWER_MAX :: nat where "NUT_NET_ANSWER_MAX = SMALLBUF"

definition sendback :: "upsd \<Rightarrow> nat \<Rightarrow> string \<Rightarrow> upsd \<times> bool" where
  "sendback s i txt =
     (let c = client_at s i;
          ans = snprintf (NUT_NET_ANSWER_MAX + 1) txt;
          (k, ok) = sock_write (cl_sock c) ans;
          c1 = c\<lparr>cl_sock := k\<rparr>
      in if \<not> ok then (set_client s i (c1\<lparr>cl_last_heard := 0\<rparr>), False)
         else (set_client s i c1, True))"

definition send_err :: "upsd \<Rightarrow> nat \<Rightarrow> string \<Rightarrow> upsd" where
  "send_err s i errtype = fst (sendback s i (''ERR '' @ errtype @ nl))"

definition ups_available :: "upsd \<Rightarrow> nat \<Rightarrow> upstype \<Rightarrow> upsd \<times> bool" where
  "ups_available s i ups =
     (if sock_fd ups < 0 then (send_err s i ''DRIVER-NOT-CONNECTED'', False)
      else if ups_stale ups then (send_err s i ''DATA-STALE'', False)
      else (s, True))"

definition declogins :: "upsd \<Rightarrow> string \<Rightarrow> upsd" where
  "declogins s upsname =
     (case get_ups_ptr s upsname of
        None \<Rightarrow> s
      | Some u \<Rightarrow> set_ups s u ((firstups s ! u)\<lparr>numlogins := numlogins (firstups s ! u) - 1\<rparr>))"

text \<open>The list without the entry at a position, as unlinking it gives.\<close>

definition unlink_at :: "nat \<Rightarrow> 'a list \<Rightarrow> 'a list" where
  "unlink_at i xs = take i xs @ drop (Suc i) xs"

definition client_disconnect :: "upsd \<Rightarrow> nat \<Rightarrow> upsd" where
  "client_disconnect s i =
     (let c = client_at s i;
          s1 = (case loginups c of None \<Rightarrow> s | Some nm \<Rightarrow> declogins s nm)
      in s1\<lparr>firstclient := unlink_at i (firstclient s1)\<rparr>)"

text \<open>The loop of \<open>kick_login_clients\<close> with \<open>n\<close> clients left to look at, the next of them
  at position \<open>i\<close>: after a disconnect the next client is at the same position.\<close>

fun kick_loop :: "nat \<Rightarrow> upsd \<Rightarrow> string \<Rightarrow> nat \<Rightarrow> upsd" where
  "kick_loop 0 s upsname i = s"
| "kick_loop (Suc n) s upsname i =
     (case loginups (client_at s i) of
        None \<Rightarrow> kick_loop n s upsname (Suc i)
      | Some nm \<Rightarrow>
          if nm = upsname then kick_loop n (client_disconnect s i) upsname i
          else kick_loop n s upsname (Suc i))"

lemma unlink_at_length: "i < length xs \<Longrightarrow> length (unlink_at i xs) = length xs - 1"
  by (simp add: unlink_at_def)

lemma declogins_clients [simp]: "firstclient (declogins s nm) = firstclient s"
  by (simp add: declogins_def set_ups_def split: option.splits)

lemma client_disconnect_clients:
  "firstclient (client_disconnect s i) = unlink_at i (firstclient s)"
  by (simp add: client_disconnect_def Let_def split: option.splits)

definition kick_login_clients :: "upsd \<Rightarrow> string \<Rightarrow> upsd" where
  "kick_login_clients s upsname = kick_loop (length (firstclient s)) s upsname 0"

section \<open>Answering a client changes only that client's connection\<close>

text \<open>Two states that differ at most in the socket and the time stamp of client \<open>i\<close>.\<close>

definition only_answered :: "nat \<Rightarrow> upsd \<Rightarrow> upsd \<Rightarrow> bool" where
  "only_answered i s t \<longleftrightarrow> (\<exists>k h. t = set_client s i ((client_at s i)\<lparr>cl_sock := k, cl_last_heard := h\<rparr>))"

lemma set_client_fields [simp]:
  "firstups (set_client s i c) = firstups s" "user_db (set_client s i c) = user_db s"
  "desc_db (set_client s i c) = desc_db s" "maxage (set_client s i c) = maxage s"
  "maxconn (set_client s i c) = maxconn s" "hosts_access (set_client s i c) = hosts_access s"
  "ups_version (set_client s i c) = ups_version s"
  "firstclient (set_client s i c) = (firstclient s)[i := c]"
  by (simp_all add: set_client_def)

lemma set_client_same [simp]: "set_client s i (client_at s i) = s"
  by (simp add: set_client_def)

lemma only_answered_refl [simp, intro]: "only_answered i s s"
proof -
  have "s = set_client s i ((client_at s i)\<lparr>cl_sock := cl_sock (client_at s i),
      cl_last_heard := cl_last_heard (client_at s i)\<rparr>)" by simp
  then show ?thesis unfolding only_answered_def by blast
qed

lemma set_client_twice [simp]: "set_client (set_client s i c) i d = set_client s i d"
  by (simp add: set_client_def)

lemma client_at_set:
  "client_at (set_client s i c) j = (if j = i \<and> i < length (firstclient s) then c else client_at s j)"
  by (cases "i < length (firstclient s)") (auto simp: nth_list_update list_update_beyond)

lemma set_client_beyond: "\<not> i < length (firstclient s) \<Longrightarrow> set_client s i c = s"
  by (simp add: set_client_def list_update_beyond)

lemma only_answered_trans [trans]: "only_answered i s t \<Longrightarrow> only_answered i t u \<Longrightarrow> only_answered i s u"
  by (cases "i < length (firstclient s)")
    (fastforce simp: only_answered_def set_client_beyond)+

lemma sendback_only [simp, intro]: "only_answered i s (fst (sendback s i txt))"
proof -
  obtain k ok where w: "sock_write (cl_sock (client_at s i)) (snprintf (NUT_NET_ANSWER_MAX + 1) txt) = (k, ok)"
    by force
  have "fst (sendback s i txt) = set_client s i ((client_at s i)\<lparr>cl_sock := k,
      cl_last_heard := (if ok then cl_last_heard (client_at s i) else 0)\<rparr>)"
    using w by (simp add: sendback_def Let_def)
  then show ?thesis unfolding only_answered_def by blast
qed

lemma send_err_only [simp, intro]: "only_answered i s (send_err s i e)"
  by (simp add: send_err_def)

lemma ups_available_only [simp, intro]: "only_answered i s (fst (ups_available s i ups))"
  by (simp add: ups_available_def)

lemma ups_available_True: "ups_available s i ups = (t, True) \<Longrightarrow> t = s \<and> 0 \<le> sock_fd ups \<and> \<not> ups_stale ups"
  by (auto simp: ups_available_def split: if_splits)

text \<open>What does not change.\<close>

lemma only_answeredD:
  assumes "only_answered i s t"
  shows "firstups t = firstups s" "user_db t = user_db s" "length (firstclient t) = length (firstclient s)"
    "desc_db t = desc_db s" "hosts_access t = hosts_access s"
    "j \<noteq> i \<Longrightarrow> client_at t j = client_at s j"
    "loginups (client_at t j) = loginups (client_at s j)"
    "cl_username (client_at t j) = cl_username (client_at s j)"
    "cl_password (client_at t j) = cl_password (client_at s j)"
    "cl_ctx (client_at t j) = cl_ctx (client_at s j)" "cl_addr (client_at t j) = cl_addr (client_at s j)"
    "map loginups (firstclient t) = map loginups (firstclient s)"
proof -
  obtain k h where t: "t = set_client s i ((client_at s i)\<lparr>cl_sock := k, cl_last_heard := h\<rparr>)"
    using assms by (auto simp: only_answered_def)
  show "firstups t = firstups s" "user_db t = user_db s" "length (firstclient t) = length (firstclient s)"
    "desc_db t = desc_db s" "hosts_access t = hosts_access s"
    "j \<noteq> i \<Longrightarrow> client_at t j = client_at s j"
    by (simp_all add: t)
  show "loginups (client_at t j) = loginups (client_at s j)"
    "cl_username (client_at t j) = cl_username (client_at s j)"
    "cl_password (client_at t j) = cl_password (client_at s j)"
    "cl_ctx (client_at t j) = cl_ctx (client_at s j)" "cl_addr (client_at t j) = cl_addr (client_at s j)"
    by (simp_all add: t client_at_set del: set_client_fields)
  show "map loginups (firstclient t) = map loginups (firstclient s)"
    by (simp add: t map_update_same)
qed

section \<open>Invariant\<close>

text \<open>The login counter of each UPS is the number of clients logged into it, a client is logged
  into a UPS of the list, and UPS names differ up to case.\<close>

definition login_known :: "upsd \<Rightarrow> string option \<Rightarrow> bool" where
  "login_known s l \<longleftrightarrow> (case l of None \<Rightarrow> True | Some nm \<Rightarrow> nm \<in> set (map ups_name (firstups s)))"

lemma login_known_cong:
  "map ups_name (firstups t) = map ups_name (firstups s) \<Longrightarrow> login_known t = login_known s"
  unfolding login_known_def by (simp only:)

definition logins_ok :: "upsd \<Rightarrow> bool" where
  "logins_ok s \<longleftrightarrow> distinct (map (lower \<circ> ups_name) (firstups s)) \<and>
     list_all (login_known s) (map loginups (firstclient s)) \<and>
     list_all (\<lambda>ups. numlogins ups = int (count_list (map loginups (firstclient s)) (Some (ups_name ups))))
       (firstups s)"

definition upsd_inv :: "upsd \<Rightarrow> bool" where
  "upsd_inv s \<longleftrightarrow> logins_ok s \<and> list_all ups_inv (firstups s) \<and>
     list_all (\<lambda>c. pconf_live PCONF_DEFAULT_ARG_LIMIT PCONF_DEFAULT_WORDLEN_LIMIT (cl_ctx c)) (firstclient s) \<and>
     user_inv (user_db s)"

lemma get_ups_ptr_Some:
  assumes "get_ups_ptr s nm = Some u"
  shows "u < length (firstups s)" "strcaseeq (ups_name (firstups s ! u)) nm"
  using find_index_SomeD [OF assms [unfolded get_ups_ptr_def]] by auto

lemma set_ups_fields [simp]:
  "firstclient (set_ups s u x) = firstclient s" "user_db (set_ups s u x) = user_db s"
  "firstups (set_ups s u x) = (firstups s)[u := x]" "desc_db (set_ups s u x) = desc_db s"
  "hosts_access (set_ups s u x) = hosts_access s"
  by (simp_all add: set_ups_def)

lemma list_all_update: "list_all P xs \<Longrightarrow> P x \<Longrightarrow> list_all P (xs[i := x])"
  by (auto simp: list_all_iff dest!: subsetD [OF set_update_subset_insert])

lemma only_answered_inv:
  assumes "only_answered i s t" "upsd_inv s"
  shows "upsd_inv t"
proof -
  obtain k h where t: "t = set_client s i ((client_at s i)\<lparr>cl_sock := k, cl_last_heard := h\<rparr>)"
    using assms(1) by (auto simp: only_answered_def)
  have live: "list_all (\<lambda>c. pconf_live PCONF_DEFAULT_ARG_LIMIT PCONF_DEFAULT_WORDLEN_LIMIT (cl_ctx c)) (firstclient t)"
  proof (cases "i < length (firstclient s)")
    case True
    with assms(2) show ?thesis unfolding t upsd_inv_def
      by (auto simp: list_all_length nth_list_update)
  qed (use assms(2) in \<open>simp add: t set_client_beyond upsd_inv_def\<close>)
  have "login_known t = login_known s"
    using only_answeredD(1) [OF assms(1)] by (intro login_known_cong) simp
  with only_answeredD [OF assms(1)] assms(2) live show ?thesis
    by (simp add: upsd_inv_def logins_ok_def)
qed

text \<open>Changing a UPS in place, with its name and login counter kept.\<close>

lemma set_ups_inv:
  assumes "upsd_inv s" "u < length (firstups s)" "ups_inv x" "ups_name x = ups_name (firstups s ! u)"
    "numlogins x = numlogins (firstups s ! u)"
  shows "upsd_inv (set_ups s u x)"
proof -
  have "map (lower \<circ> ups_name) ((firstups s)[u := x]) = map (lower \<circ> ups_name) (firstups s)"
    using assms(4) by (simp add: map_update_same)
  moreover have "list_all (\<lambda>ups. numlogins ups = int (count_list (map loginups (firstclient s)) (Some (ups_name ups))))
      ((firstups s)[u := x])"
    using assms by (intro list_all_update) (auto simp: upsd_inv_def logins_ok_def list_all_length)
  moreover have "login_known (set_ups s u x) = login_known s"
    using assms(4) by (intro login_known_cong) (simp add: map_update_same)
  ultimately show ?thesis
    using assms by (simp add: upsd_inv_def logins_ok_def list_all_update)
qed

section \<open>The contract of a network command\<close>

text \<open>What the dispatcher relies on: a command run for client \<open>i\<close> keeps the server's invariant,
  the parser contexts and every other client, adds and removes nobody, keeps the user database and
  never changes a user name or password once it is set.\<close>

locale net_command =
  fixes h :: "upsd \<Rightarrow> nat \<Rightarrow> string list \<Rightarrow> upsd"
  assumes inv: "upsd_inv s \<Longrightarrow> i < length (firstclient s) \<Longrightarrow> upsd_inv (h s i arg)"
    and others: "j \<noteq> i \<Longrightarrow> client_at (h s i arg) j = client_at s j"
    and len: "length (firstclient (h s i arg)) = length (firstclient s)"
    and users: "user_db (h s i arg) = user_db s"
    and access: "hosts_access (h s i arg) = hosts_access s"
    and ctx: "cl_ctx (client_at (h s i arg) i) = cl_ctx (client_at s i)"
    and names: "map ups_name (firstups (h s i arg)) = map ups_name (firstups s)"
    and username: "cl_username (client_at s i) \<noteq> None \<Longrightarrow>
          cl_username (client_at (h s i arg) i) = cl_username (client_at s i)"
    and password: "cl_password (client_at s i) \<noteq> None \<Longrightarrow>
          cl_password (client_at (h s i arg) i) = cl_password (client_at s i)"
begin

lemma ctx_all: "cl_ctx (client_at (h s i arg) j) = cl_ctx (client_at s j)"
  using ctx others by (cases "j = i") auto

lemma credentials:
  "cl_username (client_at s j) = Some n \<Longrightarrow> cl_username (client_at (h s i arg) j) = Some n"
  "cl_password (client_at s j) = Some p \<Longrightarrow> cl_password (client_at (h s i arg) j) = Some p"
  using username [of s i arg] password [of s i arg] others [of j i s arg] by (cases "j = i"; simp)+

end

text \<open>Commands that only answer are such commands.\<close>

locale net_query =
  fixes h :: "upsd \<Rightarrow> nat \<Rightarrow> string list \<Rightarrow> upsd"
  assumes only: "only_answered i s (h s i arg)"

sublocale net_query \<subseteq> net_command h
  by unfold_locales (use only only_answeredD only_answered_inv in metis)+

text \<open>Commands that, before they answer, change one UPS, but neither its name nor its login
  counter, are such commands too.\<close>

locale net_ups_command =
  fixes h :: "upsd \<Rightarrow> nat \<Rightarrow> string list \<Rightarrow> upsd"
  assumes change: "only_answered i s (h s i arg) \<or>
    (\<exists>u x. u < length (firstups s) \<and> (ups_inv (firstups s ! u) \<longrightarrow> ups_inv x) \<and>
       ups_name x = ups_name (firstups s ! u) \<and> numlogins x = numlogins (firstups s ! u) \<and>
       only_answered i (set_ups s u x) (h s i arg))"
begin

lemma effect:
  obtains t where "only_answered i t (h s i arg)" "firstclient t = firstclient s" "user_db t = user_db s"
    "hosts_access t = hosts_access s" "map ups_name (firstups t) = map ups_name (firstups s)"
    "upsd_inv s \<longrightarrow> upsd_inv t"
proof (cases "only_answered i s (h s i arg)")
  case True
  then show ?thesis using that [of s] by simp
next
  case False
  then obtain u x where x: "u < length (firstups s)" "ups_inv (firstups s ! u) \<longrightarrow> ups_inv x"
    "ups_name x = ups_name (firstups s ! u)" "numlogins x = numlogins (firstups s ! u)"
    "only_answered i (set_ups s u x) (h s i arg)"
    using change by blast
  have "upsd_inv s \<longrightarrow> upsd_inv (set_ups s u x)"
    using x set_ups_inv [of s u x] by (auto simp: upsd_inv_def list_all_length)
  then show ?thesis
    using that [of "set_ups s u x"] x by (simp add: map_update_same)
qed

end

sublocale net_ups_command \<subseteq> net_command h
proof unfold_locales
  fix s i arg
  obtain t where t: "only_answered i t (h s i arg)" "firstclient t = firstclient s" "user_db t = user_db s"
    "hosts_access t = hosts_access s" "map ups_name (firstups t) = map ups_name (firstups s)"
    "upsd_inv s \<longrightarrow> upsd_inv t"
    by (rule effect)
  note d = only_answeredD [OF t(1)]
  show "upsd_inv s \<Longrightarrow> i < length (firstclient s) \<Longrightarrow> upsd_inv (h s i arg)"
    using only_answered_inv [OF t(1)] t(6) by blast
  show "length (firstclient (h s i arg)) = length (firstclient s)" "user_db (h s i arg) = user_db s"
    "hosts_access (h s i arg) = hosts_access s" "cl_ctx (client_at (h s i arg) i) = cl_ctx (client_at s i)"
    "map ups_name (firstups (h s i arg)) = map ups_name (firstups s)"
    "cl_username (client_at (h s i arg) i) = cl_username (client_at s i)"
    "cl_password (client_at (h s i arg) i) = cl_password (client_at s i)"
    using t d by simp_all
  show "j \<noteq> i \<Longrightarrow> client_at (h s i arg) j = client_at s j" for j
    using t(2) d(6) [of j] by simp
qed

lemma set_client_inv:
  assumes "upsd_inv s" "i < length (firstclient s)" "loginups c = loginups (client_at s i)"
    "cl_ctx c = cl_ctx (client_at s i)"
  shows "upsd_inv (set_client s i c)"
proof -
  have "map loginups ((firstclient s)[i := c]) = map loginups (firstclient s)"
    using assms(3) by (simp add: map_update_same)
  moreover have "list_all (\<lambda>c. pconf_live PCONF_DEFAULT_ARG_LIMIT PCONF_DEFAULT_WORDLEN_LIMIT (cl_ctx c))
      ((firstclient s)[i := c])"
    using assms by (auto simp: upsd_inv_def list_all_length nth_list_update)
  moreover have "login_known (set_client s i c) = login_known s"
    by (intro login_known_cong) simp
  ultimately show ?thesis using assms(1) by (simp add: upsd_inv_def logins_ok_def)
qed

lemma count_list_update:
  "i < length xs \<Longrightarrow> xs ! i \<noteq> x \<Longrightarrow> count_list (xs[i := y]) x = count_list xs x + (if y = x then 1 else 0)"
proof (induction xs arbitrary: i)
  case (Cons a xs)
  then show ?case by (cases i) auto
qed simp

lemma distinct_names:
  "logins_ok s \<Longrightarrow> u < length (firstups s) \<Longrightarrow> k < length (firstups s) \<Longrightarrow> k \<noteq> u \<Longrightarrow>
   lower (ups_name (firstups s ! k)) \<noteq> lower (ups_name (firstups s ! u))"
  by (auto simp: logins_ok_def distinct_conv_nth)

lemma login_inv:
  assumes "upsd_inv s" "i < length (firstclient s)" "loginups (client_at s i) = None" "u < length (firstups s)"
  shows "upsd_inv (set_client (set_ups s u ((firstups s ! u)\<lparr>numlogins := numlogins (firstups s ! u) + 1\<rparr>)) i
     ((client_at s i)\<lparr>loginups := Some (ups_name (firstups s ! u))\<rparr>))"
    (is "upsd_inv ?t")
proof -
  have ok: "logins_ok s" using assms(1) by (simp add: upsd_inv_def)
  let ?l = "map loginups (firstclient s)"
  let ?nm = "ups_name (firstups s ! u)"
  have l: "map loginups (firstclient ?t) = ?l[i := Some ?nm]" by (simp add: map_update)
  have cnt: "count_list (?l[i := Some ?nm]) (Some m) = count_list ?l (Some m) + (if m = ?nm then 1 else 0)" for m
    using count_list_update [of i ?l "Some m" "Some ?nm"] assms(2,3) by auto
  have "numlogins (firstups ?t ! k) = int (count_list (map loginups (firstclient ?t)) (Some (ups_name (firstups ?t ! k))))"
    if k: "k < length (firstups s)" for k
  proof (cases "k = u")
    case True
    with ok k show ?thesis unfolding l cnt by (simp add: logins_ok_def list_all_length)
  next
    case False
    then have "ups_name (firstups s ! k) \<noteq> ?nm" using distinct_names [OF ok assms(4) k] by auto
    with ok k False show ?thesis unfolding l cnt by (simp add: logins_ok_def list_all_length)
  qed
  moreover have "map (lower \<circ> ups_name) (firstups ?t) = map (lower \<circ> ups_name) (firstups s)"
    by (simp add: map_update_same)
  moreover have "list_all (login_known ?t) (map loginups (firstclient ?t))"
  proof -
    have "login_known ?t = login_known s"
      by (intro login_known_cong) (simp add: map_update_same)
    moreover have "login_known s (Some ?nm)" using assms(4) by (simp add: login_known_def)
    ultimately show ?thesis unfolding l
      using ok by (simp add: logins_ok_def list_all_update)
  qed
  ultimately have "logins_ok ?t" using ok by (simp add: logins_ok_def list_all_length)
  moreover have "list_all ups_inv (firstups ?t)"
    using assms(1,4) by (auto simp: upsd_inv_def list_all_length nth_list_update)
  moreover have "list_all (\<lambda>c. pconf_live PCONF_DEFAULT_ARG_LIMIT PCONF_DEFAULT_WORDLEN_LIMIT (cl_ctx c)) (firstclient ?t)"
    using assms(1,2) by (auto simp: upsd_inv_def list_all_length nth_list_update)
  ultimately show ?thesis using assms(1) by (simp add: upsd_inv_def)
qed

end
