(* ===== verification/Net.thy ===== *)
theory Net
  imports Server
begin

text \<open>
  The commands of the network protocol: \<open>server/netget.c\<close>, \<open>netlist.c\<close>, \<open>netset.c\<close>,
  \<open>netinstcmd.c\<close>, \<open>netuser.c\<close>, \<open>netmisc.c\<close>, \<open>netssl.c\<close> (the stub of a build without SSL), one
  definition per function with its checks in the order of the code. The arguments \<open>s\<close> and \<open>i\<close> are
  the state of the server and the position of the client that sent the command.
\<close>

section \<open>Prologues the handlers share\<close>

text \<open>Look the UPS up, answer \<open>UNKNOWN-UPS\<close> if there is none; and, in most handlers, return if it
  is not available.\<close>

definition with_ups :: "upsd \<Rightarrow> nat \<Rightarrow> string \<Rightarrow> (nat \<Rightarrow> upsd) \<Rightarrow> upsd" where
  "with_ups s i upsname f =
     (case get_ups_ptr s upsname of None \<Rightarrow> send_err s i ''UNKNOWN-UPS'' | Some u \<Rightarrow> f u)"

definition with_available :: "upsd \<Rightarrow> nat \<Rightarrow> string \<Rightarrow> (nat \<Rightarrow> upsd) \<Rightarrow> upsd" where
  "with_available s i upsname f =
     with_ups s i upsname (\<lambda>u. let (s1, ok) = ups_available s i (firstups s ! u) in
                                if \<not> ok then s1 else f u)"

section \<open>GET\<close>

definition get_numlogins :: "upsd \<Rightarrow> nat \<Rightarrow> string \<Rightarrow> upsd" where
  "get_numlogins s i upsname =
     with_available s i upsname (\<lambda>u.
       fst (sendback s i (''NUMLOGINS '' @ upsname @ '' '' @ show_int (numlogins (firstups s ! u)) @ nl)))"

definition get_upsdesc :: "upsd \<Rightarrow> nat \<Rightarrow> string \<Rightarrow> upsd" where
  "get_upsdesc s i upsname =
     with_ups s i upsname (\<lambda>u.
       case ups_desc (firstups s ! u) of
         Some d \<Rightarrow> fst (sendback s i (''UPSDESC '' @ upsname @ '' '' @ quoted (pconf_encode d SMALLBUF) @ nl))
       | None \<Rightarrow> fst (sendback s i (''UPSDESC '' @ upsname @ '' '' @ quoted ''Unavailable'' @ nl)))"

definition get_desc :: "upsd \<Rightarrow> nat \<Rightarrow> string \<Rightarrow> string \<Rightarrow> upsd" where
  "get_desc s i upsname v =
     with_available s i upsname (\<lambda>u.
       case desc_get_var (desc_db s) v of
         Some d \<Rightarrow> fst (sendback s i (''DESC '' @ upsname @ '' '' @ v @ '' '' @ quoted d @ nl))
       | None \<Rightarrow> fst (sendback s i (''DESC '' @ upsname @ '' '' @ v @ '' '' @
                                     quoted ''Description unavailable'' @ nl)))"

definition get_cmddesc :: "upsd \<Rightarrow> nat \<Rightarrow> string \<Rightarrow> string \<Rightarrow> upsd" where
  "get_cmddesc s i upsname cmd =
     with_available s i upsname (\<lambda>u.
       case desc_get_cmd (desc_db s) cmd of
         Some d \<Rightarrow> fst (sendback s i (''CMDDESC '' @ upsname @ '' '' @ cmd @ '' '' @ quoted d @ nl))
       | None \<Rightarrow> fst (sendback s i (''CMDDESC '' @ upsname @ '' '' @ cmd @ '' '' @
                                     quoted ''Description unavailable'' @ nl)))"

definition get_type :: "upsd \<Rightarrow> nat \<Rightarrow> string \<Rightarrow> string \<Rightarrow> upsd" where
  "get_type s i upsname v =
     with_available s i upsname (\<lambda>u.
       case sstate_getnode (firstups s ! u) v of
         None \<Rightarrow> send_err s i ''VAR-NOT-SUPPORTED''
       | Some n \<Rightarrow>
           let buf = snprintf SMALLBUF (''TYPE '' @ upsname @ '' '' @ v);
               buf1 = (if st_flags n AND ST_FLAG_RW \<noteq> 0 then snprintfcat buf SMALLBUF '' RW'' else buf)
           in if st_enum_list n \<noteq> [] then fst (sendback s i (buf1 @ '' ENUM'' @ nl))
              else if st_range_list n \<noteq> [] then fst (sendback s i (buf1 @ '' RANGE'' @ nl))
              else if st_flags n AND ST_FLAG_STRING \<noteq> 0
              then fst (sendback s i (buf1 @ '' STRING:'' @ show_int (st_aux n) @ nl))
              else fst (sendback s i (''TYPE '' @ upsname @ '' '' @ v @ '' UNKNOWN'' @ nl)))"

definition get_var_server :: "upsd \<Rightarrow> nat \<Rightarrow> string \<Rightarrow> string \<Rightarrow> upsd" where
  "get_var_server s i upsname v =
     (if strcaseeq v ''server.info''
      then fst (sendback s i (''VAR '' @ upsname @ '' server.info '' @
             quoted (''Network UPS Tools upsd '' @ ups_version s @
                     '' - http://www.networkupstools.org/'') @ nl))
      else if strcaseeq v ''server.version''
      then fst (sendback s i (''VAR '' @ upsname @ '' server.version '' @ quoted (ups_version s) @ nl))
      else send_err s i ''VAR-NOT-SUPPORTED'')"

definition get_var :: "upsd \<Rightarrow> nat \<Rightarrow> string \<Rightarrow> string \<Rightarrow> upsd" where
  "get_var s i upsname v =
     (if strncaseeq v ''server.'' 7 then get_var_server s i upsname v
      else with_available s i upsname (\<lambda>u.
        case sstate_getinfo (firstups s ! u) v of
          None \<Rightarrow> send_err s i ''VAR-NOT-SUPPORTED''
        | Some val \<Rightarrow>
            if strcaseeq v ''ups.status'' \<and> ups_fsd (firstups s ! u)
            then fst (sendback s i (''VAR '' @ upsname @ '' '' @ v @ '' '' @ quoted (''FSD '' @ val) @ nl))
            else fst (sendback s i (''VAR '' @ upsname @ '' '' @ v @ '' '' @ quoted val @ nl))))"

definition net_get :: "upsd \<Rightarrow> nat \<Rightarrow> string list \<Rightarrow> upsd" where
  "net_get s i arg =
     (if length arg < 2 then send_err s i ''INVALID-ARGUMENT''
      else if strcaseeq (arg ! 0) ''NUMLOGINS'' then get_numlogins s i (arg ! 1)
      else if strcaseeq (arg ! 0) ''UPSDESC'' then get_upsdesc s i (arg ! 1)
      else if length arg < 3 then send_err s i ''INVALID-ARGUMENT''
      else if strcaseeq (arg ! 0) ''VAR'' then get_var s i (arg ! 1) (arg ! 2)
      else if strcaseeq (arg ! 0) ''TYPE'' then get_type s i (arg ! 1) (arg ! 2)
      else if strcaseeq (arg ! 0) ''DESC'' then get_desc s i (arg ! 1) (arg ! 2)
      else if strcaseeq (arg ! 0) ''CMDDESC'' then get_cmddesc s i (arg ! 1) (arg ! 2)
      else send_err s i ''INVALID-ARGUMENT'')"

section \<open>LIST\<close>

fun tree_dump :: "st_tree \<Rightarrow> upsd \<Rightarrow> nat \<Rightarrow> string \<Rightarrow> bool \<Rightarrow> bool \<Rightarrow> upsd \<times> bool" where
  "tree_dump Leaf s i ups rw fsd = (s, True)"
| "tree_dump (Node l n r) s i ups rw fsd =
     (let (s1, ret) = tree_dump l s i ups rw fsd in
      if \<not> ret then (s1, False)
      else
        let (s2, ret2) =
          (if rw
           then (if st_flags n AND ST_FLAG_RW \<noteq> 0
                 then sendback s1 i (''RW '' @ ups @ '' '' @ st_var n @ '' '' @ quoted (st_val n) @ nl)
                 else (s1, True))
           else if fsd \<and> strcaseeq (st_var n) ''ups.status''
           then sendback s1 i (''VAR '' @ ups @ '' '' @ st_var n @ '' '' @ quoted (''FSD '' @ st_val n) @ nl)
           else sendback s1 i (''VAR '' @ ups @ '' '' @ st_var n @ '' '' @ quoted (st_val n) @ nl))
        in if \<not> ret2 then (s2, False) else tree_dump r s2 i ups rw fsd)"

definition list_rw :: "upsd \<Rightarrow> nat \<Rightarrow> string \<Rightarrow> upsd" where
  "list_rw s i upsname =
     with_available s i upsname (\<lambda>u.
       let (s1, ok) = sendback s i (''BEGIN LIST RW '' @ upsname @ nl) in
       if \<not> ok then s1
       else let (s2, ok2) = tree_dump (inforoot (firstups s ! u)) s1 i upsname True (ups_fsd (firstups s ! u)) in
         if \<not> ok2 then s2 else fst (sendback s2 i (''END LIST RW '' @ upsname @ nl)))"

definition list_var :: "upsd \<Rightarrow> nat \<Rightarrow> string \<Rightarrow> upsd" where
  "list_var s i upsname =
     with_available s i upsname (\<lambda>u.
       let (s1, ok) = sendback s i (''BEGIN LIST VAR '' @ upsname @ nl) in
       if \<not> ok then s1
       else let (s2, ok2) = tree_dump (inforoot (firstups s ! u)) s1 i upsname False (ups_fsd (firstups s ! u)) in
         if \<not> ok2 then s2 else fst (sendback s2 i (''END LIST VAR '' @ upsname @ nl)))"

text \<open>The loops that send one line per entry and stop at the first failing write.\<close>

fun send_lines :: "upsd \<Rightarrow> nat \<Rightarrow> string list \<Rightarrow> upsd \<times> bool" where
  "send_lines s i [] = (s, True)"
| "send_lines s i (x # xs) =
     (let (s1, ok) = sendback s i x in if \<not> ok then (s1, False) else send_lines s1 i xs)"

definition list_cmd :: "upsd \<Rightarrow> nat \<Rightarrow> string \<Rightarrow> upsd" where
  "list_cmd s i upsname =
     with_available s i upsname (\<lambda>u.
       let (s1, ok) = sendback s i (''BEGIN LIST CMD '' @ upsname @ nl) in
       if \<not> ok then s1
       else let (s2, ok2) = send_lines s1 i
                 (map (\<lambda>c. ''CMD '' @ upsname @ '' '' @ c @ nl) (ups_cmdlist (firstups s ! u))) in
         if \<not> ok2 then s2 else fst (sendback s2 i (''END LIST CMD '' @ upsname @ nl)))"

definition list_enum :: "upsd \<Rightarrow> nat \<Rightarrow> string \<Rightarrow> string \<Rightarrow> upsd" where
  "list_enum s i upsname v =
     with_available s i upsname (\<lambda>u.
       case sstate_getnode (firstups s ! u) v of
         None \<Rightarrow> send_err s i ''VAR-NOT-SUPPORTED''
       | Some n \<Rightarrow>
           let (s1, ok) = sendback s i (''BEGIN LIST ENUM '' @ upsname @ '' '' @ v @ nl) in
           if \<not> ok then s1
           else let (s2, ok2) = send_lines s1 i
                     (map (\<lambda>e. ''ENUM '' @ upsname @ '' '' @ v @ '' '' @ quoted e @ nl) (st_enum_list n)) in
             if \<not> ok2 then s2 else fst (sendback s2 i (''END LIST ENUM '' @ upsname @ '' '' @ v @ nl)))"

definition list_range :: "upsd \<Rightarrow> nat \<Rightarrow> string \<Rightarrow> string \<Rightarrow> upsd" where
  "list_range s i upsname v =
     with_available s i upsname (\<lambda>u.
       case sstate_getnode (firstups s ! u) v of
         None \<Rightarrow> send_err s i ''VAR-NOT-SUPPORTED''
       | Some n \<Rightarrow>
           let (s1, ok) = sendback s i (''BEGIN LIST RANGE '' @ upsname @ '' '' @ v @ nl) in
           if \<not> ok then s1
           else let (s2, ok2) = send_lines s1 i
                     (map (\<lambda>(a, b). ''RANGE '' @ upsname @ '' '' @ v @ '' '' @ quoted (show_int a) @ '' '' @
                             quoted (show_int b) @ nl) (st_range_list n)) in
             if \<not> ok2 then s2 else fst (sendback s2 i (''END LIST ENUM '' @ upsname @ '' '' @ v @ nl)))"

definition list_ups :: "upsd \<Rightarrow> nat \<Rightarrow> upsd" where
  "list_ups s i =
     (let (s1, ok) = sendback s i (''BEGIN LIST UPS'' @ nl) in
      if \<not> ok then s1
      else let (s2, ok2) = send_lines s1 i
                (map (\<lambda>u. case ups_desc u of
                        Some d \<Rightarrow> ''UPS '' @ ups_name u @ '' '' @ quoted (pconf_encode d SMALLBUF) @ nl
                      | None \<Rightarrow> ''UPS '' @ ups_name u @ '' '' @ quoted ''Description unavailable'' @ nl)
                  (firstups s)) in
        if \<not> ok2 then s2 else fst (sendback s2 i (''END LIST UPS'' @ nl)))"

definition list_clients :: "upsd \<Rightarrow> nat \<Rightarrow> string \<Rightarrow> upsd" where
  "list_clients s i upsname =
     with_ups s i upsname (\<lambda>u.
       let (s1, ok) = sendback s i (''BEGIN LIST CLIENT '' @ upsname @ nl) in
       if \<not> ok then s1
       else let (s2, ok2) = send_lines s1 i
                 (concat (map (\<lambda>c. case loginups c of
                            None \<Rightarrow> []
                          | Some nm \<Rightarrow> if strcaseeq nm (ups_name (firstups s ! u))
                                      then [''CLIENT '' @ nm @ '' '' @ cl_addr c @ nl] else [])
                    (firstclient s1))) in
         if \<not> ok2 then s2 else fst (sendback s2 i (''END LIST CLIENT '' @ upsname @ nl)))"

definition net_list :: "upsd \<Rightarrow> nat \<Rightarrow> string list \<Rightarrow> upsd" where
  "net_list s i arg =
     (if length arg < 1 then send_err s i ''INVALID-ARGUMENT''
      else if strcaseeq (arg ! 0) ''UPS'' then list_ups s i
      else if length arg < 2 then send_err s i ''INVALID-ARGUMENT''
      else if strcaseeq (arg ! 0) ''VAR'' then list_var s i (arg ! 1)
      else if strcaseeq (arg ! 0) ''RW'' then list_rw s i (arg ! 1)
      else if strcaseeq (arg ! 0) ''CMD'' then list_cmd s i (arg ! 1)
      else if strcaseeq (arg ! 0) ''CLIENT'' then list_clients s i (arg ! 1)
      else if length arg < 3 then send_err s i ''INVALID-ARGUMENT''
      else if strcaseeq (arg ! 0) ''ENUM'' then list_enum s i (arg ! 1) (arg ! 2)
      else if strcaseeq (arg ! 0) ''RANGE'' then list_range s i (arg ! 1) (arg ! 2)
      else send_err s i ''INVALID-ARGUMENT'')"

section \<open>SET\<close>

fun enum_search :: "string list \<Rightarrow> string \<Rightarrow> bool" where
  "enum_search [] x = False"
| "enum_search (e # es) x = (if e = x then True else enum_search es x)"

fun range_search :: "(int \<times> int) list \<Rightarrow> int \<Rightarrow> bool" where
  "range_search [] x = False"
| "range_search (r # rs) x = (if x \<ge> fst r \<and> x \<le> snd r then True else range_search rs x)"

text \<open>The checks of the new value against what the driver declared, in order; the error to report.\<close>

definition set_value_error :: "upstype \<Rightarrow> string \<Rightarrow> string \<Rightarrow> string option" where
  "set_value_error ups v newval =
     (let fl = sstate_getflags ups v; aux = sstate_getaux ups v;
          el = sstate_getenumlist ups v; rl = sstate_getrangelist ups v
      in if fl AND ST_FLAG_RW = 0 then Some ''READONLY''
         else if fl AND ST_FLAG_STRING \<noteq> 0 \<and> aux < 1 then Some ''SET-FAILED''
         else if fl AND ST_FLAG_STRING \<noteq> 0 \<and> aux < int (length newval) then Some ''TOO-LONG''
         else if el \<noteq> [] \<and> \<not> enum_search el newval then Some ''INVALID-VALUE''
         else if rl \<noteq> [] \<and> \<not> range_search rl (atoi newval) then Some ''INVALID-VALUE''
         else None)"

definition set_line :: "string \<Rightarrow> string \<Rightarrow> string" where
  "set_line v newval = snprintf SMALLBUF (''SET '' @ v @ '' '' @ quoted (pconf_encode newval SMALLBUF) @ nl)"

definition set_var :: "upsd \<Rightarrow> nat \<Rightarrow> string \<Rightarrow> string \<Rightarrow> string \<Rightarrow> upsd" where
  "set_var s i upsname v newval =
     with_available s i upsname (\<lambda>u.
       let ups = firstups s ! u; c = client_at s i in
       if \<not> user_checkaction (user_db s) (cl_username c) (cl_password c) ''SET''
       then send_err s i ''ACCESS-DENIED''
       else case sstate_getinfo ups v of
         None \<Rightarrow> send_err s i ''VAR-NOT-SUPPORTED''
       | Some val \<Rightarrow>
           (case set_value_error ups v newval of
              Some e \<Rightarrow> send_err s i e
            | None \<Rightarrow>
                let (ups1, ret) = sstate_sendline ups (set_line v newval);
                    s1 = set_ups s u ups1
                in if ret = 0 then send_err s1 i ''SET-FAILED''
                   else fst (sendback s1 i (''OK'' @ nl))))"

definition net_set :: "upsd \<Rightarrow> nat \<Rightarrow> string list \<Rightarrow> upsd" where
  "net_set s i arg =
     (if length arg < 4 then send_err s i ''INVALID-ARGUMENT''
      else if strcaseeq (arg ! 0) ''VAR'' then set_var s i (arg ! 1) (arg ! 2) (arg ! 3)
      else send_err s i ''INVALID-ARGUMENT'')"

section \<open>INSTCMD\<close>

definition instcmd_line :: "string \<Rightarrow> string option \<Rightarrow> string" where
  "instcmd_line cmdname valarg =
     (case valarg of
        Some x \<Rightarrow> snprintf SMALLBUF (''INSTCMD '' @ cmdname @ '' '' @ pconf_encode x SMALLBUF @ nl)
      | None \<Rightarrow> snprintf SMALLBUF (''INSTCMD '' @ cmdname @ nl))"

definition send_instcmd :: "upsd \<Rightarrow> nat \<Rightarrow> string \<Rightarrow> string \<Rightarrow> string option \<Rightarrow> upsd" where
  "send_instcmd s i upsname cmdname valarg =
     with_available s i upsname (\<lambda>u.
       let ups = firstups s ! u; c = client_at s i in
       if \<not> list_ex (\<lambda>x. strcaseeq x cmdname) (sstate_getcmdlist ups)
       then send_err s i ''CMD-NOT-SUPPORTED''
       else if \<not> user_checkinstcmd (user_db s) (cl_username c) (cl_password c) cmdname
       then send_err s i ''ACCESS-DENIED''
       else
         let (ups1, ret) = sstate_sendline ups (instcmd_line cmdname valarg);
             s1 = set_ups s u ups1
         in if ret = 0 then send_err s1 i ''INSTCMD-FAILED''
            else fst (sendback s1 i (''OK'' @ nl)))"

definition net_instcmd :: "upsd \<Rightarrow> nat \<Rightarrow> string list \<Rightarrow> upsd" where
  "net_instcmd s i arg =
     (if length arg < 2 then send_err s i ''INVALID-ARGUMENT''
      else send_instcmd s i (arg ! 0) (arg ! 1) (if length arg = 3 then Some (arg ! 2) else None))"

section \<open>LOGIN, LOGOUT, MASTER, USERNAME, PASSWORD\<close>

definition net_login :: "upsd \<Rightarrow> nat \<Rightarrow> string list \<Rightarrow> upsd" where
  "net_login s i arg =
     (let c = client_at s i in
      if length arg \<noteq> 1 then send_err s i ''INVALID-ARGUMENT''
      else if loginups c \<noteq> None then send_err s i ''ALREADY-LOGGED-IN''
      else case get_ups_ptr s (arg ! 0) of
        None \<Rightarrow> send_err s i ''UNKNOWN-UPS''
      | Some u \<Rightarrow>
          if \<not> user_checkaction (user_db s) (cl_username c) (cl_password c) ''LOGIN''
          then send_err s i ''ACCESS-DENIED''
          else
            let ups = firstups s ! u;
                s1 = set_ups s u (ups\<lparr>numlogins := numlogins ups + 1\<rparr>);
                s2 = set_client s1 i (c\<lparr>loginups := Some (ups_name ups)\<rparr>)
            in fst (sendback s2 i (''OK'' @ nl)))"

definition net_logout :: "upsd \<Rightarrow> nat \<Rightarrow> string list \<Rightarrow> upsd" where
  "net_logout s i arg =
     (if length arg \<noteq> 0 then send_err s i ''INVALID-ARGUMENT''
      else let s1 = fst (sendback s i (''OK Goodbye'' @ nl))
           in set_client s1 i ((client_at s1 i)\<lparr>cl_last_heard := 0\<rparr>))"

definition net_master :: "upsd \<Rightarrow> nat \<Rightarrow> string list \<Rightarrow> upsd" where
  "net_master s i arg =
     (let c = client_at s i in
      if length arg \<noteq> 1 then send_err s i ''INVALID-ARGUMENT''
      else with_ups s i (arg ! 0) (\<lambda>u.
        if \<not> user_checkaction (user_db s) (cl_username c) (cl_password c) ''MASTER''
        then send_err s i ''ACCESS-DENIED''
        else fst (sendback s i (''OK MASTER-GRANTED'' @ nl))))"

definition net_username :: "upsd \<Rightarrow> nat \<Rightarrow> string list \<Rightarrow> upsd" where
  "net_username s i arg =
     (let c = client_at s i in
      if length arg \<noteq> 1 then send_err s i ''INVALID-ARGUMENT''
      else if cl_username c \<noteq> None then send_err s i ''ALREADY-SET-USERNAME''
      else fst (sendback (set_client s i (c\<lparr>cl_username := Some (arg ! 0)\<rparr>)) i (''OK'' @ nl)))"

definition net_password :: "upsd \<Rightarrow> nat \<Rightarrow> string list \<Rightarrow> upsd" where
  "net_password s i arg =
     (let c = client_at s i in
      if length arg \<noteq> 1 then send_err s i ''INVALID-ARGUMENT''
      else if cl_password c \<noteq> None then send_err s i ''ALREADY-SET-PASSWORD''
      else fst (sendback (set_client s i (c\<lparr>cl_password := Some (arg ! 0)\<rparr>)) i (''OK'' @ nl)))"

section \<open>VER, NETVER, HELP, FSD, STARTTLS\<close>

definition net_ver :: "upsd \<Rightarrow> nat \<Rightarrow> string list \<Rightarrow> upsd" where
  "net_ver s i arg =
     (if length arg \<noteq> 0 then send_err s i ''INVALID-ARGUMENT''
      else fst (sendback s i (''Network UPS Tools upsd '' @ ups_version s @
                              '' - http://www.networkupstools.org/'' @ nl)))"

definition net_netver :: "upsd \<Rightarrow> nat \<Rightarrow> string list \<Rightarrow> upsd" where
  "net_netver s i arg =
     (if length arg \<noteq> 0 then send_err s i ''INVALID-ARGUMENT''
      else fst (sendback s i (''1.2'' @ nl)))"

definition net_help :: "upsd \<Rightarrow> nat \<Rightarrow> string list \<Rightarrow> upsd" where
  "net_help s i arg =
     (if length arg \<noteq> 0 then send_err s i ''INVALID-ARGUMENT''
      else fst (sendback s i (''Commands: HELP VER GET LIST SET INSTCMD LOGIN LOGOUT'' @
                              '' USERNAME PASSWORD STARTTLS'' @ nl)))"

definition net_fsd :: "upsd \<Rightarrow> nat \<Rightarrow> string list \<Rightarrow> upsd" where
  "net_fsd s i arg =
     (let c = client_at s i in
      if length arg \<noteq> 1 then send_err s i ''INVALID-ARGUMENT''
      else with_ups s i (arg ! 0) (\<lambda>u.
        if \<not> user_checkaction (user_db s) (cl_username c) (cl_password c) ''FSD''
        then send_err s i ''ACCESS-DENIED''
        else
          let s1 = set_ups s u ((firstups s ! u)\<lparr>ups_fsd := True\<rparr>)
          in fst (sendback s1 i (''OK FSD-SET'' @ nl))))"

definition net_starttls :: "upsd \<Rightarrow> nat \<Rightarrow> string list \<Rightarrow> upsd" where
  "net_starttls s i arg = send_err s i ''FEATURE-NOT-SUPPORTED''"

section \<open>Queries only answer\<close>

lemma with_ups_only:
  "(\<And>u. get_ups_ptr s nm = Some u \<Longrightarrow> only_answered i s (f u)) \<Longrightarrow> only_answered i s (with_ups s i nm f)"
  by (auto simp: with_ups_def split: option.splits)

lemma with_available_only:
  assumes "\<And>u. get_ups_ptr s nm = Some u \<Longrightarrow> 0 \<le> sock_fd (firstups s ! u) \<Longrightarrow>
     \<not> ups_stale (firstups s ! u) \<Longrightarrow> only_answered i s (f u)"
  shows "only_answered i s (with_available s i nm f)"
  unfolding with_available_def
proof (rule with_ups_only)
  fix u
  assume u: "get_ups_ptr s nm = Some u"
  obtain s1 ok where a: "ups_available s i (firstups s ! u) = (s1, ok)" by force
  show "only_answered i s (let (s1, ok) = ups_available s i (firstups s ! u) in if \<not> ok then s1 else f u)"
    using a ups_available_only [of i s "firstups s ! u"] assms [OF u]
      ups_available_True [of s i "firstups s ! u" s1] by (cases ok) auto
qed

lemma sendback_step:
  "sendback s i t = (s1, ok) \<Longrightarrow> only_answered i s s1"
  using sendback_only [of i s t] by simp

lemma send_lines_only: "only_answered i s (fst (send_lines s i xs))"
proof (induction xs arbitrary: s)
  case (Cons x xs)
  obtain s1 ok where x: "sendback s i x = (s1, ok)" by force
  from sendback_step [OF x] Cons.IH [of s1] show ?case
    using x by (auto intro: only_answered_trans)
qed simp

lemma tree_dump_only: "only_answered i s (fst (tree_dump t s i ups rw fsd))"
proof (induction t arbitrary: s)
  case (Node l n r)
  obtain s1 ret where l: "tree_dump l s i ups rw fsd = (s1, ret)" by force
  have s1: "only_answered i s s1" using Node.IH(1) [of s] l by simp
  have node: "only_answered i s1 (fst (if rw
           then (if st_flags n AND ST_FLAG_RW \<noteq> 0
                 then sendback s1 i (''RW '' @ ups @ '' '' @ st_var n @ '' '' @ quoted (st_val n) @ nl)
                 else (s1, True))
           else if fsd \<and> strcaseeq (st_var n) ''ups.status''
           then sendback s1 i (''VAR '' @ ups @ '' '' @ st_var n @ '' '' @ quoted (''FSD '' @ st_val n) @ nl)
           else sendback s1 i (''VAR '' @ ups @ '' '' @ st_var n @ '' '' @ quoted (st_val n) @ nl)))"
    (is "only_answered i s1 (fst ?m)") by auto
  obtain s2 ret2 where m: "?m = (s2, ret2)" by force
  have s2: "only_answered i s1 s2" using node m by simp
  have s3: "only_answered i s2 (fst (tree_dump r s2 i ups rw fsd))" by (rule Node.IH(2))
  have "fst (tree_dump (Node l n r) s i ups rw fsd) =
      (if \<not> ret then s1 else if \<not> ret2 then s2 else fst (tree_dump r s2 i ups rw fsd))"
    using l m by (simp only: tree_dump.simps Let_def prod.case) simp
  with only_answered_trans [OF s1 s2] s1 only_answered_trans [OF only_answered_trans [OF s1 s2] s3]
  show ?case by simp
qed simp

text \<open>A list answer: a first line, the entries, a last line.\<close>

lemma list_answer_only:
  assumes "\<And>s1. only_answered i s1 (fst (body s1))"
  shows "only_answered i s (let (s1, ok) = sendback s i a in if \<not> ok then s1
           else let (s2, ok2) = body s1 in if \<not> ok2 then s2 else fst (sendback s2 i b))"
proof -
  obtain s1 ok where 1: "sendback s i a = (s1, ok)" by force
  obtain s2 ok2 where 2: "body s1 = (s2, ok2)" by force
  have s2: "only_answered i s s2"
    using only_answered_trans [OF sendback_step [OF 1]] assms [of s1] 2 by simp
  show ?thesis
    using 1 2 sendback_step [OF 1] s2 only_answered_trans [OF s2 sendback_only] by simp
qed

lemmas only_answered_intros = with_ups_only with_available_only list_answer_only send_lines_only
  tree_dump_only

lemma case_option_only:
  "(m = None \<Longrightarrow> only_answered i s f) \<Longrightarrow> (\<And>x. m = Some x \<Longrightarrow> only_answered i s (g x)) \<Longrightarrow>
   only_answered i s (case m of None \<Rightarrow> f | Some x \<Rightarrow> g x)"
  by (cases m) auto

lemma if_only:
  "(b \<Longrightarrow> only_answered i s f) \<Longrightarrow> (\<not> b \<Longrightarrow> only_answered i s g) \<Longrightarrow>
   only_answered i s (if b then f else g)"
  by auto

lemmas only_rules = case_option_only if_only sendback_only send_err_only only_answered_intros

lemma get_only:
  "only_answered i s (get_numlogins s i nm)" "only_answered i s (get_upsdesc s i nm)"
  "only_answered i s (get_desc s i nm v)" "only_answered i s (get_cmddesc s i nm v)"
  "only_answered i s (get_type s i nm v)" "only_answered i s (get_var s i nm v)"
  unfolding get_numlogins_def get_upsdesc_def get_desc_def get_cmddesc_def get_type_def
    get_var_def get_var_server_def Let_def
  by (intro only_rules)+

lemma net_get_only: "only_answered i s (net_get s i arg)"
  unfolding net_get_def by (intro if_only get_only send_err_only)

lemma list_only:
  "only_answered i s (list_ups s i)" "only_answered i s (list_var s i nm)"
  "only_answered i s (list_rw s i nm)" "only_answered i s (list_cmd s i nm)"
  "only_answered i s (list_clients s i nm)" "only_answered i s (list_enum s i nm v)"
  "only_answered i s (list_range s i nm v)"
  unfolding list_ups_def list_var_def list_rw_def list_cmd_def list_clients_def
    list_enum_def list_range_def
  by (intro with_ups_only with_available_only list_answer_only case_option_only send_err_only
      send_lines_only tree_dump_only)+

lemma net_list_only: "only_answered i s (net_list s i arg)"
  unfolding net_list_def by (intro if_only list_only send_err_only)

lemma net_logout_only: "only_answered i s (net_logout s i arg)"
proof -
  have "only_answered i t (set_client t i ((client_at t i)\<lparr>cl_last_heard := 0\<rparr>))" for t
  proof -
    have "set_client t i ((client_at t i)\<lparr>cl_last_heard := 0\<rparr>) =
        set_client t i ((client_at t i)\<lparr>cl_sock := cl_sock (client_at t i), cl_last_heard := 0\<rparr>)" by simp
    then show ?thesis unfolding only_answered_def by blast
  qed
  from only_answered_trans [OF sendback_only this] show ?thesis
    by (simp add: net_logout_def Let_def)
qed

lemma net_master_only: "only_answered i s (net_master s i arg)"
  unfolding net_master_def by (auto intro!: only_answered_intros simp: Let_def)

lemma net_ver_only: "only_answered i s (net_ver s i arg)"
  and net_netver_only: "only_answered i s (net_netver s i arg)"
  and net_help_only: "only_answered i s (net_help s i arg)"
  and net_starttls_only: "only_answered i s (net_starttls s i arg)"
  by (simp_all add: net_ver_def net_netver_def net_help_def net_starttls_def)

interpretation q_get: net_query net_get by unfold_locales (rule net_get_only)
interpretation q_list: net_query net_list by unfold_locales (rule net_list_only)
interpretation q_logout: net_query net_logout by unfold_locales (rule net_logout_only)
interpretation q_master: net_query net_master by unfold_locales (rule net_master_only)
interpretation q_ver: net_query net_ver by unfold_locales (rule net_ver_only)
interpretation q_netver: net_query net_netver by unfold_locales (rule net_netver_only)
interpretation q_help: net_query net_help by unfold_locales (rule net_help_only)
interpretation q_starttls: net_query net_starttls by unfold_locales (rule net_starttls_only)

section \<open>Commands with effects\<close>

text \<open>Each of the other commands either only answers, or makes one change and then answers.\<close>

lemma net_username_cases:
  obtains "only_answered i s (net_username s i arg)"
  | n where "arg = [n]" "cl_username (client_at s i) = None"
      "only_answered i (set_client s i ((client_at s i)\<lparr>cl_username := Some n\<rparr>)) (net_username s i arg)"
proof (cases "length arg = 1 \<and> cl_username (client_at s i) = None")
  case True
  then obtain n where "arg = [n]" by (auto simp: length_Suc_conv)
  with True that(2) show ?thesis by (simp add: net_username_def Let_def)
next
  case False
  then show ?thesis by (intro that(1)) (auto simp: net_username_def Let_def)
qed

lemma net_password_cases:
  obtains "only_answered i s (net_password s i arg)"
  | n where "arg = [n]" "cl_password (client_at s i) = None"
      "only_answered i (set_client s i ((client_at s i)\<lparr>cl_password := Some n\<rparr>)) (net_password s i arg)"
proof (cases "length arg = 1 \<and> cl_password (client_at s i) = None")
  case True
  then obtain n where "arg = [n]" by (auto simp: length_Suc_conv)
  with True that(2) show ?thesis by (simp add: net_password_def Let_def)
next
  case False
  then show ?thesis by (intro that(1)) (auto simp: net_password_def Let_def)
qed

definition login_state :: "upsd \<Rightarrow> nat \<Rightarrow> nat \<Rightarrow> upsd" where
  "login_state s i u = set_client (set_ups s u ((firstups s ! u)\<lparr>numlogins := numlogins (firstups s ! u) + 1\<rparr>)) i
     ((client_at s i)\<lparr>loginups := Some (ups_name (firstups s ! u))\<rparr>)"

lemma net_login_cases:
  obtains "only_answered i s (net_login s i arg)"
  | u where "length arg = 1" "loginups (client_at s i) = None" "get_ups_ptr s (arg ! 0) = Some u"
      "user_checkaction (user_db s) (cl_username (client_at s i)) (cl_password (client_at s i)) ''LOGIN''"
      "only_answered i (login_state s i u) (net_login s i arg)"
proof (cases "length arg = 1 \<and> loginups (client_at s i) = None \<and> get_ups_ptr s (arg ! 0) \<noteq> None \<and>
    user_checkaction (user_db s) (cl_username (client_at s i)) (cl_password (client_at s i)) ''LOGIN''")
  case True
  then obtain u where "get_ups_ptr s (arg ! 0) = Some u" by blast
  with True that(2) [of u] show ?thesis by (simp add: net_login_def login_state_def Let_def)
next
  case False
  then show ?thesis by (intro that(1)) (auto simp: net_login_def Let_def split: option.splits)
qed

lemma net_fsd_cases:
  obtains "only_answered i s (net_fsd s i arg)"
  | u where "length arg = 1" "get_ups_ptr s (arg ! 0) = Some u"
      "user_checkaction (user_db s) (cl_username (client_at s i)) (cl_password (client_at s i)) ''FSD''"
      "only_answered i (set_ups s u ((firstups s ! u)\<lparr>ups_fsd := True\<rparr>)) (net_fsd s i arg)"
proof (cases "length arg = 1 \<and> get_ups_ptr s (arg ! 0) \<noteq> None \<and>
    user_checkaction (user_db s) (cl_username (client_at s i)) (cl_password (client_at s i)) ''FSD''")
  case True
  then obtain u where "get_ups_ptr s (arg ! 0) = Some u" by blast
  with True that(2) [of u] show ?thesis by (simp add: net_fsd_def with_ups_def Let_def)
next
  case False
  then show ?thesis
    by (intro that(1)) (auto simp: net_fsd_def with_ups_def Let_def split: option.splits)
qed

text \<open>The line is handed to the driver's socket.\<close>

lemma with_available_cases:
  assumes "\<And>u. only_answered i s (f u) \<or> (P u \<and> only_answered i (g u) (f u))"
  shows "only_answered i s (with_available s i nm f) \<or>
    (\<exists>u. get_ups_ptr s nm = Some u \<and> 0 \<le> sock_fd (firstups s ! u) \<and> \<not> ups_stale (firstups s ! u) \<and> P u \<and>
         only_answered i (g u) (with_available s i nm f))"
proof (cases "get_ups_ptr s nm")
  case None
  then show ?thesis by (simp add: with_available_def with_ups_def)
next
  case (Some u)
  obtain s1 ok where a: "ups_available s i (firstups s ! u) = (s1, ok)" by force
  have w: "with_available s i nm f = (if \<not> ok then s1 else f u)"
    using Some a by (simp add: with_available_def with_ups_def)
  show ?thesis
  proof (cases ok)
    case True
    with a ups_available_True [of s i "firstups s ! u" s1] Some w assms [of u] show ?thesis by auto
  next
    case False
    with w a ups_available_only [of i s "firstups s ! u"] show ?thesis by simp
  qed
qed

definition may_set :: "upsd \<Rightarrow> nat \<Rightarrow> string \<Rightarrow> string \<Rightarrow> nat \<Rightarrow> bool" where
  "may_set s i v x u \<longleftrightarrow>
     user_checkaction (user_db s) (cl_username (client_at s i)) (cl_password (client_at s i)) ''SET'' \<and>
     sstate_getinfo (firstups s ! u) v \<noteq> None \<and> set_value_error (firstups s ! u) v x = None"

definition may_instcmd :: "upsd \<Rightarrow> nat \<Rightarrow> string \<Rightarrow> nat \<Rightarrow> bool" where
  "may_instcmd s i c u \<longleftrightarrow> list_ex (\<lambda>y. strcaseeq y c) (sstate_getcmdlist (firstups s ! u)) \<and>
     user_checkinstcmd (user_db s) (cl_username (client_at s i)) (cl_password (client_at s i)) c"

abbreviation drv_send :: "upsd \<Rightarrow> string \<Rightarrow> nat \<Rightarrow> upsd" where
  "drv_send s line u \<equiv> set_ups s u (fst (sstate_sendline (firstups s ! u) line))"

lemma set_var_cases:
  "only_answered i s (set_var s i nm v x) \<or>
   (\<exists>u. get_ups_ptr s nm = Some u \<and> 0 \<le> sock_fd (firstups s ! u) \<and> \<not> ups_stale (firstups s ! u) \<and>
        may_set s i v x u \<and> only_answered i (drv_send s (set_line v x) u) (set_var s i nm v x))"
  unfolding set_var_def
  by (rule with_available_cases [where P = "may_set s i v x" and g = "drv_send s (set_line v x)"])
    (auto simp: may_set_def Let_def case_prod_unfold split: option.splits)

lemma send_instcmd_cases:
  "only_answered i s (send_instcmd s i nm c x) \<or>
   (\<exists>u. get_ups_ptr s nm = Some u \<and> 0 \<le> sock_fd (firstups s ! u) \<and> \<not> ups_stale (firstups s ! u) \<and>
        may_instcmd s i c u \<and> only_answered i (drv_send s (instcmd_line c x) u) (send_instcmd s i nm c x))"
  unfolding send_instcmd_def
  by (rule with_available_cases [where P = "may_instcmd s i c" and g = "drv_send s (instcmd_line c x)"])
    (auto simp: may_instcmd_def Let_def case_prod_unfold split: option.splits)

lemma net_set_cases:
  obtains "only_answered i s (net_set s i arg)"
  | u where "4 \<le> length arg" "get_ups_ptr s (arg ! 1) = Some u" "0 \<le> sock_fd (firstups s ! u)"
      "\<not> ups_stale (firstups s ! u)" "may_set s i (arg ! 2) (arg ! 3) u"
      "only_answered i (drv_send s (set_line (arg ! 2) (arg ! 3)) u) (net_set s i arg)"
proof (cases "4 \<le> length arg \<and> strcaseeq (arg ! 0) ''VAR''")
  case True
  then have "net_set s i arg = set_var s i (arg ! 1) (arg ! 2) (arg ! 3)" by (simp add: net_set_def)
  with set_var_cases [of i s "arg ! 1" "arg ! 2" "arg ! 3"] True that show ?thesis by metis
next
  case False
  then have "net_set s i arg = send_err s i ''INVALID-ARGUMENT''" by (auto simp: net_set_def)
  with that(1) show ?thesis by simp
qed

lemma net_instcmd_cases:
  obtains "only_answered i s (net_instcmd s i arg)"
  | u where "2 \<le> length arg" "get_ups_ptr s (arg ! 0) = Some u" "0 \<le> sock_fd (firstups s ! u)"
      "\<not> ups_stale (firstups s ! u)" "may_instcmd s i (arg ! 1) u"
      "only_answered i (drv_send s (instcmd_line (arg ! 1) (if length arg = 3 then Some (arg ! 2) else None)) u)
         (net_instcmd s i arg)"
proof (cases "2 \<le> length arg")
  case True
  then have "net_instcmd s i arg =
      send_instcmd s i (arg ! 0) (arg ! 1) (if length arg = 3 then Some (arg ! 2) else None)"
    by (simp add: net_instcmd_def)
  with send_instcmd_cases [of i s "arg ! 0" "arg ! 1" "if length arg = 3 then Some (arg ! 2) else None"]
    True that show ?thesis by metis
next
  case False
  then have "net_instcmd s i arg = send_err s i ''INVALID-ARGUMENT''" by (auto simp: net_instcmd_def)
  with that(1) show ?thesis by simp
qed

lemma sstate_sendline_keeps:
  "ups_name (fst (sstate_sendline ups l)) = ups_name ups" "numlogins (fst (sstate_sendline ups l)) = numlogins ups"
  "ups_fsd (fst (sstate_sendline ups l)) = ups_fsd ups"
  by (auto simp: sstate_sendline_def sstate_disconnect_def sstate_infofree_def sstate_cmdfree_def Let_def
      split: prod.splits)

interpretation c_fsd: net_ups_command net_fsd
proof
  fix i s arg
  show "only_answered i s (net_fsd s i arg) \<or>
    (\<exists>u x. u < length (firstups s) \<and> (ups_inv (firstups s ! u) \<longrightarrow> ups_inv x) \<and>
       ups_name x = ups_name (firstups s ! u) \<and> numlogins x = numlogins (firstups s ! u) \<and>
       only_answered i (set_ups s u x) (net_fsd s i arg))"
  proof (cases rule: net_fsd_cases [of i s arg])
    case (2 u)
    then show ?thesis using get_ups_ptr_Some(1) [of s "arg ! 0" u]
      by (intro disjI2 exI [of _ u] exI [of _ "(firstups s ! u)\<lparr>ups_fsd := True\<rparr>"]) simp
  qed simp
qed

lemma drv_send_change:
  assumes "get_ups_ptr s nm = Some u" "only_answered i (drv_send s line u) t"
  shows "\<exists>u x. u < length (firstups s) \<and> (ups_inv (firstups s ! u) \<longrightarrow> ups_inv x) \<and>
       ups_name x = ups_name (firstups s ! u) \<and> numlogins x = numlogins (firstups s ! u) \<and>
       only_answered i (set_ups s u x) t"
  using assms get_ups_ptr_Some(1) [OF assms(1)] sstate_sendline_keeps ups_inv_sendline by metis

interpretation c_set: net_ups_command net_set
proof
  fix i s arg
  show "only_answered i s (net_set s i arg) \<or>
    (\<exists>u x. u < length (firstups s) \<and> (ups_inv (firstups s ! u) \<longrightarrow> ups_inv x) \<and>
       ups_name x = ups_name (firstups s ! u) \<and> numlogins x = numlogins (firstups s ! u) \<and>
       only_answered i (set_ups s u x) (net_set s i arg))"
    by (cases rule: net_set_cases [of i s arg]) (auto dest: drv_send_change)
qed

interpretation c_instcmd: net_ups_command net_instcmd
proof
  fix i s arg
  show "only_answered i s (net_instcmd s i arg) \<or>
    (\<exists>u x. u < length (firstups s) \<and> (ups_inv (firstups s ! u) \<longrightarrow> ups_inv x) \<and>
       ups_name x = ups_name (firstups s ! u) \<and> numlogins x = numlogins (firstups s ! u) \<and>
       only_answered i (set_ups s u x) (net_instcmd s i arg))"
    by (cases rule: net_instcmd_cases [of i s arg]) (auto dest: drv_send_change)
qed

interpretation c_username: net_command net_username
proof
  fix s i arg
  let ?t = "\<lambda>n. set_client s i ((client_at s i)\<lparr>cl_username := Some n\<rparr>)"
  have "\<exists>t. only_answered i t (net_username s i arg) \<and> (t = s \<or> (\<exists>n. t = ?t n \<and> cl_username (client_at s i) = None))"
    by (cases rule: net_username_cases [of i s arg]) blast+
  then obtain t where t: "only_answered i t (net_username s i arg)"
    "t = s \<or> (\<exists>n. t = ?t n \<and> cl_username (client_at s i) = None)" by blast
  note d = only_answeredD [OF t(1)]
  show "upsd_inv s \<Longrightarrow> i < length (firstclient s) \<Longrightarrow> upsd_inv (net_username s i arg)"
    using only_answered_inv [OF t(1)] set_client_inv [of s i] t(2) by fastforce
  show "length (firstclient (net_username s i arg)) = length (firstclient s)"
    "user_db (net_username s i arg) = user_db s" "hosts_access (net_username s i arg) = hosts_access s"
    "map ups_name (firstups (net_username s i arg)) = map ups_name (firstups s)"
    using t(2) d by auto
  show "cl_ctx (client_at (net_username s i arg) i) = cl_ctx (client_at s i)"
    "cl_password (client_at (net_username s i arg) i) = cl_password (client_at s i)"
    using t(2) by (auto simp: d client_at_set simp del: set_client_fields)
  show "cl_username (client_at s i) \<noteq> None \<Longrightarrow>
      cl_username (client_at (net_username s i arg) i) = cl_username (client_at s i)"
    using t(2) by (auto simp: d)
  show "j \<noteq> i \<Longrightarrow> client_at (net_username s i arg) j = client_at s j" for j
    using t(2) d(6) [of j] by auto
qed

interpretation c_password: net_command net_password
proof
  fix s i arg
  let ?t = "\<lambda>n. set_client s i ((client_at s i)\<lparr>cl_password := Some n\<rparr>)"
  have "\<exists>t. only_answered i t (net_password s i arg) \<and> (t = s \<or> (\<exists>n. t = ?t n \<and> cl_password (client_at s i) = None))"
    by (cases rule: net_password_cases [of i s arg]) blast+
  then obtain t where t: "only_answered i t (net_password s i arg)"
    "t = s \<or> (\<exists>n. t = ?t n \<and> cl_password (client_at s i) = None)" by blast
  note d = only_answeredD [OF t(1)]
  show "upsd_inv s \<Longrightarrow> i < length (firstclient s) \<Longrightarrow> upsd_inv (net_password s i arg)"
    using only_answered_inv [OF t(1)] set_client_inv [of s i] t(2) by fastforce
  show "length (firstclient (net_password s i arg)) = length (firstclient s)"
    "user_db (net_password s i arg) = user_db s" "hosts_access (net_password s i arg) = hosts_access s"
    "map ups_name (firstups (net_password s i arg)) = map ups_name (firstups s)"
    using t(2) d by auto
  show "cl_ctx (client_at (net_password s i arg) i) = cl_ctx (client_at s i)"
    "cl_username (client_at (net_password s i arg) i) = cl_username (client_at s i)"
    using t(2) by (auto simp: d client_at_set simp del: set_client_fields)
  show "cl_password (client_at s i) \<noteq> None \<Longrightarrow>
      cl_password (client_at (net_password s i arg) i) = cl_password (client_at s i)"
    using t(2) by (auto simp: d)
  show "j \<noteq> i \<Longrightarrow> client_at (net_password s i arg) j = client_at s j" for j
    using t(2) d(6) [of j] by auto
qed

interpretation c_login: net_command net_login
proof
  fix s i arg
  have "\<exists>t. only_answered i t (net_login s i arg) \<and>
      (t = s \<or> (\<exists>u. t = login_state s i u \<and> loginups (client_at s i) = None \<and> u < length (firstups s)))"
    by (cases rule: net_login_cases [of i s arg]) (blast dest: get_ups_ptr_Some(1))+
  then obtain t where t: "only_answered i t (net_login s i arg)"
    "t = s \<or> (\<exists>u. t = login_state s i u \<and> loginups (client_at s i) = None \<and> u < length (firstups s))" by blast
  note d = only_answeredD [OF t(1)]
  show "upsd_inv s \<Longrightarrow> i < length (firstclient s) \<Longrightarrow> upsd_inv (net_login s i arg)"
    using only_answered_inv [OF t(1)] login_inv [of s i] t(2) unfolding login_state_def by blast
  show "length (firstclient (net_login s i arg)) = length (firstclient s)"
    "user_db (net_login s i arg) = user_db s" "hosts_access (net_login s i arg) = hosts_access s"
    "map ups_name (firstups (net_login s i arg)) = map ups_name (firstups s)"
    using t(2) d by (auto simp: login_state_def map_update_same)
  show "cl_ctx (client_at (net_login s i arg) i) = cl_ctx (client_at s i)"
    "cl_username (client_at (net_login s i arg) i) = cl_username (client_at s i)"
    "cl_password (client_at (net_login s i arg) i) = cl_password (client_at s i)"
    using t(2) by (auto simp: d client_at_set login_state_def simp del: set_client_fields)
  show "j \<noteq> i \<Longrightarrow> client_at (net_login s i arg) j = client_at s j" for j
    using t(2) d(6) [of j] by (auto simp: login_state_def)
qed

end
