(* ===== verification/Upsd.thy ===== *)
theory Upsd
  imports Net
begin

text \<open>
  The server's loop (\<open>server/upsd.c\<close>, \<open>server/netcmds.h\<close>): the table of network commands and its
  dispatcher, reading from clients, accepting and shedding them, watching the drivers, and one round
  of \<open>mainloop\<close>.

  A round is the scan of drivers and clients followed by the events \<open>poll\<close> reported, handled in
  order; an event names a driver or client by its position at the time it is handled. \<^const>\<open>None\<close> is
  the state after a driver message has made the server read outside its argument list.

  Shown here: the login counters, the search trees and the parser contexts stay right in every
  reachable state; privileged effects need the matching permission; an accepted SET reaches the
  driver as the same words.
\<close>

section \<open>Dispatching a command\<close>

definition FLAG_USER :: "32 word" where "FLAG_USER = 1"

type_synonym netcmd = "string \<times> (upsd \<Rightarrow> nat \<Rightarrow> string list \<Rightarrow> upsd) \<times> 32 word"

definition netcmds :: "netcmd list" where
  "netcmds =
    [(''VER'', net_ver, 0), (''NETVER'', net_netver, 0), (''HELP'', net_help, 0),
     (''STARTTLS'', net_starttls, 0), (''GET'', net_get, 0), (''LIST'', net_list, 0),
     (''USERNAME'', net_username, 0), (''PASSWORD'', net_password, 0), (''LOGIN'', net_login, FLAG_USER),
     (''LOGOUT'', net_logout, 0), (''MASTER'', net_master, FLAG_USER), (''FSD'', net_fsd, FLAG_USER),
     (''SET'', net_set, FLAG_USER), (''INSTCMD'', net_instcmd, FLAG_USER)]"

definition check_command :: "netcmd \<Rightarrow> upsd \<Rightarrow> nat \<Rightarrow> string list \<Rightarrow> upsd" where
  "check_command cmd s i arg =
     (let c = client_at s i; run = fst (snd cmd) s i (drop 1 arg) in
      if snd (snd cmd) AND FLAG_USER \<noteq> 0
      then (case cl_username c of
              None \<Rightarrow> send_err s i ''USERNAME-REQUIRED''
            | Some un \<Rightarrow>
                (case cl_password c of
                   None \<Rightarrow> send_err s i ''PASSWORD-REQUIRED''
                 | Some pw \<Rightarrow>
                     if \<not> hosts_access s (cl_addr c) un then send_err s i ''ACCESS-DENIED'' else run))
      else run)"

fun parse_net_loop :: "netcmd list \<Rightarrow> upsd \<Rightarrow> nat \<Rightarrow> string list \<Rightarrow> upsd" where
  "parse_net_loop [] s i arg = send_err s i ''UNKNOWN-COMMAND''"
| "parse_net_loop (cmd # cmds) s i arg =
     (if strcaseeq (fst cmd) (arg ! 0) then check_command cmd s i arg
      else parse_net_loop cmds s i arg)"

definition parse_net :: "upsd \<Rightarrow> nat \<Rightarrow> upsd" where
  "parse_net s i =
     (let ctx = cl_ctx (client_at s i) in
      if numargs ctx < 1 then send_err s i ''UNKNOWN-COMMAND''
      else parse_net_loop netcmds s i (pconf_words ctx))"

section \<open>Clients\<close>

definition client_connect :: "upsd \<Rightarrow> string \<Rightarrow> bool list \<Rightarrow> pconf_ctx \<Rightarrow> int \<Rightarrow> upsd" where
  "client_connect s addr plan mem now =
     s\<lparr>firstclient := \<lparr>cl_addr = addr, cl_sock = sock_new plan, cl_last_heard = now, loginups = None,
         cl_password = None, cl_username = None, cl_ctx = pconf_init mem\<rparr> # firstclient s\<rparr>"

fun client_read_loop :: "upsd \<Rightarrow> nat \<Rightarrow> int \<Rightarrow> string \<Rightarrow> upsd" where
  "client_read_loop s i now [] = s"
| "client_read_loop s i now (c # cs) =
     (let (r, ctx) = pconf_char (cl_ctx (client_at s i)) c;
          s1 = set_client s i ((client_at s i)\<lparr>cl_ctx := ctx\<rparr>)
      in if r = 1
         then client_read_loop
                (parse_net (set_client s1 i ((client_at s1 i)\<lparr>cl_last_heard := now\<rparr>)) i) i now cs
         else if r = 0 then client_read_loop s1 i now cs
         else s1)"

definition client_readline :: "upsd \<Rightarrow> nat \<Rightarrow> rd \<Rightarrow> int \<Rightarrow> upsd" where
  "client_readline s i res now =
     (case res of
        RdError \<Rightarrow> client_disconnect s i
      | RdAgain \<Rightarrow> client_disconnect s i
      | RdData buf \<Rightarrow>
          if buf = [] then client_disconnect s i
          else client_read_loop s i now (take SMALLBUF buf))"

section \<open>The main loop\<close>

text \<open>The scan of the driver sockets; \<open>conns\<close> are the results of the connection attempts.\<close>

fun scan_drivers :: "upstype list \<Rightarrow> nat \<Rightarrow> int \<Rightarrow> int \<Rightarrow> conn_result list \<Rightarrow> int \<Rightarrow> upstype list \<times> nat" where
  "scan_drivers [] nfds mc ma conns now = ([], nfds)"
| "scan_drivers (ups # us) nfds mc ma conns now =
     (if \<not> int nfds < mc then (ups # us, nfds)
      else if sock_fd ups < 0
      then
        let env = (case conns of [] \<Rightarrow> SocketFails | e # _ \<Rightarrow> e);
            (ups1, fd) = sstate_connect ups env now;
            (us1, n) = scan_drivers us nfds mc ma (drop 1 conns) now
        in (ups1\<lparr>sock_fd := fd\<rparr> # us1, n)
      else
        let (ups1, dead) = sstate_dead ups ma now;
            ups2 = (if dead then ups_data_stale ups1 else ups_data_ok ups1);
            (us1, n) = scan_drivers us (nfds + 1) mc ma conns now
        in (ups2 # us1, n))"

text \<open>The scan of the clients with \<open>n\<close> of them left, the next at position \<open>i\<close>: a client
  silent for more than a minute is disconnected, and the next one is then at the same position.\<close>

fun scan_clients :: "nat \<Rightarrow> upsd \<Rightarrow> int \<Rightarrow> nat \<Rightarrow> upsd" where
  "scan_clients 0 s now i = s"
| "scan_clients (Suc n) s now i =
     (if now - cl_last_heard (client_at s i) > 60
      then scan_clients n (client_disconnect s i) now i
      else scan_clients n s now (Suc i))"

datatype poll_event =
    DriverHup nat | DriverIn nat rd
  | ClientHup nat | ClientIn nat rd
  | ServerIn string "bool list" pconf_ctx

definition dispatch :: "int \<Rightarrow> upsd option \<Rightarrow> poll_event \<Rightarrow> upsd option" where
  "dispatch now so ev =
     (case so of None \<Rightarrow> None | Some s \<Rightarrow>
       (case ev of
          DriverHup u \<Rightarrow>
            Some (if u < length (firstups s) then set_ups s u (sstate_disconnect (firstups s ! u)) else s)
        | DriverIn u res \<Rightarrow>
            if u < length (firstups s)
            then map_option (set_ups s u) (sstate_readline (firstups s ! u) res now)
            else Some s
        | ClientHup i \<Rightarrow> Some (if i < length (firstclient s) then client_disconnect s i else s)
        | ClientIn i res \<Rightarrow> Some (if i < length (firstclient s) then client_readline s i res now else s)
        | ServerIn addr plan mem \<Rightarrow> Some (client_connect s addr plan mem now)))"

record round =
  r_now :: int
  r_conns :: "conn_result list"
  r_events :: "poll_event list"

definition mainloop :: "upsd option \<Rightarrow> round \<Rightarrow> upsd option" where
  "mainloop so r =
     (case so of None \<Rightarrow> None | Some s \<Rightarrow>
        let s1 = s\<lparr>firstups := fst (scan_drivers (firstups s) 0 (maxconn s) (maxage s) (r_conns r) (r_now r))\<rparr>;
            s2 = scan_clients (length (firstclient s1)) s1 (r_now r) 0
        in foldl (dispatch (r_now r)) (Some s2) (r_events r))"

section \<open>Invariants of the loop\<close>

lemma netcmds_commands: "cmd \<in> set netcmds \<Longrightarrow> net_command (fst (snd cmd))"
  by (auto simp: netcmds_def intro: q_ver.net_command_axioms q_netver.net_command_axioms
      q_help.net_command_axioms q_starttls.net_command_axioms q_get.net_command_axioms
      q_list.net_command_axioms q_logout.net_command_axioms q_master.net_command_axioms
      c_username.net_command_axioms c_password.net_command_axioms c_login.net_command_axioms
      c_fsd.net_command_axioms c_set.net_command_axioms c_instcmd.net_command_axioms)

text \<open>A line is either only answered, or runs one entry of the table whose demands are met.\<close>

definition may_run :: "netcmd \<Rightarrow> upsd \<Rightarrow> nat \<Rightarrow> bool" where
  "may_run cmd s i \<longleftrightarrow> snd (snd cmd) AND FLAG_USER \<noteq> 0 \<longrightarrow>
     (\<exists>un pw. cl_username (client_at s i) = Some un \<and> cl_password (client_at s i) = Some pw \<and>
        hosts_access s (cl_addr (client_at s i)) un)"

lemma check_command_cases:
  "only_answered i s (check_command cmd s i arg) \<or>
   (may_run cmd s i \<and> check_command cmd s i arg = fst (snd cmd) s i (drop 1 arg))"
  by (auto simp: check_command_def may_run_def Let_def split: option.splits)

lemma parse_net_loop_cases:
  "only_answered i s (parse_net_loop cmds s i arg) \<or>
   (\<exists>cmd\<in>set cmds. strcaseeq (fst cmd) (arg ! 0) \<and> may_run cmd s i \<and>
      parse_net_loop cmds s i arg = fst (snd cmd) s i (drop 1 arg))"
proof (induction cmds)
  case (Cons cmd cmds)
  then show ?case using check_command_cases [of i s cmd arg] by auto
qed simp

lemma parse_net_cases:
  obtains "only_answered i s (parse_net s i)"
  | cmd where "cmd \<in> set netcmds" "may_run cmd s i" "1 \<le> numargs (cl_ctx (client_at s i))"
      "strcaseeq (fst cmd) (pconf_words (cl_ctx (client_at s i)) ! 0)"
      "parse_net s i = fst (snd cmd) s i (drop 1 (pconf_words (cl_ctx (client_at s i))))"
proof (cases "numargs (cl_ctx (client_at s i)) < 1")
  case True
  then show ?thesis using that(1) by (simp add: parse_net_def Let_def)
next
  case False
  with parse_net_loop_cases [of i s netcmds "pconf_words (cl_ctx (client_at s i))"] that show ?thesis
    by (auto simp: parse_net_def Let_def)
qed

interpretation c_parse_net: net_command "\<lambda>s i arg. parse_net s i"
proof
  fix s i
  show "upsd_inv s \<Longrightarrow> i < length (firstclient s) \<Longrightarrow> upsd_inv (parse_net s i)"
    by (cases rule: parse_net_cases [of i s])
      (auto intro: only_answered_inv net_command.inv [OF netcmds_commands])
  show "length (firstclient (parse_net s i)) = length (firstclient s)"
    by (cases rule: parse_net_cases [of i s])
      (auto simp: only_answeredD net_command.len [OF netcmds_commands])
  show "user_db (parse_net s i) = user_db s"
    by (cases rule: parse_net_cases [of i s])
      (auto simp: only_answeredD net_command.users [OF netcmds_commands])
  show "hosts_access (parse_net s i) = hosts_access s"
    by (cases rule: parse_net_cases [of i s])
      (auto simp: only_answeredD net_command.access [OF netcmds_commands])
  show "cl_ctx (client_at (parse_net s i) i) = cl_ctx (client_at s i)"
    by (cases rule: parse_net_cases [of i s])
      (auto simp: only_answeredD net_command.ctx [OF netcmds_commands])
  show "map ups_name (firstups (parse_net s i)) = map ups_name (firstups s)"
    by (cases rule: parse_net_cases [of i s])
      (auto simp: only_answeredD net_command.names [OF netcmds_commands])
  show "cl_username (client_at s i) \<noteq> None \<Longrightarrow> cl_username (client_at (parse_net s i) i) = cl_username (client_at s i)"
    by (cases rule: parse_net_cases [of i s])
      (auto simp: only_answeredD net_command.username [OF netcmds_commands])
  show "cl_password (client_at s i) \<noteq> None \<Longrightarrow> cl_password (client_at (parse_net s i) i) = cl_password (client_at s i)"
    by (cases rule: parse_net_cases [of i s])
      (auto simp: only_answeredD net_command.password [OF netcmds_commands])
  show "j \<noteq> i \<Longrightarrow> client_at (parse_net s i) j = client_at s j" for j
    by (cases rule: parse_net_cases [of i s])
      (auto simp: only_answeredD(6) net_command.others [OF netcmds_commands])
qed

lemma set_client_ctx_inv:
  assumes "upsd_inv s" "i < length (firstclient s)" "pconf_live PCONF_DEFAULT_ARG_LIMIT PCONF_DEFAULT_WORDLEN_LIMIT ctx"
  shows "upsd_inv (set_client s i ((client_at s i)\<lparr>cl_ctx := ctx\<rparr>))"
proof -
  have "login_known (set_client s i ((client_at s i)\<lparr>cl_ctx := ctx\<rparr>)) = login_known s"
    by (intro login_known_cong) simp
  with assms show ?thesis
    by (simp add: upsd_inv_def logins_ok_def map_update_same list_all_update)
qed

lemma client_read_loop_inv:
  "upsd_inv s \<Longrightarrow> i < length (firstclient s) \<Longrightarrow> upsd_inv (client_read_loop s i now cs)"
proof (induction cs arbitrary: s)
  case (Cons c cs)
  let ?c = "client_at s i"
  obtain r ctx where rc: "pconf_char (cl_ctx ?c) c = (r, ctx)" by force
  have "pconf_live PCONF_DEFAULT_ARG_LIMIT PCONF_DEFAULT_WORDLEN_LIMIT (cl_ctx ?c)"
    using Cons.prems by (simp add: upsd_inv_def list_all_length)
  then have live: "pconf_live PCONF_DEFAULT_ARG_LIMIT PCONF_DEFAULT_WORDLEN_LIMIT ctx"
    using pconf_char_abs(2) [of _ _ "cl_ctx ?c" c] rc by auto
  let ?s1 = "set_client s i (?c\<lparr>cl_ctx := ctx\<rparr>)"
  have s1: "upsd_inv ?s1" "i < length (firstclient ?s1)"
    using set_client_ctx_inv [OF Cons.prems live] Cons.prems by auto
  let ?s2 = "set_client ?s1 i ((client_at ?s1 i)\<lparr>cl_last_heard := now\<rparr>)"
  have s2: "upsd_inv ?s2" "i < length (firstclient ?s2)"
    using set_client_inv [OF s1, of "(client_at ?s1 i)\<lparr>cl_last_heard := now\<rparr>"] s1 by auto
  have s3: "upsd_inv (parse_net ?s2 i)" "i < length (firstclient (parse_net ?s2 i))"
    using c_parse_net.inv [OF s2] c_parse_net.len [of ?s2 i] s2(2) by auto
  show ?case
    using rc Cons.IH [OF s3] Cons.IH [OF s1] s1 by (simp add: Let_def del: set_client_twice set_client_fields)
qed simp

lemma client_read_loop_len: "length (firstclient (client_read_loop s i now cs)) = length (firstclient s)"
  by (induction cs arbitrary: s) (auto simp: c_parse_net.len Let_def split: prod.splits)

lemma count_list_unlink:
  "i < length xs \<Longrightarrow> count_list xs x = count_list (unlink_at i xs) x + (if xs ! i = x then 1 else 0)"
  by (subst id_take_nth_drop [of i xs]) (simp_all add: unlink_at_def)

lemma map_unlink: "map f (unlink_at i xs) = unlink_at i (map f xs)"
  by (simp add: unlink_at_def take_map drop_map)

lemma list_all_unlink: "list_all P xs \<Longrightarrow> list_all P (unlink_at i xs)"
  by (auto simp: unlink_at_def list_all_iff dest: in_set_takeD in_set_dropD)

lemma get_ups_ptr_exact:
  assumes "logins_ok s" "k < length (firstups s)"
  shows "get_ups_ptr s (ups_name (firstups s ! k)) = Some k"
proof -
  have "get_ups_ptr s (ups_name (firstups s ! k)) \<noteq> None"
    using assms(2) by (auto simp: get_ups_ptr_def find_index_None strcaseeq_iff)
  then obtain u where u: "get_ups_ptr s (ups_name (firstups s ! k)) = Some u" by blast
  from get_ups_ptr_Some [OF this] have "u < length (firstups s)"
    "lower (ups_name (firstups s ! u)) = lower (ups_name (firstups s ! k))"
    by (auto simp: strcaseeq_iff)
  with assms distinct_names [of s k u] u show ?thesis by auto
qed

lemma client_disconnect_inv:
  assumes "upsd_inv s" "i < length (firstclient s)"
  shows "upsd_inv (client_disconnect s i)"
proof -
  let ?c = "client_at s i" and ?t = "client_disconnect s i"
  let ?l = "map loginups (firstclient s)"
  have ok: "logins_ok s" using assms(1) by (simp add: upsd_inv_def)
  have fc: "firstclient ?t = unlink_at i (firstclient s)" by (rule client_disconnect_clients)
  have l: "map loginups (firstclient ?t) = unlink_at i ?l" by (simp add: fc map_unlink)
  have names: "map ups_name (firstups ?t) = map ups_name (firstups s)" and
    db: "user_db ?t = user_db s" and uinv: "list_all ups_inv (firstups ?t)"
    using assms(1)
    by (auto simp: client_disconnect_def declogins_def Let_def map_update_same upsd_inv_def
        list_all_length nth_list_update dest: get_ups_ptr_Some(1) split: option.splits)
  have len: "length (firstups ?t) = length (firstups s)" using names map_eq_imp_length_eq by blast
  have nm: "ups_name (firstups ?t ! k) = ups_name (firstups s ! k)" if "k < length (firstups s)" for k
    using names len that by (metis nth_map)
  have "numlogins (firstups ?t ! k) = int (count_list (unlink_at i ?l) (Some (ups_name (firstups s ! k))))"
    if k: "k < length (firstups s)" for k
  proof -
    have n: "numlogins (firstups s ! k) = int (count_list ?l (Some (ups_name (firstups s ! k))))"
      using ok k by (simp add: logins_ok_def list_all_length)
    have c: "count_list ?l (Some (ups_name (firstups s ! k))) =
        count_list (unlink_at i ?l) (Some (ups_name (firstups s ! k))) +
        (if loginups ?c = Some (ups_name (firstups s ! k)) then 1 else 0)"
      using count_list_unlink [of i ?l] assms(2) by simp
    show ?thesis
    proof (cases "loginups ?c")
      case None
      then show ?thesis using n c by (simp add: client_disconnect_def Let_def)
    next
      case (Some m)
      have "login_known s (Some m)"
        using ok assms(2) Some by (auto simp: logins_ok_def list_all_length)
      then obtain u where u: "u < length (firstups s)" "m = ups_name (firstups s ! u)"
        by (auto simp: login_known_def in_set_conv_nth)
      then have ptr: "get_ups_ptr s m = Some u" using get_ups_ptr_exact [OF ok] by blast
      show ?thesis
      proof (cases "k = u")
        case True
        then show ?thesis using n c u Some ptr by (simp add: client_disconnect_def declogins_def Let_def)
      next
        case False
        then have "m \<noteq> ups_name (firstups s ! k)" using distinct_names [OF ok u(1) k] u(2) by auto
        with n c u Some ptr False show ?thesis by (simp add: client_disconnect_def declogins_def Let_def)
      qed
    qed
  qed
  moreover have "distinct (map (lower \<circ> ups_name) (firstups ?t))"
    using ok names by (metis logins_ok_def map_map)
  moreover have "list_all (login_known ?t) (map loginups (firstclient ?t))"
    unfolding l using ok login_known_cong [OF names] by (simp add: logins_ok_def list_all_unlink)
  ultimately have "logins_ok ?t" unfolding logins_ok_def l by (simp add: list_all_length len nm)
  with assms(1) uinv db show ?thesis by (simp add: upsd_inv_def fc list_all_unlink)
qed

lemma scan_clients_inv: "upsd_inv s \<Longrightarrow> i + n = length (firstclient s) \<Longrightarrow> upsd_inv (scan_clients n s now i)"
  by (induction n s now i rule: scan_clients.induct)
    (auto simp: client_disconnect_inv client_disconnect_clients unlink_at_length)

lemma kick_loop_inv: "upsd_inv s \<Longrightarrow> i + n = length (firstclient s) \<Longrightarrow> upsd_inv (kick_loop n s nm i)"
  by (induction n s nm i rule: kick_loop.induct)
    (auto simp: client_disconnect_inv client_disconnect_clients unlink_at_length split: option.splits)

lemma unlink_Cons: "unlink_at (length ys) (ys @ x # xs) = ys @ xs"
  by (simp add: unlink_at_def)

lemma kick_loop_clients:
  "firstclient s = ys @ xs \<Longrightarrow>
   firstclient (kick_loop (length xs) s nm (length ys)) = ys @ filter (\<lambda>c. loginups c \<noteq> Some nm) xs"
proof (induction xs arbitrary: s ys)
  case (Cons x xs)
  have x: "client_at s (length ys) = x" using Cons.prems by simp
  have "firstclient (client_disconnect s (length ys)) = ys @ xs"
    by (simp add: client_disconnect_clients Cons.prems unlink_Cons)
  with Cons.IH [of _ ys] Cons.IH [of s "ys @ [x]"] Cons.prems show ?case
    by (auto simp: x split: option.splits)
qed simp

definition keeps_id :: "upstype \<Rightarrow> upstype \<Rightarrow> bool" where
  "keeps_id ups x \<longleftrightarrow> ups_name x = ups_name ups \<and> numlogins x = numlogins ups \<and> ups_fsd x = ups_fsd ups"

lemma keeps_id_refl [simp]: "keeps_id ups ups"
  by (simp add: keeps_id_def)

lemma sstate_keeps_id:
  "keeps_id ups (sstate_disconnect ups)"
  "keeps_id ups (fst (sstate_dead ups ma now))"
  "keeps_id ups ((fst (sstate_connect ups env now))\<lparr>sock_fd := fd\<rparr>)"
  by (auto simp: keeps_id_def sstate_disconnect_def sstate_infofree_def sstate_cmdfree_def Let_def
      sstate_dead_def sendping_def sstate_connect_def split: prod.splits conn_result.splits)

lemma read_loop_keeps_id: "sstate_read_loop ups now cs = Some x \<Longrightarrow> keeps_id ups x"
proof (induction ups now cs rule: sstate_read_loop.induct)
  case (2 ups now c cs)
  obtain r ctx where rc: "pconf_char (sock_ctx ups) c = (r, ctx)" by force
  show ?case
  proof (cases "r = 1")
    case True
    then obtain ups2 k where p: "parse_args (ups\<lparr>sock_ctx := ctx\<rparr>) (numargs ctx) (arglist ctx) = Some (ups2, k)"
      using "2.prems" rc by (auto split: option.splits)
    have "keeps_id (if k \<noteq> 0 then ups2\<lparr>ups_last_heard := now\<rparr> else ups2) x"
      using "2.IH"(1) [OF refl rc [symmetric] refl True p refl] "2.prems" True rc p by simp
    then show ?thesis using parse_args_keeps(4,5,6) [OF p] by (auto simp: keeps_id_def split: if_splits)
  next
    case False
    then show ?thesis
      using "2.IH"(2) [OF refl rc [symmetric] refl False] "2.prems" rc
      by (cases "r = 0") (auto simp: keeps_id_def)
  qed
qed simp

lemma readline_keeps_id: "sstate_readline ups res now = Some x \<Longrightarrow> keeps_id ups x"
  by (auto simp: sstate_readline_def read_loop_keeps_id sstate_keeps_id split: if_splits rd.splits)

lemma stale_ok_keeps:
  "keeps_id ups (ups_data_stale ups)" "keeps_id ups (ups_data_ok ups)"
  "ups_inv (ups_data_stale ups) = ups_inv ups" "ups_inv (ups_data_ok ups) = ups_inv ups"
  by (simp_all add: ups_data_stale_def ups_data_ok_def keeps_id_def)

lemma scan_drivers_keeps:
  "list_all2 (\<lambda>x y. keeps_id x y \<and> (ups_inv x \<longrightarrow> ups_inv y)) us (fst (scan_drivers us nfds mc ma conns now))"
proof (induction us nfds mc ma conns now rule: scan_drivers.induct)
  case (2 ups us nfds mc ma conns now)
  let ?P = "\<lambda>x y. keeps_id x y \<and> (ups_inv x \<longrightarrow> ups_inv y)"
  let ?env = "case conns of [] \<Rightarrow> SocketFails | e # _ \<Rightarrow> e"
  show ?case
  proof (cases "int nfds < mc")
    case True
    show ?thesis
    proof (cases "sock_fd ups < 0")
      case neg: True
      obtain ups1 fd where c: "sstate_connect ups ?env now = (ups1, fd)" by force
      have "?P ups (ups1\<lparr>sock_fd := fd\<rparr>)"
        using sstate_keeps_id(3) [where ups = ups and env = ?env and now = now and fd = fd] ups_inv_connect [of ups ?env now ups1 fd] c by simp
      with True neg c "2.IH"(1) [OF _ neg refl c [symmetric] refl] show ?thesis
        by (simp add: Let_def case_prod_unfold)
    next
      case False
      obtain ups1 d where c: "sstate_dead ups ma now = (ups1, d)" by force
      have "?P ups (if d then ups_data_stale ups1 else ups_data_ok ups1)"
        using sstate_keeps_id(2) [of ups ma now] ups_inv_dead [of ups ma now] stale_ok_keeps [of ups1] c
        by (auto simp: keeps_id_def)
      with True False c "2.IH"(2) [OF _ False c [symmetric] refl refl] show ?thesis
        by (cases d) (simp_all add: Let_def case_prod_unfold)
    qed
  next
    case False
    then show ?thesis by (simp add: list_all2_refl)
  qed
qed simp

lemma replace_ups_inv:
  assumes "upsd_inv s" "list_all2 (\<lambda>x y. keeps_id x y \<and> (ups_inv x \<longrightarrow> ups_inv y)) (firstups s) us"
  shows "upsd_inv (s\<lparr>firstups := us\<rparr>)"
proof -
  have len: "length us = length (firstups s)" using list_all2_lengthD [OF assms(2)] by simp
  have p: "keeps_id (firstups s ! k) (us ! k) \<and> (ups_inv (firstups s ! k) \<longrightarrow> ups_inv (us ! k))"
    if "k < length (firstups s)" for k
    using assms(2) that by (rule list_all2_nthD)
  have names: "map ups_name us = map ups_name (firstups s)"
    using p len by (intro nth_equalityI) (auto simp: keeps_id_def)
  have "distinct (map (lower \<circ> ups_name) us)"
    using assms(1) names by (metis logins_ok_def map_map upsd_inv_def)
  moreover have "login_known (s\<lparr>firstups := us\<rparr>) = login_known s"
    by (intro login_known_cong) (simp add: names)
  ultimately show ?thesis
    using assms(1) p len by (auto simp: upsd_inv_def logins_ok_def list_all_length keeps_id_def)
qed

lemma set_ups_keeps_inv:
  assumes "upsd_inv s" "u < length (firstups s)" "keeps_id (firstups s ! u) x" "ups_inv (firstups s ! u) \<longrightarrow> ups_inv x"
  shows "upsd_inv (set_ups s u x)"
  using assms by (intro set_ups_inv) (auto simp: keeps_id_def upsd_inv_def list_all_length)

definition loop_inv :: "upsd option \<Rightarrow> bool" where
  "loop_inv so \<longleftrightarrow> (case so of None \<Rightarrow> True | Some s \<Rightarrow> upsd_inv s)"

lemma dispatch_inv: "loop_inv so \<Longrightarrow> loop_inv (dispatch now so ev)"
proof (cases so; cases ev)
  fix s u res
  assume "loop_inv so" and s: "so = Some s" and ev: "ev = DriverIn u res"
  then have inv: "upsd_inv s" by (simp add: loop_inv_def)
  show ?thesis
  proof (cases "u < length (firstups s) \<and> sstate_readline (firstups s ! u) res now \<noteq> None")
    case True
    then obtain x where x: "u < length (firstups s)" "sstate_readline (firstups s ! u) res now = Some x" by blast
    then have "upsd_inv (set_ups s u x)"
      using set_ups_keeps_inv [OF inv x(1)] readline_keeps_id [OF x(2)] ups_inv_readline [OF x(2)] by blast
    with s ev x show ?thesis by (simp add: dispatch_def loop_inv_def)
  next
    case False
    with s ev inv show ?thesis by (auto simp: dispatch_def loop_inv_def)
  qed
next
  fix s u
  assume "loop_inv so" and s: "so = Some s" and ev: "ev = DriverHup u"
  with set_ups_keeps_inv [of s u] sstate_keeps_id(1) ups_inv_disconnect show ?thesis
    by (simp add: dispatch_def loop_inv_def)
next
  fix s i
  assume "loop_inv so" and s: "so = Some s" and ev: "ev = ClientHup i"
  with client_disconnect_inv [of s i] show ?thesis by (simp add: dispatch_def loop_inv_def)
next
  fix s i res
  assume "loop_inv so" and s: "so = Some s" and ev: "ev = ClientIn i res"
  with client_disconnect_inv [of s i] client_read_loop_inv [of s i] show ?thesis
    by (auto simp: dispatch_def loop_inv_def client_readline_def split: rd.splits)
next
  fix s addr plan mem
  assume "loop_inv so" and s: "so = Some s" and ev: "ev = ServerIn addr plan mem"
  then have inv: "upsd_inv s" by (simp add: loop_inv_def)
  let ?t = "client_connect s addr plan mem now"
  have "login_known ?t = login_known s" by (intro login_known_cong) (simp add: client_connect_def)
  moreover have "login_known s None" by (simp add: login_known_def)
  ultimately show ?thesis
    using inv s ev pconf_init_live [of mem]
    by (simp add: dispatch_def loop_inv_def client_connect_def upsd_inv_def logins_ok_def)
qed (auto simp: dispatch_def loop_inv_def)

lemma mainloop_inv: "loop_inv so \<Longrightarrow> loop_inv (mainloop so r)"
proof (cases so)
  case (Some s)
  assume "loop_inv so"
  with Some have "upsd_inv s" by (simp add: loop_inv_def)
  let ?s1 = "s\<lparr>firstups := fst (scan_drivers (firstups s) 0 (maxconn s) (maxage s) (r_conns r) (r_now r))\<rparr>"
  have "upsd_inv (scan_clients (length (firstclient ?s1)) ?s1 (r_now r) 0)" (is "upsd_inv ?s2")
    using \<open>upsd_inv s\<close> scan_drivers_keeps by (intro scan_clients_inv replace_ups_inv) auto
  then have "loop_inv (Some ?s2)" by (simp add: loop_inv_def)
  moreover have "loop_inv so \<Longrightarrow> loop_inv (foldl (dispatch now) so evs)" for so now evs
    by (induction evs arbitrary: so) (auto intro: dispatch_inv)
  ultimately show ?thesis using Some by (simp add: mainloop_def Let_def)
qed (simp add: mainloop_def)

text \<open>The server as configured and before anybody has connected.\<close>

definition upsd_start :: "upsd option \<Rightarrow> bool" where
  "upsd_start so \<longleftrightarrow> (case so of None \<Rightarrow> False | Some s \<Rightarrow>
     firstclient s = [] \<and> distinct (map (lower \<circ> ups_name) (firstups s)) \<and> user_inv (user_db s) \<and>
     list_all (\<lambda>ups. sock_fd ups = -1 \<and> numlogins ups = 0 \<and> inforoot ups = Leaf \<and> ups_cmdlist ups = []) (firstups s))"

interpretation server_loop: event_loop upsd_start mainloop loop_inv
proof
  fix so
  assume "upsd_start so"
  then obtain s where s: "so = Some s" "firstclient s = []" "distinct (map (lower \<circ> ups_name) (firstups s))"
    "user_inv (user_db s)"
    "list_all (\<lambda>ups. sock_fd ups = -1 \<and> numlogins ups = 0 \<and> inforoot ups = Leaf \<and> ups_cmdlist ups = []) (firstups s)"
    by (auto simp: upsd_start_def split: option.splits)
  then show "loop_inv so"
    by (auto simp: loop_inv_def upsd_inv_def logins_ok_def ups_inv_def list_all_iff)
qed (rule mainloop_inv)

section \<open>Login counters\<close>

lemma upsd_inv_logins:
  assumes inv: "upsd_inv s"
  shows "list_all (\<lambda>ups. numlogins ups = int (length (filter (\<lambda>c. loginups c = Some (ups_name ups)) (firstclient s))))
           (firstups s)"
    and "list_all (login_known s) (map loginups (firstclient s))"
    and "list_all (\<lambda>ups. st_inv (inforoot ups) \<and> cmds_sorted (ups_cmdlist ups)) (firstups s)"
proof -
  have cnt: "count_list (map f xs) y = length (filter (\<lambda>c. f c = y) xs)" for f :: "nut_ctype \<Rightarrow> string option" and xs y
    by (induction xs) auto
  show "list_all (\<lambda>ups. numlogins ups = int (length (filter (\<lambda>c. loginups c = Some (ups_name ups)) (firstclient s))))
           (firstups s)"
    using inv by (simp add: upsd_inv_def logins_ok_def cnt)
  show "list_all (login_known s) (map loginups (firstclient s))"
    using inv by (simp add: upsd_inv_def logins_ok_def)
  show "list_all (\<lambda>ups. st_inv (inforoot ups) \<and> cmds_sorted (ups_cmdlist ups)) (firstups s)"
    using inv by (auto simp: upsd_inv_def ups_inv_def list_all_iff)
qed

definition demo_upsd :: upsd where
  "demo_upsd = \<lparr>firstups = [upstype_zero\<lparr>ups_name := ''apc'', sock_fd := -1\<rparr>,
       upstype_zero\<lparr>ups_name := ''misc'', sock_fd := -1\<rparr>], firstclient = [],
     user_db = foldl (\<lambda>db w. user_parse_arg w db) \<lparr>users = [], curr_user = None\<rparr>
       [[''[mon]''], [''password'', ''='', ''pw''], [''upsmon'', ''master''], [''instcmds'', ''='', ''ALL''],
        [''actions'', ''='', ''SET'']],
     desc_db = \<lparr>cmd_list = [], var_list = []\<rparr>, maxage = 15, maxconn = 100,
     hosts_access = (\<lambda>addr un. True), ups_version = ''2.6.5''\<rparr>"

definition demo_rounds :: "round list" where
  "demo_rounds =
    [\<lparr>r_now = 100, r_conns = [Connected 5 [], SocketFails], r_events = [ServerIn ''::1'' [] zero_ctx]\<rparr>,
     \<lparr>r_now = 105, r_conns = [Connected 6 []], r_events = [ServerIn ''10.0.0.7'' [] zero_ctx]\<rparr>,
     \<lparr>r_now = 162, r_conns = [], r_events = [DriverHup 0]\<rparr>]"

text \<open>Whatever drivers and clients do, in every state the server reaches the login counter of
  each UPS equals the number of clients logged into it (so it is never negative, and the
  answer to GET NUMLOGINS tells a master upsmon exactly how many slaves are still there), every logged-in client names a
  UPS of the list, and the variable tree of every UPS is an ordered tree of well-formed nodes.\<close>

theorem upsd_logins_counted:
  assumes "upsd_start so" and "foldl mainloop so rounds = Some s"
  shows "list_all (\<lambda>ups. numlogins ups = int (length (filter (\<lambda>c. loginups c = Some (ups_name ups)) (firstclient s))))
           (firstups s) \<and>
    list_all (login_known s) (map loginups (firstclient s)) \<and>
    list_all (\<lambda>ups. st_inv (inforoot ups) \<and> cmds_sorted (ups_cmdlist ups)) (firstups s)"
proof -
  have "upsd_inv s"
    using server_loop.init_run_inv [OF assms(1), of rounds] assms(2) by (simp add: loop_inv_def)
  from upsd_inv_logins [OF this] show ?thesis by (intro conjI)
qed

theorem upsd_logins_counted_witness:
  "\<exists>s. foldl mainloop (Some demo_upsd) demo_rounds = Some s \<and> map cl_addr (firstclient s) = [''10.0.0.7''] \<and>
     map sock_fd (firstups s) = [-1, 6] \<and>
     list_all (\<lambda>ups. numlogins ups = int (length (filter (\<lambda>c. loginups c = Some (ups_name ups)) (firstclient s))))
       (firstups s)"
proof -
  have start: "upsd_start (Some demo_upsd)" by code_simp
  have "map_option (\<lambda>s. (map cl_addr (firstclient s), map sock_fd (firstups s)))
      (foldl mainloop (Some demo_upsd) demo_rounds) = Some ([''10.0.0.7''], [-1, 6])"
    by code_simp
  then obtain s where s: "foldl mainloop (Some demo_upsd) demo_rounds = Some s"
    "map cl_addr (firstclient s) = [''10.0.0.7'']" "map sock_fd (firstups s) = [-1, 6]"
    by auto
  with upsd_logins_counted [OF start s(1)] show ?thesis by (intro exI [of _ s]) (simp only: simp_thms)
qed

section \<open>Privileged effects\<close>

text \<open>The permission a client needs, as known at the time its line is handled.\<close>

definition client_may :: "upsd \<Rightarrow> nat \<Rightarrow> string \<Rightarrow> bool" where
  "client_may s i a \<longleftrightarrow> (\<exists>un pw. cl_username (client_at s i) = Some un \<and> cl_password (client_at s i) = Some pw \<and>
     hosts_access s (cl_addr (client_at s i)) un \<and> grants_action (user_db s) un pw a)"

definition client_may_cmd :: "upsd \<Rightarrow> nat \<Rightarrow> string \<Rightarrow> bool" where
  "client_may_cmd s i c \<longleftrightarrow> (\<exists>un pw. cl_username (client_at s i) = Some un \<and> cl_password (client_at s i) = Some pw \<and>
     hosts_access s (cl_addr (client_at s i)) un \<and> grants_instcmd (user_db s) un pw c)"

lemma checkaction_may:
  assumes "upsd_inv s" "may_run cmd s i" "snd (snd cmd) = FLAG_USER"
  shows "user_checkaction (user_db s) (cl_username (client_at s i)) (cl_password (client_at s i)) a \<Longrightarrow> client_may s i a"
    and "user_checkinstcmd (user_db s) (cl_username (client_at s i)) (cl_password (client_at s i)) a \<Longrightarrow> client_may_cmd s i a"
  using assms user_check_iff [of "user_db s"]
  by (auto simp: may_run_def client_may_def client_may_cmd_def upsd_inv_def FLAG_USER_def)

text \<open>What a driver has declared about a variable admits a value: the variable exists and is writable (flag
  0), a string (flag 1) is no longer than the auxiliary number, which is positive, the value is one of the
  enumerated ones if there are any, and its number lies in one of the ranges if there are any.\<close>

definition value_admitted :: "upstype \<Rightarrow> string \<Rightarrow> string \<Rightarrow> bool" where
  "value_admitted ups v x \<longleftrightarrow>
     (case state_tree_find (inforoot ups) v of
        None \<Rightarrow> False
      | Some n \<Rightarrow> bit (st_flags n) 0 \<and>
          (bit (st_flags n) 1 \<longrightarrow> 1 \<le> st_aux n \<and> int (length x) \<le> st_aux n) \<and>
          (st_enum_list n = [] \<or> x \<in> set (st_enum_list n)) \<and>
          (st_range_list n = [] \<or> (\<exists>(a, b)\<in>set (st_range_list n). a \<le> atoi x \<and> atoi x \<le> b)))"

lemma enum_search_set: "enum_search es x \<longleftrightarrow> x \<in> set es"
  by (induction es) auto

lemma range_search_set: "range_search rs n \<longleftrightarrow> (\<exists>(a, b)\<in>set rs. a \<le> n \<and> n \<le> b)"
  by (induction rs) auto

lemma set_value_admitted:
  "sstate_getinfo ups v \<noteq> None \<Longrightarrow> set_value_error ups v x = None \<Longrightarrow> value_admitted ups v x"
  by (auto simp: set_value_error_def value_admitted_def sstate_getinfo_def state_getinfo_def sstate_getflags_def state_getflags_def
      sstate_getaux_def state_getaux_def sstate_getenumlist_def state_getenumlist_def sstate_getrangelist_def state_getrangelist_def
      ST_FLAG_RW_def ST_FLAG_STRING_def flag_mask_bit enum_search_set range_search_set Let_def
      split: option.splits if_splits)

text \<open>How a line handled for client \<open>i\<close> may change the UPS at position \<open>u\<close>.\<close>

lemma parse_net_ups:
  assumes "upsd_inv s" "i < length (firstclient s)"
  obtains "firstups (parse_net s i) = firstups s"
  | u where "client_may s i ''LOGIN''" "u < length (firstups s)"
      "firstups (parse_net s i) = (firstups s)[u := (firstups s ! u)\<lparr>numlogins := numlogins (firstups s ! u) + 1\<rparr>]"
  | u where "client_may s i ''FSD''" "u < length (firstups s)"
      "firstups (parse_net s i) = (firstups s)[u := (firstups s ! u)\<lparr>ups_fsd := True\<rparr>]"
  | u v x where "client_may s i ''SET''" "u < length (firstups s)" "value_admitted (firstups s ! u) v x"
      "firstups (parse_net s i) = (firstups s)[u := fst (sstate_sendline (firstups s ! u) (set_line v x))]"
  | u c x where "client_may_cmd s i c" "u < length (firstups s)" "list_ex (\<lambda>y. strcaseeq y c) (ups_cmdlist (firstups s ! u))"
      "firstups (parse_net s i) = (firstups s)[u := fst (sstate_sendline (firstups s ! u) (instcmd_line c x))]"
proof (cases rule: parse_net_cases [of i s])
  case 1
  then show ?thesis using that(1) by (simp add: only_answeredD)
next
  case (2 cmd)
  let ?arg = "drop 1 (pconf_words (cl_ctx (client_at s i)))"
  note run = 2(5)
  have quiet: "only_answered i s (fst (snd cmd) s i ?arg) \<Longrightarrow> thesis"
    using that(1) run by (simp add: only_answeredD)
  consider "fst (snd cmd) \<in> {net_ver, net_netver, net_help, net_starttls, net_get, net_list, net_logout, net_master}"
    | "fst (snd cmd) = net_username" | "fst (snd cmd) = net_password"
    | "fst (snd cmd) = net_login" "snd (snd cmd) = FLAG_USER" | "fst (snd cmd) = net_fsd" "snd (snd cmd) = FLAG_USER"
    | "fst (snd cmd) = net_set" "snd (snd cmd) = FLAG_USER" | "fst (snd cmd) = net_instcmd" "snd (snd cmd) = FLAG_USER"
    using 2(1) unfolding netcmds_def by auto
  then show ?thesis
  proof cases
    case 1
    then have "only_answered i s (fst (snd cmd) s i ?arg)"
      using q_ver.only q_netver.only q_help.only q_starttls.only q_get.only q_list.only q_logout.only q_master.only
      by auto
    then show ?thesis by (rule quiet)
  next
    case 2
    then show ?thesis using that(1) run
      by (cases rule: net_username_cases [of i s ?arg]) (auto simp: only_answeredD)
  next
    case 3
    then show ?thesis using that(1) run
      by (cases rule: net_password_cases [of i s ?arg]) (auto simp: only_answeredD)
  next
    case 4
    show ?thesis
    proof (cases rule: net_login_cases [of i s ?arg])
      case (2 u)
      have "firstups (parse_net s i) = firstups (login_state s i u)"
        using run 4 only_answeredD(1) [OF 2(5)] by simp
      then show ?thesis
        using that(2) [of u] checkaction_may(1) [OF assms(1) \<open>may_run cmd s i\<close> 4(2) 2(4)] get_ups_ptr_Some(1) [OF 2(3)]
        by (simp add: login_state_def)
    qed (use 4 quiet in simp)
  next
    case 5
    show ?thesis
    proof (cases rule: net_fsd_cases [of i s ?arg])
      case (2 u)
      have "firstups (parse_net s i) = firstups (set_ups s u ((firstups s ! u)\<lparr>ups_fsd := True\<rparr>))"
        using run 5 only_answeredD(1) [OF 2(4)] by simp
      then show ?thesis
        using that(3) [of u] checkaction_may(1) [OF assms(1) \<open>may_run cmd s i\<close> 5(2) 2(3)] get_ups_ptr_Some(1) [OF 2(2)]
        by simp
    qed (use 5 quiet in simp)
  next
    case 6
    show ?thesis
    proof (cases rule: net_set_cases [of i s ?arg])
      case (2 u)
      have "firstups (parse_net s i) = firstups (drv_send s (set_line (?arg ! 2) (?arg ! 3)) u)"
        using run 6 only_answeredD(1) [OF 2(6)] by simp
      moreover have "client_may s i ''SET''" "value_admitted (firstups s ! u) (?arg ! 2) (?arg ! 3)"
        using checkaction_may(1) [OF assms(1) \<open>may_run cmd s i\<close> 6(2)] 2(5) set_value_admitted unfolding may_set_def by blast+
      ultimately show ?thesis
        using that(4) [of u "?arg ! 2" "?arg ! 3"] get_ups_ptr_Some(1) [OF 2(2)] by simp
    qed (use 6 quiet in simp)
  next
    case 7
    show ?thesis
    proof (cases rule: net_instcmd_cases [of i s ?arg])
      case (2 u)
      let ?x = "if length ?arg = 3 then Some (?arg ! 2) else None"
      have "firstups (parse_net s i) = firstups (drv_send s (instcmd_line (?arg ! 1) ?x) u)"
        using run 7 only_answeredD(1) [OF 2(6)] by simp
      moreover have "client_may_cmd s i (?arg ! 1)" "list_ex (\<lambda>y. strcaseeq y (?arg ! 1)) (ups_cmdlist (firstups s ! u))"
        using checkaction_may(2) [OF assms(1) \<open>may_run cmd s i\<close> 7(2)] 2(5)
        unfolding may_instcmd_def sstate_getcmdlist_def by blast+
      ultimately show ?thesis
        using that(5) [of "?arg ! 1" u ?x] get_ups_ptr_Some(1) [OF 2(2)] by (simp only: set_ups_fields)
    qed (use 7 quiet in simp)
  qed
qed

lemma sendline_sent:
  "sent (ups_sock (fst (sstate_sendline ups l))) = sent (ups_sock ups) \<or>
   sent (ups_sock (fst (sstate_sendline ups l))) = sent (ups_sock ups) @ [l]"
  by (auto simp: sstate_sendline_def sstate_disconnect_def sstate_infofree_def sstate_cmdfree_def Let_def
      dest: sock_write_sent split: prod.splits)

lemma nth_update_eq: "k < length xs \<Longrightarrow> xs[u := y] ! k = (if k = u then y else xs ! k)"
  by (simp add: nth_list_update)

lemma privileged_effects_facts:
  assumes "upsd_inv s" and "i < length (firstclient s)" and "k < length (firstups s)"
    and "old = firstups s ! k" and "new = firstups (parse_net s i) ! k"
  shows "ups_fsd new \<noteq> ups_fsd old \<Longrightarrow> client_may s i ''FSD'' \<and> ups_fsd new"
    and "numlogins new \<noteq> numlogins old \<Longrightarrow> client_may s i ''LOGIN'' \<and> numlogins new = numlogins old + 1"
    and "sent (ups_sock new) \<noteq> sent (ups_sock old) \<Longrightarrow>
      (\<exists>v x. client_may s i ''SET'' \<and> value_admitted old v x \<and>
         sent (ups_sock new) = sent (ups_sock old) @ [set_line v x]) \<or>
      (\<exists>c x. client_may_cmd s i c \<and> list_ex (\<lambda>y. strcaseeq y c) (ups_cmdlist old) \<and>
         sent (ups_sock new) = sent (ups_sock old) @ [instcmd_line c x])"
proof -
  let ?g = "(ups_fsd new \<noteq> ups_fsd old \<longrightarrow> client_may s i ''FSD'' \<and> ups_fsd new) \<and>
    (numlogins new \<noteq> numlogins old \<longrightarrow> client_may s i ''LOGIN'' \<and> numlogins new = numlogins old + 1) \<and>
    (sent (ups_sock new) \<noteq> sent (ups_sock old) \<longrightarrow>
      (\<exists>v x. client_may s i ''SET'' \<and> value_admitted old v x \<and>
         sent (ups_sock new) = sent (ups_sock old) @ [set_line v x]) \<or>
      (\<exists>c x. client_may_cmd s i c \<and> list_ex (\<lambda>y. strcaseeq y c) (ups_cmdlist old) \<and>
         sent (ups_sock new) = sent (ups_sock old) @ [instcmd_line c x]))"
  have ?g
  proof (cases rule: parse_net_ups [OF assms(1,2)])
    case (4 u v x)
    then show ?thesis
      using sendline_sent [of "firstups s ! u" "set_line v x"] sstate_sendline_keeps [of "firstups s ! u" "set_line v x"]
      unfolding assms(4,5) 4(4) nth_update_eq [OF assms(3)] by (cases "k = u") (simp_all, blast)
  next
    case (5 u c x)
    then show ?thesis
      using sendline_sent [of "firstups s ! u" "instcmd_line c x"] sstate_sendline_keeps [of "firstups s ! u" "instcmd_line c x"]
      unfolding assms(4,5) 5(4) nth_update_eq [OF assms(3)] by (cases "k = u") (simp_all, blast)
  qed (use assms(3-5) in \<open>auto simp: nth_list_update\<close>)
  then show "ups_fsd new \<noteq> ups_fsd old \<Longrightarrow> client_may s i ''FSD'' \<and> ups_fsd new"
    and "numlogins new \<noteq> numlogins old \<Longrightarrow> client_may s i ''LOGIN'' \<and> numlogins new = numlogins old + 1"
    and "sent (ups_sock new) \<noteq> sent (ups_sock old) \<Longrightarrow>
      (\<exists>v x. client_may s i ''SET'' \<and> value_admitted old v x \<and>
         sent (ups_sock new) = sent (ups_sock old) @ [set_line v x]) \<or>
      (\<exists>c x. client_may_cmd s i c \<and> list_ex (\<lambda>y. strcaseeq y c) (ups_cmdlist old) \<and>
         sent (ups_sock new) = sent (ups_sock old) @ [instcmd_line c x])"
    by blast+
qed

text \<open>A client of the example server that has given its name and password and sent one line.\<close>

definition demo_client :: "string \<Rightarrow> nut_ctype" where
  "demo_client line = \<lparr>cl_addr = ''::1'', cl_sock = sock_new [], cl_last_heard = 100, loginups = None,
     cl_password = Some ''pw'', cl_username = Some ''mon'', cl_ctx = feed (pconf_init zero_ctx) line\<rparr>"

definition demo_at :: "string \<Rightarrow> upsd" where
  "demo_at line = demo_upsd\<lparr>firstclient := [demo_client line]\<rparr>"

lemma demo_at_inv: "upsd_inv (demo_at line)"
proof -
  have "upsd_start (Some demo_upsd)" by code_simp
  then have "upsd_inv demo_upsd" using server_loop.inv_init [of "Some demo_upsd"] by (simp add: loop_inv_def)
  moreover have "login_known (demo_at line) None" by (simp add: login_known_def)
  moreover have "firstclient demo_upsd = []" by (simp add: demo_upsd_def)
  ultimately show ?thesis
    using feed_live [OF pconf_init_live, of zero_ctx line]
    by (simp add: upsd_inv_def logins_ok_def demo_at_def demo_client_def)
qed

lemma demo_at_fields:
  "length (firstclient (demo_at line)) = 1" "length (firstups (demo_at line)) = 2"
  "\<not> ups_fsd (firstups (demo_at line) ! 0)" "loginups (client_at (demo_at line) 0) = None"
  by (simp_all add: demo_at_def demo_client_def demo_upsd_def upstype_zero_def)

lemma demo_fsd:
  "ups_fsd (firstups (parse_net (demo_at (''FSD APC'' @ nl)) 0) ! 0)"
  by code_simp

end
