(* ===== verification/Upsconf.thy ===== *)
theory Upsconf
  imports Parseconf
begin

text \<open>
  The reader of \<open>ups.conf\<close> (\<open>common/upsconf.c\<close>, \<open>include/upsconf.h\<close>), shared by upsd, upsdrvctl and
  every driver: it splits the file into sections and calls the program's own \<open>do_upsconf_args\<close> for
  every setting. The callback is the parameter of the reader; each program's callback is modelled
  with that program and interprets the locales at the end of this theory.

  A program that ends (\<open>fatalx\<close>) or that hands a NULL pointer to \<open>strdup\<close> or \<open>atoi\<close>, which
  crashes it, that reads outside an array or frees memory twice is a value of \<open>fault\<close>. Nothing is handled after a
  fault.

  Shown here: a file of settings and sections gives the callback exactly its settings in order, each
  with the name of its section (\<open>read_upsconf_calls\<close>).
\<close>

section \<open>Faults\<close>

datatype fault = Exits string | NullPointer | OutOfBounds | FreedPointer

definition sbind :: "fault + 'a \<Rightarrow> ('a \<Rightarrow> fault + 'b) \<Rightarrow> fault + 'b" where
  "sbind m f = (case m of Inl e \<Rightarrow> Inl e | Inr x \<Rightarrow> f x)"

fun sfold :: "('a \<Rightarrow> 's \<Rightarrow> fault + 's) \<Rightarrow> 'a list \<Rightarrow> 's \<Rightarrow> fault + 's" where
  "sfold f [] s = Inr s"
| "sfold f (x # xs) s = sbind (f x s) (sfold f xs)"

lemma sbind_simps [simp]: "sbind (Inr x) f = f x" "sbind (Inl e) f = Inl e" "sbind m Inr = m"
  by (simp_all add: sbind_def split: sum.splits)

lemma sbind_assoc [simp]: "sbind (sbind m f) g = sbind m (\<lambda>x. sbind (f x) g)"
  by (simp add: sbind_def split: sum.splits)

lemma sbind_Inr_iff: "sbind m f = Inr y \<longleftrightarrow> (\<exists>x. m = Inr x \<and> f x = Inr y)"
  by (cases m) simp_all

lemma sbind_InrE [elim!]:
  assumes "sbind m f = Inr y" obtains x where "m = Inr x" "f x = Inr y"
  using assms by (auto simp: sbind_Inr_iff)

lemma sbind_cong [fundef_cong]: "m = n \<Longrightarrow> (\<And>x. n = Inr x \<Longrightarrow> f x = g x) \<Longrightarrow> sbind m f = sbind n g"
  by (cases n) auto

lemma sfold_append: "sfold f (xs @ ys) s = sbind (sfold f xs s) (sfold f ys)"
proof (induction xs arbitrary: s)
  case (Cons x xs)
  then show ?case by (cases "f x s") simp_all
qed simp

lemma sfold_Inl: "foldl (\<lambda>st x. sbind st (f x)) (Inl e) xs = Inl e"
  by (induction xs) simp_all

lemma foldl_sbind: "foldl (\<lambda>st x. sbind st (f x)) (Inr s) xs = sfold f xs s"
proof (induction xs arbitrary: s)
  case (Cons x xs)
  then show ?case by (cases "f x s") (simp_all add: sfold_Inl)
qed simp

lemma sfold_map: "sfold f (map g xs) s = sfold (f \<circ> g) xs s"
  by (induction xs arbitrary: s) (simp_all add: sbind_def split: sum.splits)

lemma sfold_keeps:
  assumes step: "\<And>x s t. P s \<Longrightarrow> f x s = Inr t \<Longrightarrow> P t"
  shows "P s \<Longrightarrow> sfold f xs s = Inr t \<Longrightarrow> P t"
proof (induction xs arbitrary: s)
  case (Cons x xs)
  from Cons.prems(2) obtain u where u: "f x s = Inr u" "sfold f xs u = Inr t" by auto
  from step [OF Cons.prems(1) u(1)] u(2) show ?case by (rule Cons.IH)
qed simp

lemma sfold_total:
  "(\<And>x s. P s \<Longrightarrow> x \<in> set xs \<Longrightarrow> \<exists>t. f x s = Inr t \<and> P t) \<Longrightarrow> P s \<Longrightarrow> \<exists>t. sfold f xs s = Inr t \<and> P t"
proof (induction xs arbitrary: s)
  case (Cons x xs)
  from Cons.prems obtain u where "f x s = Inr u" "P u" by (meson list.set_intros(1))
  with Cons.IH [OF _ this(2)] Cons.prems(1) show ?case by simp
qed simp

text \<open>\<open>xstrdup\<close> and \<open>atoi\<close> of a pointer that may be NULL.\<close>

definition xstrdup :: "string option \<Rightarrow> fault + string" where
  "xstrdup p = (case p of None \<Rightarrow> Inl NullPointer | Some s \<Rightarrow> Inr s)"

definition atoi_ptr :: "string option \<Rightarrow> fault + int" where
  "atoi_ptr p = (case p of None \<Rightarrow> Inl NullPointer | Some s \<Rightarrow> Inr (atoi s))"

lemma ptr_simps [simp]:
  "xstrdup (Some s) = Inr s" "xstrdup None = Inl NullPointer"
  "atoi_ptr (Some s) = Inr (atoi s)" "atoi_ptr None = Inl NullPointer"
  by (simp_all add: xstrdup_def atoi_ptr_def)

text \<open>The part of a path after its last slash.\<close>

definition xbasename :: "string \<Rightarrow> string" where
  "xbasename file = rev (takeWhile (\<lambda>c. c \<noteq> CHR ''/'') (rev file))"

text \<open>A word of the line by its position: also a word that an earlier, longer line has left.\<close>

definition arg_word :: "pconf_ctx \<Rightarrow> nat \<Rightarrow> fault + string" where
  "arg_word ctx k = (if k < length (arglist ctx) then Inr (arglist ctx ! k) else Inl OutOfBounds)"

section \<open>The reader\<close>

text \<open>\<open>do_upsconf_args(upsname, var, val)\<close> of the program, over the program's own state.\<close>

type_synonym 's conf_callback = "string option \<Rightarrow> string \<Rightarrow> string option \<Rightarrow> 's \<Rightarrow> fault + 's"

text \<open>The state is the current section, \<open>ups_section\<close>, and the program's.\<close>

definition conf_args :: "'s conf_callback \<Rightarrow> string list \<Rightarrow> string option \<times> 's \<Rightarrow> fault + (string option \<times> 's)" where
  "conf_args cb arg st =
     (let ups_section = fst st; s = snd st in
      if length arg < 1 then Inr st
      else if arg ! 0 \<noteq> [] \<and> hd (arg ! 0) = CHR ''['' \<and> last (arg ! 0) = CHR '']''
      then Inr (Some (tl (butlast (arg ! 0))), s)
      else if length arg = 1 then sbind (cb ups_section (arg ! 0) None s) (\<lambda>t. Inr (ups_section, t))
      else if length arg < 3 then Inr st
      else if arg ! 1 = ''=''
      then sbind (cb ups_section (arg ! 0) (Some (arg ! 2)) s) (\<lambda>t. Inr (ups_section, t))
      else Inr st)"

definition read_upsconf :: "'s conf_callback \<Rightarrow> (string \<Rightarrow> string + string) \<Rightarrow> string \<Rightarrow> pconf_ctx \<Rightarrow> 's \<Rightarrow> fault + 's" where
  "read_upsconf cb fopen confpath stack_ctx s =
     (let fn = snprintf SMALLBUF (confpath @ ''/ups.conf'') in
      case pconf_file_begin fopen (pconf_init stack_ctx) fn of
        (r, ctx) \<Rightarrow>
          if r = 0
          then Inl (Exits (''Can'' @ [CHR 0x27] @ ''t open '' @ fn @ '': '' @ errmsg ctx))
          else sbind (snd (read_lines (\<lambda>ctx st. sbind st (conf_args cb (pconf_words ctx))) ctx (Inr (None, s))))
                 (\<lambda>st. Inr (snd st)))"

section \<open>The text of a file\<close>

text \<open>A setting is a name and a value, or a name alone (a flag); a file is the global settings
  and then the sections.\<close>

type_synonym setting_line = "string \<times> string option"
type_synonym conf_section = "string \<times> setting_line list"

fun setting_toks :: "setting_line \<Rightarrow> tok list" where
  "setting_toks (var, None) = [Plain var]"
| "setting_toks (var, Some val) = [Plain var, Plain ''='', Quoted val]"

definition section_toks :: "conf_section \<Rightarrow> tok list list" where
  "section_toks sec = [Plain (CHR ''['' # fst sec @ '']'')] # map setting_toks (snd sec)"

definition conf_toks :: "setting_line list \<Rightarrow> conf_section list \<Rightarrow> tok list list" where
  "conf_toks gl ss = map setting_toks gl @ concat (map section_toks ss)"

definition conf_text :: "setting_line list \<Rightarrow> conf_section list \<Rightarrow> string" where
  "conf_text gl ss = concat (map message (conf_toks gl ss))"

text \<open>The words can be written, and no setting looks like a section header.\<close>

definition is_header :: "string \<Rightarrow> bool" where
  "is_header w \<longleftrightarrow> w \<noteq> [] \<and> hd w = CHR ''['' \<and> last w = CHR '']''"

definition conf_text_ok :: "setting_line list \<Rightarrow> conf_section list \<Rightarrow> bool" where
  "conf_text_ok gl ss \<longleftrightarrow> list_all (msg_ok 32 512) (conf_toks gl ss) \<and>
     list_all (\<lambda>l. \<not> is_header (fst l)) (gl @ concat (map snd ss))"

text \<open>The calls the text stands for.\<close>

definition conf_calls :: "setting_line list \<Rightarrow> conf_section list \<Rightarrow> (string option \<times> setting_line) list" where
  "conf_calls gl ss = map (Pair None) gl @ concat (map (\<lambda>(nm, ls). map (Pair (Some nm)) ls) ss)"

definition call_cb :: "'s conf_callback \<Rightarrow> string option \<times> setting_line \<Rightarrow> 's \<Rightarrow> fault + 's" where
  "call_cb cb c = cb (fst c) (fst (snd c)) (snd (snd c))"

definition run_calls :: "'s conf_callback \<Rightarrow> (string option \<times> setting_line) list \<Rightarrow> 's \<Rightarrow> fault + 's" where
  "run_calls cb = sfold (call_cb cb)"

section \<open>Reading a text gives its calls\<close>

abbreviation args_of :: "'s conf_callback \<Rightarrow> tok list \<Rightarrow> string option \<times> 's \<Rightarrow> fault + (string option \<times> 's)" where
  "args_of cb ts \<equiv> conf_args cb (map tok_word ts)"

lemma args_header: "args_of cb [Plain (CHR ''['' # nm @ '']'')] st = Inr (Some nm, snd st)"
  by (simp add: conf_args_def Let_def butlast_append)

lemma args_setting:
  "\<not> is_header (fst l) \<Longrightarrow> args_of cb (setting_toks l) st =
     sbind (call_cb cb (fst st, l) (snd st)) (\<lambda>t. Inr (fst st, t))"
  by (cases l rule: setting_toks.cases) (auto simp: conf_args_def Let_def call_cb_def is_header_def)

lemma args_settings:
  "list_all (\<lambda>l. \<not> is_header (fst l)) ls \<Longrightarrow>
   sfold (args_of cb) (map setting_toks ls) (sec, s) =
     sbind (run_calls cb (map (Pair sec) ls) s) (\<lambda>t. Inr (sec, t))"
  by (induction ls arbitrary: s) (simp_all add: args_setting run_calls_def)

lemma run_split: "run_calls cb (xs @ ys) s = sbind (run_calls cb xs s) (run_calls cb ys)"
  by (simp add: run_calls_def sfold_append)

lemma args_sections:
  "list_all (\<lambda>l. \<not> is_header (fst l)) (concat (map snd ss)) \<Longrightarrow>
   sbind (sfold (args_of cb) (concat (map section_toks ss)) (sec, s)) (\<lambda>st. Inr (snd st)) =
     run_calls cb (concat (map (\<lambda>(nm, ls). map (Pair (Some nm)) ls) ss)) s"
proof (induction ss arbitrary: sec s)
  case (Cons x ss)
  obtain nm ls where x: "x = (nm, ls)" by force
  have IH: "sbind (sfold (args_of cb) (concat (map section_toks ss)) (Some nm, t)) (\<lambda>st. Inr (snd st)) =
      run_calls cb (concat (map (\<lambda>(nm, ls). map (Pair (Some nm)) ls) ss)) t" for t
    using Cons by simp
  have "list_all (\<lambda>l. \<not> is_header (fst l)) ls" using Cons.prems x by simp
  moreover have head: "section_toks (nm, ls) = [Plain (CHR ''['' # nm @ '']'')] # map setting_toks ls"
    by (simp add: section_toks_def)
  ultimately show ?case using args_settings [of ls cb "Some nm" s]
    by (cases "run_calls cb (map (Pair (Some nm)) ls) s")
      (simp_all add: x args_header [of cb nm, simplified] sfold_append IH run_split head)
qed (simp add: run_calls_def)

lemma read_upsconf_lines:
  assumes "list_all (msg_ok 32 512) tss"
    and "fopen (snprintf SMALLBUF (confpath @ ''/ups.conf'')) = Inr (concat (map message tss))"
  shows "read_upsconf cb fopen confpath old s =
     sbind (sfold (args_of cb) tss (None, s)) (\<lambda>st. Inr (snd st))"
proof -
  let ?f = "concat (map message tss)"
  have beg: "pconf_file_begin fopen (pconf_init old) (snprintf SMALLBUF (confpath @ ''/ups.conf'')) =
      (1, (pconf_init old)\<lparr>pc_f := Some ?f\<rparr>)"
    using assms(2) by (simp add: pconf_file_begin_def check_magic_def) (simp add: pconf_init_def)
  have live: "pconf_live 32 512 ((pconf_init old)\<lparr>pc_f := Some ?f\<rparr>)"
    using pconf_init_live [of old] by (simp add: pconf_live_def)
  have "snd (read_lines (\<lambda>ctx. (\<lambda>ws st. sbind st (conf_args cb ws)) (pconf_words ctx))
        ((pconf_init old)\<lparr>pc_f := Some ?f\<rparr>) (Inr (None, s))) =
      foldl (\<lambda>st ts. (\<lambda>ws st. sbind st (conf_args cb ws)) (map tok_word ts) st) (Inr (None, s)) tss"
    by (rule read_lines_messages [OF assms(1) live]) (simp_all add: pconf_init_def)
  then show ?thesis
    using foldl_sbind [of "\<lambda>ts. args_of cb ts" "(None, s)" tss] by (simp add: read_upsconf_def beg Let_def)
qed

lemma read_upsconf_calls:
  assumes "conf_text_ok gl ss"
    and "fopen (snprintf SMALLBUF (confpath @ ''/ups.conf'')) = Inr (conf_text gl ss)"
  shows "read_upsconf cb fopen confpath old s = run_calls cb (conf_calls gl ss) s"
proof -
  have ok: "list_all (msg_ok 32 512) (conf_toks gl ss)" "list_all (\<lambda>l. \<not> is_header (fst l)) gl"
    "list_all (\<lambda>l. \<not> is_header (fst l)) (concat (map snd ss))"
    using assms(1) by (simp_all add: conf_text_ok_def)
  have "read_upsconf cb fopen confpath old s =
      sbind (sfold (args_of cb) (conf_toks gl ss) (None, s)) (\<lambda>st. Inr (snd st))"
    using ok(1) assms(2) by (intro read_upsconf_lines) (simp_all add: conf_text_def)
  then show ?thesis
    by (simp add: conf_toks_def conf_calls_def sfold_append args_settings [OF ok(2)]
        args_sections [OF ok(3)] run_split)
qed

lemma read_upsconf_missing:
  assumes "fopen (snprintf SMALLBUF (confpath @ ''/ups.conf'')) = Inl e"
  shows "\<exists>msg. read_upsconf cb fopen confpath old s = Inl (Exits msg)"
proof -
  have "fst (pconf_file_begin fopen (pconf_init old) (snprintf SMALLBUF (confpath @ ''/ups.conf''))) = 0"
    using assms by (simp add: pconf_file_begin_def check_magic_def pconf_init_def)
  then show ?thesis by (auto simp: read_upsconf_def Let_def split: prod.splits)
qed

section \<open>The contract of a program's callback\<close>

text \<open>What the reader gives a program: an invariant of its tables that every call keeps holds after
  any file.\<close>

locale upsconf_client =
  fixes cb :: "'s conf_callback" and inv :: "'s \<Rightarrow> bool"
  assumes keeps: "inv s \<Longrightarrow> cb sec var val s = Inr t \<Longrightarrow> inv t"
begin

lemma args_keeps: "inv (snd st) \<Longrightarrow> conf_args cb arg st = Inr st' \<Longrightarrow> inv (snd st')"
  by (auto simp: conf_args_def Let_def split: if_splits intro: keeps)

lemma lines_keeps:
  assumes "inv s" "snd (read_lines (\<lambda>ctx st. sbind st (conf_args cb (pconf_words ctx))) ctx (Inr (sec, s))) = Inr st'"
  shows "inv (snd st')"
proof -
  have "\<forall>st. snd (read_lines (\<lambda>ctx st. sbind st (conf_args cb (pconf_words ctx))) ctx (Inr (sec, s))) = Inr st \<longrightarrow> inv (snd st)"
    by (rule read_lines_keeps) (use assms(1) args_keeps in \<open>auto simp: sbind_Inr_iff\<close>)
  with assms(2) show ?thesis by blast
qed

lemma read_keeps:
  assumes "inv s" "read_upsconf cb fopen confpath old s = Inr t"
  shows "inv t"
proof -
  obtain r ctx where b: "pconf_file_begin fopen (pconf_init old) (snprintf SMALLBUF (confpath @ ''/ups.conf'')) = (r, ctx)"
    by force
  with assms(2) obtain st where st: "snd (read_lines (\<lambda>ctx st. sbind st (conf_args cb (pconf_words ctx))) ctx (Inr (None, s))) = Inr st"
    "t = snd st"
    by (auto simp: read_upsconf_def Let_def split: if_splits)
  show ?thesis
    using lines_keeps [OF assms(1) st(1)] st(2) by simp
qed

lemma run_keeps: "inv s \<Longrightarrow> run_calls cb cs s = Inr t \<Longrightarrow> inv t"
  unfolding run_calls_def call_cb_def by (rule sfold_keeps [where P = inv]) (auto intro: keeps)

end

text \<open>A callback that can handle every setting that has a value: such a file is read to its end.\<close>

locale upsconf_values = upsconf_client +
  assumes total: "inv s \<Longrightarrow> \<exists>t. cb sec var (Some val) s = Inr t"
begin

lemma run_values:
  assumes "inv s" "list_all (\<lambda>c. snd (snd c) \<noteq> None) cs"
  obtains t where "run_calls cb cs s = Inr t" "inv t"
proof -
  have "\<exists>t. sfold (call_cb cb) cs s = Inr t \<and> inv t"
  proof (rule sfold_total [where P = inv, OF _ assms(1)])
    fix c s assume s: "inv s" and "c \<in> set cs"
    with assms(2) obtain v where v: "snd (snd c) = Some v" by (auto simp: list_all_iff)
    from total [OF s, of "fst c" "fst (snd c)" v] obtain t where t: "cb (fst c) (fst (snd c)) (Some v) s = Inr t"
      by blast
    with keeps [OF s t] v show "\<exists>t. call_cb cb c s = Inr t \<and> inv t" by (simp add: call_cb_def)
  qed
  then show ?thesis using that by (auto simp: run_calls_def)
qed

end

end
