(* ===== verification/Conf.thy ===== *)
theory Conf
  imports Upsd Upsconf
begin

text \<open>
  The server's configuration (\<open>server/conf.c\<close>, \<open>server/conf.h\<close>) and what \<open>server/upsd.c\<close> does with
  it: reading \<open>upsd.conf\<close>, the callback for \<open>ups.conf\<close>, start-up, and the reload after SIGHUP, which
  adds, changes and deletes UPSes under the running server.

  The files, the limits of the system and the results of opening sockets are the record \<open>conf_env\<close>:
  \<open>e_fopen\<close> gives a file's contents or the error, \<open>e_stat\<close> whether \<open>stat\<close> succeeds, \<open>e_alloc\<close>
  whether the tables for \<open>poll\<close> can be resized. A file does not change while one reload reads it.

  Shown here: what a reload leaves of the running state (\<open>reload_follows_file\<close>); that the
  login counters survive any number of reloads from the real start-up on
  (\<open>upsd_reload_logins_counted\<close>); which lines in \<open>ups.conf\<close> end or crash the server.
\<close>

section \<open>State\<close>

record ups_t =
  ut_upsname :: string
  ut_driver :: "string option"
  ut_port :: "string option"
  ut_desc :: "string option"

record conf_env =
  e_fopen :: "string \<Rightarrow> string + string"
  e_stat :: "string \<Rightarrow> bool"
  e_confpath :: string
  e_stack :: pconf_ctx
  e_open_max :: int
  e_alloc :: "int \<Rightarrow> bool"
  e_tcp :: "string \<times> string \<Rightarrow> string + int"
  e_chdir :: "string \<Rightarrow> bool"
  e_conns :: "conn_result list"
  e_now :: int

text \<open>The variables of the server that only its configuration uses, next to its state. The
  listening addresses are the address, the port and the descriptor.\<close>

record config =
  cf_upsd :: upsd
  cf_num_ups :: int
  cf_statepath :: string
  cf_datapath :: string
  cf_port :: string
  cf_firstaddr :: "(string \<times> string \<times> int) list"
  cf_reload_flag :: bool

abbreviation cf_ups :: "config \<Rightarrow> upstype list" where
  "cf_ups c \<equiv> firstups (cf_upsd c)"

section \<open>The callback for ups.conf\<close>

definition ups_t_new :: "string \<Rightarrow> ups_t" where
  "ups_t_new nm = \<lparr>ut_upsname = nm, ut_driver = None, ut_port = None, ut_desc = None\<rparr>"

definition ups_t_set :: "string \<Rightarrow> string option \<Rightarrow> ups_t \<Rightarrow> fault + ups_t" where
  "ups_t_set var val temp =
     (if var = ''driver'' then sbind (xstrdup val) (\<lambda>v. Inr (temp\<lparr>ut_driver := Some v\<rparr>))
      else if var = ''port'' then sbind (xstrdup val) (\<lambda>v. Inr (temp\<lparr>ut_port := Some v\<rparr>))
      else if var = ''desc'' then sbind (xstrdup val) (\<lambda>v. Inr (temp\<lparr>ut_desc := Some v\<rparr>))
      else Inr temp)"

definition do_upsconf_args :: "ups_t list conf_callback" where
  "do_upsconf_args upsname var val upstable =
     (case upsname of
        None \<Rightarrow> Inr upstable
      | Some nm \<Rightarrow>
          (case find_index (\<lambda>temp. ut_upsname temp = nm) upstable of
             None \<Rightarrow> sbind (ups_t_set var val (ups_t_new nm)) (\<lambda>t. Inr (t # upstable))
           | Some i \<Rightarrow> sbind (ups_t_set var val (upstable ! i)) (\<lambda>t. Inr (upstable[i := t]))))"

section \<open>The server's UPSes\<close>

text \<open>The entry \<open>ups_create\<close> allocates and fills, and what \<open>ups_update\<close> makes of one.\<close>

definition new_ups :: "string \<Rightarrow> string \<Rightarrow> string option \<Rightarrow> conn_result \<Rightarrow> int \<Rightarrow> upstype" where
  "new_ups fn name desc env now =
     (let temp = upstype_zero\<lparr>ups_fn := fn, ups_name := name, ups_desc := desc\<rparr>;
          temp1 = temp\<lparr>ups_stale := True, ups_retain := True\<rparr>;
          (temp2, fd) = sstate_connect temp1 env now
      in temp2\<lparr>sock_fd := fd, ups_last_heard := now\<rparr>)"

definition srv_redefine_ups :: "string \<Rightarrow> string option \<Rightarrow> upstype \<Rightarrow> upstype" where
  "srv_redefine_ups fn desc temp =
     (let temp1 = (if ups_fn temp \<noteq> fn
                   then let t1 = sstate_infofree temp;
                            t2 = sstate_cmdfree t1;
                            t3 = t2\<lparr>sock_ctx := pconf_finish (sock_ctx t2)\<rparr>
                        in t3\<lparr>sock_fd := -1, dumpdone := False, ups_fn := fn\<rparr>
                   else temp)
      in temp1\<lparr>ups_desc := desc, ups_retain := True\<rparr>)"

text \<open>The attempt to connect takes the next result of the environment.\<close>

definition ups_create :: "string \<Rightarrow> string \<Rightarrow> string option \<Rightarrow> int \<Rightarrow> config \<times> conn_result list \<Rightarrow> config \<times> conn_result list" where
  "ups_create fn name desc now st =
     (let c = fst st; conns = snd st; s = cf_upsd c in
      if list_ex (\<lambda>temp. strcaseeq (ups_name temp) name) (firstups s) then st
      else
        let temp = new_ups fn name desc (case conns of [] \<Rightarrow> SocketFails | e # _ \<Rightarrow> e) now
        in (c\<lparr>cf_upsd := s\<lparr>firstups := temp # firstups s\<rparr>, cf_num_ups := cf_num_ups c + 1\<rparr>, drop 1 conns))"

definition ups_update :: "string \<Rightarrow> string \<Rightarrow> string option \<Rightarrow> upsd \<Rightarrow> upsd" where
  "ups_update fn name desc s =
     (case get_ups_ptr s name of
        None \<Rightarrow> s
      | Some u \<Rightarrow> set_ups s u (srv_redefine_ups fn desc (firstups s ! u)))"

text \<open>One round of the loop of \<open>upsconf_add\<close>.\<close>

definition upsconf_add_entry :: "bool \<Rightarrow> int \<Rightarrow> ups_t \<Rightarrow> config \<times> conn_result list \<Rightarrow> config \<times> conn_result list" where
  "upsconf_add_entry reloading now tmp st =
     (case (ut_driver tmp, ut_port tmp) of
        (Some driver, Some port) \<Rightarrow>
          let statefn = snprintf SMALLBUF (driver @ ''-'' @ ut_upsname tmp) in
          if reloading \<and> get_ups_ptr (cf_upsd (fst st)) (ut_upsname tmp) \<noteq> None
          then ((fst st)\<lparr>cf_upsd := ups_update statefn (ut_upsname tmp) (ut_desc tmp) (cf_upsd (fst st))\<rparr>, snd st)
          else ups_create statefn (ut_upsname tmp) (ut_desc tmp) now st
      | _ \<Rightarrow> st)"

definition upsconf_add :: "bool \<Rightarrow> int \<Rightarrow> ups_t list \<Rightarrow> config \<times> conn_result list \<Rightarrow> config \<times> conn_result list" where
  "upsconf_add reloading now upstable st = fold (upsconf_add_entry reloading now) upstable st"

text \<open>\<open>delete_ups\<close> of the UPS at a position.\<close>

definition srv_delete_ups :: "upsd \<Rightarrow> nat \<Rightarrow> upsd" where
  "srv_delete_ups s u =
     (let s1 = kick_login_clients s (ups_name (firstups s ! u))
      in s1\<lparr>firstups := unlink_at u (firstups s1)\<rparr>)"

text \<open>The loop over all UPSes at the end of a reload, with \<open>n\<close> of them left and the next at
  position \<open>i\<close>.\<close>

fun delete_loop :: "nat \<Rightarrow> upsd \<Rightarrow> nat \<Rightarrow> upsd" where
  "delete_loop 0 s i = s"
| "delete_loop (Suc n) s i =
     (if \<not> ups_retain (firstups s ! i) then delete_loop n (srv_delete_ups s i) i
      else delete_loop n s (Suc i))"

section \<open>upsd.conf\<close>

definition listen_add :: "string \<Rightarrow> string \<Rightarrow> config \<Rightarrow> config" where
  "listen_add addr port c =
     (if cf_reload_flag c then c else c\<lparr>cf_firstaddr := (addr, port, -1) # cf_firstaddr c\<rparr>)"

definition parse_upsd_conf_args :: "string list \<Rightarrow> config \<Rightarrow> bool \<times> config" where
  "parse_upsd_conf_args arg c =
     (if length arg < 2 then (False, c)
      else if arg ! 0 = ''MAXAGE''
      then (True, c\<lparr>cf_upsd := (cf_upsd c)\<lparr>maxage := atoi (arg ! 1)\<rparr>\<rparr>)
      else if arg ! 0 = ''MAXCONN''
      then (True, c\<lparr>cf_upsd := (cf_upsd c)\<lparr>maxconn := atoi (arg ! 1)\<rparr>\<rparr>)
      else if arg ! 0 = ''STATEPATH'' then (True, c\<lparr>cf_statepath := arg ! 1\<rparr>)
      else if arg ! 0 = ''DATAPATH'' then (True, c\<lparr>cf_datapath := arg ! 1\<rparr>)
      else if arg ! 0 = ''ACCEPT'' then (True, c)
      else if arg ! 0 = ''REJECT'' then (True, c)
      else if arg ! 0 = ''LISTEN''
      then (True, if length arg < 3 then listen_add (arg ! 1) (cf_port c) c
                  else listen_add (arg ! 1) (arg ! 2) c)
      else if length arg < 3 then (False, c)
      else if arg ! 0 = ''ACL'' then (True, c)
      else (False, c))"

definition check_perms :: "conf_env \<Rightarrow> string \<Rightarrow> fault + unit" where
  "check_perms env fn = (if \<not> e_stat env fn then Inl (Exits (''stat '' @ fn)) else Inr ())"

definition load_upsdconf :: "conf_env \<Rightarrow> bool \<Rightarrow> config \<Rightarrow> fault + config" where
  "load_upsdconf env reloading c =
     (let fn = snprintf SMALLBUF (e_confpath env @ ''/upsd.conf'') in
      sbind (check_perms env fn) (\<lambda>_.
        case pconf_file_begin (e_fopen env) (pconf_init (e_stack env)) fn of
          (r, ctx) \<Rightarrow>
            if r = 0 then (if \<not> reloading then Inl (Exits (errmsg ctx)) else Inr c)
            else Inr (snd (read_lines (\<lambda>ctx. snd \<circ> parse_upsd_conf_args (pconf_words ctx)) ctx c))))"

section \<open>Users\<close>

definition load_users :: "conf_env \<Rightarrow> config \<Rightarrow> fault + config" where
  "load_users env c =
     sbind (check_perms env (snprintf SMALLBUF (e_confpath env @ ''/upsd.users'')))
       (\<lambda>_. Inr (c\<lparr>cf_upsd := (cf_upsd c)\<lparr>user_db :=
          user_load (e_fopen env) (e_confpath env) (e_stack env) (user_db (cf_upsd c))\<rparr>\<rparr>))"

section \<open>Start-up and reload\<close>

definition check_file :: "conf_env \<Rightarrow> string \<Rightarrow> bool" where
  "check_file env fn =
     (case e_fopen env (snprintf SMALLBUF (e_confpath env @ ''/'' @ fn)) of Inl _ \<Rightarrow> False | Inr _ \<Rightarrow> True)"

definition conf_reload :: "conf_env \<Rightarrow> config \<Rightarrow> fault + config" where
  "conf_reload env c =
     (if \<not> check_file env ''upsd.conf'' then Inr c
      else
        let c1 = c\<lparr>cf_upsd := (cf_upsd c)\<lparr>firstups := map (ups_retain_update (\<lambda>_. False)) (cf_ups c)\<rparr>\<rparr> in
        sbind (read_upsconf do_upsconf_args (e_fopen env) (e_confpath env) (e_stack env) []) (\<lambda>upstable.
          let c2 = fst (upsconf_add True (e_now env) upstable (c1, e_conns env)) in
          sbind (load_upsdconf env True c2) (\<lambda>c3.
            let c4 = c3\<lparr>cf_upsd := delete_loop (length (cf_ups c3)) (cf_upsd c3) 0\<rparr> in
            if \<not> check_file env ''upsd.users'' then Inr c4
            else
              let c5 = c4\<lparr>cf_upsd := (cf_upsd c4)\<lparr>user_db := user_flush (user_db (cf_upsd c4))\<rparr>\<rparr>
              in load_users env c5)))"

definition poll_reload :: "conf_env \<Rightarrow> config \<Rightarrow> fault + config" where
  "poll_reload env c =
     (let mc = maxconn (cf_upsd c) in
      if e_open_max env < mc
      then Inl (Exits (''Your system limits the maximum number of connections to '' @ show_int (e_open_max env)))
      else if \<not> e_alloc env mc then Inl (Exits ''out of memory'') else Inr c)"

text \<open>The loop of \<open>server_load\<close> over the addresses; \<open>e_tcp\<close> is the result of \<open>setuptcp\<close>: the
  descriptor, \<open>-1\<close> when it cannot listen there, or the error it ends with.\<close>

fun setuptcp_loop :: "conf_env \<Rightarrow> (string \<times> string \<times> int) list \<Rightarrow> fault + (string \<times> string \<times> int) list" where
  "setuptcp_loop env [] = Inr []"
| "setuptcp_loop env ((addr, port, fd) # xs) =
     (case e_tcp env (addr, port) of
        Inl msg \<Rightarrow> Inl (Exits msg)
      | Inr fd1 \<Rightarrow> sbind (setuptcp_loop env xs) (\<lambda>ys. Inr ((addr, port, fd1) # ys)))"

text \<open>\<open>inet\<close> and \<open>inet6\<close>: the address family given by the options \<open>-4\<close> and \<open>-6\<close>.\<close>

definition server_load :: "conf_env \<Rightarrow> bool \<Rightarrow> bool \<Rightarrow> config \<Rightarrow> fault + config" where
  "server_load env inet inet6 c =
     (let c1 = (if cf_firstaddr c = []
                then let d = (if \<not> inet then listen_add ''::1'' (cf_port c) c else c)
                     in if \<not> inet6 then listen_add ''127.0.0.1'' (cf_port d) d else d
                else c)
      in sbind (setuptcp_loop env (cf_firstaddr c1)) (\<lambda>addrs.
           case addrs of
             [] \<Rightarrow> Inl NullPointer
           | (_, _, fd) # _ \<Rightarrow>
               if fd < 0 then Inl (Exits ''no listening interface available'')
               else Inr (c1\<lparr>cf_firstaddr := addrs\<rparr>)))"

text \<open>\<open>main\<close> of upsd, from the reading of \<open>upsd.conf\<close> to the first round.\<close>

definition upsd_main :: "conf_env \<Rightarrow> bool \<Rightarrow> bool \<Rightarrow> config \<Rightarrow> fault + config" where
  "upsd_main env inet inet6 c =
     (let c0 = c\<lparr>cf_upsd := (cf_upsd c)\<lparr>maxconn := e_open_max env\<rparr>\<rparr> in
      sbind (load_upsdconf env False c0) (\<lambda>c1.
      sbind (server_load env inet inet6 c1) (\<lambda>c2.
      if \<not> e_chdir env (cf_statepath c2) then Inl (Exits (''Can'' @ [CHR 0x27] @ ''t chdir to '' @ cf_statepath c2))
      else
      sbind (check_perms env (cf_statepath c2)) (\<lambda>_.
      sbind (read_upsconf do_upsconf_args (e_fopen env) (e_confpath env) (e_stack env) []) (\<lambda>upstable.
        let c3 = fst (upsconf_add False (e_now env) upstable (c2, e_conns env)) in
        sbind (poll_reload env c3) (\<lambda>c4.
          if cf_num_ups c4 = 0 then Inl (Exits ''Fatal error: at least one UPS must be defined in ups.conf'')
          else
            let c5 = c4\<lparr>cf_upsd := (cf_upsd c4)\<lparr>desc_db :=
                       desc_load (e_fopen env) (cf_datapath c4) (e_stack env) (desc_db (cf_upsd c4))\<rparr>\<rparr>
            in load_users env c5))))))"

text \<open>One round of \<open>mainloop\<close> with its reload: SIGHUP may have arrived before the round.\<close>

record server_round =
  sr_hup :: bool
  sr_env :: conf_env
  sr_round :: round

definition reload_branch :: "conf_env \<Rightarrow> config \<Rightarrow> fault + config" where
  "reload_branch env c =
     sbind (conf_reload env c) (\<lambda>d. sbind (poll_reload env d) (\<lambda>d1. Inr (d1\<lparr>cf_reload_flag := False\<rparr>)))"

definition server_mainloop :: "fault + config \<Rightarrow> server_round \<Rightarrow> fault + config" where
  "server_mainloop so r =
     sbind so (\<lambda>c0.
       let c = (if sr_hup r then c0\<lparr>cf_reload_flag := True\<rparr> else c0) in
       sbind (if cf_reload_flag c then reload_branch (sr_env r) c else Inr c) (\<lambda>c1.
         case mainloop (Some (cf_upsd c1)) (sr_round r) of
           None \<Rightarrow> Inl OutOfBounds
         | Some s \<Rightarrow> Inr (c1\<lparr>cf_upsd := s\<rparr>)))"

section \<open>The table read from ups.conf\<close>

interpretation conf_cb: upsconf_values do_upsconf_args "\<lambda>tab. distinct (map ut_upsname tab)"
proof
  have name: "ups_t_set var val t = Inr t' \<Longrightarrow> ut_upsname t' = ut_upsname t" for var val t t'
    by (auto simp: ups_t_set_def split: if_splits)
  show "distinct (map ut_upsname t)" if "distinct (map ut_upsname s)" "do_upsconf_args sec var val s = Inr t"
    for s sec var val t
    using that
    by (auto simp: do_upsconf_args_def ups_t_new_def find_index_None map_update_same
        dest!: name split: option.splits) blast
  show "\<exists>t. do_upsconf_args sec var (Some val) s = Inr t" for s sec var val
    by (simp add: do_upsconf_args_def ups_t_set_def split: option.splits)
qed

text \<open>The last value a section gives a variable, and the entry it stands for.\<close>

definition conf_value :: "setting_line list \<Rightarrow> string \<Rightarrow> string option" where
  "conf_value ls var = (case map_of (rev ls) var of Some (Some v) \<Rightarrow> Some v | _ \<Rightarrow> None)"

definition section_entry :: "conf_section \<Rightarrow> ups_t" where
  "section_entry sec = \<lparr>ut_upsname = fst sec, ut_driver = conf_value (snd sec) ''driver'',
     ut_port = conf_value (snd sec) ''port'', ut_desc = conf_value (snd sec) ''desc''\<rparr>"

text \<open>No flag has the name of a variable of the server.\<close>

definition line_ok :: "setting_line \<Rightarrow> bool" where
  "line_ok l \<longleftrightarrow> snd l \<noteq> None \<or> fst l \<notin> {''driver'', ''port'', ''desc''}"

lemma conf_value_snoc:
  "conf_value (ls @ [(var, Some v)]) x = (if x = var then Some v else conf_value ls x)"
  "x \<noteq> var \<Longrightarrow> conf_value (ls @ [(var, None)]) x = conf_value ls x"
  by (simp_all add: conf_value_def)

lemma ups_t_set_entry:
  assumes "line_ok (var, val)"
  shows "ups_t_set var val (section_entry (nm, ls)) = Inr (section_entry (nm, ls @ [(var, val)]))"
proof (cases val)
  case None
  with assms show ?thesis by (auto simp: line_ok_def ups_t_set_def section_entry_def conf_value_snoc)
next
  case (Some v)
  show ?thesis by (simp add: Some ups_t_set_def section_entry_def conf_value_snoc)
qed

lemma section_calls:
  "list_all line_ok ls \<Longrightarrow> ls \<noteq> [] \<Longrightarrow> nm \<notin> set (map ut_upsname tab) \<Longrightarrow>
   run_calls do_upsconf_args (map (Pair (Some nm)) ls) tab = Inr (section_entry (nm, ls) # tab)"
proof (induction ls rule: rev_induct)
  case (snoc l ls)
  obtain var val where l: "l = (var, val)" by force
  have new: "ups_t_new nm = section_entry (nm, [])"
    by (simp add: ups_t_new_def section_entry_def conf_value_def)
  have set: "ups_t_set var val (section_entry (nm, ls)) = Inr (section_entry (nm, ls @ [l]))"
    using snoc.prems(1) by (simp add: l ups_t_set_entry)
  have none: "find_index (\<lambda>temp. ut_upsname temp = nm) tab = None"
    using snoc.prems(3) by (auto simp: find_index_None)
  show ?case
  proof (cases "ls = []")
    case True
    with set show ?thesis
      by (simp add: run_calls_def call_cb_def l do_upsconf_args_def none new)
  next
    case False
    have nm: "ut_upsname (section_entry (nm, ls)) = nm" by (simp add: section_entry_def)
    have "run_calls do_upsconf_args (map (Pair (Some nm)) ls) tab = Inr (section_entry (nm, ls) # tab)"
      using snoc False by simp
    with set nm show ?thesis
      by (simp add: run_split) (simp add: run_calls_def call_cb_def l do_upsconf_args_def)
  qed
qed simp

lemma global_calls: "run_calls do_upsconf_args (map (Pair None) gl) tab = Inr tab"
  by (induction gl) (simp_all add: run_calls_def call_cb_def do_upsconf_args_def)

definition conf_table :: "conf_section list \<Rightarrow> ups_t list" where
  "conf_table ss = rev (map section_entry (filter (\<lambda>s. snd s \<noteq> []) ss))"

lemma sections_calls:
  "list_all (list_all line_ok \<circ> snd) ss \<Longrightarrow> distinct (map fst ss) \<Longrightarrow>
   set (map fst ss) \<inter> set (map ut_upsname tab) = {} \<Longrightarrow>
   run_calls do_upsconf_args (conf_calls [] ss) tab = Inr (conf_table ss @ tab)"
proof (induction ss arbitrary: tab)
  case (Cons x ss)
  obtain nm ls where x: "x = (nm, ls)" by force
  have split: "conf_calls [] (x # ss) = map (Pair (Some nm)) ls @ conf_calls [] ss"
    by (simp add: conf_calls_def x)
  show ?case
  proof (cases "ls = []")
    case True
    with Cons show ?thesis unfolding split by (simp add: x conf_table_def)
  next
    case False
    have nm: "ut_upsname (section_entry (nm, ls)) = nm" by (simp add: section_entry_def)
    have "run_calls do_upsconf_args (map (Pair (Some nm)) ls) tab = Inr (section_entry (nm, ls) # tab)"
      using Cons.prems False x by (intro section_calls) auto
    moreover have "run_calls do_upsconf_args (conf_calls [] ss) (section_entry (nm, ls) # tab) =
        Inr (conf_table ss @ section_entry (nm, ls) # tab)"
      using Cons.prems x nm by (intro Cons.IH) auto
    ultimately show ?thesis unfolding split run_split by (simp add: x conf_table_def False)
  qed
qed (simp add: run_calls_def conf_calls_def conf_table_def)

lemma read_conf_table:
  assumes "conf_text_ok gl ss" "list_all (list_all line_ok \<circ> snd) ss" "distinct (map fst ss)"
    and "fopen (snprintf SMALLBUF (confpath @ ''/ups.conf'')) = Inr (conf_text gl ss)"
  shows "read_upsconf do_upsconf_args fopen confpath old [] = Inr (conf_table ss)"
proof -
  have "conf_calls gl ss = map (Pair None) gl @ conf_calls [] ss" by (simp add: conf_calls_def)
  then show ?thesis
    using sections_calls [OF assms(2,3), of "[]"] read_upsconf_calls [where fopen = fopen and cb = do_upsconf_args, OF assms(1) assms(4)]
    by (simp add: run_split global_calls)
qed

section \<open>UPSes added and changed\<close>

abbreviation key :: "upstype \<Rightarrow> string" where "key u \<equiv> lower (ups_name u)"
abbreviation tkey :: "ups_t \<Rightarrow> string" where "tkey t \<equiv> lower (ut_upsname t)"

definition complete :: "ups_t \<Rightarrow> bool" where
  "complete t \<longleftrightarrow> ut_driver t \<noteq> None \<and> ut_port t \<noteq> None"

definition statefn :: "ups_t \<Rightarrow> string" where
  "statefn t = snprintf SMALLBUF (the (ut_driver t) @ ''-'' @ ut_upsname t)"

lemma sstate_connect_fields:
  assumes "sstate_connect ups env now = (ups', fd)"
  shows "ups_name ups' = ups_name ups" "ups_fn ups' = ups_fn ups" "ups_desc ups' = ups_desc ups"
    "ups_retain ups' = ups_retain ups" "numlogins ups' = numlogins ups" "ups_fsd ups' = ups_fsd ups"
  using assms by (auto simp: sstate_connect_def Let_def split: conn_result.splits prod.splits if_splits)

lemma new_ups_fields [simp]:
  "ups_name (new_ups fn nm d env now) = nm" "ups_fn (new_ups fn nm d env now) = fn"
  "ups_desc (new_ups fn nm d env now) = d" "ups_retain (new_ups fn nm d env now)"
  "numlogins (new_ups fn nm d env now) = 0" "\<not> ups_fsd (new_ups fn nm d env now)"
  by (simp_all add: new_ups_def Let_def case_prod_unfold sstate_connect_fields [OF prod.collapse [symmetric]])
    (simp_all add: upstype_zero_def)

lemma new_ups_inv: "ups_inv (new_ups fn nm d env now)"
  using pconf_init_ready [of zero_ctx] st_inv_ops(1) [of Leaf "''WAIT''" "''ups.status''"]
  by (auto simp: new_ups_def sstate_connect_def ups_inv_def pconf_ready_def st_inv_ops upstype_zero_def
      Let_def split: conn_result.splits if_splits prod.splits)

lemma srv_redefine_ups_fields [simp]:
  "ups_name (srv_redefine_ups fn d u) = ups_name u" "ups_fn (srv_redefine_ups fn d u) = fn"
  "ups_desc (srv_redefine_ups fn d u) = d" "ups_retain (srv_redefine_ups fn d u)"
  "numlogins (srv_redefine_ups fn d u) = numlogins u" "ups_fsd (srv_redefine_ups fn d u) = ups_fsd u"
  by (simp_all add: srv_redefine_ups_def sstate_infofree_def sstate_cmdfree_def Let_def)

lemma srv_redefine_ups_inv: "ups_inv u \<Longrightarrow> ups_inv (srv_redefine_ups fn d u)"
  by (simp add: srv_redefine_ups_def sstate_infofree_def sstate_cmdfree_def Let_def ups_inv_def)

lemma srv_redefine_ups_same: "ups_fn u = fn \<Longrightarrow> srv_redefine_ups fn d u = u\<lparr>ups_desc := d, ups_retain := True\<rparr>"
  by (simp add: srv_redefine_ups_def)

text \<open>With different names, the position found for a name is the only one with that name.\<close>

lemma update_by_name:
  assumes "distinct (map key us)" "find_index (\<lambda>x. strcaseeq (ups_name x) nm) us = Some i"
  shows "us[i := f (us ! i)] = map (\<lambda>u. if key u = lower nm then f u else u) us"
proof (intro nth_equalityI)
  from find_index_SomeD [OF assms(2)] have i: "i < length us" "key (us ! i) = lower nm"
    by (auto simp: strcaseeq_iff)
  fix j assume "j < length (us[i := f (us ! i)])"
  then have j: "j < length us" by simp
  have "key (us ! j) = lower nm \<longleftrightarrow> j = i"
    using nth_eq_iff_index_eq [OF assms(1), of j i] i j by auto
  then show "us[i := f (us ! i)] ! j = map (\<lambda>u. if key u = lower nm then f u else u) us ! j"
    using i j by (auto simp: nth_list_update)
qed simp

lemma no_name: "find_index (\<lambda>x. strcaseeq (ups_name x) nm) us = None \<longleftrightarrow> lower nm \<notin> set (map key us)"
  unfolding find_index_None strcaseeq_iff set_map image_iff by metis

text \<open>What the whole table does to one UPS, and the UPSes it adds.\<close>

definition entry_for :: "ups_t list \<Rightarrow> string \<Rightarrow> ups_t option" where
  "entry_for tab k = find (\<lambda>t. complete t \<and> tkey t = k) tab"

definition reload_ups :: "ups_t list \<Rightarrow> upstype \<Rightarrow> upstype" where
  "reload_ups tab u =
     (case entry_for tab (key u) of None \<Rightarrow> u | Some t \<Rightarrow> srv_redefine_ups (statefn t) (ut_desc t) u)"

definition made_from :: "ups_t \<Rightarrow> upstype \<Rightarrow> bool" where
  "made_from t u \<longleftrightarrow> complete t \<and> ups_name u = ut_upsname t \<and> ups_fn u = statefn t \<and>
     ups_desc u = ut_desc t \<and> ups_retain u \<and> numlogins u = 0 \<and> \<not> ups_fsd u \<and> ups_inv u"

lemma reload_ups_name [simp]: "ups_name (reload_ups tab u) = ups_name u"
  by (simp add: reload_ups_def split: option.splits)

lemma reload_ups_Cons:
  assumes "tkey t \<notin> set (map tkey tab)"
  shows "reload_ups (t # tab) u =
    reload_ups tab (if complete t \<and> key u = tkey t then srv_redefine_ups (statefn t) (ut_desc t) u else u)"
proof (cases "complete t \<and> key u = tkey t")
  case True
  with assms have "entry_for tab (key u) = None" unfolding entry_for_def find_None_iff set_map image_iff by metis
  with True show ?thesis by (simp add: reload_ups_def) (simp add: entry_for_def)
qed (auto simp: reload_ups_def entry_for_def)

text \<open>One entry.\<close>

lemma add_entry_cases:
  assumes "distinct (map key (cf_ups c))"
  obtains "\<not> complete t" "upsconf_add_entry reloading now t (c, conns) = (c, conns)"
  | "complete t" "reloading" "tkey t \<in> set (map key (cf_ups c))"
    "fst (upsconf_add_entry reloading now t (c, conns)) = c\<lparr>cf_upsd := (cf_upsd c)\<lparr>firstups :=
       map (\<lambda>u. if key u = tkey t then srv_redefine_ups (statefn t) (ut_desc t) u else u) (cf_ups c)\<rparr>\<rparr>"
  | "complete t" "\<not> reloading" "tkey t \<in> set (map key (cf_ups c))"
    "upsconf_add_entry reloading now t (c, conns) = (c, conns)"
  | n where "complete t" "tkey t \<notin> set (map key (cf_ups c))" "made_from t n"
    "fst (upsconf_add_entry reloading now t (c, conns)) = c\<lparr>cf_upsd := (cf_upsd c)\<lparr>firstups := n # cf_ups c\<rparr>,
       cf_num_ups := cf_num_ups c + 1\<rparr>"
proof (cases "complete t")
  case False
  then show ?thesis using that(1) by (auto simp: complete_def upsconf_add_entry_def split: option.splits)
next
  case True
  then obtain d p where dp: "ut_driver t = Some d" "ut_port t = Some p" by (auto simp: complete_def)
  have fn: "snprintf SMALLBUF (d @ ''-'' @ ut_upsname t) = statefn t" by (simp add: statefn_def dp)
  note step = upsconf_add_entry_def dp fn [simplified] get_ups_ptr_def no_name
  show ?thesis
  proof (cases "tkey t \<in> set (map key (cf_ups c))")
    case old: True
    then obtain i where i: "find_index (\<lambda>x. strcaseeq (ups_name x) (ut_upsname t)) (cf_ups c) = Some i"
      using no_name [of "ut_upsname t" "cf_ups c"] by auto
    show ?thesis
    proof (cases reloading)
      case True
      with i update_by_name [OF assms i] that(2) \<open>complete t\<close> old show ?thesis
        by (simp add: step ups_update_def set_ups_def)
    next
      case False
      from old have "list_ex (\<lambda>x. strcaseeq (ups_name x) (ut_upsname t)) (cf_ups c)"
        unfolding list_ex_iff strcaseeq_iff set_map image_iff by metis
      with False old that(3) \<open>complete t\<close> show ?thesis
        by (simp add: step ups_create_def Let_def)
    qed
  next
    case False
    let ?n = "new_ups (statefn t) (ut_upsname t) (ut_desc t) (case conns of [] \<Rightarrow> SocketFails | e # _ \<Rightarrow> e) now"
    from False have "\<not> list_ex (\<lambda>x. strcaseeq (ups_name x) (ut_upsname t)) (cf_ups c)"
      unfolding list_ex_iff strcaseeq_iff set_map image_iff by metis
    then show ?thesis
      using that(4) [of ?n] False True new_ups_inv
      by (simp add: step ups_create_def Let_def made_from_def)
  qed
qed

text \<open>The whole table, at a reload.\<close>

definition added :: "ups_t list \<Rightarrow> upstype list \<Rightarrow> upstype list \<Rightarrow> bool" where
  "added tab us news \<longleftrightarrow> (\<forall>n\<in>set news. \<exists>t\<in>set tab. made_from t n) \<and>
     set (map key news) = set (map tkey (filter complete tab)) - set (map key us) \<and>
     distinct (map key (news @ us))"

lemma added_cong: "map key us = map key vs \<Longrightarrow> added tab us = added tab vs"
  unfolding added_def map_append by (intro ext) (simp only:)

lemma added_Cons:
  "added tab us news \<Longrightarrow> \<not> complete t \<or> tkey t \<in> set (map key us) \<Longrightarrow> added (t # tab) us news"
  "added tab (x # us) news \<Longrightarrow> made_from t x \<Longrightarrow> tkey t \<notin> set (map key us) \<Longrightarrow> added (t # tab) us (news @ [x])"
  by (auto simp: added_def made_from_def)

lemma upsconf_add_ups:
  assumes "distinct (map tkey tab)" "distinct (map key (cf_ups c))"
  obtains news k where "fst (upsconf_add True now tab (c, conns)) =
      c\<lparr>cf_upsd := (cf_upsd c)\<lparr>firstups := news @ map (reload_ups tab) (cf_ups c)\<rparr>, cf_num_ups := k\<rparr>"
    "added tab (cf_ups c) news"
  using assms
proof (induction tab arbitrary: c conns thesis)
  case Nil
  have "reload_ups [] = id" by (simp add: fun_eq_iff reload_ups_def entry_for_def)
  then show ?case using Nil.prems(1) [where news = "[]" and k = "cf_num_ups c"] Nil.prems(3)
    by (simp add: upsconf_add_def added_def)
next
  case (Cons t tab)
  have d: "distinct (map tkey tab)" and t: "tkey t \<notin> set (map tkey tab)" using Cons.prems(2) by simp_all
  let ?st = "upsconf_add_entry True now t (c, conns)"
  have step: "fst (upsconf_add True now (t # tab) (c, conns)) = fst (upsconf_add True now tab (fst ?st, snd ?st))"
    by (simp add: upsconf_add_def)
  show ?case
  proof (cases rule: add_entry_cases [OF Cons.prems(3), of t True now conns])
    case 1
    obtain news k where "fst (upsconf_add True now tab (c, conns)) =
        c\<lparr>cf_upsd := (cf_upsd c)\<lparr>firstups := news @ map (reload_ups tab) (cf_ups c)\<rparr>, cf_num_ups := k\<rparr>"
      "added tab (cf_ups c) news"
      by (rule Cons.IH [OF _ d Cons.prems(3)])
    with 1 show ?thesis
      by (intro Cons.prems(1) [where news = news and k = k]) (simp_all only: step, simp_all add: reload_ups_Cons [OF t] added_Cons)
  next
    case 2
    let ?f = "\<lambda>u. if key u = tkey t then srv_redefine_ups (statefn t) (ut_desc t) u else u"
    have k: "map key (map ?f (cf_ups c)) = map key (cf_ups c)" by simp
    have m: "map (reload_ups tab) (map ?f (cf_ups c)) = map (reload_ups (t # tab)) (cf_ups c)"
      using 2(1) by (simp add: reload_ups_Cons [OF t])
    have us: "cf_ups (fst ?st) = map ?f (cf_ups c)" by (simp add: 2(4))
    obtain news n where n: "fst (upsconf_add True now tab (fst ?st, snd ?st)) =
        (fst ?st)\<lparr>cf_upsd := (cf_upsd (fst ?st))\<lparr>firstups := news @ map (reload_ups tab) (cf_ups (fst ?st))\<rparr>, cf_num_ups := n\<rparr>"
      "added tab (cf_ups (fst ?st)) news"
      by (rule Cons.IH [OF _ d, of "fst ?st" "snd ?st"]) (simp_all only: us k Cons.prems(3))
    have "added tab (cf_ups c) news" using n(2) unfolding us added_cong [OF k] .
    then have "added (t # tab) (cf_ups c) news" using 2(3) by (simp add: added_Cons)
    then show ?thesis using n(1) unfolding us m
      by (intro Cons.prems(1) [where news = news and k = n]) (simp_all only: step, simp add: 2(4))
  next
    case 3
    then show ?thesis by simp
  next
    case (4 x)
    have x: "ups_name x = ut_upsname t" using 4(3) by (simp add: made_from_def)
    have e: "reload_ups tab x = x"
    proof -
      have "entry_for tab (key x) = None"
        using t unfolding entry_for_def find_None_iff x set_map image_iff by metis
      then show ?thesis by (simp add: reload_ups_def)
    qed
    have "key u \<noteq> tkey t" if "u \<in> set (cf_ups c)" for u
      using 4(2) that unfolding set_map image_iff by metis
    then have m: "map (reload_ups (t # tab)) (cf_ups c) = map (reload_ups tab) (cf_ups c)"
      by (simp add: reload_ups_Cons [OF t])
    have us: "cf_ups (fst ?st) = x # cf_ups c" by (simp add: 4(4))
    have dd: "distinct (map key (cf_ups (fst ?st)))"
      unfolding us using Cons.prems(3) 4(2) by (simp add: x)
    obtain news n where n: "fst (upsconf_add True now tab (fst ?st, snd ?st)) =
        (fst ?st)\<lparr>cf_upsd := (cf_upsd (fst ?st))\<lparr>firstups := news @ map (reload_ups tab) (cf_ups (fst ?st))\<rparr>, cf_num_ups := n\<rparr>"
      "added tab (cf_ups (fst ?st)) news"
      by (rule Cons.IH [OF _ d dd])
    have "added (t # tab) (cf_ups c) (news @ [x])"
      using added_Cons(2) [OF _ 4(3,2)] n(2) by (simp add: us)
    then show ?thesis using n(1) e
      by (intro Cons.prems(1) [where news = "news @ [x]" and k = n]) (simp_all only: step m, simp add: 4(4))
  qed
qed

section \<open>Invariants\<close>

text \<open>A new UPS nobody is logged into.\<close>

lemma add_ups_inv:
  assumes "upsd_inv s" "ups_inv n" "numlogins n = 0" "key n \<notin> set (map key (firstups s))"
  shows "upsd_inv (s\<lparr>firstups := n # firstups s\<rparr>)"
proof -
  let ?l = "map loginups (firstclient s)"
  have ok: "logins_ok s" using assms(1) by (simp add: upsd_inv_def)
  have "ups_name n \<notin> set (map ups_name (firstups s))" using assms(4) by auto
  then have "Some (ups_name n) \<notin> set ?l"
    using ok unfolding logins_ok_def list_all_iff login_known_def by (metis option.simps(5))
  then have "count_list ?l (Some (ups_name n)) = 0" by simp
  moreover have "list_all (login_known (s\<lparr>firstups := n # firstups s\<rparr>)) ?l"
    using ok by (auto simp: logins_ok_def list_all_iff login_known_def split: option.splits)
  moreover have "distinct (map (lower \<circ> ups_name) (n # firstups s))"
    using ok assms(4) by (simp add: logins_ok_def comp_def)
  ultimately have "logins_ok (s\<lparr>firstups := n # firstups s\<rparr>)"
    using ok assms(3) by (simp add: logins_ok_def)
  then show ?thesis using assms(1,2) by (simp add: upsd_inv_def)
qed

lemma upsd_inv_distinct: "upsd_inv s \<Longrightarrow> distinct (map key (firstups s))"
  by (simp add: upsd_inv_def logins_ok_def comp_def)

lemma map_ups_inv:
  assumes "upsd_inv s" "\<And>u. u \<in> set (firstups s) \<Longrightarrow> keeps_id u (f u) \<and> (ups_inv u \<longrightarrow> ups_inv (f u))"
  shows "upsd_inv (s\<lparr>firstups := map f (firstups s)\<rparr>)"
  using assms by (intro replace_ups_inv) (simp_all add: list_all2_map2 list_all2_same)

lemma add_entry_inv:
  assumes "upsd_inv (cf_upsd c)"
  shows "upsd_inv (cf_upsd (fst (upsconf_add_entry reloading now t (c, conns))))"
  using upsd_inv_distinct [OF assms]
proof (cases rule: add_entry_cases [where t = t and reloading = reloading and now = now and conns = conns])
  case 2
  have "upsd_inv ((cf_upsd c)\<lparr>firstups :=
      map (\<lambda>u. if key u = tkey t then srv_redefine_ups (statefn t) (ut_desc t) u else u) (cf_ups c)\<rparr>)"
    by (rule map_ups_inv [OF assms]) (simp add: keeps_id_def srv_redefine_ups_inv)
  then show ?thesis unfolding 2(4) by simp
next
  case (4 n)
  have "upsd_inv ((cf_upsd c)\<lparr>firstups := n # cf_ups c\<rparr>)"
    using 4(2,3) by (intro add_ups_inv [OF assms]) (simp_all add: made_from_def)
  then show ?thesis unfolding 4(4) by simp
qed (use assms in simp_all)

lemma upsconf_add_inv:
  "upsd_inv (cf_upsd (fst st)) \<Longrightarrow> upsd_inv (cf_upsd (fst (upsconf_add reloading now tab st)))"
  unfolding upsconf_add_def
proof (induction tab arbitrary: st)
  case (Cons t tab)
  from Cons.IH [of "upsconf_add_entry reloading now t st"] Cons.prems add_entry_inv [of "fst st" reloading now t "snd st"]
  show ?case by simp
qed simp

text \<open>Kicking the clients of one UPS changes the login counter of that UPS only.\<close>

lemma disconnect_ups:
  assumes "upsd_inv s" "u < length (firstups s)" "loginups (client_at s i) = Some (ups_name (firstups s ! u))"
  shows "\<exists>k. firstups (client_disconnect s i) = (firstups s)[u := (firstups s ! u)\<lparr>numlogins := k\<rparr>]"
proof -
  have "get_ups_ptr s (ups_name (firstups s ! u)) = Some u"
    using assms(1,2) by (intro get_ups_ptr_exact) (simp_all add: upsd_inv_def)
  with assms(3) show ?thesis by (auto simp: client_disconnect_def declogins_def)
qed

lemma kick_loop_ups:
  "upsd_inv s \<Longrightarrow> u < length (firstups s) \<Longrightarrow> nm = ups_name (firstups s ! u) \<Longrightarrow> i + n = length (firstclient s) \<Longrightarrow>
   \<exists>k. firstups (kick_loop n s nm i) = (firstups s)[u := (firstups s ! u)\<lparr>numlogins := k\<rparr>]"
proof (induction n s nm i rule: kick_loop.induct)
  case (1 s nm i)
  have "firstups s = (firstups s)[u := (firstups s ! u)\<lparr>numlogins := numlogins (firstups s ! u)\<rparr>]" by simp
  then show ?case unfolding kick_loop.simps by blast
next
  case (2 n s nm i)
  show ?case
  proof (cases "loginups (client_at s i) = Some nm")
    case True
    let ?t = "client_disconnect s i"
    obtain k where k: "firstups ?t = (firstups s)[u := (firstups s ! u)\<lparr>numlogins := k\<rparr>]"
      using disconnect_ups [OF "2.prems"(1,2)] True "2.prems"(3) by blast
    have "upsd_inv ?t" "i + n = length (firstclient ?t)"
      using "2.prems" client_disconnect_inv [of s i]
      by (auto simp: client_disconnect_clients unlink_at_length)
    with "2.IH"(2) [OF True refl] k "2.prems"(2,3) show ?thesis by (auto simp: True)
  next
    case False
    with "2.IH"(1,3) "2.prems" show ?thesis by (cases "loginups (client_at s i)") auto
  qed
qed

lemma unlink_update [simp]: "u < length xs \<Longrightarrow> unlink_at u (xs[u := x]) = unlink_at u xs"
  by (simp add: unlink_at_def)

lemma set_unlink: "u < length xs \<Longrightarrow> set xs = insert (xs ! u) (set (unlink_at u xs))"
  by (subst id_take_nth_drop [of u xs]) (auto simp: unlink_at_def)

lemma remove_ups_inv:
  assumes "upsd_inv s" "u < length (firstups s)"
    and "Some (ups_name (firstups s ! u)) \<notin> set (map loginups (firstclient s))"
  shows "upsd_inv (s\<lparr>firstups := unlink_at u (firstups s)\<rparr>)"
proof -
  let ?us = "unlink_at u (firstups s)" and ?l = "map loginups (firstclient s)"
  have ok: "logins_ok s" using assms(1) by (simp add: upsd_inv_def)
  note set = set_unlink [OF assms(2)]
  have "login_known (s\<lparr>firstups := ?us\<rparr>) l" if "l \<in> set ?l" for l
  proof -
    have "login_known s l" using ok that unfolding logins_ok_def list_all_iff by blast
    with set that assms(3) show ?thesis by (auto simp: login_known_def split: option.splits)
  qed
  moreover have "distinct (map (lower \<circ> ups_name) ?us)"
    using ok unfolding logins_ok_def by (subst (asm) id_take_nth_drop [OF assms(2)]) (auto simp: unlink_at_def)
  ultimately have "logins_ok (s\<lparr>firstups := ?us\<rparr>)"
    using ok by (simp add: logins_ok_def list_all_iff set)
  then show ?thesis using assms(1) by (simp add: upsd_inv_def list_all_iff set)
qed

lemma kick_clients:
  "firstclient (kick_login_clients s nm) = filter (\<lambda>c. loginups c \<noteq> Some nm) (firstclient s)"
  using kick_loop_clients [of s "[]" "firstclient s" nm] by (simp add: kick_login_clients_def)

lemma srv_delete_ups_facts:
  assumes "upsd_inv s" "u < length (firstups s)"
  shows "upsd_inv (srv_delete_ups s u)" "firstups (srv_delete_ups s u) = unlink_at u (firstups s)"
    "firstclient (srv_delete_ups s u) = filter (\<lambda>c. loginups c \<noteq> Some (ups_name (firstups s ! u))) (firstclient s)"
proof -
  let ?nm = "ups_name (firstups s ! u)"
  let ?t = "kick_login_clients s ?nm"
  obtain k where k: "firstups ?t = (firstups s)[u := (firstups s ! u)\<lparr>numlogins := k\<rparr>]"
    using kick_loop_ups [OF assms refl, of 0 "length (firstclient s)"] by (auto simp: kick_login_clients_def)
  have t: "upsd_inv ?t" using kick_loop_inv [OF assms(1)] by (simp add: kick_login_clients_def)
  have "Some (ups_name (firstups ?t ! u)) \<notin> set (map loginups (firstclient ?t))"
    using assms(2) by (auto simp: kick_clients k)
  then show "upsd_inv (srv_delete_ups s u)"
    using remove_ups_inv [OF t, of u] k assms(2) by (simp add: srv_delete_ups_def Let_def)
  show "firstups (srv_delete_ups s u) = unlink_at u (firstups s)"
    using k assms(2) by (simp add: srv_delete_ups_def Let_def)
  show "firstclient (srv_delete_ups s u) = filter (\<lambda>c. loginups c \<noteq> Some ?nm) (firstclient s)"
    by (simp add: srv_delete_ups_def Let_def kick_clients)
qed

lemma delete_loop_facts:
  assumes "upsd_inv s" "firstups s = xs @ ys"
  shows "upsd_inv (delete_loop (length ys) s (length xs)) \<and>
    firstups (delete_loop (length ys) s (length xs)) = xs @ filter ups_retain ys \<and>
    firstclient (delete_loop (length ys) s (length xs)) =
      filter (\<lambda>c. \<forall>u\<in>set ys. \<not> ups_retain u \<longrightarrow> loginups c \<noteq> Some (ups_name u)) (firstclient s)"
  using assms
proof (induction ys arbitrary: s xs)
  case (Cons y ys)
  have y: "firstups s ! length xs = y" "length xs < length (firstups s)" using Cons.prems(2) by simp_all
  show ?case
  proof (cases "ups_retain y")
    case True
    with Cons.IH [of s "xs @ [y]"] Cons.prems show ?thesis by (simp add: y)
  next
    case False
    note d = srv_delete_ups_facts [OF Cons.prems(1) y(2)]
    have "firstups (srv_delete_ups s (length xs)) = xs @ ys" unfolding d(2) Cons.prems(2) by (simp add: unlink_Cons)
    with Cons.IH [OF d(1)] False show ?thesis
      by (simp add: y d(3) [unfolded y] conj_commute)
  qed
qed simp

text \<open>What \<open>upsd.conf\<close> cannot change.\<close>

definition same_core :: "config \<Rightarrow> config \<Rightarrow> bool" where
  "same_core c d \<longleftrightarrow> firstups (cf_upsd d) = firstups (cf_upsd c) \<and> firstclient (cf_upsd d) = firstclient (cf_upsd c) \<and>
     user_db (cf_upsd d) = user_db (cf_upsd c)"

lemma same_core_refl [simp]: "same_core c c"
  by (simp add: same_core_def)

lemma same_core_inv: "same_core c d \<Longrightarrow> upsd_inv (cf_upsd d) = upsd_inv (cf_upsd c)"
  using login_known_cong [of "cf_upsd d" "cf_upsd c"] by (simp add: same_core_def upsd_inv_def logins_ok_def)

lemma parse_upsd_conf_core: "same_core c d \<Longrightarrow> same_core c (snd (parse_upsd_conf_args arg d))"
  by (simp add: parse_upsd_conf_args_def same_core_def listen_add_def)

lemma load_upsdconf_core:
  assumes "load_upsdconf env reloading c = Inr d"
  shows "same_core c d"
proof -
  have "same_core c (snd (read_lines (\<lambda>ctx. snd \<circ> parse_upsd_conf_args (pconf_words ctx)) ctx c))" for ctx
    by (rule read_lines_keeps [where P = "same_core c"]) (simp_all add: parse_upsd_conf_core)
  with assms show ?thesis
    by (auto simp: load_upsdconf_def Let_def split: prod.splits if_splits)
qed

lemma upsd_inv_set_users: "upsd_inv s \<Longrightarrow> user_inv db \<Longrightarrow> upsd_inv (s\<lparr>user_db := db\<rparr>)"
  using login_known_cong [of "s\<lparr>user_db := db\<rparr>" s] by (simp add: upsd_inv_def logins_ok_def)

lemma load_users_facts:
  assumes "load_users env c = Inr d"
  shows "firstups (cf_upsd d) = cf_ups c" "firstclient (cf_upsd d) = firstclient (cf_upsd c)"
    and "cf_upsd d = (cf_upsd c)\<lparr>user_db := user_load (e_fopen env) (e_confpath env) (e_stack env) (user_db (cf_upsd c))\<rparr>"
  using assms by (auto simp: load_users_def)

lemma load_users_inv:
  assumes "load_users env (c\<lparr>cf_upsd := (cf_upsd c)\<lparr>user_db := user_flush (user_db (cf_upsd c))\<rparr>\<rparr>) = Inr d"
    and "upsd_inv (cf_upsd c)"
  shows "upsd_inv (cf_upsd d)"
proof -
  have "user_inv (user_load (e_fopen env) (e_confpath env) (e_stack env) (user_flush (user_db (cf_upsd c))))"
    by (rule user_inv_load) (simp add: user_flush_def)
  from upsd_inv_set_users [OF assms(2) this] show ?thesis
    by (simp add: load_users_facts(3) [OF assms(1)])
qed

text \<open>The steps of a reload that gets to its end.\<close>

lemma conf_reload_steps:
  assumes "conf_reload env c = Inr d" "check_file env ''upsd.conf''" "upsd_inv (cf_upsd c)"
  obtains tab c2 c3 where
    "read_upsconf do_upsconf_args (e_fopen env) (e_confpath env) (e_stack env) [] = Inr tab"
    "c2 = fst (upsconf_add True (e_now env) tab
       (c\<lparr>cf_upsd := (cf_upsd c)\<lparr>firstups := map (ups_retain_update (\<lambda>_. False)) (cf_ups c)\<rparr>\<rparr>, e_conns env))"
    "same_core c2 c3" "upsd_inv (cf_upsd c3)" "upsd_inv (cf_upsd d)"
    "cf_ups d = filter ups_retain (cf_ups c3)"
    "firstclient (cf_upsd d) = filter (\<lambda>cl. \<forall>u\<in>set (cf_ups c3). \<not> ups_retain u \<longrightarrow> loginups cl \<noteq> Some (ups_name u))
       (firstclient (cf_upsd c3))"
proof -
  let ?c1 = "c\<lparr>cf_upsd := (cf_upsd c)\<lparr>firstups := map (ups_retain_update (\<lambda>_. False)) (cf_ups c)\<rparr>\<rparr>"
  from assms(1,2) obtain tab c3 where
    tab: "read_upsconf do_upsconf_args (e_fopen env) (e_confpath env) (e_stack env) [] = Inr tab" and
    c3: "load_upsdconf env True (fst (upsconf_add True (e_now env) tab (?c1, e_conns env))) = Inr c3" and
    d: "(let c4 = c3\<lparr>cf_upsd := delete_loop (length (cf_ups c3)) (cf_upsd c3) 0\<rparr> in
         if \<not> check_file env ''upsd.users'' then Inr c4
         else let c5 = c4\<lparr>cf_upsd := (cf_upsd c4)\<lparr>user_db := user_flush (user_db (cf_upsd c4))\<rparr>\<rparr>
              in load_users env c5) = Inr d"
    by (auto simp: conf_reload_def Let_def)
  let ?c2 = "fst (upsconf_add True (e_now env) tab (?c1, e_conns env))"
  let ?s4 = "delete_loop (length (cf_ups c3)) (cf_upsd c3) 0"
  have "upsd_inv (cf_upsd ?c1)"
    using map_ups_inv [OF assms(3), of "ups_retain_update (\<lambda>_. False)"] by (simp add: keeps_id_def ups_inv_def)
  then have "upsd_inv (cf_upsd ?c2)" using upsconf_add_inv [of "(?c1, e_conns env)"] by simp
  then have inv3: "upsd_inv (cf_upsd c3)" using same_core_inv [OF load_upsdconf_core [OF c3]] by simp
  note s4 = delete_loop_facts [OF inv3, of "[]" "cf_ups c3", simplified]
  let ?c4 = "c3\<lparr>cf_upsd := ?s4\<rparr>"
  let ?c5 = "?c4\<lparr>cf_upsd := (cf_upsd ?c4)\<lparr>user_db := user_flush (user_db (cf_upsd ?c4))\<rparr>\<rparr>"
  have c4: "upsd_inv ?s4" using s4 by simp
  have "upsd_inv (cf_upsd d) \<and> cf_ups d = firstups ?s4 \<and> firstclient (cf_upsd d) = firstclient ?s4"
  proof (cases "check_file env ''upsd.users''")
    case True
    with d have "load_users env ?c5 = Inr d" by (simp add: Let_def)
    from load_users_facts(1,2) [OF this] load_users_inv [of env ?c4 d] this c4 show ?thesis by simp
  next
    case False
    with d c4 show ?thesis by (auto simp: Let_def)
  qed
  then show ?thesis using that [OF tab refl load_upsdconf_core [OF c3] inv3] s4 by simp
qed

section \<open>What a reload leaves\<close>

text \<open>The sections that define a UPS, by name without regard to case.\<close>

definition defined_names :: "conf_section list \<Rightarrow> string set" where
  "defined_names ss = lower ` fst ` {s \<in> set ss. complete (section_entry s)}"

lemma section_entry_simps [simp]:
  "ut_upsname (section_entry s) = fst s" "ut_desc (section_entry s) = conf_value (snd s) ''desc''"
  by (simp_all add: section_entry_def)

lemma complete_nonempty: "complete (section_entry s) \<Longrightarrow> snd s \<noteq> []"
  by (auto simp: complete_def section_entry_def conf_value_def)

lemma conf_table_complete:
  "t \<in> set (conf_table ss) \<Longrightarrow> complete t \<Longrightarrow> \<exists>s\<in>set ss. t = section_entry s"
  "s \<in> set ss \<Longrightarrow> complete (section_entry s) \<Longrightarrow> section_entry s \<in> set (conf_table ss)"
  by (auto simp: conf_table_def complete_nonempty)

lemma conf_table_names: "set (map tkey (filter complete (conf_table ss))) = defined_names ss"
proof -
  have "set (filter complete (conf_table ss)) = section_entry ` {s \<in> set ss. complete (section_entry s)}"
    unfolding conf_table_def set_filter set_rev set_map using complete_nonempty by blast
  then show ?thesis unfolding set_map by (simp add: image_image defined_names_def)
qed

lemma conf_table_distinct:
  assumes "distinct (map (lower \<circ> fst) ss)" shows "distinct (map tkey (conf_table ss))"
proof -
  have "map tkey (conf_table ss) = rev (map (lower \<circ> fst) (filter (\<lambda>s. snd s \<noteq> []) ss))"
    by (simp add: conf_table_def rev_map comp_def)
  with distinct_map_filter [OF assms] show ?thesis by simp
qed

lemma entry_for_section:
  assumes "distinct (map tkey tab)" "t \<in> set tab" "complete t"
  shows "entry_for tab (tkey t) = Some t"
proof -
  have "entry_for tab (tkey t) \<noteq> None" using assms(2,3) by (auto simp: entry_for_def find_None_iff)
  then obtain x where x: "entry_for tab (tkey t) = Some x" by blast
  then have "x \<in> set tab" "tkey x = tkey t" by (auto simp: entry_for_def find_Some_iff)
  with assms(1,2) have "x = t" by (auto simp: distinct_map dest: inj_onD)
  with x show ?thesis by simp
qed

lemma entry_forD: "entry_for tab k = Some t \<Longrightarrow> t \<in> set tab \<and> complete t \<and> tkey t = k"
  by (auto simp: entry_for_def find_Some_iff)

lemma entry_for_None: "entry_for tab k = None \<longleftrightarrow> k \<notin> set (map tkey (filter complete tab))"
  by (auto simp: entry_for_def find_None_iff)

lemma retain_false_fields [simp]:
  "srv_redefine_ups fn d (u\<lparr>ups_retain := False\<rparr>) = srv_redefine_ups fn d u"
  by (simp add: srv_redefine_ups_def sstate_infofree_def sstate_cmdfree_def Let_def)

text \<open>The list of UPSes after a reload, given the table.\<close>

lemma reload_ups_list:
  assumes "distinct (map tkey tab)" "distinct (map key (cf_ups c))" "same_core c2 c3"
    and "c2 = fst (upsconf_add True now tab
       (c\<lparr>cf_upsd := (cf_upsd c)\<lparr>firstups := map (ups_retain_update (\<lambda>_. False)) (cf_ups c)\<rparr>\<rparr>, conns))"
  obtains news where "cf_ups c3 = news @ map (\<lambda>u. reload_ups tab (u\<lparr>ups_retain := False\<rparr>)) (cf_ups c)"
    "added tab (cf_ups c) news" "firstclient (cf_upsd c3) = firstclient (cf_upsd c)"
proof -
  let ?c1 = "c\<lparr>cf_upsd := (cf_upsd c)\<lparr>firstups := map (ups_retain_update (\<lambda>_. False)) (cf_ups c)\<rparr>\<rparr>"
  have k: "map key (cf_ups ?c1) = map key (cf_ups c)" by simp
  have "distinct (map key (cf_ups ?c1))" using assms(2) unfolding k .
  from upsconf_add_ups [OF assms(1) this, of now conns]
  obtain news n where n: "c2 = ?c1\<lparr>cf_upsd := (cf_upsd ?c1)\<lparr>firstups := news @ map (reload_ups tab) (cf_ups ?c1)\<rparr>, cf_num_ups := n\<rparr>"
    "added tab (cf_ups ?c1) news"
    using assms(4) by metis
  from n(2) have "added tab (cf_ups c) news" unfolding added_cong [OF k] .
  with n(1) assms(3) show ?thesis by (intro that [of news]) (simp_all add: same_core_def comp_def)
qed

lemma reload_facts:
  assumes inv: "upsd_inv (cf_upsd c)" and ok: "conf_reload env c = Inr d" "check_file env ''upsd.conf''"
    and tab: "read_upsconf do_upsconf_args (e_fopen env) (e_confpath env) (e_stack env) [] = Inr (conf_table ss)"
    and dist: "distinct (map (lower \<circ> fst) ss)"
  shows "set (map key (cf_ups d)) = defined_names ss"
    and "u \<in> set (cf_ups d) \<Longrightarrow> \<exists>s\<in>set ss. lower (fst s) = key u \<and> complete (section_entry s) \<and>
       ups_fn u = statefn (section_entry s) \<and> ups_desc u = conf_value (snd s) ''desc''"
    and "u \<in> set (cf_ups c) \<Longrightarrow> s \<in> set ss \<Longrightarrow> complete (section_entry s) \<Longrightarrow> lower (fst s) = key u \<Longrightarrow>
       srv_redefine_ups (statefn (section_entry s)) (conf_value (snd s) ''desc'') u \<in> set (cf_ups d)"
    and "firstclient (cf_upsd d) =
       filter (\<lambda>cl. case loginups cl of None \<Rightarrow> True | Some nm \<Rightarrow> lower nm \<in> defined_names ss) (firstclient (cf_upsd c))"
proof -
  let ?tab = "conf_table ss"
  have names: "set (map tkey (filter complete ?tab)) = defined_names ss" by (rule conf_table_names)
  have dt: "distinct (map tkey ?tab)" using dist by (rule conf_table_distinct)
  have dk: "distinct (map key (cf_ups c))" using inv by (rule upsd_inv_distinct)
  obtain c2 c3 where
    c2: "c2 = fst (upsconf_add True (e_now env) ?tab
       (c\<lparr>cf_upsd := (cf_upsd c)\<lparr>firstups := map (ups_retain_update (\<lambda>_. False)) (cf_ups c)\<rparr>\<rparr>, e_conns env))" and
    c3: "same_core c2 c3" "cf_ups d = filter ups_retain (cf_ups c3)"
    "firstclient (cf_upsd d) = filter (\<lambda>cl. \<forall>u\<in>set (cf_ups c3). \<not> ups_retain u \<longrightarrow> loginups cl \<noteq> Some (ups_name u))
       (firstclient (cf_upsd c3))"
    by (rule conf_reload_steps [OF ok inv]) (use tab in auto)
  obtain news where news: "cf_ups c3 = news @ map (\<lambda>u. reload_ups ?tab (u\<lparr>ups_retain := False\<rparr>)) (cf_ups c)"
    "added ?tab (cf_ups c) news" "firstclient (cf_upsd c3) = firstclient (cf_upsd c)"
    by (rule reload_ups_list [OF dt dk c3(1) c2])
  have made: "\<exists>t\<in>set ?tab. made_from t n" if "n \<in> set news" for n
    using news(2) that by (simp add: added_def)
  let ?r = "\<lambda>u. reload_ups ?tab (u\<lparr>ups_retain := False\<rparr>)"
  have r: "ups_retain (?r u) \<longleftrightarrow> key u \<in> defined_names ss" for u
    using entry_for_None [of ?tab "key u"] names
    by (auto simp: reload_ups_def split: option.splits)
  have d: "cf_ups d = news @ map ?r (filter (\<lambda>u. key u \<in> defined_names ss) (cf_ups c))"
    using made r by (auto simp: c3(2) news(1) filter_map comp_def made_from_def filter_id_conv)
  have "set (map key news) = defined_names ss - set (map key (cf_ups c))"
    using news(2) names by (simp add: added_def)
  then show "set (map key (cf_ups d)) = defined_names ss"
    unfolding d set_append map_append by (auto simp: reload_ups_name)
  show "\<exists>s\<in>set ss. lower (fst s) = key u \<and> complete (section_entry s) \<and>
       ups_fn u = statefn (section_entry s) \<and> ups_desc u = conf_value (snd s) ''desc''"
    if u: "u \<in> set (cf_ups d)"
  proof -
    obtain t where t: "t \<in> set ?tab" "complete t" "tkey t = key u" "ups_fn u = statefn t" "ups_desc u = ut_desc t"
    proof (cases "u \<in> set news")
      case True
      from made [OF this] obtain t where "t \<in> set ?tab" "made_from t u" by blast
      then show ?thesis by (intro that [of t]) (simp_all add: made_from_def)
    next
      case False
      with u obtain v where v: "u = ?r v" "key v \<in> defined_names ss" unfolding d by auto
      then obtain t where t: "entry_for ?tab (key v) = Some t" using entry_for_None [of ?tab "key v"] names by auto
      with v(1) show ?thesis using entry_forD [OF t] by (intro that [of t]) (auto simp: reload_ups_def)
    qed
    from conf_table_complete(1) [OF t(1,2)] obtain s where "s \<in> set ss" "t = section_entry s" by blast
    with t show ?thesis by (intro bexI [of _ s]) auto
  qed
  show "srv_redefine_ups (statefn (section_entry s)) (conf_value (snd s) ''desc'') u \<in> set (cf_ups d)"
    if "u \<in> set (cf_ups c)" "s \<in> set ss" "complete (section_entry s)" "lower (fst s) = key u"
  proof -
    have "entry_for ?tab (key u) = Some (section_entry s)"
      using entry_for_section [OF dt conf_table_complete(2) [OF that(2,3)] that(3)] that(4) by simp
    then have "?r u = srv_redefine_ups (statefn (section_entry s)) (conf_value (snd s) ''desc'') u"
      by (simp add: reload_ups_def)
    moreover have "key u \<in> defined_names ss"
      using that(2-4) unfolding defined_names_def by (auto intro!: rev_image_eqI)
    ultimately show ?thesis
      using that(1) imageI [of u "{u \<in> set (cf_ups c). key u \<in> defined_names ss}" ?r]
      unfolding d set_append set_map set_filter by simp
  qed
  show "firstclient (cf_upsd d) =
       filter (\<lambda>cl. case loginups cl of None \<Rightarrow> True | Some nm \<Rightarrow> lower nm \<in> defined_names ss) (firstclient (cf_upsd c))"
    unfolding c3(3) news(3)
  proof (rule filter_cong [OF refl])
    fix cl assume cl: "cl \<in> set (firstclient (cf_upsd c))"
    show "(\<forall>u\<in>set (cf_ups c3). \<not> ups_retain u \<longrightarrow> loginups cl \<noteq> Some (ups_name u)) \<longleftrightarrow>
        (case loginups cl of None \<Rightarrow> True | Some nm \<Rightarrow> lower nm \<in> defined_names ss)"
    proof (cases "loginups cl")
      case (Some nm)
      have "login_known (cf_upsd c) (Some nm)"
        using inv cl Some unfolding upsd_inv_def logins_ok_def list_all_iff by (metis imageI list.set_map)
      then obtain v where v: "v \<in> set (cf_ups c)" "nm = ups_name v" by (auto simp: login_known_def)
      have "?r v \<in> set (cf_ups c3)" using v(1) by (simp add: news(1))
      moreover have "\<not> ups_retain u \<Longrightarrow> u \<in> set (cf_ups c3) \<Longrightarrow> key u \<notin> defined_names ss" for u
        by (cases "u \<in> set news") (use made r in \<open>auto simp: news(1) made_from_def\<close>)
      ultimately show ?thesis using r [of v] v(2) Some by (auto dest: bspec [where x = "?r v"])
    qed simp
  qed
qed

lemma conf_reload_total:
  assumes "\<And>fn. e_stat env fn"
    and "read_upsconf do_upsconf_args (e_fopen env) (e_confpath env) (e_stack env) [] = Inr tab"
  obtains d where "conf_reload env c = Inr d"
proof -
  have load: "\<exists>e. load_upsdconf env True x = Inr e" for x
    using assms(1) by (auto simp: load_upsdconf_def check_perms_def Let_def split: prod.splits)
  have users: "\<exists>e. load_users env x = Inr e" for x
    using assms(1) by (auto simp: load_users_def check_perms_def)
  let ?c2 = "fst (upsconf_add True (e_now env) tab
      (c\<lparr>cf_upsd := (cf_upsd c)\<lparr>firstups := map (ups_retain_update (\<lambda>_. False)) (cf_ups c)\<rparr>\<rparr>, e_conns env))"
  obtain c3 where "load_upsdconf env True ?c2 = Inr c3" using load by blast
  then have "\<exists>d. conf_reload env c = Inr d"
    using users by (simp add: conf_reload_def assms(2) Let_def)
  with that show ?thesis by blast
qed

text \<open>C3: After SIGHUP the server follows the new ups.conf. When the file is a list of sections with
  different names and all files can be read, the reload succeeds; the UPSes of the server are then exactly those of
  the sections with a driver and a port (names compared without case), each with the socket name
  and description of its section; a UPS that is defined as before keeps its connection, its data, its
  forced-shutdown flag and its logins; one with another driver has lost its connection and data only;
  and the clients that are disconnected are exactly those logged into a UPS that is no longer defined.\<close>

theorem reload_follows_file:
  assumes "upsd_inv (cf_upsd c)" and "\<And>fn. e_stat env fn" and "check_file env ''upsd.conf''"
    and "conf_text_ok gl ss" and "list_all (list_all line_ok \<circ> snd) ss" and "distinct (map (lower \<circ> fst) ss)"
    and "e_fopen env (snprintf SMALLBUF (e_confpath env @ ''/ups.conf'')) = Inr (conf_text gl ss)"
  shows "\<exists>d. conf_reload env c = Inr d \<and>
    set (map key (cf_ups d)) = defined_names ss \<and>
    (\<forall>u\<in>set (cf_ups d). \<exists>s\<in>set ss. lower (fst s) = key u \<and> complete (section_entry s) \<and>
       ups_fn u = statefn (section_entry s) \<and> ups_desc u = conf_value (snd s) ''desc'') \<and>
    (\<forall>u\<in>set (cf_ups c). \<forall>s\<in>set ss. complete (section_entry s) \<longrightarrow> lower (fst s) = key u \<longrightarrow>
       ups_fn u = statefn (section_entry s) \<longrightarrow>
       u\<lparr>ups_desc := conf_value (snd s) ''desc'', ups_retain := True\<rparr> \<in> set (cf_ups d)) \<and>
    (\<forall>u\<in>set (cf_ups c). \<forall>s\<in>set ss. complete (section_entry s) \<longrightarrow> lower (fst s) = key u \<longrightarrow>
       srv_redefine_ups (statefn (section_entry s)) (conf_value (snd s) ''desc'') u \<in> set (cf_ups d)) \<and>
    firstclient (cf_upsd d) =
      filter (\<lambda>cl. case loginups cl of None \<Rightarrow> True | Some nm \<Rightarrow> lower nm \<in> defined_names ss) (firstclient (cf_upsd c))"
proof -
  have "distinct (map fst ss)" using assms(6) by (metis distinct_map map_map)
  then have tab: "read_upsconf do_upsconf_args (e_fopen env) (e_confpath env) (e_stack env) [] = Inr (conf_table ss)"
    using read_conf_table [OF assms(4,5)] assms(7) by simp
  obtain d where d: "conf_reload env c = Inr d"
    by (rule conf_reload_total [OF assms(2) tab])
  note f = reload_facts [OF assms(1) d assms(3) tab assms(6)]
  have "u\<lparr>ups_desc := conf_value (snd s) ''desc'', ups_retain := True\<rparr> \<in> set (cf_ups d)"
    if "u \<in> set (cf_ups c)" "s \<in> set ss" "complete (section_entry s)" "lower (fst s) = key u"
      "ups_fn u = statefn (section_entry s)" for u s
    using f(3) [OF that(1-4)] that(5) by (simp add: srv_redefine_ups_same)
  with d f show ?thesis by (intro exI [of _ d]) simp
qed

section \<open>The server from its start, through reloads\<close>

text \<open>The variables before \<open>main\<close> reads any file.\<close>

definition config_zero :: "config \<Rightarrow> bool" where
  "config_zero c \<longleftrightarrow> cf_ups c = [] \<and> firstclient (cf_upsd c) = [] \<and> users (user_db (cf_upsd c)) = [] \<and>
     curr_user (user_db (cf_upsd c)) = None \<and> cf_num_ups c = 0 \<and> cf_firstaddr c = [] \<and> \<not> cf_reload_flag c"

definition srv_inv :: "fault + config \<Rightarrow> bool" where
  "srv_inv so \<longleftrightarrow> (case so of Inl _ \<Rightarrow> True | Inr c \<Rightarrow> upsd_inv (cf_upsd c))"

lemma srv_inv_sbind: "(\<And>c. m = Inr c \<Longrightarrow> srv_inv (f c)) \<Longrightarrow> srv_inv (sbind m f)"
  by (cases m) (simp_all add: srv_inv_def)

lemma conf_reload_inv:
  assumes "upsd_inv (cf_upsd c)" shows "srv_inv (conf_reload env c)"
proof (cases "conf_reload env c")
  case (Inr d)
  show ?thesis
  proof (cases "check_file env ''upsd.conf''")
    case True
    show ?thesis by (rule conf_reload_steps [OF Inr True assms]) (simp add: Inr srv_inv_def)
  next
    case False
    with assms show ?thesis by (simp add: conf_reload_def srv_inv_def)
  qed
qed (simp add: srv_inv_def)

lemma poll_reload_same: "poll_reload env c = Inr d \<Longrightarrow> d = c"
  by (simp add: poll_reload_def Let_def split: if_splits)

lemma srv_inv_Inr: "srv_inv m \<Longrightarrow> m = Inr c \<Longrightarrow> upsd_inv (cf_upsd c)"
  by (simp add: srv_inv_def)

lemma srv_mainloop_round:
  assumes "upsd_inv (cf_upsd c)"
  shows "srv_inv (case mainloop (Some (cf_upsd c)) r of None \<Rightarrow> Inl OutOfBounds | Some s \<Rightarrow> Inr (c\<lparr>cf_upsd := s\<rparr>))"
  using mainloop_inv [of "Some (cf_upsd c)" r] assms
  by (auto simp: loop_inv_def srv_inv_def split: option.splits)

lemma reload_branch_cases:
  assumes "reload_branch env c = Inr d"
  obtains e where "conf_reload env c = Inr e" "cf_upsd d = cf_upsd e"
  using assms by (auto simp: reload_branch_def dest!: poll_reload_same elim!: sbind_InrE)

lemma server_mainloop_inv: "srv_inv so \<Longrightarrow> srv_inv (server_mainloop so r)"
  unfolding server_mainloop_def Let_def
proof (intro srv_inv_sbind srv_mainloop_round)
  fix c0 c1 :: config
  let ?c = "if sr_hup r then c0\<lparr>cf_reload_flag := True\<rparr> else c0"
  assume "srv_inv so" "so = Inr c0"
  then have c: "upsd_inv (cf_upsd ?c)" by (simp add: srv_inv_def)
  assume "(if cf_reload_flag ?c then reload_branch (sr_env r) ?c else Inr ?c) = Inr c1"
  then consider "c1 = ?c" | d where "conf_reload (sr_env r) ?c = Inr d" "cf_upsd c1 = cf_upsd d"
    by (cases "cf_reload_flag ?c") (simp_all only: if_True if_False sum.inject, metis reload_branch_cases)
  then show "upsd_inv (cf_upsd c1)"
  proof cases
    case 2
    with srv_inv_Inr [OF conf_reload_inv [OF c]] show ?thesis by simp
  qed (use c in simp)
qed

lemma config_zero_inv: "config_zero c \<Longrightarrow> upsd_inv (cf_upsd c)"
  by (simp add: config_zero_def upsd_inv_def logins_ok_def user_inv_def)

lemma server_load_same: "server_load env inet inet6 c = Inr d \<Longrightarrow> cf_upsd d = cf_upsd c"
  by (auto simp: server_load_def Let_def listen_add_def split: if_splits list.splits)

lemma add_entry_users: "user_db (cf_upsd (fst (upsconf_add_entry reloading now t st))) = user_db (cf_upsd (fst st))"
  by (simp add: upsconf_add_entry_def ups_create_def ups_update_def Let_def split: option.splits)

lemma upsconf_add_users: "user_db (cf_upsd (fst (upsconf_add reloading now tab st))) = user_db (cf_upsd (fst st))"
  unfolding upsconf_add_def by (induction tab arbitrary: st) (simp_all add: add_entry_users)

text \<open>The state the server starts with, and what is kept of the start.\<close>

lemma upsd_main_steps:
  assumes "upsd_main env inet inet6 c = Inr d" "config_zero c"
  shows "upsd_inv (cf_upsd d)"
proof -
  let ?c0 = "c\<lparr>cf_upsd := (cf_upsd c)\<lparr>maxconn := e_open_max env\<rparr>\<rparr>"
  obtain c1 c2 tab c4 where l: "load_upsdconf env False ?c0 = Inr c1" and s: "server_load env inet inet6 c1 = Inr c2"
    and p: "poll_reload env (fst (upsconf_add False (e_now env) tab (c2, e_conns env))) = Inr c4"
    and u: "load_users env (c4\<lparr>cf_upsd := (cf_upsd c4)\<lparr>desc_db :=
         desc_load (e_fopen env) (cf_datapath c4) (e_stack env) (desc_db (cf_upsd c4))\<rparr>\<rparr>) = Inr d"
    using assms(1) by (auto simp: upsd_main_def Let_def split: if_splits)
  have "config_zero ?c0" using assms(2) by (simp add: config_zero_def)
  then have c2: "upsd_inv (cf_upsd c2)" "users (user_db (cf_upsd c2)) = []"
    using same_core_inv [OF load_upsdconf_core [OF l]] config_zero_inv [of ?c0] load_upsdconf_core [OF l]
    by (simp_all add: server_load_same [OF s] same_core_def config_zero_def)
  let ?c5 = "c4\<lparr>cf_upsd := (cf_upsd c4)\<lparr>desc_db :=
         desc_load (e_fopen env) (cf_datapath c4) (e_stack env) (desc_db (cf_upsd c4))\<rparr>\<rparr>"
  have c4: "upsd_inv (cf_upsd c4)" "users (user_db (cf_upsd c4)) = []"
    using c2 upsconf_add_inv [of "(c2, e_conns env)"] by (simp_all add: poll_reload_same [OF p] upsconf_add_users)
  have "same_core c4 ?c5" by (simp add: same_core_def)
  from same_core_inv [OF this] c4 have c5: "upsd_inv (cf_upsd ?c5)" by simp
  have "user_inv (user_load (e_fopen env) (e_confpath env) (e_stack env) (user_db (cf_upsd ?c5)))"
    using c4(2) by (intro user_inv_load) simp
  from upsd_inv_set_users [OF c5 this] show ?thesis unfolding load_users_facts(3) [OF u] .
qed

lemma upsd_main_inv: "config_zero c \<Longrightarrow> srv_inv (upsd_main env inet inet6 c)"
  by (cases "upsd_main env inet inet6 c") (auto simp: srv_inv_def dest: upsd_main_steps)

interpretation server: event_loop "\<lambda>so. \<exists>env inet inet6 c. config_zero c \<and> so = upsd_main env inet inet6 c" server_mainloop srv_inv
  by unfold_locales (auto intro: upsd_main_inv server_mainloop_inv)

text \<open>C4: From the start of upsd, whatever its configuration files contain, through any
  sequence of rounds and of reloads with any files, as long as it runs: the login counter of each UPS is the
  number of clients logged into it, every logged-in client names a UPS that still exists, no two UPSes
  have the same name up to case, and the variables of every UPS are an ordered tree.\<close>

theorem upsd_run_logins_counted:
  assumes "config_zero c" and "foldl server_mainloop (upsd_main env inet inet6 c) rounds = Inr d"
  shows "list_all (\<lambda>ups. numlogins ups = int (length (filter (\<lambda>cl. loginups cl = Some (ups_name ups)) (firstclient (cf_upsd d)))))
           (cf_ups d) \<and>
    list_all (login_known (cf_upsd d)) (map loginups (firstclient (cf_upsd d))) \<and>
    distinct (map key (cf_ups d)) \<and>
    list_all (\<lambda>ups. st_inv (inforoot ups) \<and> cmds_sorted (ups_cmdlist ups)) (cf_ups d)"
proof -
  have "srv_inv (upsd_main env inet inet6 c)" using assms(1) by (rule upsd_main_inv)
  from server.run_inv [OF this, of rounds] have "upsd_inv (cf_upsd d)" by (simp add: srv_inv_def assms(2))
  from upsd_inv_logins [OF this] upsd_inv_distinct [OF this] show ?thesis by (intro conjI)
qed

definition demo_file :: "conf_section list \<Rightarrow> string \<Rightarrow> string + string" where
  "demo_file ss fn = (if fn = ''/etc/nut/ups.conf'' then Inr (conf_text [] ss) else Inr [])"

definition demo_sections :: "conf_section list" where
  "demo_sections = [(''apc'', [(''driver'', Some ''usb''), (''port'', Some ''auto'')])]"

definition demo_env :: "conf_section list \<Rightarrow> conf_env" where
  "demo_env ss = \<lparr>e_fopen = demo_file ss, e_stat = (\<lambda>_. True), e_confpath = ''/etc/nut'', e_stack = zero_ctx,
     e_open_max = 1024, e_alloc = (\<lambda>_. True), e_tcp = (\<lambda>_. Inr 4), e_chdir = (\<lambda>_. True),
     e_conns = [Connected 5 []], e_now = 100\<rparr>"

definition demo_config :: config where
  "demo_config = \<lparr>cf_upsd = demo_upsd\<lparr>firstups := [], user_db := \<lparr>users = [], curr_user = None\<rparr>\<rparr>,
     cf_num_ups = 0, cf_statepath = ''/var/state/ups'', cf_datapath = ''/usr/share/nut'',
     cf_port = ''3493'', cf_firstaddr = [], cf_reload_flag = False\<rparr>"

definition demo_hup :: server_round where
  "demo_hup = \<lparr>sr_hup = True, sr_env = demo_env [(''apc'', [(''driver'', Some ''snmp''), (''port'', Some ''10.0.0.9'')])],
     sr_round = \<lparr>r_now = 105, r_conns = [Connected 6 []], r_events = [ServerIn ''::1'' [] zero_ctx]\<rparr>\<rparr>"

theorem upsd_run_logins_counted_witness:
  "\<exists>d. foldl server_mainloop (upsd_main (demo_env demo_sections) False False demo_config) [demo_hup] = Inr d \<and>
     map ups_fn (cf_ups d) = [''snmp-apc''] \<and> map cl_addr (firstclient (cf_upsd d)) = [''::1''] \<and>
     list_all (\<lambda>ups. numlogins ups = int (length (filter (\<lambda>cl. loginups cl = Some (ups_name ups)) (firstclient (cf_upsd d)))))
       (cf_ups d)"
proof -
  let ?run = "foldl server_mainloop (upsd_main (demo_env demo_sections) False False demo_config) [demo_hup]"
  have zero: "config_zero demo_config" by code_simp
  have "(case ?run of Inl _ \<Rightarrow> None | Inr d \<Rightarrow> Some (map ups_fn (cf_ups d), map cl_addr (firstclient (cf_upsd d)))) =
      Some ([''snmp-apc''], [''::1''])"
    by code_simp
  then obtain d where d: "?run = Inr d" "map ups_fn (cf_ups d) = [''snmp-apc'']"
    "map cl_addr (firstclient (cf_upsd d)) = [''::1'']"
    by (auto split: sum.splits)
  with upsd_run_logins_counted [OF zero d(1)] show ?thesis by (intro exI [of _ d]) (simp only: simp_thms)
qed

text \<open>A running server with the UPSes \<open>apc\<close> and \<open>misc\<close> and one client logged into \<open>misc\<close>.\<close>

definition demo_running :: config where
  "demo_running = demo_config\<lparr>cf_upsd :=
     set_client (set_ups (demo_at []) 1 ((firstups (demo_at []) ! 1)\<lparr>numlogins := numlogins (firstups (demo_at []) ! 1) + 1\<rparr>)) 0
       ((client_at (demo_at []) 0)\<lparr>loginups := Some (ups_name (firstups (demo_at []) ! 1))\<rparr>)\<rparr>"

lemma demo_running_inv: "upsd_inv (cf_upsd demo_running)"
proof -
  have "loginups (client_at (demo_at []) 0) = None" "0 < length (firstclient (demo_at []))"
    "1 < length (firstups (demo_at []))" by (simp_all add: demo_at_fields)
  from login_inv [OF demo_at_inv this(2,1,3)] show ?thesis by (simp add: demo_running_def)
qed

lemma demo_env_stat: "e_stat (demo_env ss) fn"
  by (simp add: demo_env_def)

theorem reload_follows_file_witness:
  "\<exists>d. conf_reload (demo_env demo_sections) demo_running = Inr d \<and> set (map key (cf_ups d)) = {''apc''} \<and>
     map loginups (firstclient (cf_upsd demo_running)) = [Some ''misc''] \<and> firstclient (cf_upsd d) = []"
proof -
  let ?e = "demo_env demo_sections"
  have hyp: "check_file ?e ''upsd.conf''" "conf_text_ok [] demo_sections" "list_all (list_all line_ok \<circ> snd) demo_sections"
    "distinct (map (lower \<circ> fst) demo_sections)" by code_simp+
  have f: "e_fopen ?e (snprintf SMALLBUF (e_confpath ?e @ ''/ups.conf'')) = Inr (conf_text [] demo_sections)"
    by (simp add: demo_env_def demo_file_def SMALLBUF_def)
  have l: "map loginups (firstclient (cf_upsd demo_running)) = [Some ''misc'']"
    by (simp add: demo_running_def demo_at_def demo_client_def demo_upsd_def upstype_zero_def)
  have n: "defined_names demo_sections = {''apc''}"
    unfolding conf_table_names [symmetric] by code_simp
  have "\<not> (case Some ''misc'' of None \<Rightarrow> True | Some nm \<Rightarrow> lower nm \<in> defined_names demo_sections)"
    unfolding n by (simp add: tolower_def)
  with l have none: "filter (\<lambda>cl. case loginups cl of None \<Rightarrow> True | Some nm \<Rightarrow> lower nm \<in> defined_names demo_sections)
      (firstclient (cf_upsd demo_running)) = []"
    by (auto simp: map_eq_Cons_conv)
  from reload_follows_file [OF demo_running_inv demo_env_stat hyp f] n l none show ?thesis by auto
qed

section \<open>Reloads that end the server\<close>

lemma ups_t_set_fault: "\<not> line_ok (var, val) \<Longrightarrow> ups_t_set var val t = Inl NullPointer"
  by (auto simp: line_ok_def ups_t_set_def)

lemma ups_t_set_ok: "line_ok (var, val) \<Longrightarrow> \<exists>t'. ups_t_set var val t = Inr t'"
  by (cases val) (auto simp: line_ok_def ups_t_set_def)

definition call_ok :: "string option \<times> setting_line \<Rightarrow> bool" where
  "call_ok c \<longleftrightarrow> fst c = None \<or> line_ok (snd c)"

lemma conf_call_fault: "call_cb do_upsconf_args c tab = Inl e \<Longrightarrow> e = NullPointer \<and> \<not> call_ok c"
  "\<not> call_ok c \<Longrightarrow> call_cb do_upsconf_args c tab = Inl NullPointer"
proof -
  obtain sec var val where c: "c = (sec, var, val)" by (cases c) auto
  show "e = NullPointer \<and> \<not> call_ok c" if "call_cb do_upsconf_args c tab = Inl e"
  proof -
    from that obtain nm t where "sec = Some nm" "ups_t_set var val t = Inl e"
      by (auto simp: c call_cb_def do_upsconf_args_def sbind_def split: option.splits sum.splits)
    then show ?thesis
      using ups_t_set_ok [of var val t] ups_t_set_fault [of var val t] by (auto simp: c call_ok_def)
  qed
  show "\<not> call_ok c \<Longrightarrow> call_cb do_upsconf_args c tab = Inl NullPointer"
    using ups_t_set_fault [of var val]
    by (auto simp: c call_cb_def call_ok_def do_upsconf_args_def split: option.splits)
qed

lemma run_calls_fault:
  "run_calls do_upsconf_args cs tab = Inl e \<longleftrightarrow> e = NullPointer \<and> \<not> list_all call_ok cs"
proof (induction cs arbitrary: tab)
  case (Cons c cs)
  show ?case
  proof (cases "call_ok c")
    case True
    with conf_call_fault(1) [of c tab] obtain t where "call_cb do_upsconf_args c tab = Inr t"
      by (cases "call_cb do_upsconf_args c tab") auto
    with Cons.IH [of t] True show ?thesis by (simp add: run_calls_def)
  next
    case False
    with conf_call_fault(2) [of c tab] show ?thesis by (auto simp: run_calls_def)
  qed
qed (simp add: run_calls_def)

lemma conf_calls_ok: "list_all call_ok (conf_calls gl ss) \<longleftrightarrow> list_all (list_all line_ok \<circ> snd) ss"
proof -
  have g: "list_all call_ok (map (Pair None) gl)" by (simp add: list_all_iff call_ok_def)
  have l: "list_all call_ok (map (Pair (Some nm)) ls) = list_all line_ok ls" for nm ls
    by (induction ls) (simp_all add: call_ok_def)
  have "list_all call_ok (concat (map (\<lambda>(nm, ls). map (Pair (Some nm)) ls) ss)) = list_all (list_all line_ok \<circ> snd) ss"
    by (induction ss) (auto simp: l split: prod.splits)
  with g show ?thesis by (simp add: conf_calls_def)
qed

text \<open>The number of connections that upsd.conf asks for: that of its last MAXCONN line.\<close>

definition wanted_conns :: "tok list list \<Rightarrow> int \<Rightarrow> int" where
  "wanted_conns ls old =
     (case filter (\<lambda>ws. 2 \<le> length ws \<and> ws ! 0 = ''MAXCONN'') (rev (map (map tok_word) ls)) of
        [] \<Rightarrow> old
      | ws # _ \<Rightarrow> atoi (ws ! 1))"

lemma parse_conf_maxconn:
  "maxconn (cf_upsd (snd (parse_upsd_conf_args arg c))) =
     (if 2 \<le> length arg \<and> arg ! 0 = ''MAXCONN'' then atoi (arg ! 1) else maxconn (cf_upsd c))"
  by (simp add: parse_upsd_conf_args_def listen_add_def)

lemma conf_lines_maxconn:
  "maxconn (cf_upsd (foldl (\<lambda>c ts. snd (parse_upsd_conf_args (map tok_word ts) c)) c ls)) = wanted_conns ls (maxconn (cf_upsd c))"
  by (induction ls rule: rev_induct) (simp_all add: wanted_conns_def parse_conf_maxconn)

lemma load_upsdconf_maxconn:
  assumes "load_upsdconf env True c = Inr d" "list_all (msg_ok 32 512) ls"
    and "e_fopen env (snprintf SMALLBUF (e_confpath env @ ''/upsd.conf'')) = Inr (concat (map message ls))"
  shows "maxconn (cf_upsd d) = wanted_conns ls (maxconn (cf_upsd c))"
proof -
  let ?ctx = "(pconf_init (e_stack env))\<lparr>pc_f := Some (concat (map message ls))\<rparr>"
  have "pconf_file_begin (e_fopen env) (pconf_init (e_stack env)) (snprintf SMALLBUF (e_confpath env @ ''/upsd.conf'')) = (1, ?ctx)"
    using assms(3) by (simp add: pconf_file_begin_def check_magic_def) (simp add: pconf_init_def)
  with assms(1) have d: "d = snd (read_lines (\<lambda>ctx. snd \<circ> parse_upsd_conf_args (pconf_words ctx)) ?ctx c)"
    by (simp add: load_upsdconf_def check_perms_def Let_def split: if_splits)
  have live: "pconf_live 32 512 ?ctx" using pconf_init_live [of "e_stack env"] by (simp add: pconf_live_def)
  have "wordbuf ?ctx = []" "pc_error ?ctx = 0" by (simp_all add: pconf_init_def)
  from read_lines_messages [OF assms(2) live this, where g = "\<lambda>ws. snd \<circ> parse_upsd_conf_args ws" and s = c] d
  show ?thesis by (simp add: conf_lines_maxconn)
qed

lemma kick_loop_maxconn: "maxconn (kick_loop n s nm i) = maxconn s"
  by (induction n s nm i rule: kick_loop.induct)
    (auto simp: client_disconnect_def declogins_def set_ups_def Let_def split: option.splits)

lemma delete_loop_maxconn: "maxconn (delete_loop n s i) = maxconn s"
  by (induction n s i rule: delete_loop.induct)
    (simp_all add: srv_delete_ups_def kick_login_clients_def kick_loop_maxconn Let_def)

lemma upsconf_add_maxconn: "maxconn (cf_upsd (fst (upsconf_add reloading now tab st))) = maxconn (cf_upsd (fst st))"
proof -
  have "maxconn (cf_upsd (fst (upsconf_add_entry reloading now t st))) = maxconn (cf_upsd (fst st))" for t st
    by (simp add: upsconf_add_entry_def ups_create_def ups_update_def set_ups_def Let_def split: option.splits)
  then show ?thesis unfolding upsconf_add_def by (induction tab arbitrary: st) simp_all
qed

lemma conf_reload_maxconn:
  assumes "conf_reload env c = Inr d" "list_all (msg_ok 32 512) ls"
    and uc: "e_fopen env (snprintf SMALLBUF (e_confpath env @ ''/upsd.conf'')) = Inr (concat (map message ls))"
  shows "maxconn (cf_upsd d) = wanted_conns ls (maxconn (cf_upsd c))"
proof -
  let ?c1 = "c\<lparr>cf_upsd := (cf_upsd c)\<lparr>firstups := map (ups_retain_update (\<lambda>_. False)) (cf_ups c)\<rparr>\<rparr>"
  have "check_file env ''upsd.conf''" using uc by (simp add: check_file_def)
  then obtain tab c3 where l: "load_upsdconf env True (fst (upsconf_add True (e_now env) tab (?c1, e_conns env))) = Inr c3"
    and d: "maxconn (cf_upsd d) = maxconn (cf_upsd c3)"
    using assms(1) by (auto simp: conf_reload_def Let_def load_users_def delete_loop_maxconn split: if_splits)
  from load_upsdconf_maxconn [OF l assms(2) uc] d show ?thesis by (simp add: upsconf_add_maxconn)
qed

text \<open>C36: What a reload can end the server with, when memory suffices, all files can be examined with \<open>stat\<close> and
  upsd.conf can be read, as a list of lines. An unreadable ups.conf makes it exit (only upsd.conf is tried
  before the configuration is given up); a section of ups.conf with one of the lines
  \<open>driver\<close>, \<open>port\<close> and \<open>desc\<close> without a value makes it read through a null pointer; and it exits when the last MAXCONN of
  upsd.conf, or the number in force if there is none, is above the limit of the system. In all other cases it goes on.\<close>

theorem reload_ends_server:
  assumes "\<And>fn. e_stat env fn" and "\<And>n. e_alloc env n" and "list_all (msg_ok 32 512) ls" and "conf_text_ok gl ss"
    and "e_fopen env (snprintf SMALLBUF (e_confpath env @ ''/upsd.conf'')) = Inr (concat (map message ls))"
    and "e_fopen env (snprintf SMALLBUF (e_confpath env @ ''/ups.conf'')) = file"
  shows "(file = Inl e \<longrightarrow> (\<exists>msg. reload_branch env c = Inl (Exits msg))) \<and>
    (file = Inr (conf_text gl ss) \<longrightarrow>
       (if \<not> list_all (list_all line_ok \<circ> snd) ss then reload_branch env c = Inl NullPointer
        else if e_open_max env < wanted_conns ls (maxconn (cf_upsd c)) then \<exists>msg. reload_branch env c = Inl (Exits msg)
        else \<exists>d. reload_branch env c = Inr d))"
proof (intro conjI impI)
  let ?read = "read_upsconf do_upsconf_args (e_fopen env) (e_confpath env) (e_stack env) []"
  have "check_file env ''upsd.conf''" using assms(5) by (simp add: check_file_def)
  then have step: "?read = Inl f \<Longrightarrow> reload_branch env c = Inl f" for f
    by (simp add: reload_branch_def conf_reload_def Let_def)
  show "\<exists>msg. reload_branch env c = Inl (Exits msg)" if "file = Inl e"
    using read_upsconf_missing [of "e_fopen env" "e_confpath env" e do_upsconf_args "e_stack env" "[]"] assms(6) that step
    by auto
  assume "file = Inr (conf_text gl ss)"
  with read_upsconf_calls [where fopen = "e_fopen env" and confpath = "e_confpath env" and cb = do_upsconf_args
      and old = "e_stack env" and s = "[]", OF assms(4)] assms(6)
  have read: "?read = run_calls do_upsconf_args (conf_calls gl ss) []" by simp
  note fault = run_calls_fault [of "conf_calls gl ss" "[]", unfolded conf_calls_ok, folded read]
  show "if \<not> list_all (list_all line_ok \<circ> snd) ss then reload_branch env c = Inl NullPointer
        else if e_open_max env < wanted_conns ls (maxconn (cf_upsd c)) then \<exists>msg. reload_branch env c = Inl (Exits msg)
        else \<exists>d. reload_branch env c = Inr d"
  proof (cases "list_all (list_all line_ok \<circ> snd) ss")
    case True
    with fault obtain tab where "?read = Inr tab" by (cases ?read) auto
    from conf_reload_total [OF assms(1) this] obtain d where d: "conf_reload env c = Inr d" by blast
    with conf_reload_maxconn [OF d assms(3,5)] True assms(2) show ?thesis
      by (auto simp: reload_branch_def poll_reload_def Let_def)
  next
    case False
    with fault [of NullPointer] step show ?thesis by simp
  qed
qed

theorem reload_ends_server_witness:
  "reload_branch (demo_env [(''apc'', [(''driver'', None)])]) demo_running = Inl NullPointer \<and>
   (\<exists>d. reload_branch (demo_env [(''apc'', [(''driver'', Some ''snmp'')])]) demo_running = Inr d)"
proof -
  let ?s = "\<lambda>v. [(''apc'', [(''driver'', v)])] :: conf_section list"
  have ok: "conf_text_ok [] (?s None)" "conf_text_ok [] (?s (Some ''snmp''))"
    "\<not> list_all (list_all line_ok \<circ> snd) (?s None)" "list_all (list_all line_ok \<circ> snd) (?s (Some ''snmp''))"
    by code_simp+
  have alloc: "e_alloc (demo_env ss) n" for ss n by (simp add: demo_env_def)
  have u: "e_fopen (demo_env ss) (snprintf SMALLBUF (e_confpath (demo_env ss) @ ''/upsd.conf'')) = Inr (concat (map message []))" for ss
    by (simp add: demo_env_def demo_file_def SMALLBUF_def)
  have f: "e_fopen (demo_env ss) (snprintf SMALLBUF (e_confpath (demo_env ss) @ ''/ups.conf'')) = Inr (conf_text [] ss)" for ss
    by (simp add: demo_env_def demo_file_def SMALLBUF_def)
  have m: "\<not> e_open_max (demo_env ss) < wanted_conns [] (maxconn (cf_upsd demo_running))" for ss
    by (simp add: demo_env_def wanted_conns_def demo_running_def demo_at_def demo_upsd_def set_ups_def)
  have l: "list_all (msg_ok 32 512) []" by code_simp
  from reload_ends_server [OF demo_env_stat alloc l ok(1) u f, where c = demo_running]
    reload_ends_server [OF demo_env_stat alloc l ok(2) u f, where c = demo_running] ok(3,4) m show ?thesis by simp
qed

text \<open>A server with two addresses in upsd.conf does not start when it cannot listen on the one given last,
  although the other one works: only the first entry of the list is looked at.\<close>

theorem last_listen_decides:
  assumes "e_tcp env (a2, p2) = Inr (-1)" and "e_tcp env (a1, p1) = Inr fd"
  shows "server_load env inet inet6 (c\<lparr>cf_firstaddr := [(a2, p2, -1), (a1, p1, -1)]\<rparr>) =
    Inl (Exits ''no listening interface available'')"
  using assms by (simp add: server_load_def Let_def)

theorem last_listen_decides_witness:
  "server_load ((demo_env [])\<lparr>e_tcp := (\<lambda>(a, p). Inr (if a = ''127.0.0.1'' then 4 else -1))\<rparr>) False False
     (demo_config\<lparr>cf_firstaddr := [(''10.1.1.1'', ''3493'', -1), (''127.0.0.1'', ''3493'', -1)]\<rparr>) =
   Inl (Exits ''no listening interface available'')"
  by (rule last_listen_decides [where fd = 4]) simp_all

end
