(* ===== verification/Drvctl.thy ===== *)
theory Drvctl
  imports Upsconf "HOL-Library.Multiset"
begin

text \<open>
  The program that starts, stops and shuts down the drivers (\<open>drivers/upsdrvctl.c\<close>): its table read
  from \<open>ups.conf\<close>, the three commands, and the order in which a command is given to all drivers.

  What the program does outside is a list of actions; the results (whether a file exists, whether a
  process could be made, how a started driver ended, whether a signal could be sent) are the record \<open>ctl_env\<close>. A NULL driver
  name printed with \<open>%s\<close>, which C leaves undefined, is a fault.

  Shown here: a shutdown reaches every UPS with a non-negative order exactly once, sorted by that order
  (\<open>shutdown_sorted\<close>); a \<open>sdorder\<close> line that comes first in its section is lost.
\<close>

section \<open>State\<close>

record ctl_ups =
  cu_upsname :: string
  cu_driver :: "string option"
  cu_port :: "string option"
  cu_sdorder :: int
  cu_maxstartdelay :: int

text \<open>An action: a program run with its arguments under an alarm, or a signal sent to the process
  in a PID file.\<close>

datatype ctl_action = Run "string list" int | Signal string

record drvctl =
  dc_upstable :: "ctl_ups list"
  dc_maxsdorder :: int
  dc_maxstartdelay :: int
  dc_driverpath :: string
  dc_testmode :: bool
  dc_exec_error :: int
  dc_pt_root :: "string option"
  dc_pt_user :: "string option"
  dc_actions :: "ctl_action list"

text \<open>How the wait for a started driver ends: the timer, an exit with a status, or another end.\<close>

datatype wait_result = Elapsed | Exited int | Abnormal

record ctl_env =
  ce_stat :: "string \<Rightarrow> bool"
  ce_fork :: "string list \<Rightarrow> bool"
  ce_wait :: "string list \<Rightarrow> wait_result"
  ce_signal :: "string \<Rightarrow> bool"
  ce_altpidpath :: string

section \<open>The callback for ups.conf\<close>

text \<open>The settings of a section that is in the table already, one test after the other.\<close>

definition ctl_set :: "string \<Rightarrow> string option \<Rightarrow> nat \<Rightarrow> drvctl \<Rightarrow> fault + drvctl" where
  "ctl_set var val i s =
     (let tmp = dc_upstable s ! i;
          put = (\<lambda>t. s\<lparr>dc_upstable := (dc_upstable s)[i := t]\<rparr>) in
      if var = ''driver'' then sbind (xstrdup val) (\<lambda>v. Inr (put (tmp\<lparr>cu_driver := Some v\<rparr>)))
      else if var = ''port'' then sbind (xstrdup val) (\<lambda>v. Inr (put (tmp\<lparr>cu_port := Some v\<rparr>)))
      else if var = ''maxstartdelay'' then sbind (atoi_ptr val) (\<lambda>v. Inr (put (tmp\<lparr>cu_maxstartdelay := v\<rparr>)))
      else if var = ''sdorder''
      then sbind (atoi_ptr val) (\<lambda>v.
             Inr ((put (tmp\<lparr>cu_sdorder := v\<rparr>))\<lparr>dc_maxsdorder :=
                    (if v > dc_maxsdorder s then v else dc_maxsdorder s)\<rparr>))
      else Inr s)"

definition ctl_new :: "string \<Rightarrow> ctl_ups" where
  "ctl_new nm = \<lparr>cu_upsname = nm, cu_driver = None, cu_port = None, cu_sdorder = 0, cu_maxstartdelay = -1\<rparr>"

text \<open>A new section is appended, with the first setting if it is the driver or the port.\<close>

definition ctl_add :: "string \<Rightarrow> string \<Rightarrow> string option \<Rightarrow> drvctl \<Rightarrow> fault + drvctl" where
  "ctl_add nm var val s =
     (let tmp = ctl_new nm;
          put = (\<lambda>t. s\<lparr>dc_upstable := dc_upstable s @ [t]\<rparr>) in
      if var = ''driver'' then sbind (xstrdup val) (\<lambda>v. Inr (put (tmp\<lparr>cu_driver := Some v\<rparr>)))
      else if var = ''port'' then sbind (xstrdup val) (\<lambda>v. Inr (put (tmp\<lparr>cu_port := Some v\<rparr>)))
      else Inr (put tmp))"

definition ctl_global :: "string \<Rightarrow> string option \<Rightarrow> drvctl \<Rightarrow> fault + drvctl" where
  "ctl_global var val s =
     (if var = ''maxstartdelay'' then sbind (atoi_ptr val) (\<lambda>v. Inr (s\<lparr>dc_maxstartdelay := v\<rparr>))
      else if var = ''driverpath'' then sbind (xstrdup val) (\<lambda>v. Inr (s\<lparr>dc_driverpath := v\<rparr>))
      else Inr s)"

definition ctl_upsconf_args :: "drvctl conf_callback" where
  "ctl_upsconf_args upsname var val s =
     (case upsname of
        None \<Rightarrow> ctl_global var val s
      | Some nm \<Rightarrow>
          (case find_index (\<lambda>tmp. cu_upsname tmp = nm) (dc_upstable s) of
             Some i \<Rightarrow> ctl_set var val i s
           | None \<Rightarrow> ctl_add nm var val s))"

section \<open>The commands\<close>

definition exec_failed :: "drvctl \<Rightarrow> drvctl" where
  "exec_failed s = s\<lparr>dc_exec_error := dc_exec_error s + 1\<rparr>"

text \<open>A \<open>fork\<close> that fails ends the program, so that the drivers after this one are not reached.\<close>

definition forkexec :: "ctl_env \<Rightarrow> string list \<Rightarrow> ctl_ups \<Rightarrow> drvctl \<Rightarrow> fault + drvctl" where
  "forkexec env argv ups s =
     (if \<not> ce_fork env argv then Inl (Exits ''fork'')
      else
      let limit = (if cu_maxstartdelay ups \<noteq> -1 then cu_maxstartdelay ups else dc_maxstartdelay s);
          s1 = s\<lparr>dc_actions := dc_actions s @ [Run argv limit]\<rparr>
      in Inr (case ce_wait env argv of
           Elapsed \<Rightarrow> exec_failed s1
         | Abnormal \<Rightarrow> exec_failed s1
         | Exited st \<Rightarrow> if st \<noteq> 0 then exec_failed s1 else s1))"

definition pass_through :: "drvctl \<Rightarrow> string list" where
  "pass_through s =
     (case dc_pt_root s of None \<Rightarrow> [] | Some r \<Rightarrow> [''-r'', r]) @
     (case dc_pt_user s of None \<Rightarrow> [] | Some u \<Rightarrow> [''-u'', u])"

definition driver_file :: "drvctl \<Rightarrow> ctl_ups \<Rightarrow> fault + string" where
  "driver_file s ups =
     sbind (xstrdup (cu_driver ups)) (\<lambda>d. Inr (snprintf SMALLBUF (dc_driverpath s @ ''/'' @ d)))"

definition start_driver :: "ctl_env \<Rightarrow> ctl_ups \<Rightarrow> drvctl \<Rightarrow> fault + drvctl" where
  "start_driver env ups s =
     sbind (driver_file s ups) (\<lambda>dfn.
       if \<not> ce_stat env dfn then Inl (Exits (''Can'' @ [CHR 0x27] @ ''t start '' @ dfn))
       else
         let argv = [dfn, ''-a'', cu_upsname ups] @ pass_through s
         in if \<not> dc_testmode s then forkexec env argv ups s else Inr s)"

definition shutdown_driver :: "ctl_env \<Rightarrow> ctl_ups \<Rightarrow> drvctl \<Rightarrow> fault + drvctl" where
  "shutdown_driver env ups s =
     sbind (driver_file s ups) (\<lambda>dfn.
       let argv = [dfn, ''-a'', cu_upsname ups, ''-k''] @ pass_through s
       in if \<not> dc_testmode s then forkexec env argv ups s else Inr s)"

definition stop_driver :: "ctl_env \<Rightarrow> ctl_ups \<Rightarrow> drvctl \<Rightarrow> fault + drvctl" where
  "stop_driver env ups s =
     sbind (xstrdup (cu_driver ups)) (\<lambda>d.
       let pidname = (\<lambda>x. snprintf SMALLBUF (ce_altpidpath env @ ''/'' @ d @ ''-'' @ x @ ''.pid''));
           pidfn = (if ce_stat env (pidname (cu_upsname ups)) then pidname (cu_upsname ups)
                    else case cu_port ups of None \<Rightarrow> pidname (cu_upsname ups) | Some p \<Rightarrow> pidname (xbasename p))
       in if \<not> ce_stat env pidfn then Inr (exec_failed s)
          else if dc_testmode s then Inr s
          else
            let s1 = s\<lparr>dc_actions := dc_actions s @ [Signal pidfn]\<rparr>
            in Inr (if ce_signal env pidfn then s1 else exec_failed s1))"

datatype ctl_command = Start | Stop | Shutdown

definition run_command :: "ctl_env \<Rightarrow> ctl_command \<Rightarrow> ctl_ups \<Rightarrow> drvctl \<Rightarrow> fault + drvctl" where
  "run_command env cmd = (case cmd of Start \<Rightarrow> start_driver env | Stop \<Rightarrow> stop_driver env | Shutdown \<Rightarrow> shutdown_driver env)"

definition send_one_driver :: "ctl_env \<Rightarrow> ctl_command \<Rightarrow> string \<Rightarrow> drvctl \<Rightarrow> fault + drvctl" where
  "send_one_driver env cmd upsname s =
     (if dc_upstable s = [] then Inl (Exits ''Error: no UPS definitions found in ups.conf!'')
      else case find (\<lambda>ups. cu_upsname ups = upsname) (dc_upstable s) of
             Some ups \<Rightarrow> run_command env cmd ups s
           | None \<Rightarrow> Inl (Exits (''UPS '' @ upsname @ '' not found in ups.conf'')))"

text \<open>The inner loop of \<open>send_all_drivers\<close> with the order \<open>i\<close>, and the outer loop over the orders.\<close>

definition send_order :: "ctl_env \<Rightarrow> ctl_command \<Rightarrow> ctl_ups list \<Rightarrow> int \<Rightarrow> drvctl \<Rightarrow> fault + drvctl" where
  "send_order env cmd table i = sfold (\<lambda>ups s. if cu_sdorder ups = i then run_command env cmd ups s else Inr s) table"

definition send_all_drivers :: "ctl_env \<Rightarrow> ctl_command \<Rightarrow> drvctl \<Rightarrow> fault + drvctl" where
  "send_all_drivers env cmd s =
     (if dc_upstable s = [] then Inl (Exits ''Error: no UPS definitions found in ups.conf'')
      else if cmd \<noteq> Shutdown then sfold (run_command env cmd) (dc_upstable s) s
      else sfold (send_order env cmd (dc_upstable s)) [0..dc_maxsdorder s] s)"

text \<open>The rest of \<open>main\<close> after the options, with the command and the name of a UPS, if given.\<close>

definition ctl_command_of :: "string \<Rightarrow> ctl_command option" where
  "ctl_command_of w =
     (if w = ''start'' then Some Start else if w = ''stop'' then Some Stop
      else if w = ''shutdown'' then Some Shutdown else None)"

definition drvctl_main :: "ctl_env \<Rightarrow> (string \<Rightarrow> string + string) \<Rightarrow> string \<Rightarrow> pconf_ctx \<Rightarrow> string list \<Rightarrow> drvctl \<Rightarrow> fault + drvctl" where
  "drvctl_main env fopen confpath stack_ctx argv s =
     (if argv = [] then Inl (Exits ''usage'')
      else
      case ctl_command_of (argv ! 0) of
        None \<Rightarrow> Inl (Exits (''Error: unrecognized command ['' @ argv ! 0 @ '']''))
      | Some cmd \<Rightarrow>
          sbind (read_upsconf ctl_upsconf_args fopen confpath stack_ctx s) (\<lambda>s1.
            if length argv = 1 then send_all_drivers env cmd s1
            else send_one_driver env cmd (argv ! 1) s1))"

section \<open>The table\<close>

definition ctl_inv :: "drvctl \<Rightarrow> bool" where
  "ctl_inv s \<longleftrightarrow> distinct (map cu_upsname (dc_upstable s)) \<and> 0 \<le> dc_maxsdorder s \<and>
     (\<forall>u\<in>set (dc_upstable s). cu_sdorder u \<le> dc_maxsdorder s)"

lemma ctl_set_inv:
  assumes "ctl_inv s" "i < length (dc_upstable s)" "ctl_set var val i s = Inr t"
  shows "ctl_inv t"
proof -
  have u: "cu_sdorder (dc_upstable s ! i) \<le> dc_maxsdorder s" using assms(1,2) by (simp add: ctl_inv_def)
  have names: "cu_upsname x = cu_upsname (dc_upstable s ! i) \<Longrightarrow>
      map cu_upsname ((dc_upstable s)[i := x]) = map cu_upsname (dc_upstable s)" for x
    using assms(2) by (intro nth_equalityI) (auto simp: nth_list_update)
  have put: "ctl_inv (s\<lparr>dc_upstable := (dc_upstable s)[i := x], dc_maxsdorder := m\<rparr>)"
    if "cu_upsname x = cu_upsname (dc_upstable s ! i)" "cu_sdorder x \<le> m" "dc_maxsdorder s \<le> m" for x m
    using assms(1) that names [OF that(1)] unfolding ctl_inv_def
    by (fastforce dest!: subsetD [OF set_update_subset_insert])
  show ?thesis
    using assms(1,3) u put [where m = "dc_maxsdorder s"] put
    by (auto simp: ctl_set_def Let_def split: if_splits)
qed

interpretation ctl_cb: upsconf_client ctl_upsconf_args ctl_inv
proof
  fix s sec var val t
  assume s: "ctl_inv s" and t: "ctl_upsconf_args sec var val s = Inr t"
  show "ctl_inv t"
  proof (cases sec)
    case None
    with s t show ?thesis by (auto simp: ctl_upsconf_args_def ctl_global_def ctl_inv_def split: if_splits)
  next
    case (Some nm)
    show ?thesis
    proof (cases "find_index (\<lambda>tmp. cu_upsname tmp = nm) (dc_upstable s)")
      case None
      then have "nm \<notin> cu_upsname ` set (dc_upstable s)" by (auto simp: find_index_None)
      with s t Some None show ?thesis
        by (auto simp: ctl_upsconf_args_def ctl_add_def ctl_new_def ctl_inv_def Let_def split: if_splits)
    next
      case i: (Some i)
      with t Some show ?thesis
        using ctl_set_inv [OF s find_index_SomeD(1) [OF i]] by (simp add: ctl_upsconf_args_def)
    qed
  qed
qed

interpretation ctl_values: upsconf_values ctl_upsconf_args ctl_inv
  by unfold_locales
    (auto simp: ctl_upsconf_args_def ctl_global_def ctl_add_def ctl_set_def Let_def split: option.splits)

section \<open>The order of a shutdown\<close>

lemma sfold_cong: "(\<And>x s. x \<in> set xs \<Longrightarrow> f x s = g x s) \<Longrightarrow> sfold f xs s = sfold g xs s"
  by (induction xs arbitrary: s) (auto intro: sbind_cong)

lemma sfold_filter: "sfold (\<lambda>x s. if P x then f x s else Inr s) xs s = sfold f (filter P xs) s"
proof (induction xs arbitrary: s)
  case (Cons x xs)
  then show ?case by (cases "P x"; cases "f x s") simp_all
qed simp

lemma sfold_concat: "sfold (\<lambda>i. sfold f (h i)) is s = sfold f (concat (map h is)) s"
proof (induction "is" arbitrary: s)
  case (Cons i "is")
  then show ?case by (cases "sfold f (h i) s") (simp_all add: sfold_append)
qed simp

text \<open>Going through the orders from 0 up and through the table for each is sorting.\<close>

lemma filter_filter_eq: "filter (\<lambda>x. f x = k) (filter (\<lambda>x. f x = i) xs) = (if i = k then filter (\<lambda>x. f x = i) xs else [])"
  by (auto simp: filter_empty_conv intro: filter_True)

lemma orders_filter:
  "k \<in> set is \<Longrightarrow> distinct is \<Longrightarrow>
   filter (\<lambda>x. f x = k) (concat (map (\<lambda>i. filter (\<lambda>x. f x = i) xs) is)) = filter (\<lambda>x. f x = k) xs"
proof (induction "is")
  case (Cons i "is")
  have rest: "k \<notin> set is \<Longrightarrow> filter (\<lambda>x. f x = k) (concat (map (\<lambda>i. filter (\<lambda>x. f x = i) xs) is)) = []"
    by (auto simp: filter_empty_conv)
  show ?case
  proof (cases "i = k")
    case True
    with Cons.prems rest show ?thesis by (simp add: filter_filter_eq)
  next
    case False
    with Cons show ?thesis by (simp add: filter_filter_eq)
  qed
qed simp

lemma orders_sorted:
  "sorted is \<Longrightarrow> sorted (map f (concat (map (\<lambda>i. filter (\<lambda>x. f x = i) xs) is)))"
  by (induction "is") (auto simp: sorted_append map_concat intro!: sorted_same [where g = "\<lambda>_. _"] sorted_map_same)

lemma orders_sort_key:
  fixes f :: "'a \<Rightarrow> int"
  assumes "\<forall>x\<in>set xs. f x \<le> m"
  shows "concat (map (\<lambda>i. filter (\<lambda>x. f x = i) xs) [0..m]) = sort_key f (filter (\<lambda>x. 0 \<le> f x) xs)"
proof -
  let ?l = "concat (map (\<lambda>i. filter (\<lambda>x. f x = i) xs) [0..m])"
  let ?xs = "filter (\<lambda>x. 0 \<le> f x) xs"
  have same: "filter (\<lambda>x. f x = k) ?l = filter (\<lambda>x. f x = k) ?xs" for k
  proof (cases "0 \<le> k \<and> k \<le> m")
    case True
    then have "filter (\<lambda>x. f x = k) ?l = filter (\<lambda>x. f x = k) xs" by (intro orders_filter) auto
    with True show ?thesis by (auto intro: filter_cong)
  next
    case False
    have "filter (\<lambda>x. f x = k) ?l = []" using False by (auto simp: filter_empty_conv)
    moreover have "filter (\<lambda>x. f x = k) ?xs = []" using False assms by (auto simp: filter_empty_conv)
    ultimately show ?thesis by simp
  qed
  have "mset ?l = mset ?xs"
  proof (rule multiset_eqI)
    fix x
    have "count (mset ys) x = count (mset (filter (\<lambda>y. f y = f x) ys)) x" for ys by simp
    then show "count (mset ?l) x = count (mset ?xs) x" using same [of "f x"] by metis
  qed
  moreover have "sorted (map f ?l)" by (rule orders_sorted) simp
  ultimately show ?thesis
    using same by (intro properties_for_sort_key [symmetric]) (auto simp: eq_commute)
qed

text \<open>What one driver is told at a shutdown.\<close>

definition shutdown_argv :: "drvctl \<Rightarrow> ctl_ups \<Rightarrow> string list" where
  "shutdown_argv s u =
     [snprintf SMALLBUF (dc_driverpath s @ ''/'' @ the (cu_driver u)), ''-a'', cu_upsname u, ''-k''] @ pass_through s"

definition shutdown_run :: "drvctl \<Rightarrow> ctl_ups \<Rightarrow> ctl_action" where
  "shutdown_run s u =
     Run (shutdown_argv s u)
       (if cu_maxstartdelay u \<noteq> -1 then cu_maxstartdelay u else dc_maxstartdelay s)"

lemma shutdown_driver_acts:
  assumes "cu_driver u \<noteq> None" "\<not> dc_testmode s" "ce_fork env (shutdown_argv s u)"
  obtains k where "shutdown_driver env u s = Inr (s\<lparr>dc_actions := dc_actions s @ [shutdown_run s u], dc_exec_error := k\<rparr>)"
proof -
  obtain d where d: "cu_driver u = Some d" using assms(1) by blast
  have "\<exists>k. shutdown_driver env u s = Inr (s\<lparr>dc_actions := dc_actions s @ [shutdown_run s u], dc_exec_error := k\<rparr>)"
    by (rule exI [of _ "dc_exec_error (case shutdown_driver env u s of Inr t \<Rightarrow> t | Inl _ \<Rightarrow> s)"])
      (use assms(2,3) in \<open>simp add: shutdown_driver_def driver_file_def d shutdown_run_def shutdown_argv_def
        forkexec_def exec_failed_def Let_def split: wait_result.splits\<close>)
  with that show ?thesis by blast
qed

lemma shutdown_driver_fork:
  assumes "cu_driver u \<noteq> None" "\<not> dc_testmode s" "\<not> ce_fork env (shutdown_argv s u)"
  shows "shutdown_driver env u s = Inl (Exits ''fork'')"
  using assms by (auto simp: shutdown_driver_def driver_file_def shutdown_argv_def forkexec_def)

text \<open>A shutdown of the drivers of a list: told one after the other, unless a process cannot be made.\<close>

lemma shutdown_all_act:
  assumes "\<forall>u\<in>set us. cu_driver u \<noteq> None" "\<not> dc_testmode s"
  shows "if \<forall>u\<in>set us. ce_fork env (shutdown_argv s u)
     then \<exists>k. sfold (shutdown_driver env) us s =
       Inr (s\<lparr>dc_actions := dc_actions s @ map (shutdown_run s) us, dc_exec_error := k\<rparr>)
     else sfold (shutdown_driver env) us s = Inl (Exits ''fork'')"
  using assms
proof (induction us arbitrary: s)
  case Nil
  have "\<exists>k. s = s\<lparr>dc_exec_error := k\<rparr>" by (rule exI [of _ "dc_exec_error s"]) simp
  then show ?case by simp
next
  case (Cons u us)
  show ?case
  proof (cases "ce_fork env (shutdown_argv s u)")
    case False
    with Cons.prems shutdown_driver_fork [of u s env] show ?thesis by simp
  next
    case True
  obtain k where k: "shutdown_driver env u s = Inr (s\<lparr>dc_actions := dc_actions s @ [shutdown_run s u], dc_exec_error := k\<rparr>)"
    by (rule shutdown_driver_acts [of u s env]) (use Cons.prems True in auto)
  let ?t = "s\<lparr>dc_actions := dc_actions s @ [shutdown_run s u], dc_exec_error := k\<rparr>"
  have same: "shutdown_argv ?t = shutdown_argv s" by (simp add: shutdown_argv_def pass_through_def fun_eq_iff)
  then have "shutdown_run ?t = shutdown_run s" by (simp add: shutdown_run_def fun_eq_iff)
  with Cons.IH [of ?t] Cons.prems k True same show ?thesis by (simp split: if_splits)
  qed
qed

text \<open>C11: At a shutdown every UPS of ups.conf with a non-negative \<open>sdorder\<close> is told exactly once, sorted by
  \<open>sdorder\<close> and, among equals, in the order of the file, whether or not an earlier one fails; one with a
  negative order is left alone. Only when a process cannot be made for one of them the run ends there.\<close>

theorem shutdown_sorted:
  assumes "read_upsconf ctl_upsconf_args fopen confpath old s0 = Inr s"
    and "dc_upstable s0 = []" and "dc_maxsdorder s0 = 0" and "dc_upstable s \<noteq> []"
    and "list_all (\<lambda>u. cu_driver u \<noteq> None) (dc_upstable s)" and "\<not> dc_testmode s"
  shows "if \<forall>u\<in>set (dc_upstable s). 0 \<le> cu_sdorder u \<longrightarrow> ce_fork env (shutdown_argv s u)
     then \<exists>t. send_all_drivers env Shutdown s = Inr t \<and>
       dc_actions t = dc_actions s @
         map (shutdown_run s) (sort_key cu_sdorder (filter (\<lambda>u. 0 \<le> cu_sdorder u) (dc_upstable s)))
     else send_all_drivers env Shutdown s = Inl (Exits ''fork'')"
proof -
  have "ctl_inv s0" using assms(2,3) by (simp add: ctl_inv_def)
  from ctl_cb.read_keeps [OF this assms(1)] have bound: "\<forall>u\<in>set (dc_upstable s). cu_sdorder u \<le> dc_maxsdorder s"
    by (simp add: ctl_inv_def)
  let ?us = "sort_key cu_sdorder (filter (\<lambda>u. 0 \<le> cu_sdorder u) (dc_upstable s))"
  have "send_all_drivers env Shutdown s =
      sfold (\<lambda>i. sfold (shutdown_driver env) (filter (\<lambda>u. cu_sdorder u = i) (dc_upstable s))) [0..dc_maxsdorder s] s"
    using assms(4) unfolding send_all_drivers_def send_order_def run_command_def sfold_filter by simp
  then have "send_all_drivers env Shutdown s = sfold (shutdown_driver env) ?us s"
    unfolding sfold_concat orders_sort_key [OF bound] .
  moreover have "\<forall>u\<in>set ?us. cu_driver u \<noteq> None" using assms(5) by (simp add: list_all_iff)
  moreover have "(\<forall>u\<in>set ?us. ce_fork env (shutdown_argv s u)) \<longleftrightarrow>
      (\<forall>u\<in>set (dc_upstable s). 0 \<le> cu_sdorder u \<longrightarrow> ce_fork env (shutdown_argv s u))" by auto
  ultimately show ?thesis using shutdown_all_act [of ?us s env] assms(6) by (auto split: if_splits)
qed

definition demo_ctl :: drvctl where
  "demo_ctl = \<lparr>dc_upstable = [], dc_maxsdorder = 0, dc_maxstartdelay = 45, dc_driverpath = ''/bin'', dc_testmode = False,
     dc_exec_error = 0, dc_pt_root = None, dc_pt_user = None, dc_actions = []\<rparr>"

definition demo_ctl_env :: ctl_env where
  "demo_ctl_env = \<lparr>ce_stat = (\<lambda>_. True), ce_fork = (\<lambda>_. True), ce_wait = (\<lambda>_. Elapsed), ce_signal = (\<lambda>_. True), ce_altpidpath = ''/var/run''\<rparr>"

definition demo_ctl_sections :: "conf_section list" where
  "demo_ctl_sections =
    [(''a'', [(''driver'', Some ''usb''), (''sdorder'', Some ''2'')]),
     (''b'', [(''driver'', Some ''snmp''), (''sdorder'', Some ''-1'')]),
     (''c'', [(''driver'', Some ''xcp'')])]"

theorem shutdown_sorted_witness:
  "\<exists>s t. read_upsconf ctl_upsconf_args (\<lambda>fn. Inr (conf_text [] demo_ctl_sections)) ''/etc/nut'' zero_ctx demo_ctl = Inr s \<and>
     send_all_drivers demo_ctl_env Shutdown s = Inr t \<and>
     dc_actions t = [Run [''/bin/xcp'', ''-a'', ''c'', ''-k''] 45, Run [''/bin/usb'', ''-a'', ''a'', ''-k''] 45]"
proof -
  let ?read = "read_upsconf ctl_upsconf_args (\<lambda>fn. Inr (conf_text [] demo_ctl_sections)) ''/etc/nut'' zero_ctx demo_ctl"
  let ?tab = "\<lambda>s. (dc_upstable s \<noteq> [], list_all (\<lambda>u. cu_driver u \<noteq> None) (dc_upstable s), dc_testmode s,
    dc_actions s @ map (shutdown_run s) (sort_key cu_sdorder (filter (\<lambda>u. 0 \<le> cu_sdorder u) (dc_upstable s))))"
  have "(case ?read of Inl _ \<Rightarrow> None | Inr s \<Rightarrow> Some (?tab s)) =
      Some (True, True, False, [Run [''/bin/xcp'', ''-a'', ''c'', ''-k''] 45, Run [''/bin/usb'', ''-a'', ''a'', ''-k''] 45])"
    by code_simp
  then obtain s where s: "?read = Inr s"
    "?tab s = (True, True, False, [Run [''/bin/xcp'', ''-a'', ''c'', ''-k''] 45, Run [''/bin/usb'', ''-a'', ''a'', ''-k''] 45])"
    by (auto split: sum.splits)
  have "dc_upstable demo_ctl = []" "dc_maxsdorder demo_ctl = 0" by (simp_all add: demo_ctl_def)
  moreover have "\<forall>u\<in>set (dc_upstable s). 0 \<le> cu_sdorder u \<longrightarrow> ce_fork demo_ctl_env (shutdown_argv s u)"
    by (simp add: demo_ctl_env_def)
  ultimately show ?thesis using shutdown_sorted [OF s(1), of demo_ctl_env] s by auto
qed

section \<open>A first line that is lost\<close>

definition order_zero :: "string \<Rightarrow> drvctl \<Rightarrow> bool" where
  "order_zero nm s \<longleftrightarrow> (case find_index (\<lambda>u. cu_upsname u = nm) (dc_upstable s) of
     None \<Rightarrow> False | Some i \<Rightarrow> cu_sdorder (dc_upstable s ! i) = 0)"

lemma find_index_append_new: "find_index P xs = None \<Longrightarrow> P x \<Longrightarrow> find_index P (xs @ [x]) = Some (length xs)"
  by (induction xs) (auto split: if_splits)

lemma find_index_update: "find_index P xs = Some i \<Longrightarrow> P x \<Longrightarrow> find_index P (xs[i := x]) = Some i"
proof (induction xs arbitrary: i)
  case (Cons y xs)
  then show ?case by (cases i) (auto split: if_splits)
qed simp

lemma order_zero_set:
  assumes "order_zero nm s" "var \<noteq> ''sdorder''" "ctl_upsconf_args (Some nm) var val s = Inr t"
  shows "order_zero nm t"
proof -
  let ?P = "\<lambda>u. cu_upsname u = nm"
  from assms(1) obtain i where i: "find_index ?P (dc_upstable s) = Some i" "cu_sdorder (dc_upstable s ! i) = 0"
    by (auto simp: order_zero_def split: option.splits)
  note at = find_index_SomeD [OF i(1)]
  have "order_zero nm (s\<lparr>dc_upstable := (dc_upstable s)[i := x]\<rparr>)" if "?P x" "cu_sdorder x = 0" for x
    using that find_index_update [OF i(1) that(1)] at(1) by (simp add: order_zero_def)
  with assms i at show ?thesis by (auto simp: ctl_upsconf_args_def ctl_set_def Let_def split: if_splits)
qed

lemma order_zero_calls:
  "order_zero nm s \<Longrightarrow> list_all (\<lambda>l. fst l \<noteq> ''sdorder'') ls \<Longrightarrow>
   run_calls ctl_upsconf_args (map (Pair (Some nm)) ls) s = Inr t \<Longrightarrow> order_zero nm t"
proof (induction ls arbitrary: s)
  case (Cons l ls)
  from Cons.prems(3) obtain u where u: "call_cb ctl_upsconf_args (Some nm, l) s = Inr u"
    "run_calls ctl_upsconf_args (map (Pair (Some nm)) ls) u = Inr t"
    by (auto simp: run_calls_def)
  have "order_zero nm u"
    using order_zero_set [OF Cons.prems(1), of "fst l" "snd l" u] u(1) Cons.prems(2) by (simp add: call_cb_def)
  then show ?case using Cons.IH [OF _ _ u(2)] Cons.prems(2) by simp
qed (simp add: run_calls_def)

text \<open>A \<open>sdorder\<close> that is the first setting of its section has no effect: the UPS is shut down in the first
  turn, with order 0, whatever the value is.\<close>

theorem first_sdorder_lost:
  assumes "nm \<notin> set (map cu_upsname (dc_upstable s))" and "list_all (\<lambda>l. fst l \<noteq> ''sdorder'') ls"
    and "run_calls ctl_upsconf_args (map (Pair (Some nm)) ((''sdorder'', Some v) # ls)) s = Inr t"
  shows "list_ex (\<lambda>u. cu_upsname u = nm \<and> cu_sdorder u = 0) (dc_upstable t)"
proof -
  let ?s1 = "s\<lparr>dc_upstable := dc_upstable s @ [ctl_new nm]\<rparr>"
  have none: "find_index (\<lambda>u. cu_upsname u = nm) (dc_upstable s) = None" using assms(1) by (auto simp: find_index_None)
  then have "call_cb ctl_upsconf_args (Some nm, ''sdorder'', Some v) s = Inr ?s1"
    by (simp add: call_cb_def ctl_upsconf_args_def ctl_add_def)
  with assms(3) have rest: "run_calls ctl_upsconf_args (map (Pair (Some nm)) ls) ?s1 = Inr t" by (simp add: run_calls_def)
  have "order_zero nm ?s1"
    using find_index_append_new [OF none, of "ctl_new nm"] by (simp add: order_zero_def ctl_new_def)
  from order_zero_calls [OF this assms(2) rest] show ?thesis
    by (auto simp: order_zero_def list_ex_iff dest: find_index_SomeD nth_mem split: option.splits)
qed

theorem first_sdorder_lost_witness:
  "\<exists>t. run_calls ctl_upsconf_args (map (Pair (Some ''a'')) [(''sdorder'', Some ''3''), (''driver'', Some ''usb'')]) demo_ctl = Inr t \<and>
     list_ex (\<lambda>u. cu_upsname u = ''a'' \<and> cu_sdorder u = 0) (dc_upstable t)"
proof -
  let ?run = "run_calls ctl_upsconf_args (map (Pair (Some ''a'')) [(''sdorder'', Some ''3''), (''driver'', Some ''usb'')]) demo_ctl"
  have "(case ?run of Inl _ \<Rightarrow> False | Inr t \<Rightarrow> True)" by code_simp
  then obtain t where t: "?run = Inr t" by (auto split: sum.splits)
  have "''a'' \<notin> set (map cu_upsname (dc_upstable demo_ctl))" "list_all (\<lambda>l. fst l \<noteq> ''sdorder'') [(''driver'', Some ''usb'')]"
    by (simp_all add: demo_ctl_def)
  from first_sdorder_lost [OF this t] t show ?thesis by blast
qed

end
