(* ===== verification/Dstate.thy ===== *)
theory Dstate
  imports Sstate
begin

text \<open>
  The driver's end (\<open>drivers/dstate.c\<close>, \<open>drivers/dstate.h\<close>, \<open>drivers/upshandler.h\<close>): the
  driver's own tree of variables and list of commands, the connections of the servers, the dump a
  server asks for when it connects, the broadcast of every later change, and the composition of
  \<open>ups.status\<close> and \<open>ups.alarm\<close>.

  A connection is its position in the list \<open>connhead\<close>. Calls of the driver's own handlers
  \<open>upsh.setvar\<close> and \<open>upsh.instcmd\<close> are recorded in \<open>upsh_calls\<close>. \<open>sock_read_loop\<close> gives
  \<^const>\<open>None\<close> where the code goes on with a connection it has freed.

  Shown here: a server that reads the dump rebuilds the driver's variables, and keeps an equal copy
  through every later change whose values need no escaping; where the two part.
\<close>

unbundle bit_operations_syntax

section \<open>State\<close>

record conn =
  cn_sock :: sock
  cn_ctx :: pconf_ctx

datatype hcall = HSetvar string string | HInstcmd string "string option"

record dstate =
  dtree_root :: st_tree
  cmdhead :: cmdlist
  connhead :: "conn list"
  dstale :: bool
  alarm_active :: bool
  ignorelb :: bool
  status_buf :: string
  alarm_buf :: string
  upsh_setvar :: bool
  upsh_instcmd :: bool
  upsh_calls :: "hcall list"

definition ST_SOCK_BUF_LEN :: nat where "ST_SOCK_BUF_LEN = 512"

section \<open>Connections\<close>

definition sock_disconnect :: "dstate \<Rightarrow> nat \<Rightarrow> dstate" where
  "sock_disconnect d i = d\<lparr>connhead := take i (connhead d) @ drop (Suc i) (connhead d)\<rparr>"

text \<open>The loop of \<open>send_to_all\<close> over the connections: one that does not take the whole line is
  dropped.\<close>

fun send_conns :: "conn list \<Rightarrow> string \<Rightarrow> conn list" where
  "send_conns [] buf = []"
| "send_conns (c # cs) buf =
     (let (k, ok) = sock_write (cn_sock c) buf in
      if \<not> ok then send_conns cs buf else c\<lparr>cn_sock := k\<rparr> # send_conns cs buf)"

definition send_to_all :: "dstate \<Rightarrow> string \<Rightarrow> dstate" where
  "send_to_all d txt =
     (if txt = [] then d else d\<lparr>connhead := send_conns (connhead d) (snprintf ST_SOCK_BUF_LEN txt)\<rparr>)"

definition send_to_one :: "dstate \<Rightarrow> nat \<Rightarrow> string \<Rightarrow> dstate \<times> bool" where
  "send_to_one d i txt =
     (if txt = [] then (d, True)
      else
        let c = connhead d ! i;
            (k, ok) = sock_write (cn_sock c) (snprintf ST_SOCK_BUF_LEN txt)
        in if \<not> ok then (sock_disconnect d i, False)
           else (d\<lparr>connhead := (connhead d)[i := c\<lparr>cn_sock := k\<rparr>]\<rparr>, True))"

definition sock_connect :: "dstate \<Rightarrow> bool list \<Rightarrow> pconf_ctx \<Rightarrow> dstate" where
  "sock_connect d plan mem = d\<lparr>connhead := \<lparr>cn_sock = sock_new plan, cn_ctx = pconf_init mem\<rparr> # connhead d\<rparr>"

section \<open>The dump\<close>

fun send_each :: "dstate \<Rightarrow> nat \<Rightarrow> string list \<Rightarrow> dstate \<times> bool" where
  "send_each d i [] = (d, True)"
| "send_each d i (x # xs) =
     (let (d1, ok) = send_to_one d i x in if \<not> ok then (d1, False) else send_each d1 i xs)"

definition flag_list :: "string \<Rightarrow> 32 word \<Rightarrow> string" where
  "flag_list v fl =
     (let f0 = snprintf SMALLBUF v;
          f1 = (if fl AND ST_FLAG_RW \<noteq> 0 then snprintfcat f0 SMALLBUF '' RW'' else f0)
      in if fl AND ST_FLAG_STRING \<noteq> 0 then snprintfcat f1 SMALLBUF '' STRING'' else f1)"

text \<open>The lines for one node, in the order of the code.\<close>

definition node_lines :: "st_node \<Rightarrow> string list" where
  "node_lines n =
     [''SETINFO '' @ st_var n @ '' '' @ quoted (st_val n) @ nl] @
     map (\<lambda>e. ''ADDENUM '' @ st_var n @ '' '' @ quoted e @ nl) (st_enum_list n) @
     map (\<lambda>(a, b). ''ADDRANGE '' @ st_var n @ '' '' @ show_int a @ '' '' @ show_int b @ nl) (st_range_list n) @
     (if st_aux n \<noteq> 0 then [''SETAUX '' @ st_var n @ '' '' @ show_int (st_aux n) @ nl] else []) @
     (if st_flags n \<noteq> 0 then [''SETFLAGS '' @ flag_list (st_var n) (st_flags n) @ nl] else [])"

fun st_tree_dump_conn :: "st_tree \<Rightarrow> dstate \<Rightarrow> nat \<Rightarrow> dstate \<times> bool" where
  "st_tree_dump_conn Leaf d i = (d, True)"
| "st_tree_dump_conn (Node l n r) d i =
     (let (d1, ok) = st_tree_dump_conn l d i in
      if \<not> ok then (d1, False)
      else let (d2, ok2) = send_each d1 i (node_lines n) in
        if \<not> ok2 then (d2, False) else st_tree_dump_conn r d2 i)"

definition cmd_dump_conn :: "dstate \<Rightarrow> nat \<Rightarrow> dstate \<times> bool" where
  "cmd_dump_conn d i = send_each d i (map (\<lambda>c. ''ADDCMD '' @ c @ nl) (cmdhead d))"

text \<open>The third component tells whether the connection still exists afterwards.\<close>

definition sock_arg :: "dstate \<Rightarrow> nat \<Rightarrow> string list \<Rightarrow> dstate \<times> int \<times> bool" where
  "sock_arg d i arg =
     (if length arg < 1 then (d, 0, True)
      else if strcaseeq (arg ! 0) ''DUMPALL''
      then
        let (d1, ok1) = (if dstale d then send_to_one d i (''DATASTALE'' @ nl) else (d, True)) in
        if \<not> ok1 then (d1, 1, False)
        else let (d2, ok2) = st_tree_dump_conn (dtree_root d1) d1 i in
          if \<not> ok2 then (d2, 1, False)
          else let (d3, ok3) = cmd_dump_conn d2 i in
            if \<not> ok3 then (d3, 1, False)
            else let (d4, ok4) = (if \<not> dstale d3 then send_to_one d3 i (''DATAOK'' @ nl) else (d3, True)) in
              if \<not> ok4 then (d4, 1, False)
              else let (d5, ok5) = send_to_one d4 i (''DUMPDONE'' @ nl) in (d5, 1, ok5)
      else if strcaseeq (arg ! 0) ''PING''
      then let (d1, ok) = send_to_one d i (''PONG'' @ nl) in (d1, 1, ok)
      else if length arg < 2 then (d, 0, True)
      else if strcaseeq (arg ! 0) ''INSTCMD''
      then
        if upsh_instcmd d
        then (d\<lparr>upsh_calls := upsh_calls d @
                 [HInstcmd (arg ! 1) (if length arg > 2 then Some (arg ! 2) else None)]\<rparr>, 1, True)
        else (d, 1, True)
      else if length arg < 3 then (d, 0, True)
      else if strcaseeq (arg ! 0) ''SET''
      then
        if upsh_setvar d
        then (d\<lparr>upsh_calls := upsh_calls d @ [HSetvar (arg ! 1) (arg ! 2)]\<rparr>, 1, True)
        else (d, 1, True)
      else (d, 0, True))"

fun sock_read_loop :: "dstate \<Rightarrow> nat \<Rightarrow> string \<Rightarrow> dstate option" where
  "sock_read_loop d i [] = Some d"
| "sock_read_loop d i (c # cs) =
     (let (r, ctx) = pconf_char (cn_ctx (connhead d ! i)) c;
          d1 = d\<lparr>connhead := (connhead d)[i := (connhead d ! i)\<lparr>cn_ctx := ctx\<rparr>]\<rparr>
      in if r = 0 then sock_read_loop d1 i cs
         else if r = 1
         then (case sock_arg d1 i (pconf_words ctx) of
                 (d2, _, alive) \<Rightarrow>
                   if alive then sock_read_loop d2 i cs
                   else if cs = [] then Some d2 else None)
         else Some d1)"

definition sock_read :: "dstate \<Rightarrow> nat \<Rightarrow> rd \<Rightarrow> dstate option" where
  "sock_read d i res =
     (case res of
        RdAgain \<Rightarrow> Some d
      | RdError \<Rightarrow> Some (sock_disconnect d i)
      | RdData buf \<Rightarrow> sock_read_loop d i (take SMALLBUF buf))"

definition sock_close :: "dstate \<Rightarrow> dstate" where
  "sock_close d = d\<lparr>connhead := []\<rparr>"

section \<open>Waiting for the servers\<close>

text \<open>The rest of the deadline at the time \<open>now\<close>, in seconds and microseconds, and whether the
  deadline has passed.\<close>

definition poll_timeout :: "int \<times> int \<Rightarrow> int \<times> int \<Rightarrow> bool \<times> int \<times> int" where
  "poll_timeout deadline now =
     (let (ds, du) = (if snd deadline < snd now then (fst deadline - 1, snd deadline + 1000000) else deadline)
      in if ds < fst now then (True, 0, 0) else (False, ds - fst now, du - snd now))"

text \<open>What \<open>select\<close> gives: the timer expired, an error, or the ready descriptors: the new connection
  \<open>accept\<close> returned on the listening socket, with the results of its coming writes, the results of
  \<open>read\<close> on the connections that are ready, and whether the driver's own descriptor is.\<close>

datatype sel = SelTimeout | SelFails | SelReady "(bool list \<times> pconf_ctx) option" "rd option list" bool

text \<open>The loop over the connections; \<open>i\<close> moves on unless the connection it names was dropped.\<close>

fun poll_conns :: "dstate \<Rightarrow> nat \<Rightarrow> rd option list \<Rightarrow> dstate option" where
  "poll_conns d i [] = Some d"
| "poll_conns d i (r # rs) =
     (case r of
        None \<Rightarrow> poll_conns d (Suc i) rs
      | Some res \<Rightarrow>
          (case sock_read d i res of
             None \<Rightarrow> None
           | Some d1 \<Rightarrow> poll_conns d1 (if length (connhead d1) < length (connhead d) then i else Suc i) rs))"

definition dstate_poll_fds :: "dstate \<Rightarrow> int \<times> int \<Rightarrow> int \<Rightarrow> int \<times> int \<Rightarrow> sel \<Rightarrow> (dstate \<times> int) option" where
  "dstate_poll_fds d timeout extrafd now ev =
     (let overrun = (if fst (poll_timeout timeout now) then 1 else 0) in
      case ev of
        SelTimeout \<Rightarrow> Some (d, 1)
      | SelFails \<Rightarrow> Some (d, overrun)
      | SelReady new reads extra \<Rightarrow>
          let (d1, rs) = (case new of
                None \<Rightarrow> (d, reads)
              | Some (plan, mem) \<Rightarrow> (sock_connect d plan mem, None # reads))
          in case poll_conns d1 0 rs of
               None \<Rightarrow> None
             | Some d2 \<Rightarrow> Some (d2, if extrafd \<noteq> -1 \<and> extra then 1 else overrun))"

section \<open>The interface of the drivers\<close>

definition dstate_setinfo :: "dstate \<Rightarrow> string \<Rightarrow> string \<Rightarrow> dstate \<times> int" where
  "dstate_setinfo d v txt =
     (let x = snprintf ST_MAX_VALUE_LEN txt;
          (t, ret) = state_setinfo (dtree_root d) v x;
          d1 = d\<lparr>dtree_root := t\<rparr>
      in (if ret = 1 then send_to_all d1 (''SETINFO '' @ v @ '' '' @ quoted x @ nl) else d1, ret))"

definition dstate_addenum :: "dstate \<Rightarrow> string \<Rightarrow> string \<Rightarrow> dstate \<times> int" where
  "dstate_addenum d v txt =
     (let x = snprintf ST_MAX_VALUE_LEN txt;
          (t, ret) = state_addenum (dtree_root d) v x;
          d1 = d\<lparr>dtree_root := t\<rparr>
      in (if ret = 1 then send_to_all d1 (''ADDENUM '' @ v @ '' '' @ quoted x @ nl) else d1, ret))"

definition dstate_addrange :: "dstate \<Rightarrow> string \<Rightarrow> int \<Rightarrow> int \<Rightarrow> dstate \<times> int" where
  "dstate_addrange d v a b =
     (let (t, ret) = state_addrange (dtree_root d) v a b;
          d1 = d\<lparr>dtree_root := t\<rparr>
      in (if ret = 1 then send_to_all d1 (''ADDRANGE '' @ v @ ''  '' @ show_int a @ '' '' @ show_int b @ nl)
          else d1, ret))"

definition dstate_setflags :: "dstate \<Rightarrow> string \<Rightarrow> 32 word \<Rightarrow> dstate" where
  "dstate_setflags d v fl =
     (case state_tree_find (dtree_root d) v of
        None \<Rightarrow> d
      | Some sttmp \<Rightarrow>
          if st_flags sttmp AND ST_FLAG_IMMUTABLE \<noteq> 0 then d
          else if st_flags sttmp = fl then d
          else
            let d1 = d\<lparr>dtree_root := state_tree_write (dtree_root d) v (sttmp\<lparr>st_flags := fl\<rparr>)\<rparr>
            in send_to_all d1 (''SETFLAGS '' @ flag_list v fl @ nl))"

definition dstate_setaux :: "dstate \<Rightarrow> string \<Rightarrow> int \<Rightarrow> dstate" where
  "dstate_setaux d v a =
     (case state_tree_find (dtree_root d) v of
        None \<Rightarrow> d
      | Some sttmp \<Rightarrow>
          if st_aux sttmp = a then d
          else
            let d1 = d\<lparr>dtree_root := state_tree_write (dtree_root d) v (sttmp\<lparr>st_aux := a\<rparr>)\<rparr>
            in send_to_all d1 (''SETAUX '' @ v @ '' '' @ show_int a @ nl))"

definition dstate_getinfo :: "dstate \<Rightarrow> string \<Rightarrow> string option" where
  "dstate_getinfo d v = state_getinfo (dtree_root d) v"

definition dstate_addcmd :: "dstate \<Rightarrow> string \<Rightarrow> dstate" where
  "dstate_addcmd d c =
     (let (cs, ret) = state_addcmd (cmdhead d) c;
          d1 = d\<lparr>cmdhead := cs\<rparr>
      in if ret = 1 then send_to_all d1 (''ADDCMD '' @ c @ nl) else d1)"

definition dstate_delinfo :: "dstate \<Rightarrow> string \<Rightarrow> dstate \<times> int" where
  "dstate_delinfo d v =
     (let (t, ret) = state_delinfo (dtree_root d) v;
          d1 = d\<lparr>dtree_root := t\<rparr>
      in (if ret = 1 then send_to_all d1 (''DELINFO '' @ v @ nl) else d1, ret))"

definition dstate_delenum :: "dstate \<Rightarrow> string \<Rightarrow> string \<Rightarrow> dstate \<times> int" where
  "dstate_delenum d v x =
     (let (t, ret) = state_delenum (dtree_root d) v x;
          d1 = d\<lparr>dtree_root := t\<rparr>
      in (if ret = 1 then send_to_all d1 (''DELENUM '' @ v @ '' '' @ quoted x @ nl) else d1, ret))"

definition dstate_delrange :: "dstate \<Rightarrow> string \<Rightarrow> int \<Rightarrow> int \<Rightarrow> dstate \<times> int" where
  "dstate_delrange d v a b =
     (let (t, ret) = state_delrange (dtree_root d) v a b;
          d1 = d\<lparr>dtree_root := t\<rparr>
      in (if ret = 1
          then send_to_all d1 (''DELRANGE '' @ v @ '' '' @ quoted (show_int a @ '' '' @ show_int b) @ nl)
          else d1, ret))"

definition dstate_delcmd :: "dstate \<Rightarrow> string \<Rightarrow> dstate \<times> int" where
  "dstate_delcmd d c =
     (let (cs, ret) = state_delcmd (cmdhead d) c;
          d1 = d\<lparr>cmdhead := cs\<rparr>
      in (if ret = 1 then send_to_all d1 (''DELCMD '' @ c @ nl) else d1, ret))"

definition dstate_free :: "dstate \<Rightarrow> dstate" where
  "dstate_free d = sock_close (d\<lparr>dtree_root := Leaf, cmdhead := []\<rparr>)"

definition dstate_dataok :: "dstate \<Rightarrow> dstate" where
  "dstate_dataok d = (if dstale d then send_to_all (d\<lparr>dstale := False\<rparr>) (''DATAOK'' @ nl) else d)"

definition dstate_datastale :: "dstate \<Rightarrow> dstate" where
  "dstate_datastale d = (if \<not> dstale d then send_to_all (d\<lparr>dstale := True\<rparr>) (''DATASTALE'' @ nl) else d)"

section \<open>Status and alarm\<close>

definition status_init :: "dstate \<Rightarrow> dstate" where
  "status_init d =
     (let d1 = (if dstate_getinfo d ''driver.flag.ignorelb'' \<noteq> None then d\<lparr>ignorelb := True\<rparr> else d)
      in d1\<lparr>status_buf := []\<rparr>)"

definition status_set :: "dstate \<Rightarrow> string \<Rightarrow> dstate" where
  "status_set d buf =
     (if ignorelb d \<and> strcaseeq buf ''LB'' then d
      else if length (status_buf d) > 0
      then d\<lparr>status_buf := snprintfcat (status_buf d) ST_MAX_VALUE_LEN ('' '' @ buf)\<rparr>
      else d\<lparr>status_buf := snprintfcat (status_buf d) ST_MAX_VALUE_LEN buf\<rparr>)"

definition below :: "dstate \<Rightarrow> string \<Rightarrow> string \<Rightarrow> bool" where
  "below d v low =
     (case (dstate_getinfo d v, dstate_getinfo d low) of
        (Some x, Some y) \<Rightarrow> strtol10 x < strtol10 y
      | _ \<Rightarrow> False)"

definition status_commit :: "dstate \<Rightarrow> dstate" where
  "status_commit d =
     (let d1 = (if ignorelb d
                then if below d ''battery.charge'' ''battery.charge.low''
                     then d\<lparr>status_buf := snprintfcat (status_buf d) ST_MAX_VALUE_LEN '' LB''\<rparr>
                     else if below d ''battery.runtime'' ''battery.runtime.low''
                     then d\<lparr>status_buf := snprintfcat (status_buf d) ST_MAX_VALUE_LEN '' LB''\<rparr>
                     else d
                else d)
      in if alarm_active d1 then fst (dstate_setinfo d1 ''ups.status'' (''ALARM '' @ status_buf d1))
         else fst (dstate_setinfo d1 ''ups.status'' (status_buf d1)))"

definition alarm_init :: "dstate \<Rightarrow> dstate" where
  "alarm_init d = d\<lparr>alarm_buf := []\<rparr>"

definition alarm_set :: "dstate \<Rightarrow> string \<Rightarrow> dstate" where
  "alarm_set d buf =
     (if length (alarm_buf d) > 0
      then d\<lparr>alarm_buf := snprintfcat (alarm_buf d) ST_MAX_VALUE_LEN ('' '' @ buf)\<rparr>
      else d\<lparr>alarm_buf := snprintfcat (alarm_buf d) ST_MAX_VALUE_LEN buf\<rparr>)"

definition alarm_commit :: "dstate \<Rightarrow> dstate" where
  "alarm_commit d =
     (if length (alarm_buf d) > 0
      then (fst (dstate_setinfo d ''ups.alarm'' (alarm_buf d)))\<lparr>alarm_active := True\<rparr>
      else (fst (dstate_delinfo d ''ups.alarm''))\<lparr>alarm_active := False\<rparr>)"

section \<open>Lines as messages\<close>

lemma show_nat_length: "1 \<le> k \<Longrightarrow> n < 10 ^ k \<Longrightarrow> length (show_nat n) \<le> k"
proof (induction k arbitrary: n)
  case (Suc k)
  show ?case
  proof (cases "n < 10")
    case True
    then show ?thesis by (subst show_nat.simps) simp
  next
    case False
    then have "1 \<le> k" using Suc.prems by (cases k) auto
    moreover have "n div 10 < 10 ^ k" using Suc.prems by (simp add: less_mult_imp_div_less)
    ultimately have "length (show_nat (n div 10)) \<le> k" by (rule Suc.IH)
    with False show ?thesis by (subst show_nat.simps) simp
  qed
qed simp

lemma show_int_length: "in_int32 i \<Longrightarrow> length (show_int i) \<le> 11"
proof -
  assume i: "in_int32 i"
  then have "nat i < 10 ^ 10" "nat (- i) < 10 ^ 10" by auto
  then have "length (show_nat (nat i)) \<le> 10" "length (show_nat (nat (- i))) \<le> 10"
    by (auto intro!: show_nat_length)
  then show ?thesis by (simp add: show_int_def)
qed

lemma digit_plain: "is_digit c \<Longrightarrow> plain_char c"
  by (auto simp: is_digit_def plain_char_def pconf_escape_def)

lemma show_nat_plain: "list_all plain_char (show_nat n)"
  using show_nat_digits [of n] by (auto simp: list_all_iff intro: digit_plain)

lemma show_int_plain: "plain_word (show_int i)"
  using show_nat_plain by (auto simp: show_int_def plain_char_def pconf_escape_def)

fun unescape :: "string \<Rightarrow> string" where
  "unescape [] = []"
| "unescape (c # cs) =
     (if c = CHR 0x5C then (case cs of [] \<Rightarrow> [] | e # es \<Rightarrow> e # unescape es) else c # unescape cs)"

lemma unescape_escape: "unescape (escape x) = x"
  by (induction x) (auto simp: esc1_def pconf_escape_def)

definition flag_words :: "32 word \<Rightarrow> string list" where
  "flag_words fl = (if fl AND ST_FLAG_RW \<noteq> 0 then [''RW''] else []) @
     (if fl AND ST_FLAG_STRING \<noteq> 0 then [''STRING''] else [])"

text \<open>What the driver sends about a node, as tokens and as operations on the server's tree.\<close>

definition node_toks :: "st_node \<Rightarrow> tok list list" where
  "node_toks n = (let v = st_var n in
     [[Plain ''SETINFO'', Plain v, Quoted (st_raw n)]] @
     map (\<lambda>e. [Plain ''ADDENUM'', Plain v, Quoted (unescape e)]) (st_enum_list n) @
     map (\<lambda>(a, b). [Plain ''ADDRANGE'', Plain v, Plain (show_int a), Plain (show_int b)]) (st_range_list n) @
     (if st_aux n \<noteq> 0 then [[Plain ''SETAUX'', Plain v, Plain (show_int (st_aux n))]] else []) @
     (if st_flags n \<noteq> 0 then [Plain ''SETFLAGS'' # Plain v # map Plain (flag_words (st_flags n))] else []))"

definition node_ops :: "st_node \<Rightarrow> st_op list" where
  "node_ops n = (let v = st_var n in
     [OpSetinfo v (st_raw n)] @ map (\<lambda>e. OpAddenum v (unescape e)) (st_enum_list n) @
     map (\<lambda>(a, b). OpAddrange v a b) (st_range_list n) @
     (if st_aux n \<noteq> 0 then [OpSetaux v (show_int (st_aux n))] else []) @
     (if st_flags n \<noteq> 0 then [OpSetflags v (flag_words (st_flags n))] else []))"

definition value_ok :: "string \<Rightarrow> bool" where
  "value_ok x \<longleftrightarrow> list_all word_char x \<and> length (escape x) \<le> 255"

fun separated :: "(int \<times> int) list \<Rightarrow> bool" where
  "separated [] = True"
| "separated (g # gs) = (list_all (\<lambda>h. fst h \<noteq> fst g \<and> snd h \<noteq> snd g) gs \<and> separated gs)"

definition name_ok :: "string \<Rightarrow> bool" where
  "name_ok v \<longleftrightarrow> plain_word v \<and> length v \<le> 200"

text \<open>A node the protocol can carry: printable characters, values that fit once they are
  escaped, ranges as \<open>st_tree_range_add\<close> builds them, 32-bit numbers, and at least one of the flags
  the protocol knows when there is any flag.\<close>

definition node_sendable :: "st_node \<Rightarrow> bool" where
  "node_sendable n \<longleftrightarrow> node_ok n \<and> name_ok (st_var n) \<and> value_ok (st_raw n) \<and>
     list_all (\<lambda>e. escape (unescape e) = e \<and> value_ok (unescape e)) (st_enum_list n) \<and> distinct (st_enum_list n) \<and>
     list_all (\<lambda>g. in_int32 (fst g) \<and> in_int32 (snd g) \<and> fst g \<le> snd g) (st_range_list n) \<and>
     separated (st_range_list n) \<and> in_int32 (st_aux n) \<and>
     (st_flags n = 0 \<or> flag_words (st_flags n) \<noteq> [])"

lemma flag_list_eq:
  "length v \<le> 200 \<Longrightarrow> flag_list v fl = v @ concat (map (\<lambda>w. CHR '' '' # w) (flag_words fl))"
  by (auto simp: flag_list_def flag_words_def Let_def SMALLBUF_def)

lemma flags_text: "fs \<noteq> [] \<Longrightarrow> v @ concat (map (\<lambda>w. CHR '' '' # w) fs) = render (Plain v # map Plain fs)"
proof (induction fs arbitrary: v)
  case (Cons f fs)
  then show ?case by (cases fs) auto
qed simp

lemma line_fits: "length x < 512 \<Longrightarrow> snprintf ST_SOCK_BUF_LEN x = x"
  by (simp add: ST_SOCK_BUF_LEN_def)

lemma flag_words_plain: "list_all (\<lambda>f. plain_word f \<and> length f \<le> 6) (flag_words fl)" "length (flag_words fl) \<le> 2"
  by (auto simp: flag_words_def plain_char_def pconf_escape_def)

lemma carries_intro:
  assumes "map tok_word ts = dmsg_words m" "dmsg_ok m" "length ts \<le> 32" "list_all (tok_ok 512) ts"
  shows "carries ts m"
  using assms by (simp add: carries_def msg_ok_def)

lemma plain_upper [simp]: "c \<in> set ''ABCDEFGHIJKLMNOPQRSTUVWXYZ'' \<Longrightarrow> plain_char c"
  by (auto simp: plain_char_def pconf_escape_def)

lemma line_setinfo:
  assumes "name_ok v" "value_ok x"
  shows "snprintf ST_SOCK_BUF_LEN (''SETINFO '' @ v @ '' '' @ quoted (escape x) @ nl) =
           message [Plain ''SETINFO'', Plain v, Quoted x]"
    and "carries [Plain ''SETINFO'', Plain v, Quoted x] (DInfo (OpSetinfo v x))"
  using assms escape_length [of x]
  by (auto simp: name_ok_def value_ok_def line_fits message_def intro!: carries_intro)

lemma line_addenum:
  assumes "name_ok v" "value_ok x"
  shows "snprintf ST_SOCK_BUF_LEN (''ADDENUM '' @ v @ '' '' @ quoted (escape x) @ nl) =
           message [Plain ''ADDENUM'', Plain v, Quoted x]"
    and "carries [Plain ''ADDENUM'', Plain v, Quoted x] (DInfo (OpAddenum v x))"
  using assms escape_length [of x]
  by (auto simp: name_ok_def value_ok_def line_fits message_def intro!: carries_intro)

lemma line_addrange:
  assumes "name_ok v" "in_int32 a" "in_int32 b"
  shows "snprintf ST_SOCK_BUF_LEN (''ADDRANGE '' @ v @ '' '' @ show_int a @ '' '' @ show_int b @ nl) =
           message [Plain ''ADDRANGE'', Plain v, Plain (show_int a), Plain (show_int b)]"
    and "carries [Plain ''ADDRANGE'', Plain v, Plain (show_int a), Plain (show_int b)] (DInfo (OpAddrange v a b))"
  using assms show_int_length [of a] show_int_length [of b] show_int_plain
  by (auto simp: name_ok_def line_fits message_def intro!: carries_intro)

lemma line_setaux:
  assumes "name_ok v" "in_int32 a"
  shows "snprintf ST_SOCK_BUF_LEN (''SETAUX '' @ v @ '' '' @ show_int a @ nl) =
           message [Plain ''SETAUX'', Plain v, Plain (show_int a)]"
    and "carries [Plain ''SETAUX'', Plain v, Plain (show_int a)] (DInfo (OpSetaux v (show_int a)))"
  using assms show_int_length [of a] show_int_plain
  by (auto simp: name_ok_def line_fits message_def intro!: carries_intro)

lemma line_setflags:
  assumes "name_ok v" "flag_words fl \<noteq> []"
  shows "snprintf ST_SOCK_BUF_LEN (''SETFLAGS '' @ flag_list v fl @ nl) =
           message (Plain ''SETFLAGS'' # Plain v # map Plain (flag_words fl))"
    and "carries (Plain ''SETFLAGS'' # Plain v # map Plain (flag_words fl)) (DInfo (OpSetflags v (flag_words fl)))"
proof -
  have len: "length (concat (map (\<lambda>w. CHR '' '' # w) (flag_words fl))) \<le> 10"
    by (simp add: flag_words_def)
  have "render (Plain ''SETFLAGS'' # Plain v # map Plain (flag_words fl)) =
      ''SETFLAGS '' @ v @ concat (map (\<lambda>w. CHR '' '' # w) (flag_words fl))"
    using flags_text [OF assms(2), of v] by simp
  with assms len show "snprintf ST_SOCK_BUF_LEN (''SETFLAGS '' @ flag_list v fl @ nl) =
           message (Plain ''SETFLAGS'' # Plain v # map Plain (flag_words fl))"
    by (simp add: flag_list_eq name_ok_def line_fits message_def)
  show "carries (Plain ''SETFLAGS'' # Plain v # map Plain (flag_words fl)) (DInfo (OpSetflags v (flag_words fl)))"
    using assms flag_words_plain [of fl]
    by (intro carries_intro) (auto simp: name_ok_def comp_def list_all_iff)
qed

lemma line_cmd:
  assumes "name_ok c"
  shows "snprintf ST_SOCK_BUF_LEN (''ADDCMD '' @ c @ nl) = message [Plain ''ADDCMD'', Plain c]"
    and "carries [Plain ''ADDCMD'', Plain c] (DAddcmd c)"
    and "snprintf ST_SOCK_BUF_LEN (''DELCMD '' @ c @ nl) = message [Plain ''DELCMD'', Plain c]"
    and "carries [Plain ''DELCMD'', Plain c] (DDelcmd c)"
    and "snprintf ST_SOCK_BUF_LEN (''DELINFO '' @ c @ nl) = message [Plain ''DELINFO'', Plain c]"
    and "carries [Plain ''DELINFO'', Plain c] (DInfo (OpDelinfo c))"
  using assms by (auto simp: name_ok_def line_fits message_def intro!: carries_intro)

lemma line_flags:
  "snprintf ST_SOCK_BUF_LEN (''DATAOK'' @ nl) = message [Plain ''DATAOK'']" "carries [Plain ''DATAOK''] DDataok"
  "snprintf ST_SOCK_BUF_LEN (''DATASTALE'' @ nl) = message [Plain ''DATASTALE'']" "carries [Plain ''DATASTALE''] DDatastale"
  "snprintf ST_SOCK_BUF_LEN (''DUMPDONE'' @ nl) = message [Plain ''DUMPDONE'']" "carries [Plain ''DUMPDONE''] DDumpdone"
  by (auto simp: line_fits message_def intro!: carries_intro)

lemma node_lines_toks:
  assumes "node_sendable n"
  shows "map (snprintf ST_SOCK_BUF_LEN) (node_lines n) = map message (node_toks n)"
    and "list_all2 carries (node_toks n) (map DInfo (node_ops n))"
proof -
  have n: "name_ok (st_var n)" "value_ok (st_raw n)" "in_int32 (st_aux n)"
    and es: "\<And>e. e \<in> set (st_enum_list n) \<Longrightarrow> escape (unescape e) = e \<and> value_ok (unescape e)"
    and gs: "\<And>g. g \<in> set (st_range_list n) \<Longrightarrow> in_int32 (fst g) \<and> in_int32 (snd g)"
    and fl: "st_flags n = 0 \<or> flag_words (st_flags n) \<noteq> []"
    using assms by (auto simp: node_sendable_def list_all_iff)
  have val: "st_val n = escape (st_raw n)"
    using assms by (simp add: node_sendable_def node_ok_def value_ok_def ST_MAX_VALUE_LEN_def enc_fit_full)
  have en: "map (snprintf ST_SOCK_BUF_LEN) (map (\<lambda>e. ''ADDENUM '' @ st_var n @ '' '' @ quoted e @ nl) (st_enum_list n)) =
      map message (map (\<lambda>e. [Plain ''ADDENUM'', Plain (st_var n), Quoted (unescape e)]) (st_enum_list n))"
    unfolding map_map comp_def using es line_addenum(1) [OF n(1)] by (intro map_cong) (metis, metis)
  have ra: "map (snprintf ST_SOCK_BUF_LEN) (map (\<lambda>(a, b). ''ADDRANGE '' @ st_var n @ '' '' @ show_int a @ '' '' @ show_int b @ nl) (st_range_list n)) =
      map message (map (\<lambda>(a, b). [Plain ''ADDRANGE'', Plain (st_var n), Plain (show_int a), Plain (show_int b)]) (st_range_list n))"
    unfolding map_map using gs line_addrange(1) [OF n(1)] by (intro map_cong) auto
  show "map (snprintf ST_SOCK_BUF_LEN) (node_lines n) = map message (node_toks n)"
    unfolding node_lines_def node_toks_def Let_def map_append en ra val
    using line_setinfo(1) [OF n(1,2)] line_setaux(1) [OF n(1,3)] line_setflags(1) [OF n(1)] fl by auto
  have "list_all2 carries (map (\<lambda>e. [Plain ''ADDENUM'', Plain (st_var n), Quoted (unescape e)]) (st_enum_list n))
      (map DInfo (map (\<lambda>e. OpAddenum (st_var n) (unescape e)) (st_enum_list n)))"
    using es line_addenum(2) [OF n(1)] by (auto simp: list_all2_map1 list_all2_map2 list_all2_same)
  moreover have "list_all2 carries
      (map (\<lambda>(a, b). [Plain ''ADDRANGE'', Plain (st_var n), Plain (show_int a), Plain (show_int b)]) (st_range_list n))
      (map DInfo (map (\<lambda>(a, b). OpAddrange (st_var n) a b) (st_range_list n)))"
    using gs line_addrange(2) [OF n(1)] by (auto simp: list_all2_map1 list_all2_map2 list_all2_same)
  ultimately show "list_all2 carries (node_toks n) (map DInfo (node_ops n))"
    unfolding node_ops_def node_toks_def Let_def map_append
    using line_setinfo(2) [OF n(1,2)] line_setaux(2) [OF n(1,3)] line_setflags(2) [OF n(1)] fl
    by (intro list_all2_appendI) auto
qed

section \<open>The dump\<close>

definition dump_lines :: "dstate \<Rightarrow> string list" where
  "dump_lines d =
     (if dstale d then [''DATASTALE'' @ nl] else []) @
     concat (map node_lines (inorder (dtree_root d))) @
     map (\<lambda>c. ''ADDCMD '' @ c @ nl) (cmdhead d) @
     (if dstale d then [] else [''DATAOK'' @ nl]) @ [''DUMPDONE'' @ nl]"

definition told :: "dstate \<Rightarrow> nat \<Rightarrow> string list \<Rightarrow> dstate" where
  "told d i ls = d\<lparr>connhead := (connhead d)[i := (connhead d ! i)\<lparr>cn_sock :=
     (cn_sock (connhead d ! i))\<lparr>sent := sent (cn_sock (connhead d ! i)) @ ls\<rparr>\<rparr>]\<rparr>"

definition conn_ok :: "dstate \<Rightarrow> nat \<Rightarrow> bool" where
  "conn_ok d i \<longleftrightarrow> i < length (connhead d) \<and> wplan (cn_sock (connhead d ! i)) = []"

lemma conn_ok_told [simp]: "conn_ok (told d i ls) i = conn_ok d i"
  by (auto simp: conn_ok_def told_def)

lemma told_fields [simp]:
  "dtree_root (told d i ls) = dtree_root d" "cmdhead (told d i ls) = cmdhead d" "dstale (told d i ls) = dstale d"
  by (simp_all add: told_def)

lemma told_told [simp]: "conn_ok d i \<Longrightarrow> told (told d i xs) i ys = told d i (xs @ ys)"
  by (simp add: told_def conn_ok_def)

lemma told_Nil [simp]: "told d i [] = d"
  by (cases d) (simp add: told_def)

lemma send_to_one_told:
  "conn_ok d i \<Longrightarrow> txt \<noteq> [] \<Longrightarrow> send_to_one d i txt = (told d i [snprintf ST_SOCK_BUF_LEN txt], True)"
  by (simp add: send_to_one_def conn_ok_def told_def Let_def)

lemma send_each_told:
  "conn_ok d i \<Longrightarrow> [] \<notin> set ls \<Longrightarrow> send_each d i ls = (told d i (map (snprintf ST_SOCK_BUF_LEN) ls), True)"
  by (induction ls arbitrary: d) (auto simp: send_to_one_told)

lemma node_lines_nonempty: "[] \<notin> set (node_lines n)"
  by (auto simp: node_lines_def)

lemma st_tree_dump_conn_told:
  "conn_ok d i \<Longrightarrow> st_tree_dump_conn t d i =
     (told d i (map (snprintf ST_SOCK_BUF_LEN) (concat (map node_lines (inorder t)))), True)"
  by (induction t arbitrary: d) (auto simp: send_each_told node_lines_nonempty)

lemma cmd_dump_conn_told:
  "conn_ok d i \<Longrightarrow> cmd_dump_conn d i =
     (told d i (map (snprintf ST_SOCK_BUF_LEN) (map (\<lambda>c. ''ADDCMD '' @ c @ nl) (cmdhead d))), True)"
  unfolding cmd_dump_conn_def by (rule send_each_told) auto

lemma sock_arg_dumpall:
  "conn_ok d i \<Longrightarrow> sock_arg d i [''DUMPALL''] =
     (told d i (map (snprintf ST_SOCK_BUF_LEN) (dump_lines d)), 1, True)"
  by (simp add: sock_arg_def strcaseeq_eval send_to_one_told st_tree_dump_conn_told cmd_dump_conn_told
      dump_lines_def)

text \<open>A driver state the protocol can carry.\<close>

definition sendable :: "dstate \<Rightarrow> bool" where
  "sendable d \<longleftrightarrow> ordered (dtree_root d) \<and> list_all node_sendable (inorder (dtree_root d)) \<and>
     cmds_sorted (cmdhead d) \<and> list_all name_ok (cmdhead d)"

definition dump_toks :: "dstate \<Rightarrow> tok list list" where
  "dump_toks d =
     (if dstale d then [[Plain ''DATASTALE'']] else []) @
     concat (map node_toks (inorder (dtree_root d))) @
     map (\<lambda>c. [Plain ''ADDCMD'', Plain c]) (cmdhead d) @
     (if dstale d then [] else [[Plain ''DATAOK'']]) @ [[Plain ''DUMPDONE'']]"

definition dump_msgs :: "dstate \<Rightarrow> dmsg list" where
  "dump_msgs d =
     (if dstale d then [DDatastale] else []) @
     map DInfo (concat (map node_ops (inorder (dtree_root d)))) @
     map DAddcmd (cmdhead d) @
     (if dstale d then [] else [DDataok]) @ [DDumpdone]"

lemma concat_map_cong: "(\<And>x. x \<in> set xs \<Longrightarrow> f x = g x) \<Longrightarrow> concat (map f xs) = concat (map g xs)"
  by (induction xs) auto

lemma list_all2_concat_map:
  "(\<And>x. x \<in> set xs \<Longrightarrow> list_all2 P (f x) (g x)) \<Longrightarrow> list_all2 P (concat (map f xs)) (concat (map g xs))"
  by (induction xs) (auto intro: list_all2_appendI)

lemma dump_lines_toks:
  assumes "sendable d"
  shows "map (snprintf ST_SOCK_BUF_LEN) (dump_lines d) = map message (dump_toks d)"
    and "list_all2 carries (dump_toks d) (dump_msgs d)"
proof -
  have ns: "\<And>n. n \<in> set (inorder (dtree_root d)) \<Longrightarrow> node_sendable n"
    and cs: "\<And>c. c \<in> set (cmdhead d) \<Longrightarrow> name_ok c"
    using assms by (auto simp: sendable_def list_all_iff)
  have "concat (map (map (snprintf ST_SOCK_BUF_LEN) \<circ> node_lines) (inorder (dtree_root d))) =
      concat (map (map message \<circ> node_toks) (inorder (dtree_root d)))"
    using ns node_lines_toks(1) by (intro concat_map_cong) auto
  moreover have "map (snprintf ST_SOCK_BUF_LEN) (map (\<lambda>c. ''ADDCMD '' @ c @ nl) (cmdhead d)) =
      map message (map (\<lambda>c. [Plain ''ADDCMD'', Plain c]) (cmdhead d))"
    unfolding map_map comp_def using cs line_cmd(1) by (intro map_cong) auto
  ultimately show "map (snprintf ST_SOCK_BUF_LEN) (dump_lines d) = map message (dump_toks d)"
    unfolding dump_lines_def dump_toks_def map_append map_concat map_map [symmetric]
    using line_flags by (auto simp: map_map)
  have "list_all2 carries (concat (map node_toks (inorder (dtree_root d))))
      (concat (map (map DInfo \<circ> node_ops) (inorder (dtree_root d))))"
    using ns node_lines_toks(2) by (intro list_all2_concat_map) auto
  moreover have "list_all2 carries (map (\<lambda>c. [Plain ''ADDCMD'', Plain c]) (cmdhead d)) (map DAddcmd (cmdhead d))"
    using cs line_cmd(2) by (auto simp: list_all2_map1 list_all2_map2 list_all2_same)
  ultimately show "list_all2 carries (dump_toks d) (dump_msgs d)"
    unfolding dump_toks_def dump_msgs_def map_concat map_map
    using line_flags by (intro list_all2_appendI) auto
qed

section \<open>What the server rebuilds\<close>

text \<open>Two nodes that tell a client the same: everything but the buffers and the flags the
  protocol does not know.\<close>

definition same_info :: "st_node \<Rightarrow> st_node \<Rightarrow> bool" where
  "same_info n m \<longleftrightarrow> st_raw n = st_raw m \<and> st_val n = st_val m \<and> st_aux n = st_aux m \<and>
     st_enum_list n = st_enum_list m \<and> st_range_list n = st_range_list m \<and>
     st_flags m = st_flags n AND (ST_FLAG_RW OR ST_FLAG_STRING)"

text \<open>A node the server has, if any, before the dump reaches it.\<close>

definition fresh_for :: "st_node \<Rightarrow> st_node option \<Rightarrow> bool" where
  "fresh_for n m \<longleftrightarrow> (case m of None \<Rightarrow> True | Some k \<Rightarrow>
     node_ok k \<and> st_flags k = 0 \<and> st_aux k = 0 \<and> st_enum_list k = [] \<and> st_range_list k = [] \<and>
     \<not> strcaseeq (st_raw k) (st_raw n))"

lemma enum_add_new: "e \<notin> set es \<Longrightarrow> fst (st_tree_enum_add es e) = es @ [e]"
  by (induction es) (auto simp: case_prod_unfold Let_def)

lemma range_add_new:
  "(\<And>g. g \<in> set gs \<Longrightarrow> fst g \<noteq> a \<and> snd g \<noteq> b) \<Longrightarrow> fst (st_tree_range_add gs a b) = gs @ [(a, b)]"
  by (induction gs) (auto simp: case_prod_unfold Let_def)

lemma word_char_no_nul: "list_all word_char x \<Longrightarrow> no_nul x"
  by (auto simp: list_all_iff)

lemma encode_value: "value_ok x \<Longrightarrow> pconf_encode x ST_MAX_VALUE_LEN = escape x"
  using pconf_encode_value [of x]
  by (simp add: value_ok_def word_char_no_nul enc_fit_full ST_MAX_VALUE_LEN_def)

lemma fold_enums:
  "list_all (\<lambda>e. escape (unescape e) = e \<and> value_ok (unescape e)) es \<Longrightarrow> distinct (st_enum_list n @ es) \<Longrightarrow>
   fold node_eff (map (\<lambda>e. OpAddenum v (unescape e)) es) (Some n) =
     Some (n\<lparr>st_enum_list := st_enum_list n @ es\<rparr>)"
  by (induction es arbitrary: n) (auto simp: encode_value enum_add_new)

lemma separated_snoc:
  "separated (gs @ g # hs) \<Longrightarrow> k \<in> set gs \<Longrightarrow> fst k \<noteq> fst g \<and> snd k \<noteq> snd g"
  by (induction gs) auto

lemma fold_ranges:
  "list_all (\<lambda>g. fst g \<le> snd g) gs \<Longrightarrow> separated (st_range_list n @ gs) \<Longrightarrow>
   fold node_eff (map (\<lambda>(a, b). OpAddrange v a b) gs) (Some n) =
     Some (n\<lparr>st_range_list := st_range_list n @ gs\<rparr>)"
proof (induction gs arbitrary: n)
  case (Cons g gs)
  obtain a b where g: "g = (a, b)" by force
  have "fst (st_tree_range_add (st_range_list n) a b) = st_range_list n @ [(a, b)]"
    using separated_snoc [of "st_range_list n" g gs] Cons.prems(2) by (intro range_add_new) (simp add: g)
  with Cons.IH [of "n\<lparr>st_range_list := st_range_list n @ [g]\<rparr>"] Cons.prems show ?case
    by (simp add: g)
qed simp

lemma and_pow2: fixes w :: "32 word" shows "w AND 2 ^ k = 0 \<or> w AND 2 ^ k = 2 ^ k"
  by (cases "bit w k") (auto intro!: bit_word_eqI simp: bit_simps)

lemma flags_kept: "setflags_loop (flag_words fl) 0 = fl AND (ST_FLAG_RW OR ST_FLAG_STRING)"
proof -
  have "fl AND (ST_FLAG_RW OR ST_FLAG_STRING) = (fl AND ST_FLAG_RW) OR (fl AND ST_FLAG_STRING)"
    by (simp add: bit.conj_disj_distrib)
  moreover have "fl AND ST_FLAG_RW = 0 \<or> fl AND ST_FLAG_RW = ST_FLAG_RW"
    "fl AND ST_FLAG_STRING = 0 \<or> fl AND ST_FLAG_STRING = ST_FLAG_STRING"
    using and_pow2 [of fl 0] and_pow2 [of fl 1] by (auto simp: ST_FLAG_RW_def ST_FLAG_STRING_def)
  ultimately show ?thesis
    by (auto simp: flag_words_def strcaseeq_eval ST_FLAG_RW_def ST_FLAG_STRING_def)
qed

lemma strtol_int32: "in_int32 a \<Longrightarrow> int32 (strtol10 (show_int a)) = a"
  using atoi_show_int [of a] by (simp add: atoi_def)

lemma setinfo_fresh:
  assumes "fresh_for n m" "value_ok (st_raw n)"
  obtains k where "node_eff (OpSetinfo v (st_raw n)) m = Some k" "st_raw k = st_raw n" "node_ok k"
    "st_flags k = 0" "st_aux k = 0" "st_enum_list k = []" "st_range_list k = []"
proof (cases m)
  case None
  with assms(2) that [of "state_node_new v (st_raw n)"] show thesis
    by (simp add: state_node_new_ok value_ok_def word_char_no_nul)
next
  case (Some k)
  with assms that [of "fst (state_node_set k (st_raw n))"] show thesis
    by (simp add: fresh_for_def state_node_set_raw state_node_set_ok value_ok_def word_char_no_nul)
qed

lemma st_val_upd [simp]:
  "st_val (n\<lparr>st_enum_list := e\<rparr>) = st_val n" "st_val (n\<lparr>st_range_list := g\<rparr>) = st_val n"
  "st_val (n\<lparr>st_aux := a\<rparr>) = st_val n" "st_val (n\<lparr>st_flags := f\<rparr>) = st_val n"
  by (cases "st_valp n"; simp add: st_val_def)+

lemma node_rebuilt:
  assumes "node_sendable n" "fresh_for n m"
  shows "\<exists>k. fold node_eff (node_ops n) m = Some k \<and> same_info n k"
proof -
  have n: "value_ok (st_raw n)" "node_ok n" "in_int32 (st_aux n)" "distinct (st_enum_list n)"
    "list_all (\<lambda>e. escape (unescape e) = e \<and> value_ok (unescape e)) (st_enum_list n)"
    "list_all (\<lambda>g. fst g \<le> snd g) (st_range_list n)" "separated (st_range_list n)"
    using assms(1) by (auto simp: node_sendable_def list_all_iff)
  obtain k where k: "node_eff (OpSetinfo (st_var n) (st_raw n)) m = Some k" "st_raw k = st_raw n" "node_ok k"
    "st_flags k = 0" "st_aux k = 0" "st_enum_list k = []" "st_range_list k = []"
    using setinfo_fresh [OF assms(2) n(1)] by metis
  have "st_val k = st_val n" using k(2,3) n(2) by (simp add: node_ok_def)
  then show ?thesis
    using k fold_enums [OF n(5), of k] fold_ranges [OF n(6), of "k\<lparr>st_enum_list := st_enum_list n\<rparr>"] n
    by (simp add: node_ops_def Let_def same_info_def strtol_int32 flags_kept)
qed

lemma foldl_dinfo: "foldl dmsg_apply ups (map DInfo xs) = ups\<lparr>inforoot := foldl st_apply (inforoot ups) xs\<rparr>"
  by (induction xs arbitrary: ups) auto

lemma foldl_daddcmd:
  "foldl dmsg_apply ups (map DAddcmd cs) = ups\<lparr>ups_cmdlist := foldl (\<lambda>l c. fst (state_addcmd l c)) (ups_cmdlist ups) cs\<rparr>"
  by (induction cs arbitrary: ups) auto

lemma addcmd_last: "(\<And>x. x \<in> set cs \<Longrightarrow> lower x < lower c) \<Longrightarrow> fst (state_addcmd cs c) = cs @ [c]"
  by (induction cs) (fastforce simp: case_prod_unfold Let_def)+

lemma addcmds_rebuild: "cmds_sorted (xs @ cs) \<Longrightarrow> foldl (\<lambda>l c. fst (state_addcmd l c)) xs cs = xs @ cs"
proof (induction cs arbitrary: xs)
  case (Cons c cs)
  then have "fst (state_addcmd xs c) = xs @ [c]"
    by (intro addcmd_last) (auto simp: cmds_sorted_def sorted_wrt_append)
  with Cons show ?case by simp
qed simp

lemma dump_msgs_apply:
  "cmds_sorted (cmdhead d) \<Longrightarrow> ups_cmdlist ups = [] \<Longrightarrow>
   foldl dmsg_apply ups (dump_msgs d) =
     ups\<lparr>data_ok := \<not> dstale d, inforoot := foldl st_apply (inforoot ups) (concat (map node_ops (inorder (dtree_root d)))),
       ups_cmdlist := cmdhead d, dumpdone := True\<rparr>"
  using addcmds_rebuild [of "[]" "cmdhead d"] by (auto simp: dump_msgs_def foldl_dinfo foldl_daddcmd)

lemma op_var_node_ops: "x \<in> set (node_ops n) \<Longrightarrow> op_var x = st_var n"
  by (auto simp: node_ops_def Let_def split: if_splits)

text \<open>The nodes of the driver's tree, rebuilt one after the other.\<close>

lemma tree_rebuilt:
  assumes "sendable d" and "ordered t"
    and "\<And>n. n \<in> set_tree (dtree_root d) \<Longrightarrow> fresh_for n (state_tree_find t (st_var n))"
    and "\<And>v m. state_tree_find t v = Some m \<Longrightarrow> state_tree_find (dtree_root d) v \<noteq> None"
  shows "rel_option same_info (state_tree_find (dtree_root d) v)
           (state_tree_find (foldl st_apply t (concat (map node_ops (inorder (dtree_root d))))) v)"
proof -
  let ?ns = "inorder (dtree_root d)"
  let ?gs = "map (\<lambda>n. (st_var n, node_ops n)) ?ns"
  have d: "ordered (dtree_root d)" and ns: "\<And>n. n \<in> set_tree (dtree_root d) \<Longrightarrow> node_sendable n"
    using assms(1) by (auto simp: sendable_def list_all_iff)
  show ?thesis
  proof (cases "state_tree_find (dtree_root d) v")
    case None
    then have "\<And>n. n \<in> set_tree (dtree_root d) \<Longrightarrow> lower v \<noteq> st_key n"
      using state_tree_find_iff [OF d, of v] by force
    then have "state_tree_find (foldl st_apply t (concat (map node_ops ?ns))) v = state_tree_find t v"
      by (intro info_tree.look_run_other [OF assms(2)]) (fastforce simp: op_var_node_ops strcaseeq_iff)
    with None assms(4) [of v] show ?thesis by (cases "state_tree_find t v") auto
  next
    case (Some n)
    then have n: "n \<in> set_tree (dtree_root d)" "st_key n = lower v" by (auto dest: state_tree_find_SomeD)
    have "state_tree_find (foldl st_apply t (concat (map snd ?gs))) (st_var n) =
        fold node_eff (node_ops n) (state_tree_find t (st_var n))"
      using n(1) ordered_distinct [OF d]
      by (intro info_tree.look_groups [OF assms(2)]) (auto simp: op_var_node_ops comp_def)
    then have "state_tree_find (foldl st_apply t (concat (map node_ops ?ns))) (st_var n) =
        fold node_eff (node_ops n) (state_tree_find t (st_var n))"
      by (simp add: comp_def)
    with node_rebuilt [OF ns [OF n(1)] assms(3) [OF n(1)]] Some state_tree_find_case [OF n(2) [symmetric]]
    show ?thesis by auto
  qed
qed

lemma sock_read_loop_quiet:
  "i < length (connhead d) \<Longrightarrow> quiet (cn_ctx (connhead d ! i)) xs \<Longrightarrow>
   sock_read_loop d i (xs @ ys) =
     sock_read_loop (d\<lparr>connhead := (connhead d)[i := (connhead d ! i)\<lparr>cn_ctx := feed (cn_ctx (connhead d ! i)) xs\<rparr>]\<rparr>) i ys"
proof (induction xs arbitrary: d)
  case (Cons c xs)
  obtain ctx where "pconf_char (cn_ctx (connhead d ! i)) c = (0, ctx)"
    using Cons.prems(2) by (cases "pconf_char (cn_ctx (connhead d ! i)) c") auto
  with Cons show ?case by simp
qed simp

text \<open>The driver after the line \<open>DUMPALL\<close>.\<close>

lemma sock_read_dumpall:
  assumes "conn_ok d i" "ctx_ready (cn_ctx (connhead d ! i))"
  obtains d' where "sock_read d i (RdData (''DUMPALL'' @ nl)) = Some d'"
    "sent (cn_sock (connhead d' ! i)) = sent (cn_sock (connhead d ! i)) @ map (snprintf ST_SOCK_BUF_LEN) (dump_lines d)"
    "dtree_root d' = dtree_root d" "ctx_ready (cn_ctx (connhead d' ! i))"
proof -
  let ?ts = "[Plain ''DUMPALL'']"
  have i: "i < length (connhead d)" using assms(1) by (simp add: conn_ok_def)
  have ok: "msg_ok PCONF_DEFAULT_ARG_LIMIT PCONF_DEFAULT_WORDLEN_LIMIT ?ts"
    by (simp add: msg_ok_def)
  note f = feed_message [OF assms(2) ok]
  let ?c = "feed (cn_ctx (connhead d ! i)) (render ?ts)"
  obtain ctx where ctx: "pconf_char ?c (CHR 0x0A) = (1, ctx)"
    using f(2) by (cases "pconf_char ?c (CHR 0x0A)") auto
  let ?d = "d\<lparr>connhead := (connhead d)[i := (connhead d ! i)\<lparr>cn_ctx := ctx\<rparr>]\<rparr>"
  have "conn_ok ?d i" using assms(1) by (simp add: conn_ok_def)
  moreover have "pconf_words ctx = [''DUMPALL'']" using f(4,5) ctx by (simp add: message_def)
  moreover have "dump_lines ?d = dump_lines d" by (simp add: dump_lines_def)
  ultimately have "sock_read d i (RdData (''DUMPALL'' @ nl)) =
      Some (told ?d i (map (snprintf ST_SOCK_BUF_LEN) (dump_lines d)))"
    using sock_read_loop_quiet [OF i f(1), of nl] ctx i sock_arg_dumpall [of ?d i]
    by (simp add: sock_read_def SMALLBUF_def)
  with f(3) ctx i that [of "told ?d i (map (snprintf ST_SOCK_BUF_LEN) (dump_lines d))"] show thesis
    by (simp add: told_def message_def)
qed

text \<open>The server's entry is a copy of the driver's state.\<close>

definition mirrored :: "dstate \<times> upstype \<Rightarrow> bool" where
  "mirrored p \<longleftrightarrow> (case p of (d, u) \<Rightarrow>
     st_inv (dtree_root d) \<and> st_inv (inforoot u) \<and>
     (\<forall>v. rel_option same_info (state_tree_find (dtree_root d) v) (state_tree_find (inforoot u) v)) \<and>
     ups_cmdlist u = cmdhead d \<and> (data_ok u \<longleftrightarrow> \<not> dstale d))"

lemma mirrored_getinfo:
  assumes "mirrored (d, u)"
  shows "state_getinfo (inforoot u) v = state_getinfo (dtree_root d) v" "ups_cmdlist u = cmdhead d"
proof -
  have "rel_option same_info (state_tree_find (dtree_root d) v) (state_tree_find (inforoot u) v)"
    using assms by (simp add: mirrored_def)
  then show "state_getinfo (inforoot u) v = state_getinfo (dtree_root d) v"
    by (cases rule: option.rel_cases) (simp_all add: state_getinfo_def same_info_def)
qed (use assms in \<open>simp add: mirrored_def\<close>)

lemma connect_waits:
  assumes "sstate_connect ups (Connected fd plan) t0 = (ups0, fd)" "0 \<le> fd" "inforoot ups = Leaf" "ups_cmdlist ups = []"
  shows "sent (ups_sock ups0) = [''DUMPALL'' @ nl]" "ctx_ready (sock_ctx ups0)" "ups_cmdlist ups0 = []"
    "inforoot ups0 = Node Leaf (state_node_new ''ups.status'' ''WAIT'') Leaf"
  using assms pconf_init_ready [of "sock_ctx ups"]
  by (auto simp: sstate_connect_def Let_def sock_write_def split: prod.splits list.splits bool.splits)

lemma waiting_rebuilt:
  assumes "sendable d" "state_tree_find (dtree_root d) ''ups.status'' = Some st" "\<not> strcaseeq (st_raw st) ''WAIT''"
  shows "rel_option same_info (state_tree_find (dtree_root d) v)
    (state_tree_find (foldl st_apply (Node Leaf (state_node_new ''ups.status'' ''WAIT'') Leaf)
       (concat (map node_ops (inorder (dtree_root d))))) v)"
proof (rule tree_rebuilt [OF assms(1)])
  let ?t = "Node Leaf (state_node_new ''ups.status'' ''WAIT'') Leaf"
  have find: "state_tree_find ?t w = (if lower w = lower ''ups.status'' then Some (state_node_new ''ups.status'' ''WAIT'') else None)" for w
    by auto
  show "ordered ?t" by simp
  show "state_tree_find (dtree_root d) w \<noteq> None" if "state_tree_find ?t w = Some m" for w m
    using that assms(2) state_tree_find_case [of w "''ups.status''"] by (simp only: find split: if_splits) auto
  show "fresh_for n (state_tree_find ?t (st_var n))" if "n \<in> set_tree (dtree_root d)" for n
  proof (cases "st_key n = lower ''ups.status''")
    case True
    then have "n = st" using assms(1,2) that state_tree_find_iff [of "dtree_root d" "''ups.status''" n]
      by (simp add: sendable_def)
    moreover have "node_ok (state_node_new ''ups.status'' ''WAIT'')" by (rule state_node_new_ok) simp
    ultimately show ?thesis using True assms(3) by (simp only: find fresh_for_def) (auto simp: strcaseeq_iff)
  next
    case False
    then show ?thesis by (simp only: find fresh_for_def) simp
  qed
qed

lemma waiting_inv:
  assumes "sendable d"
  shows "st_inv (dtree_root d)"
    and "st_inv (foldl st_apply (Node Leaf (state_node_new ''ups.status'' ''WAIT'') Leaf)
       (concat (map node_ops (inorder (dtree_root d)))))"
proof -
  have ns: "\<And>n. n \<in> set_tree (dtree_root d) \<Longrightarrow> node_sendable n"
    using assms by (auto simp: sendable_def list_all_iff)
  with assms show "st_inv (dtree_root d)" by (auto simp: sendable_def st_inv_def node_sendable_def)
  have "op_ok x" if "n \<in> set_tree (dtree_root d)" "x \<in> set (node_ops n)" for n x
  proof -
    have "no_nul (st_raw n)" using ns [OF that(1)] by (auto simp: node_sendable_def value_ok_def word_char_no_nul)
    with that(2) show ?thesis by (auto simp: node_ops_def Let_def split: if_splits)
  qed
  moreover have "node_ok (state_node_new ''ups.status'' ''WAIT'')" by (rule state_node_new_ok) simp
  ultimately show "st_inv (foldl st_apply (Node Leaf (state_node_new ''ups.status'' ''WAIT'') Leaf)
       (concat (map node_ops (inorder (dtree_root d)))))"
    by (intro st_inv_run) (auto simp: st_inv_def list_all_iff)
qed

text \<open>C16: A server that connects to a driver and reads the driver's answer ends up with the
  driver's view. The driver answers the server's \<open>DUMPALL\<close> line with a finite series of lines;
  however the transport cuts their bytes into reads of at most 512 bytes, the server then has every
  variable of the driver and no other, with the same raw and visible value, auxiliary number,
  permitted values, ranges and protocol flags, the same command list, the data fresh exactly when the
  driver has it fresh (this is \<open>mirrored\<close>), and the dump marked as done.\<close>

theorem dump_rebuilds_driver_state:
  assumes "sendable d" and "conn_ok d i" and "ctx_ready (cn_ctx (connhead d ! i))"
    and "state_tree_find (dtree_root d) ''ups.status'' = Some st" and "\<not> strcaseeq (st_raw st) ''WAIT''"
    and "inforoot ups = Leaf" and "ups_cmdlist ups = []"
    and "sstate_connect ups (Connected fd plan) t0 = (ups0, fd)" and "0 \<le> fd"
  shows "\<exists>d' ls. sock_read d i (RdData (concat (sent (ups_sock ups0)))) = Some d' \<and>
     sent (cn_sock (connhead d' ! i)) = sent (cn_sock (connhead d ! i)) @ ls \<and>
     (\<forall>bs now. concat bs = concat ls \<and> list_all (\<lambda>b. length b \<le> SMALLBUF) bs \<longrightarrow>
       (\<exists>ups'. sstate_reads (ups0\<lparr>sock_fd := fd\<rparr>) now bs = Some ups' \<and>
          mirrored (d, ups') \<and> dumpdone ups' \<and> ctx_ready (sock_ctx ups')))"
proof -
  note c = connect_waits [OF assms(8,9,6,7)]
  note toks = dump_lines_toks [OF assms(1)]
  obtain d' where d': "sock_read d i (RdData (''DUMPALL'' @ nl)) = Some d'"
    "sent (cn_sock (connhead d' ! i)) = sent (cn_sock (connhead d ! i)) @ map message (dump_toks d)"
    using sock_read_dumpall [OF assms(2,3)] toks(1) by metis
  have rebuilt: "\<forall>v. rel_option same_info (state_tree_find (dtree_root d) v)
      (state_tree_find (foldl st_apply (inforoot ups0) (concat (map node_ops (inorder (dtree_root d))))) v)"
    using waiting_rebuilt [OF assms(1,4,5)] c(4) by simp
  have "\<exists>ups'. sstate_reads (ups0\<lparr>sock_fd := fd\<rparr>) now bs = Some ups' \<and>
      mirrored (d, ups') \<and> dumpdone ups' \<and> ctx_ready (sock_ctx ups')"
    if "concat bs = stream (dump_toks d)" "list_all (\<lambda>b. length b \<le> SMALLBUF) bs" for bs now
  proof -
    let ?u = "ups0\<lparr>sock_fd := fd\<rparr>"
    let ?ops = "concat (map node_ops (inorder (dtree_root d)))"
    have "sstate_reads ?u now bs = Some ((foldl dmsg_apply ?u (dump_msgs d))\<lparr>
        sock_ctx := feed (sock_ctx ?u) (stream (dump_toks d)),
        ups_last_heard := (if dump_msgs d = [] then ups_last_heard ?u else now)\<rparr>)"
      "ctx_ready (feed (sock_ctx ?u) (stream (dump_toks d)))"
      using that c(2) assms(9) toks(2) by (intro reads_stream; simp)+
    moreover have "foldl dmsg_apply ?u (dump_msgs d) =
        ?u\<lparr>data_ok := \<not> dstale d, inforoot := foldl st_apply (inforoot ?u) ?ops,
          ups_cmdlist := cmdhead d, dumpdone := True\<rparr>"
      using assms(1) c(3) by (intro dump_msgs_apply) (simp_all add: sendable_def)
    ultimately show ?thesis using rebuilt waiting_inv [OF assms(1)] by (simp add: mirrored_def c(4))
  qed
  with d' c(1) show ?thesis by auto
qed

text \<open>A driver with one server connected.\<close>

text \<open>The tree of the example driver, and the tree written out, with which the examples are evaluated.\<close>

definition demo_tree :: st_tree where
  "demo_tree = foldl st_apply Leaf
       [OpSetinfo ''ups.status'' ''OL CHRG'', OpSetinfo ''ups.id'' ''say \"hi\"'', OpSetflags ''ups.id'' [''RW'', ''STRING''],
        OpSetaux ''ups.id'' ''32'', OpSetinfo ''input.sensitivity'' ''low'', OpAddenum ''input.sensitivity'' ''low'',
        OpAddenum ''input.sensitivity'' ''high'', OpSetinfo ''input.transfer.low'' ''190'', OpAddrange ''input.transfer.low'' (-5) 200]"

abbreviation plain_node :: "string \<Rightarrow> string \<Rightarrow> string list \<Rightarrow> (int \<times> int) list \<Rightarrow> st_node" where
  "plain_node v x es rs \<equiv> (state_node_new v x)\<lparr>st_enum_list := es, st_range_list := rs\<rparr>"

lemma demo_tree_eq [code]:
  "demo_tree =
     Node
       (Node
         (Node Leaf (plain_node ''input.sensitivity'' ''low'' [''low'', ''high''] [])
           (Node Leaf (plain_node ''input.transfer.low'' ''190'' [] [(-5, 200)]) Leaf))
         ((state_node_new ''ups.id'' ''say \"hi\"'')\<lparr>st_flags := 3, st_aux := 32\<rparr>)
         Leaf)
       (plain_node ''ups.status'' ''OL CHRG'' [] [])
       Leaf"
  by code_simp

definition demo_driver :: dstate where
  "demo_driver = \<lparr>dtree_root = demo_tree,
     cmdhead = [''beeper.off'', ''load.on''], connhead = [\<lparr>cn_sock = sock_new [], cn_ctx = pconf_init zero_ctx\<rparr>],
     dstale = False, alarm_active = False, ignorelb = False, status_buf = [], alarm_buf = [],
     upsh_setvar = True, upsh_instcmd = True, upsh_calls = []\<rparr>"

lemma demo_driver_conn: "conn_ok demo_driver 0" "ctx_ready (cn_ctx (connhead demo_driver ! 0))"
  using pconf_init_ready [of zero_ctx] by (simp_all add: demo_driver_def conn_ok_def)

lemma byte_reads:
  "concat (map (\<lambda>c. [c]) xs) = xs" "list_all (\<lambda>b. length b \<le> SMALLBUF) (map (\<lambda>c. [c]) xs)" for xs :: string
  by (induction xs) (auto simp: SMALLBUF_def)

theorem dump_rebuilds_driver_state_witness:
  "\<exists>d' ls ups'. sock_read demo_driver 0 (RdData (''DUMPALL'' @ nl)) = Some d' \<and>
     sent (cn_sock (connhead d' ! 0)) = ls \<and>
     sstate_reads ((fst (sstate_connect upstype_zero (Connected 7 []) 3))\<lparr>sock_fd := 7\<rparr>) 4 (map (\<lambda>c. [c]) (concat ls)) = Some ups' \<and>
     ups_cmdlist ups' = [''beeper.off'', ''load.on''] \<and> dumpdone ups' \<and> data_ok ups' \<and>
     rel_option same_info (state_tree_find (dtree_root demo_driver) ''ups.id'') (state_tree_find (inforoot ups') ''ups.id'')"
proof -
  let ?ups0 = "fst (sstate_connect upstype_zero (Connected 7 []) 3)"
  have 1: "sendable demo_driver" by code_simp
  have 2: "state_tree_find (dtree_root demo_driver) ''ups.status'' = Some (state_node_new ''ups.status'' ''OL CHRG'')"
    by code_simp
  have 3: "\<not> strcaseeq (st_raw (state_node_new ''ups.status'' ''OL CHRG'')) ''WAIT''" by code_simp
  have 4: "inforoot upstype_zero = Leaf" "ups_cmdlist upstype_zero = []" by (simp_all add: upstype_zero_def)
  have 5: "sstate_connect upstype_zero (Connected 7 []) 3 = (?ups0, 7)" by (simp add: sstate_connect_def)
  have 6: "concat (sent (ups_sock ?ups0)) = ''DUMPALL'' @ nl" "sent (cn_sock (connhead demo_driver ! 0)) = []"
    "cmdhead demo_driver = [''beeper.off'', ''load.on'']" "\<not> dstale demo_driver"
    by (simp_all add: sstate_connect_def demo_driver_def)
  obtain d' ls where d': "sock_read demo_driver 0 (RdData (''DUMPALL'' @ nl)) = Some d'"
      "sent (cn_sock (connhead d' ! 0)) = ls"
    and all: "\<And>bs now. concat bs = concat ls \<and> list_all (\<lambda>b. length b \<le> SMALLBUF) bs \<Longrightarrow>
       \<exists>ups'. sstate_reads (?ups0\<lparr>sock_fd := 7\<rparr>) now bs = Some ups' \<and>
          mirrored (demo_driver, ups') \<and> dumpdone ups' \<and> ctx_ready (sock_ctx ups')"
    using dump_rebuilds_driver_state [OF 1 demo_driver_conn 2 3 4 5 zero_le_numeral] unfolding 6(1,2) append_Nil by metis
  from all [of "map (\<lambda>c. [c]) (concat ls)" 4] byte_reads obtain ups' where
    "sstate_reads (?ups0\<lparr>sock_fd := 7\<rparr>) 4 (map (\<lambda>c. [c]) (concat ls)) = Some ups'"
    "mirrored (demo_driver, ups')" "dumpdone ups'"
    by metis
  with d' 6(3,4) show ?thesis unfolding mirrored_def by auto
qed

section \<open>Keeping the copies equal\<close>

text \<open>The calls of a driver that change its state, other than the deletion of ranges and the
  addition of a range, whose broadcast has an empty place between two words.\<close>

datatype drv_op =
    DrvSetinfo string string | DrvDelinfo string | DrvAddenum string string | DrvDelenum string string
  | DrvSetaux string int | DrvSetflags string "32 word" | DrvAddcmd string | DrvDelcmd string
  | DrvDataok | DrvDatastale

fun drv_apply :: "dstate \<Rightarrow> drv_op \<Rightarrow> dstate" where
  "drv_apply d (DrvSetinfo v x) = fst (dstate_setinfo d v x)"
| "drv_apply d (DrvDelinfo v) = fst (dstate_delinfo d v)"
| "drv_apply d (DrvAddenum v x) = fst (dstate_addenum d v x)"
| "drv_apply d (DrvDelenum v x) = fst (dstate_delenum d v x)"
| "drv_apply d (DrvSetaux v a) = dstate_setaux d v a"
| "drv_apply d (DrvSetflags v fl) = dstate_setflags d v fl"
| "drv_apply d (DrvAddcmd c) = dstate_addcmd d c"
| "drv_apply d (DrvDelcmd c) = fst (dstate_delcmd d c)"
| "drv_apply d DrvDataok = dstate_dataok d"
| "drv_apply d DrvDatastale = dstate_datastale d"

text \<open>Names and values that reach the server as they are: no character of the value needs an
  escape, and flags that the protocol can express.\<close>

definition clear_value :: "string \<Rightarrow> bool" where
  "clear_value x \<longleftrightarrow> value_ok x \<and> escape x = x"

fun drv_ok :: "drv_op \<Rightarrow> bool" where
  "drv_ok (DrvSetinfo v x) = (name_ok v \<and> clear_value x)"
| "drv_ok (DrvDelinfo v) = name_ok v"
| "drv_ok (DrvAddenum v x) = (name_ok v \<and> clear_value x)"
| "drv_ok (DrvDelenum v x) = (name_ok v \<and> clear_value x)"
| "drv_ok (DrvSetaux v a) = (name_ok v \<and> in_int32 a)"
| "drv_ok (DrvSetflags v fl) = (name_ok v \<and> flag_words fl \<noteq> [])"
| "drv_ok (DrvAddcmd c) = name_ok c"
| "drv_ok (DrvDelcmd c) = name_ok c"
| "drv_ok DrvDataok = True"
| "drv_ok DrvDatastale = True"

text \<open>What the call broadcasts.\<close>

fun drv_msgs :: "dstate \<Rightarrow> drv_op \<Rightarrow> dmsg list" where
  "drv_msgs d (DrvSetinfo v x) = (if snd (state_setinfo (dtree_root d) v x) = 1 then [DInfo (OpSetinfo v x)] else [])"
| "drv_msgs d (DrvDelinfo v) = (if snd (state_delinfo (dtree_root d) v) = 1 then [DInfo (OpDelinfo v)] else [])"
| "drv_msgs d (DrvAddenum v x) = (if snd (state_addenum (dtree_root d) v x) = 1 then [DInfo (OpAddenum v x)] else [])"
| "drv_msgs d (DrvDelenum v x) = (if snd (state_delenum (dtree_root d) v x) = 1 then [DInfo (OpDelenum v x)] else [])"
| "drv_msgs d (DrvSetaux v a) = (case state_tree_find (dtree_root d) v of None \<Rightarrow> []
     | Some n \<Rightarrow> if st_aux n = a then [] else [DInfo (OpSetaux v (show_int a))])"
| "drv_msgs d (DrvSetflags v fl) = (case state_tree_find (dtree_root d) v of None \<Rightarrow> []
     | Some n \<Rightarrow> if st_flags n AND ST_FLAG_IMMUTABLE \<noteq> 0 \<or> st_flags n = fl then []
               else [DInfo (OpSetflags v (flag_words fl))])"
| "drv_msgs d (DrvAddcmd c) = (if snd (state_addcmd (cmdhead d) c) = 1 then [DAddcmd c] else [])"
| "drv_msgs d (DrvDelcmd c) = (if snd (state_delcmd (cmdhead d) c) = 1 then [DDelcmd c] else [])"
| "drv_msgs d DrvDataok = (if dstale d then [DDataok] else [])"
| "drv_msgs d DrvDatastale = (if dstale d then [] else [DDatastale])"

fun msg_toks :: "dmsg \<Rightarrow> tok list" where
  "msg_toks (DInfo (OpSetinfo v x)) = [Plain ''SETINFO'', Plain v, Quoted x]"
| "msg_toks (DInfo (OpAddenum v x)) = [Plain ''ADDENUM'', Plain v, Quoted x]"
| "msg_toks (DInfo (OpDelenum v x)) = [Plain ''DELENUM'', Plain v, Quoted x]"
| "msg_toks m = map Plain (dmsg_words m)"

definition conns_ok :: "dstate \<Rightarrow> bool" where
  "conns_ok d \<longleftrightarrow> list_all (\<lambda>c. wplan (cn_sock c) = []) (connhead d)"

definition tell_all :: "conn list \<Rightarrow> string list \<Rightarrow> conn list" where
  "tell_all cs ls = map (\<lambda>c. c\<lparr>cn_sock := (cn_sock c)\<lparr>sent := sent (cn_sock c) @ ls\<rparr>\<rparr>) cs"

lemma tell_all_Nil [simp]: "tell_all cs [] = cs"
  by (simp add: tell_all_def map_idI)

lemma send_to_all_ok:
  "conns_ok d \<Longrightarrow> txt \<noteq> [] \<Longrightarrow>
   send_to_all d txt = d\<lparr>connhead := tell_all (connhead d) [snprintf ST_SOCK_BUF_LEN txt]\<rparr>"
proof -
  assume "conns_ok d" "txt \<noteq> []"
  moreover have "list_all (\<lambda>c. wplan (cn_sock c) = []) cs \<Longrightarrow> send_conns cs buf = tell_all cs [buf]" for cs buf
    by (induction cs) (simp_all add: tell_all_def)
  ultimately show ?thesis by (simp add: send_to_all_def conns_ok_def)
qed

lemma line_delenum:
  assumes "name_ok v" "value_ok x"
  shows "snprintf ST_SOCK_BUF_LEN (''DELENUM '' @ v @ '' '' @ quoted (escape x) @ nl) =
           message [Plain ''DELENUM'', Plain v, Quoted x]"
    and "carries [Plain ''DELENUM'', Plain v, Quoted x] (DInfo (OpDelenum v x))"
  using assms escape_length [of x]
  by (auto simp: name_ok_def value_ok_def line_fits message_def intro!: carries_intro)

lemmas broadcast_lines = line_setinfo line_addenum line_delenum line_setaux line_setflags line_cmd line_flags

lemmas dstate_ops = dstate_setinfo_def dstate_delinfo_def dstate_addenum_def dstate_delenum_def
  dstate_setaux_def dstate_setflags_def dstate_addcmd_def dstate_delcmd_def dstate_dataok_def dstate_datastale_def

lemma conns_ok_upd [simp]:
  "conns_ok (d\<lparr>dtree_root := t\<rparr>) = conns_ok d" "conns_ok (d\<lparr>cmdhead := cs\<rparr>) = conns_ok d"
  "conns_ok (d\<lparr>dstale := b\<rparr>) = conns_ok d" "conns_ok (d\<lparr>connhead := tell_all (connhead d) ls\<rparr>) = conns_ok d"
  by (simp_all add: conns_ok_def tell_all_def list_all_iff)

lemma clear_line:
  assumes "clear_value x" "name_ok v"
  shows "snprintf ST_MAX_VALUE_LEN x = x"
    "snprintf ST_SOCK_BUF_LEN (''SETINFO '' @ v @ '' '' @ quoted x @ nl) = message [Plain ''SETINFO'', Plain v, Quoted x]"
    "snprintf ST_SOCK_BUF_LEN (''ADDENUM '' @ v @ '' '' @ quoted x @ nl) = message [Plain ''ADDENUM'', Plain v, Quoted x]"
    "snprintf ST_SOCK_BUF_LEN (''DELENUM '' @ v @ '' '' @ quoted x @ nl) = message [Plain ''DELENUM'', Plain v, Quoted x]"
  using assms line_setinfo(1) [of v x] line_addenum(1) [of v x] line_delenum(1) [of v x] escape_length [of x]
  by (auto simp: clear_value_def value_ok_def ST_MAX_VALUE_LEN_def)

lemma drv_apply_sends:
  assumes "drv_ok x" "conns_ok d"
  shows "connhead (drv_apply d x) = tell_all (connhead d) (map message (map msg_toks (drv_msgs d x)))"
proof (cases x)
  case (DrvSetinfo v y)
  with assms clear_line [of y v] show ?thesis
    by (auto simp: dstate_ops send_to_all_ok case_prod_unfold Let_def)
next
  case (DrvAddenum v y)
  with assms clear_line [of y v] show ?thesis
    by (auto simp: dstate_ops send_to_all_ok case_prod_unfold Let_def)
next
  case (DrvDelenum v y)
  with assms clear_line [of y v] show ?thesis
    by (auto simp: dstate_ops send_to_all_ok case_prod_unfold Let_def)
next
  case (DrvSetaux v a)
  with assms line_setaux(1) [of v a] show ?thesis
    by (auto simp: dstate_ops send_to_all_ok split: option.splits)
next
  case (DrvSetflags v fl)
  with assms line_setflags(1) [of v fl] show ?thesis
    by (auto simp: dstate_ops send_to_all_ok split: option.splits)
qed (use assms line_cmd(1,3,5) line_flags(1,3,5) in
    \<open>auto simp: dstate_ops send_to_all_ok case_prod_unfold Let_def\<close>)

lemma drv_msgs_carried:
  assumes "drv_ok x"
  shows "list_all2 carries (map msg_toks (drv_msgs d x)) (drv_msgs d x)"
  using assms broadcast_lines
  by (cases x) (auto simp: clear_value_def split: option.splits)

definition mirror_step :: "dstate \<times> upstype \<Rightarrow> drv_op \<Rightarrow> dstate \<times> upstype" where
  "mirror_step p x = (case p of (d, u) \<Rightarrow> (drv_apply d x, foldl dmsg_apply u (drv_msgs d x)))"

lemma same_info_flags: "same_info n m \<Longrightarrow> st_flags m AND ST_FLAG_IMMUTABLE = 0"
  by (simp add: same_info_def ST_FLAG_RW_def ST_FLAG_STRING_def ST_FLAG_IMMUTABLE_def and.assoc)

text \<open>An operation with the same effect on both sides.\<close>

lemma same_eff:
  assumes "rel_option same_info a b" "\<And>n. a = Some n \<Longrightarrow> node_ok n" "\<And>n. b = Some n \<Longrightarrow> node_ok n" "op_ok x"
    and "\<And>v y n. x = OpSetinfo v y \<Longrightarrow> a = Some n \<Longrightarrow> snd (state_node_set n y) = 1"
    and "\<And>v fs. x \<noteq> OpSetflags v fs"
  shows "rel_option same_info (node_eff x a) (node_eff x b)"
proof (cases a)
  case None
  then have "b = None" using assms(1) by simp
  moreover have "flags AND 0 = 0" for flags :: "32 word" by simp
  ultimately show ?thesis using None assms(6) by (cases x) (auto simp: same_info_def)
next
  case (Some n)
  then obtain m where m: "b = Some m" "same_info n m" using assms(1) by (auto simp: option_rel_Some1)
  show ?thesis
  proof (cases x)
    case (OpSetinfo v y)
    have "st_raw (fst (state_node_set n y)) = y" "st_raw (fst (state_node_set m y)) = y"
      using assms(5) [OF OpSetinfo Some] same_info_flags [OF m(2)] m(2)
      by (auto simp: state_node_set_rc state_node_set_raw same_info_def split: if_splits)
    moreover have "node_ok (fst (state_node_set n y))" "node_ok (fst (state_node_set m y))"
      using assms(2-4) Some m(1) OpSetinfo by (auto intro: state_node_set_ok)
    ultimately show ?thesis using OpSetinfo Some m by (simp add: same_info_def node_ok_def)
  qed (use Some m assms(6) in \<open>auto simp: same_info_def\<close>)
qed

lemma mirrored_info:
  assumes "mirrored (d, u)" "op_ok x" "\<And>v fs. x \<noteq> OpSetflags v fs"
    and "\<And>v y n. x = OpSetinfo v y \<Longrightarrow> state_tree_find (dtree_root d) v = Some n \<Longrightarrow> snd (state_node_set n y) = 1"
  shows "mirrored (d\<lparr>dtree_root := st_apply (dtree_root d) x\<rparr>, dmsg_apply u (DInfo x))"
proof -
  let ?t = "dtree_root d" let ?r = "inforoot u"
  have t: "st_inv ?t" "st_inv ?r" "ordered ?t" "ordered ?r"
    and rel: "rel_option same_info (state_tree_find ?t v) (state_tree_find ?r v)" for v
    using assms(1) by (auto simp: mirrored_def st_inv_def)
  have "rel_option same_info (state_tree_find (st_apply ?t x) v) (state_tree_find (st_apply ?r x) v)" for v
  proof (cases "strcaseeq v (op_var x)")
    case True
    then have case_v: "state_tree_find ?t v = state_tree_find ?t (op_var x)"
      by (intro state_tree_find_case) (simp add: strcaseeq_iff)
    have "rel_option same_info (node_eff x (state_tree_find ?t v)) (node_eff x (state_tree_find ?r v))"
    proof (rule same_eff [OF rel _ _ assms(2)])
      show "snd (state_node_set n y) = 1" if "x = OpSetinfo w y" "state_tree_find ?t v = Some n" for w y n
        using that case_v assms(4) [of w y n] by simp
    qed (use t assms(3) in \<open>auto intro: st_inv_find\<close>)
    with True show ?thesis unfolding find_st_apply [OF t(3)] find_st_apply [OF t(4)] by simp
  next
    case False
    with rel show ?thesis unfolding find_st_apply [OF t(3)] find_st_apply [OF t(4)] by simp
  qed
  with assms(1) t assms(2) show ?thesis by (simp add: mirrored_def st_inv_apply)
qed

lemma mirrored_conn [simp]: "mirrored (d\<lparr>connhead := cs\<rparr>, u) = mirrored (d, u)"
  by (simp add: mirrored_def)

lemma mirrored_send [simp]: "mirrored (send_to_all d txt, u) = mirrored (d, u)"
  by (simp add: send_to_all_def)

text \<open>An operation that changes nothing the server can see.\<close>

lemma mirrored_unchanged:
  assumes "mirrored (d, u)" "st_inv t" "\<And>v. state_tree_find t v = state_tree_find (dtree_root d) v"
  shows "mirrored (d\<lparr>dtree_root := t\<rparr>, u)"
  using assms by (simp add: mirrored_def)

lemma mirrored_flags:
  assumes "mirrored (d, u)" "state_tree_find (dtree_root d) v = Some n"
  shows "mirrored (d\<lparr>dtree_root := state_tree_write (dtree_root d) v (n\<lparr>st_flags := fl\<rparr>)\<rparr>,
           dmsg_apply u (DInfo (OpSetflags v (flag_words fl))))"
proof -
  let ?t = "dtree_root d" let ?r = "inforoot u" let ?n = "n\<lparr>st_flags := fl\<rparr>"
  have t: "st_inv ?t" "st_inv ?r" "ordered ?r"
    and rel: "rel_option same_info (state_tree_find ?t w) (state_tree_find ?r w)" for w
    using assms(1) by (auto simp: mirrored_def st_inv_def)
  have inv: "st_inv (state_tree_write ?t v ?n)"
    using t(1) assms(2) set_state_tree_write [of ?t v ?n] st_inv_find [OF t(1) assms(2)] state_tree_find_SomeD [OF assms(2)]
    by (auto simp: st_inv_def intro!: ordered_state_tree_write)
  have "rel_option same_info (state_tree_find (state_tree_write ?t v ?n) w)
      (state_tree_find (st_apply ?r (OpSetflags v (flag_words fl))) w)" for w
  proof (cases "lower w = lower v")
    case True
    then obtain m where "state_tree_find ?r w = Some m" "same_info n m"
      using rel [of w] assms(2) state_tree_find_case [OF True, of ?t] by (auto simp: option_rel_Some1)
    then have "rel_option same_info (Some ?n) (Some (m\<lparr>st_flags := setflags_loop (flag_words fl) 0\<rparr>))"
      by (simp add: same_info_def flags_kept)
    with True \<open>state_tree_find ?r w = Some m\<close> show ?thesis
      unfolding find_st_apply [OF t(3)] find_state_tree_write_found [OF assms(2), of ?n, simplified]
      by (simp add: strcaseeq_iff)
  next
    case False
    with rel [of w] show ?thesis
      unfolding find_st_apply [OF t(3)] find_state_tree_write_found [OF assms(2), of ?n, simplified]
      by (simp add: strcaseeq_iff)
  qed
  with assms(1) inv t show ?thesis
    using st_inv_apply [OF t(2), of "OpSetflags v (flag_words fl)"] by (simp add: mirrored_def)
qed

lemma state_delinfo_rc: "snd (state_delinfo t v) = (if state_tree_find t v = None then 0 else 1)"
  by (induction t) (auto simp: case_prod_unfold Let_def)

lemma enum_add_kept: "snd (st_tree_enum_add es e) \<noteq> 1 \<Longrightarrow> fst (st_tree_enum_add es e) = es"
  by (induction es) (auto simp: case_prod_unfold Let_def split: if_splits)

lemma del_enum_kept: "snd (st_tree_del_enum es e) \<noteq> 1 \<Longrightarrow> fst (st_tree_del_enum es e) = es"
  by (induction es) (auto simp: case_prod_unfold Let_def split: if_splits)

lemma addcmd_kept: "snd (state_addcmd cs c) \<noteq> 1 \<Longrightarrow> fst (state_addcmd cs c) = cs"
  by (induction cs) (auto simp: case_prod_unfold Let_def split: if_splits)

lemma delcmd_kept: "snd (state_delcmd cs c) \<noteq> 1 \<Longrightarrow> fst (state_delcmd cs c) = cs"
  by (induction cs) (auto simp: case_prod_unfold Let_def split: if_splits)

text \<open>A call that reports no change has left every variable as it was.\<close>

lemma quiet_call:
  assumes "ordered t"
  shows "snd (state_setinfo t v y) \<noteq> 1 \<Longrightarrow> state_tree_find (fst (state_setinfo t v y)) w = state_tree_find t w"
    and "snd (state_delinfo t v) \<noteq> 1 \<Longrightarrow> state_tree_find (fst (state_delinfo t v)) w = state_tree_find t w"
    and "snd (state_addenum t v y) \<noteq> 1 \<Longrightarrow> state_tree_find (fst (state_addenum t v y)) w = state_tree_find t w"
    and "snd (state_delenum t v y) \<noteq> 1 \<Longrightarrow> state_tree_find (fst (state_delenum t v y)) w = state_tree_find t w"
proof -
  have same: "state_tree_find (state_tree_write t v n) w = state_tree_find t w" if "state_tree_find t v = Some n" for n
  proof (cases "lower w = lower v")
    case True
    with that state_tree_find_case [OF True, of t] show ?thesis by (simp add: find_state_tree_write_found)
  qed (use that in \<open>simp add: find_state_tree_write_found\<close>)
  show "state_tree_find (fst (state_setinfo t v y)) w = state_tree_find t w" if "snd (state_setinfo t v y) \<noteq> 1"
    using that state_setinfo_unchanged [of t v y]
    by (auto simp: state_setinfo_rc state_node_set_rc split: option.splits if_splits)
  show "state_tree_find (fst (state_delinfo t v)) w = state_tree_find t w" if "snd (state_delinfo t v) \<noteq> 1"
    using that state_tree_find_case [of w v t] by (auto simp: state_delinfo_rc find_state_delinfo [OF assms] split: if_splits)
  show "state_tree_find (fst (state_addenum t v y)) w = state_tree_find t w" if "snd (state_addenum t v y) \<noteq> 1"
    using that same by (auto simp: state_addenum_def case_prod_unfold Let_def enum_add_kept split: option.splits)
  show "state_tree_find (fst (state_delenum t v y)) w = state_tree_find t w" if "snd (state_delenum t v y) \<noteq> 1"
    using that same by (auto simp: state_delenum_def case_prod_unfold Let_def del_enum_kept split: option.splits)
qed

lemma mirrored_quiet:
  assumes "mirrored (d, u)" "op_ok x" "\<And>w. state_tree_find (st_apply (dtree_root d) x) w = state_tree_find (dtree_root d) w"
  shows "mirrored (d\<lparr>dtree_root := st_apply (dtree_root d) x\<rparr>, u)"
  using assms by (intro mirrored_unchanged) (auto simp: mirrored_def st_inv_apply)

lemma clear_no_nul: "clear_value x \<Longrightarrow> no_nul x"
  by (auto simp: clear_value_def value_ok_def list_all_iff)

lemma setaux_apply:
  assumes "in_int32 a" "state_tree_find t v = Some n" "st_aux n \<noteq> a"
  shows "state_tree_write t v (n\<lparr>st_aux := a\<rparr>) = st_apply t (OpSetaux v (show_int a))"
  using assms by (simp add: state_setaux_def strtol_int32 Let_def)

lemma mirrored_step:
  assumes "mirrored (d, u)" "drv_ok x"
  shows "mirrored (drv_apply d x, foldl dmsg_apply u (drv_msgs d x))"
proof -
  have o: "ordered (dtree_root d)" using assms(1) by (simp add: mirrored_def st_inv_def)
  note quiet = quiet_call [OF o] and info = mirrored_info [OF assms(1)] and unch = mirrored_quiet [OF assms(1)]
  show ?thesis
  proof (cases x)
    case (DrvSetinfo v y)
    then have y: "snprintf ST_MAX_VALUE_LEN y = y" "no_nul y" using assms(2) clear_line(1) clear_no_nul by auto
    have "snd (state_setinfo (dtree_root d) v y) = 1 \<Longrightarrow> state_tree_find (dtree_root d) v = Some n \<Longrightarrow>
        snd (state_node_set n y) = 1" for n
      by (simp add: state_setinfo_rc)
    then show ?thesis
      using info [of "OpSetinfo v y"] unch [of "OpSetinfo v y"] quiet(1) [of v y] y DrvSetinfo
      by (cases "snd (state_setinfo (dtree_root d) v y) = 1") (auto simp: dstate_setinfo_def case_prod_unfold Let_def)
  next
    case (DrvDelinfo v)
    show ?thesis
      using info [of "OpDelinfo v"] unch [of "OpDelinfo v"] quiet(2) [of v] DrvDelinfo
      by (cases "snd (state_delinfo (dtree_root d) v) = 1") (auto simp: dstate_delinfo_def case_prod_unfold Let_def)
  next
    case (DrvAddenum v y)
    then have y: "snprintf ST_MAX_VALUE_LEN y = y" using assms(2) clear_line(1) by auto
    show ?thesis
      using info [of "OpAddenum v y"] unch [of "OpAddenum v y"] quiet(3) [of v y] y DrvAddenum
      by (cases "snd (state_addenum (dtree_root d) v y) = 1") (auto simp: dstate_addenum_def case_prod_unfold Let_def)
  next
    case (DrvDelenum v y)
    show ?thesis
      using info [of "OpDelenum v y"] unch [of "OpDelenum v y"] quiet(4) [of v y] DrvDelenum
      by (cases "snd (state_delenum (dtree_root d) v y) = 1") (auto simp: dstate_delenum_def case_prod_unfold Let_def)
  next
    case (DrvSetaux v a)
    with info [of "OpSetaux v (show_int a)"] assms show ?thesis
      by (auto simp: dstate_setaux_def setaux_apply simp del: st_apply.simps split: option.splits)
  next
    case (DrvSetflags v fl)
    with mirrored_flags [OF assms(1), of v] assms(1) show ?thesis
      by (auto simp: dstate_setflags_def simp del: dmsg_apply.simps split: option.splits)
  next
    case (DrvAddcmd c)
    with assms(1) show ?thesis
      by (auto simp: dstate_addcmd_def case_prod_unfold Let_def mirrored_def send_to_all_def addcmd_kept)
  next
    case (DrvDelcmd c)
    with assms(1) show ?thesis
      by (auto simp: dstate_delcmd_def case_prod_unfold Let_def mirrored_def send_to_all_def delcmd_kept)
  qed (use assms(1) in \<open>auto simp: dstate_dataok_def dstate_datastale_def mirrored_def send_to_all_def\<close>)
qed

interpretation mirror: guarded_loop mirror_step drv_ok mirrored
  by unfold_locales (auto simp: mirror_step_def mirrored_step split: prod.splits)

fun run_msgs :: "dstate \<Rightarrow> drv_op list \<Rightarrow> dmsg list" where
  "run_msgs d [] = []"
| "run_msgs d (x # xs) = drv_msgs d x @ run_msgs (drv_apply d x) xs"

lemma mirror_run: "foldl mirror_step (d, u) xs = (foldl drv_apply d xs, foldl dmsg_apply u (run_msgs d xs))"
  by (induction xs arbitrary: d u) (simp_all add: mirror_step_def)

lemma tell_all_append [simp]: "tell_all (tell_all cs xs) ys = tell_all cs (xs @ ys)"
  by (simp add: tell_all_def)

lemma conns_ok_apply: "drv_ok x \<Longrightarrow> conns_ok d \<Longrightarrow> conns_ok (drv_apply d x)"
  using drv_apply_sends [of x d] by (simp add: conns_ok_def tell_all_def list_all_iff)

lemma run_sends:
  "list_all drv_ok xs \<Longrightarrow> conns_ok d \<Longrightarrow>
   connhead (foldl drv_apply d xs) = tell_all (connhead d) (map message (map msg_toks (run_msgs d xs))) \<and>
   list_all2 carries (map msg_toks (run_msgs d xs)) (run_msgs d xs)"
  by (induction xs arbitrary: d)
    (auto simp: drv_apply_sends conns_ok_apply intro!: list_all2_appendI drv_msgs_carried)

lemma calls_reach_server:
  assumes "mirrored (d, ups)" and "conns_ok d" and "i < length (connhead d)" and "list_all drv_ok xs"
    and "0 \<le> sock_fd ups" and "ctx_ready (sock_ctx ups)"
  shows "\<exists>ls. sent (cn_sock (connhead (foldl drv_apply d xs) ! i)) = sent (cn_sock (connhead d ! i)) @ ls \<and>
     (\<forall>bs now. concat bs = concat ls \<and> list_all (\<lambda>b. length b \<le> SMALLBUF) bs \<longrightarrow>
       (\<exists>ups'. sstate_reads ups now bs = Some ups' \<and> mirrored (foldl drv_apply d xs, ups') \<and>
          ctx_ready (sock_ctx ups')))"
proof -
  let ?ms = "run_msgs d xs"
  note s = run_sends [OF assms(4,2)]
  have m: "mirrored (foldl drv_apply d xs, foldl dmsg_apply ups ?ms)"
    using mirror.run_inv [OF assms(1,4)] by (simp add: mirror_run)
  have "\<exists>ups'. sstate_reads ups now bs = Some ups' \<and> mirrored (foldl drv_apply d xs, ups') \<and> ctx_ready (sock_ctx ups')"
    if "concat bs = stream (map msg_toks ?ms)" "list_all (\<lambda>b. length b \<le> SMALLBUF) bs" for bs now
    using reads_stream [OF assms(5,6) conjunct2 [OF s] that] m by (simp add: mirrored_def)
  with s assms(3) show ?thesis by (auto simp: tell_all_def)
qed

text \<open>C17: From then on the server follows the driver. Take a driver and a server entry that is a
  copy of it, and let the driver make any sequence of calls that set and delete variables and their
  enumerated values, set the auxiliary number, set flags (at least one of those the protocol has a word for), add and delete
  commands and report the state of the data, with printable values that need no
  escaping. Excluded are calls that take all flags away or delete a range, which the
  server does not follow, and calls that add a range, whose line is not made of words with single blanks. Each connection receives the broadcast lines of the calls that changed something;
  however their bytes are cut into reads of at most 512 bytes, the server accepts all of them and
  its entry is again a copy of the driver's state.\<close>

theorem server_copy_follows_driver:
  assumes "mirrored (d, ups)" and "conns_ok d" and "i < length (connhead d)" and "list_all drv_ok xs"
    and "0 \<le> sock_fd ups" and "ctx_ready (sock_ctx ups)"
  shows "\<exists>ls. sent (cn_sock (connhead (foldl drv_apply d xs) ! i)) = sent (cn_sock (connhead d ! i)) @ ls \<and>
     (\<forall>bs now. concat bs = concat ls \<and> list_all (\<lambda>b. length b \<le> SMALLBUF) bs \<longrightarrow>
       (\<exists>ups'. sstate_reads ups now bs = Some ups' \<and> mirrored (foldl drv_apply d xs, ups') \<and>
          ctx_ready (sock_ctx ups')))"
  using calls_reach_server [OF assms] .

theorem server_copy_follows_driver_witness:
  "\<exists>ls ups'. sent (cn_sock (connhead (foldl drv_apply (demo_driver\<lparr>dtree_root := Leaf, cmdhead := []\<rparr>)
       [DrvSetinfo ''ups.status'' ''OB'', DrvAddcmd ''load.off'', DrvSetinfo ''ups.status'' ''OB LB'']) ! 0)) = ls \<and>
     sstate_reads (upstype_open\<lparr>data_ok := True\<rparr>) 9 (map (\<lambda>c. [c]) (concat ls)) = Some ups' \<and>
     state_getinfo (inforoot ups') ''ups.status'' = Some ''OB LB'' \<and> ups_cmdlist ups' = [''load.off'']"
proof -
  let ?d = "demo_driver\<lparr>dtree_root := Leaf, cmdhead := []\<rparr>" and ?u = "upstype_open\<lparr>data_ok := True\<rparr>"
  let ?xs = "[DrvSetinfo ''ups.status'' ''OB'', DrvAddcmd ''load.off'', DrvSetinfo ''ups.status'' ''OB LB'']"
  have 1: "mirrored (?d, ?u)" by (simp add: mirrored_def demo_driver_def upstype_open_def upstype_zero_def)
  have 2: "conns_ok ?d" "0 < length (connhead ?d)" "sent (cn_sock (connhead ?d ! 0)) = []"
    by (simp_all add: conns_ok_def demo_driver_def)
  have 3: "list_all drv_ok ?xs" by code_simp
  have 4: "0 \<le> sock_fd ?u" "ctx_ready (sock_ctx ?u)" using upstype_open_ready by simp_all
  obtain ls where ls: "sent (cn_sock (connhead (foldl drv_apply ?d ?xs) ! 0)) = ls"
    and all: "\<And>bs now. concat bs = concat ls \<and> list_all (\<lambda>b. length b \<le> SMALLBUF) bs \<Longrightarrow>
       \<exists>ups'. sstate_reads ?u now bs = Some ups' \<and> mirrored (foldl drv_apply ?d ?xs, ups') \<and> ctx_ready (sock_ctx ups')"
    using server_copy_follows_driver [OF 1 2(1,2) 3 4] unfolding 2(3) append_Nil by metis
  from all [of "map (\<lambda>c. [c]) (concat ls)" 9] byte_reads obtain ups' where
    ups': "sstate_reads ?u 9 (map (\<lambda>c. [c]) (concat ls)) = Some ups'" "mirrored (foldl drv_apply ?d ?xs, ups')"
    by metis
  have "state_getinfo (dtree_root (foldl drv_apply ?d ?xs)) ''ups.status'' = Some ''OB LB''"
    "cmdhead (foldl drv_apply ?d ?xs) = [''load.off'']"
    by code_simp+
  with mirrored_getinfo [OF ups'(2)] have "state_getinfo (inforoot ups') ''ups.status'' = Some ''OB LB''"
    "ups_cmdlist ups' = [''load.off'']"
    by simp_all
  with ls ups'(1) show ?thesis by blast
qed

section \<open>Where the copies part\<close>

lemma read_loop_words:
  assumes "ctx_ready (sock_ctx ups)" "msg_ok PCONF_DEFAULT_ARG_LIMIT PCONF_DEFAULT_WORDLEN_LIMIT ts"
  shows "sstate_read_loop ups now (message ts) =
     sst_line now (Some (ups\<lparr>sock_ctx := feed (sock_ctx ups) (message ts)\<rparr>))"
  using driver_line.loop_message [of "Some ups", OF _ _ assms(2), of now "[]"] assms(1)
  by (simp add: sst_defs split: option.splits prod.splits)

lemma broadcast_gaps_facts:
  assumes "name_ok v" "ctx_ready (sock_ctx ups)" "conns_ok d" "i < length (connhead d)"
    and "state_tree_find (dtree_root d) v = Some n" "st_flags n AND ST_FLAG_IMMUTABLE = 0" "st_flags n \<noteq> 0"
  shows "st_flags (the (state_tree_find (dtree_root (dstate_setflags d v 0)) v)) = 0"
    and "\<exists>l. sent (cn_sock (connhead (dstate_setflags d v 0) ! i)) = sent (cn_sock (connhead d ! i)) @ [l] \<and>
       sstate_read_loop ups now l = Some (ups\<lparr>sock_ctx := feed (sock_ctx ups) l\<rparr>)"
proof -
  have fl: "flag_list v 0 = v" using assms(1) by (simp add: flag_list_eq flag_words_def name_ok_def)
  let ?ts = "[Plain ''SETFLAGS'', Plain v]"
  have l: "snprintf ST_SOCK_BUF_LEN (''SETFLAGS '' @ flag_list v 0 @ nl) = message ?ts"
    using assms(1) by (simp add: fl name_ok_def line_fits message_def)
  have ok: "msg_ok PCONF_DEFAULT_ARG_LIMIT PCONF_DEFAULT_WORDLEN_LIMIT ?ts"
    using assms(1) by (auto simp: msg_ok_def name_ok_def)
  let ?c = "feed (sock_ctx ups) (message ?ts)"
  note f = feed_message [OF assms(2) ok]
  have "parse_args (ups\<lparr>sock_ctx := ?c\<rparr>) (numargs ?c) (arglist ?c) = Some (ups\<lparr>sock_ctx := ?c\<rparr>, 0)"
  proof -
    have words: "take 2 (arglist ?c) = [''SETFLAGS'', v]" using f(4,5) by (simp add: numeral_2_eq_2)
    have arg: "arglist ?c = [''SETFLAGS'', v] @ drop 2 (arglist ?c)"
      using append_take_drop_id [of 2 "arglist ?c"] unfolding words by (rule sym)
    show ?thesis using f(5) by (subst arg) (simp add: parse_args_def strcaseeq_eval)
  qed
  then have "sstate_read_loop ups now (message ?ts) = Some (ups\<lparr>sock_ctx := ?c\<rparr>)"
    unfolding read_loop_words [OF assms(2) ok] by (simp add: sst_line_def)
  with assms l show "\<exists>l. sent (cn_sock (connhead (dstate_setflags d v 0) ! i)) = sent (cn_sock (connhead d ! i)) @ [l] \<and>
       sstate_read_loop ups now l = Some (ups\<lparr>sock_ctx := feed (sock_ctx ups) l\<rparr>)"
    by (simp add: dstate_setflags_def send_to_all_ok tell_all_def)
  show "st_flags (the (state_tree_find (dtree_root (dstate_setflags d v 0)) v)) = 0"
    using assms find_state_tree_write_found [OF assms(5), of "n\<lparr>st_flags := 0\<rparr>" v]
    by (simp add: dstate_setflags_def send_to_all_ok)
qed

text \<open>C40: Taking all flags from a variable does not reach the servers. \<open>dstate_setflags\<close> with no
  flag clears the driver's flags and broadcasts one line, but the line has two words only, and a
  server that reads it leaves its copy of the variable, with the flags it had, and its notion of
  when it last heard the driver untouched.\<close>

theorem cleared_flags_not_told:
  assumes "name_ok v" and "ctx_ready (sock_ctx ups)" and "conns_ok d" and "i < length (connhead d)"
    and "state_tree_find (dtree_root d) v = Some n" and "st_flags n AND ST_FLAG_IMMUTABLE = 0" and "st_flags n \<noteq> 0"
  shows "st_flags (the (state_tree_find (dtree_root (dstate_setflags d v 0)) v)) = 0 \<and>
     (\<exists>l. sent (cn_sock (connhead (dstate_setflags d v 0) ! i)) = sent (cn_sock (connhead d ! i)) @ [l] \<and>
       sstate_read_loop ups now l = Some (ups\<lparr>sock_ctx := feed (sock_ctx ups) l\<rparr>))"
  by (intro conjI broadcast_gaps_facts [OF assms])

theorem cleared_flags_not_told_witness:
  "state_getflags (dtree_root demo_driver) ''ups.id'' = 3 \<and>
   st_flags (the (state_tree_find (dtree_root (dstate_setflags demo_driver ''ups.id'' 0)) ''ups.id'')) = 0 \<and>
   (\<exists>l. sent (cn_sock (connhead (dstate_setflags demo_driver ''ups.id'' 0) ! 0)) = [l] \<and>
     sstate_read_loop upstype_open 5 l = Some (upstype_open\<lparr>sock_ctx := feed (sock_ctx upstype_open) l\<rparr>))"
proof -
  obtain n where n: "state_tree_find (dtree_root demo_driver) ''ups.id'' = Some n" "st_flags n = 3"
  proof (rule that)
    show "state_tree_find (dtree_root demo_driver) ''ups.id'' = Some (the (state_tree_find (dtree_root demo_driver) ''ups.id''))"
      by code_simp
    show "st_flags (the (state_tree_find (dtree_root demo_driver) ''ups.id'')) = 3" by code_simp
  qed
  have 1: "name_ok ''ups.id''" by code_simp
  have 2: "conns_ok demo_driver" "0 < length (connhead demo_driver)" "sent (cn_sock (connhead demo_driver ! 0)) = []"
    by (simp_all add: conns_ok_def demo_driver_def)
  have 3: "st_flags n AND ST_FLAG_IMMUTABLE = 0" "st_flags n \<noteq> 0" using n(2) by (simp_all add: ST_FLAG_IMMUTABLE_def)
  from cleared_flags_not_told [OF 1 upstype_open_ready(2) 2(1,2) n(1) 3, of 5] n
  show ?thesis unfolding 2(3) by (simp add: state_getflags_def)
qed

section \<open>The status a driver reports\<close>

text \<open>The elements of the status, separated by single blanks.\<close>

fun spaced :: "string \<Rightarrow> string list \<Rightarrow> string" where
  "spaced b [] = b"
| "spaced b (x # xs) = spaced (if b = [] then x else b @ '' '' @ x) xs"

definition reported :: "dstate \<Rightarrow> string list \<Rightarrow> string" where
  "reported d xs =
     (if alarm_active d then ''ALARM '' else []) @
     spaced [] (filter (\<lambda>x. \<not> (ignorelb d \<and> strcaseeq x ''LB'')) xs) @
     (if ignorelb d \<and> (below d ''battery.charge'' ''battery.charge.low'' \<or>
        below d ''battery.runtime'' ''battery.runtime.low'') then '' LB'' else [])"

lemma spaced_length: "length b \<le> length (spaced b xs)"
proof (induction xs arbitrary: b)
  case (Cons x xs)
  show ?case using Cons [of "if b = [] then x else b @ '' '' @ x"] by (auto split: if_splits)
qed simp

lemma status_set_run:
  "length (spaced (status_buf d) (filter (\<lambda>x. \<not> (ignorelb d \<and> strcaseeq x ''LB'')) xs)) \<le> 254 \<Longrightarrow>
   foldl status_set d xs =
     d\<lparr>status_buf := spaced (status_buf d) (filter (\<lambda>x. \<not> (ignorelb d \<and> strcaseeq x ''LB'')) xs)\<rparr>"
proof (induction xs arbitrary: d)
  case (Cons x xs)
  show ?case
  proof (cases "ignorelb d \<and> strcaseeq x ''LB''")
    case True
    with Cons show ?thesis by (simp add: status_set_def)
  next
    case False
    let ?b = "if status_buf d = [] then x else status_buf d @ '' '' @ x"
    let ?r = "filter (\<lambda>x. \<not> (ignorelb d \<and> strcaseeq x ''LB'')) xs"
    have "length ?b \<le> 254"
      using spaced_length [of ?b ?r] Cons.prems False by (simp split: if_splits)
    then have "status_set d x = d\<lparr>status_buf := ?b\<rparr>"
      using False by (auto simp: status_set_def ST_MAX_VALUE_LEN_def)
    with Cons.IH [of "d\<lparr>status_buf := ?b\<rparr>"] Cons.prems False show ?thesis by simp
  qed
qed simp

lemma setinfo_shows:
  assumes "no_nul x" "length x \<le> 255"
  shows "\<exists>n. state_tree_find (dtree_root (fst (dstate_setinfo d v x))) v = Some n \<and>
     (st_flags n AND ST_FLAG_IMMUTABLE = 0 \<longrightarrow> strcaseeq (st_raw n) x)"
proof -
  have x: "snprintf ST_MAX_VALUE_LEN x = x" using assms(2) by (simp add: ST_MAX_VALUE_LEN_def)
  have "dtree_root (fst (dstate_setinfo d v x)) = fst (state_setinfo (dtree_root d) v x)"
    by (simp add: dstate_setinfo_def x case_prod_unfold Let_def send_to_all_def)
  then show ?thesis
    by (auto simp: find_state_setinfo state_node_set_raw strcaseeq_iff split: option.splits)
qed

lemma below_buf [simp]: "below (d\<lparr>status_buf := b\<rparr>) v w = below d v w"
  by (simp add: below_def dstate_getinfo_def)

lemma status_commit_reports:
  assumes "length (reported (status_init d) xs) \<le> 254"
  shows "\<exists>b. status_commit (foldl status_set (status_init d) xs) =
     fst (dstate_setinfo ((status_init d)\<lparr>status_buf := b\<rparr>) ''ups.status'' (reported (status_init d) xs))"
proof -
  let ?d = "status_init d"
  let ?ys = "filter (\<lambda>x. \<not> (ignorelb ?d \<and> strcaseeq x ''LB'')) xs"
  let ?c = "?d\<lparr>status_buf := spaced [] ?ys\<rparr>"
  have b0: "status_buf ?d = []" by (simp add: status_init_def Let_def)
  have len: "length (spaced [] ?ys) \<le> 254" using assms by (simp add: reported_def)
  have run: "foldl status_set ?d xs = ?c"
    using status_set_run [of ?d xs] len unfolding b0 by simp
  have "status_commit ?c = fst (dstate_setinfo (?c\<lparr>status_buf := spaced [] ?ys @ (if ignorelb ?d \<and>
       (below ?d ''battery.charge'' ''battery.charge.low'' \<or> below ?d ''battery.runtime'' ''battery.runtime.low'')
       then '' LB'' else [])\<rparr>) ''ups.status'' (reported ?d xs))"
    using assms by (auto simp: status_commit_def reported_def ST_MAX_VALUE_LEN_def)
  then show ?thesis unfolding run by auto
qed

lemma spaced_all:
  "P (CHR '' '') \<Longrightarrow> list_all P b \<Longrightarrow> list_all (list_all P) xs \<Longrightarrow> list_all P (spaced b xs)"
  by (induction xs arbitrary: b) auto

lemma reported_all:
  assumes "\<And>c. c \<in> set '' ALARMB'' \<Longrightarrow> P c" "list_all (list_all P) xs"
  shows "list_all P (reported d xs)"
proof -
  have "list_all P (spaced [] (filter f xs))" for f
    using assms by (intro spaced_all) (auto simp: list_all_iff)
  moreover have "list_all P ''ALARM ''" "list_all P '' LB''" using assms(1) by simp_all
  ultimately show ?thesis by (simp add: reported_def)
qed

lemma status_pass_facts:
  assumes "length (reported (status_init d) xs) \<le> 254" "\<And>x. x \<in> set xs \<Longrightarrow> no_nul x"
  shows "\<exists>n. state_tree_find (dtree_root (status_commit (foldl status_set (status_init d) xs))) ''ups.status'' = Some n \<and>
     (st_flags n AND ST_FLAG_IMMUTABLE = 0 \<longrightarrow> strcaseeq (st_raw n) (reported (status_init d) xs))"
proof -
  have "list_all (\<lambda>c. c \<noteq> CHR 0x00) (reported (status_init d) xs)"
    by (rule reported_all) (use assms(2) in \<open>auto simp: list_all_iff\<close>)
  then have "no_nul (reported (status_init d) xs)" by (auto simp: list_all_iff)
  with status_commit_reports [OF assms(1)] setinfo_shows [of "reported (status_init d) xs"] assms(1) show ?thesis by auto
qed

text \<open>C35: One pass of a driver over its status, \<open>status_init\<close>, any number of \<open>status_set\<close> and
  \<open>status_commit\<close>, publishes the elements separated by single blanks, after the word ALARM when an
  alarm is active; with the flag \<open>ignorelb\<close> set, the device's own LB is left out and LB is reported
  exactly when the charge or the runtime is below its limit. This holds up to case (a value that
  differs in case only is not replaced) while the whole fits the 254 bytes of the buffer and the
  variable is not immutable.\<close>

theorem status_pass_publishes:
  assumes "length (reported (status_init d) xs) \<le> 254" and "list_all no_nul xs"
  shows "\<exists>n. state_tree_find (dtree_root (status_commit (foldl status_set (status_init d) xs))) ''ups.status'' = Some n \<and>
     (st_flags n AND ST_FLAG_IMMUTABLE = 0 \<longrightarrow> strcaseeq (st_raw n) (reported (status_init d) xs))"
  using status_pass_facts [OF assms(1)] assms(2) by (simp add: list_all_iff)

definition ignorelb_driver :: dstate where
  "ignorelb_driver = demo_driver\<lparr>dtree_root := foldl st_apply Leaf [OpSetinfo ''driver.flag.ignorelb'' [],
     OpSetinfo ''battery.charge'' ''12'', OpSetinfo ''battery.charge.low'' ''30''], alarm_active := True\<rparr>"

theorem status_pass_publishes_witness:
  "\<exists>n. state_tree_find (dtree_root (status_commit (foldl status_set (status_init ignorelb_driver) [''OB'', ''lb'', ''DISCHRG''])))
       ''ups.status'' = Some n \<and>
     (st_flags n AND ST_FLAG_IMMUTABLE \<noteq> 0 \<or> strcaseeq (st_raw n) ''ALARM OB DISCHRG LB'')"
proof -
  have r: "reported (status_init ignorelb_driver) [''OB'', ''lb'', ''DISCHRG''] = ''ALARM OB DISCHRG LB''" by code_simp
  have "length (reported (status_init ignorelb_driver) [''OB'', ''lb'', ''DISCHRG'']) \<le> 254" unfolding r by simp
  moreover have "list_all no_nul [''OB'', ''lb'', ''DISCHRG'']" by code_simp
  ultimately show ?thesis using status_pass_publishes [of ignorelb_driver "[''OB'', ''lb'', ''DISCHRG'']"] unfolding r by blast
qed

end
