(* ===== verification/Drvmain.thy ===== *)
theory Drvmain
  imports Upsconf Dstate
begin

text \<open>
  The part all drivers share (\<open>drivers/main.c\<close>, \<open>drivers/main.h\<close>): the table of variables a driver
  declares, the settings from its section of \<open>ups.conf\<close> and from \<open>-x\<close>, the command line, and the
  start up to the first variables a server can see.

  The driver's own functions (\<open>upsdrv_makevartable\<close>, \<open>upsdrv_initinfo\<close>, \<open>upsdrv_updateinfo\<close>) are
  parameters or have been applied to the state. The value of a table entry is a C pointer that may be NULL, a string, or
  dangling after \<open>free\<close>.

  Shown here: the value of a sensitive variable never reaches the variables a server can read
  (\<open>sensitive_not_published\<close>); what \<open>getval\<close> and \<open>testvar\<close> find after the settings; a flag given after a value
  leaves a dangling pointer.
\<close>

section \<open>State\<close>

datatype cptr = Null | Ptr string | Dangling

record vartab =
  vt_vartype :: "32 word"
  vt_var :: string
  vt_val :: cptr
  vt_desc :: string
  vt_found :: bool

definition VAR_FLAG :: "32 word" where "VAR_FLAG = 1"
definition VAR_VALUE :: "32 word" where "VAR_VALUE = 2"
definition VAR_SENSITIVE :: "32 word" where "VAR_SENSITIVE = 4"

record drvmain =
  dm_dstate :: dstate
  dm_vartab :: "vartab list"
  dm_upsname :: "string option"
  dm_upsname_found :: bool
  dm_progname :: string
  dm_device_path :: "string option"
  dm_device_name :: "string option"
  dm_poll_interval :: "32 word"
  dm_chroot_path :: "string option"
  dm_user :: "string option"
  dm_do_lock_port :: bool
  dm_do_forceshutdown :: bool

abbreviation upd_dstate :: "(dstate \<Rightarrow> dstate) \<Rightarrow> drvmain \<Rightarrow> drvmain" where
  "upd_dstate f s \<equiv> s\<lparr>dm_dstate := f (dm_dstate s)\<rparr>"

abbreviation setinfo :: "string \<Rightarrow> string \<Rightarrow> drvmain \<Rightarrow> drvmain" where
  "setinfo v x \<equiv> upd_dstate (\<lambda>d. fst (dstate_setinfo d v x))"

section \<open>Variables and flags\<close>

definition dparam_setinfo :: "string \<Rightarrow> string option \<Rightarrow> drvmain \<Rightarrow> drvmain" where
  "dparam_setinfo var val s =
     (case val of
        Some v \<Rightarrow> setinfo (snprintf SMALLBUF (''driver.parameter.'' @ var)) v s
      | None \<Rightarrow> setinfo (snprintf SMALLBUF (''driver.flag.'' @ var)) ''enabled'' s)"

text \<open>The entry after \<open>free(tmp->val)\<close> and, for a value, \<open>xstrdup\<close>.\<close>

definition store_ptr :: "string option \<Rightarrow> cptr \<Rightarrow> fault + cptr" where
  "store_ptr val p =
     (case p of
        Dangling \<Rightarrow> Inl FreedPointer
      | Null \<Rightarrow> Inr (case val of None \<Rightarrow> Null | Some v \<Rightarrow> Ptr v)
      | Ptr _ \<Rightarrow> Inr (case val of None \<Rightarrow> Dangling | Some v \<Rightarrow> Ptr v))"

definition storeval :: "string \<Rightarrow> string option \<Rightarrow> drvmain \<Rightarrow> fault + drvmain" where
  "storeval var val s =
     (if strncaseeq var ''override.'' 9
      then sbind (xstrdup val) (\<lambda>v.
             Inr (upd_dstate (\<lambda>d. dstate_setflags d (drop 9 var) ST_FLAG_IMMUTABLE) (setinfo (drop 9 var) v s)))
      else if strncaseeq var ''default.'' 8
      then sbind (xstrdup val) (\<lambda>v. Inr (setinfo (drop 8 var) v s))
      else
        case find_index (\<lambda>tmp. strcaseeq (vt_var tmp) var) (dm_vartab s) of
          None \<Rightarrow> Inl (Exits (''Fatal error: '' @ var @ '' is not a valid '' @
                     (if val = None then ''flag'' else ''variable name'') @ '' for this driver.''))
        | Some i \<Rightarrow>
            sbind (store_ptr val (vt_val (dm_vartab s ! i))) (\<lambda>p.
              let tmp = (dm_vartab s ! i)\<lparr>vt_val := p\<rparr>;
                  s1 = (if vt_vartype tmp AND VAR_SENSITIVE = 0 then dparam_setinfo var val s else s)
              in Inr (s1\<lparr>dm_vartab := (dm_vartab s)[i := tmp\<lparr>vt_found := True\<rparr>]\<rparr>)))"

definition getval :: "drvmain \<Rightarrow> string \<Rightarrow> cptr" where
  "getval s var =
     (case find_index (\<lambda>tmp. strcaseeq (vt_var tmp) var) (dm_vartab s) of
        None \<Rightarrow> Null | Some i \<Rightarrow> vt_val (dm_vartab s ! i))"

definition testvar :: "drvmain \<Rightarrow> string \<Rightarrow> bool" where
  "testvar s var =
     (case find_index (\<lambda>tmp. strcaseeq (vt_var tmp) var) (dm_vartab s) of
        None \<Rightarrow> False | Some i \<Rightarrow> vt_found (dm_vartab s ! i))"

definition addvar :: "32 word \<Rightarrow> string \<Rightarrow> string \<Rightarrow> drvmain \<Rightarrow> drvmain" where
  "addvar vartype name desc s =
     s\<lparr>dm_vartab := dm_vartab s @ [\<lparr>vt_vartype = vartype, vt_var = name, vt_val = Null, vt_desc = desc, vt_found = False\<rparr>]\<rparr>"

text \<open>The flag tells whether the setting was handled here.\<close>

definition main_arg :: "string \<Rightarrow> string option \<Rightarrow> drvmain \<Rightarrow> bool \<times> drvmain" where
  "main_arg var val s =
     (if var = ''nolock'' then (True, setinfo ''driver.flag.nolock'' ''enabled'' (s\<lparr>dm_do_lock_port := False\<rparr>))
      else if var = ''ignorelb'' then (True, setinfo ''driver.flag.ignorelb'' ''enabled'' s)
      else case val of
        None \<Rightarrow> (False, s)
      | Some v \<Rightarrow>
          if var = ''port''
          then (True, setinfo ''driver.parameter.port'' v
                        (s\<lparr>dm_device_path := Some v, dm_device_name := Some (xbasename v)\<rparr>))
          else if var = ''sddelay'' then (True, s)
          else if var = ''sdorder'' then (True, s)
          else if var = ''desc'' then (True, s)
          else (False, s))"

definition do_global_args :: "string \<Rightarrow> string option \<Rightarrow> drvmain \<Rightarrow> fault + drvmain" where
  "do_global_args var val s =
     (if var = ''pollinterval'' then sbind (atoi_ptr val) (\<lambda>v. Inr (s\<lparr>dm_poll_interval := word_of_int v\<rparr>))
      else if var = ''chroot'' then sbind (xstrdup val) (\<lambda>v. Inr (s\<lparr>dm_chroot_path := Some v\<rparr>))
      else if var = ''user'' then sbind (xstrdup val) (\<lambda>v. Inr (s\<lparr>dm_user := Some v\<rparr>))
      else Inr s)"

definition main_upsconf_args :: "drvmain conf_callback" where
  "main_upsconf_args confupsname var val s =
     (case confupsname of
        None \<Rightarrow> do_global_args var val s
      | Some nm \<Rightarrow>
          if dm_upsname s \<noteq> Some nm then Inr s
          else
            let (handled, s1) = main_arg var val (s\<lparr>dm_upsname_found := True\<rparr>) in
            if handled then Inr s1
            else case val of
              None \<Rightarrow> storeval var None (setinfo (snprintf SMALLBUF (''driver.flag.'' @ var)) ''enabled'' s1)
            | Some v \<Rightarrow>
                if var = ''driver''
                then (if v \<noteq> dm_progname s1
                      then Inl (Exits (''Error: UPS ['' @ nm @ ''] is for driver '' @ v @ '', but this is '' @ dm_progname s1))
                      else Inr s1)
                else if var = ''pollinterval'' then Inr (s1\<lparr>dm_poll_interval := word_of_int (atoi v)\<rparr>)
                else storeval var (Some v) s1)"

text \<open>The text split at its first \<open>=\<close>.\<close>

fun split_equals :: "string \<Rightarrow> string \<times> string option" where
  "split_equals [] = ([], None)"
| "split_equals (c # cs) =
     (if c = CHR ''='' then ([], Some cs) else (c # fst (split_equals cs), snd (split_equals cs)))"

definition splitxarg :: "string \<Rightarrow> drvmain \<Rightarrow> fault + drvmain" where
  "splitxarg inbuf s =
     (let (buf, val) = split_equals inbuf; (handled, s1) = main_arg buf val s
      in if handled then Inr s1 else storeval buf val s1)"

section \<open>The command line\<close>

datatype drv_opt =
    OptA string | OptD | OptI string | OptK | OptL | OptQ | OptR string | OptU string | OptV | OptX string | OptHelp
  | OptUnknown string

definition drv_option :: "(string \<Rightarrow> string + string) \<Rightarrow> string \<Rightarrow> pconf_ctx \<Rightarrow> drv_opt \<Rightarrow> drvmain \<Rightarrow> fault + drvmain" where
  "drv_option fopen confpath stack_ctx opt s =
     (case opt of
        OptA nm \<Rightarrow>
          sbind (read_upsconf main_upsconf_args fopen confpath stack_ctx (s\<lparr>dm_upsname := Some nm\<rparr>)) (\<lambda>s1.
            if \<not> dm_upsname_found s1 then Inl (Exits (''Error: Section '' @ nm @ '' not found in ups.conf''))
            else Inr s1)
      | OptD \<Rightarrow> Inr s
      | OptI v \<Rightarrow> Inr (s\<lparr>dm_poll_interval := word_of_int (atoi v)\<rparr>)
      | OptK \<Rightarrow> Inr (s\<lparr>dm_do_lock_port := False, dm_do_forceshutdown := True\<rparr>)
      | OptL \<Rightarrow> Inl (Exits [])
      | OptQ \<Rightarrow> Inr s
      | OptR p \<Rightarrow> Inr (s\<lparr>dm_chroot_path := Some p\<rparr>)
      | OptU u \<Rightarrow> Inr (s\<lparr>dm_user := Some u\<rparr>)
      | OptV \<Rightarrow> Inl (Exits [])
      | OptX a \<Rightarrow> splitxarg a s
      | OptHelp \<Rightarrow> Inl (Exits [])
      | OptUnknown o1 \<Rightarrow> Inl (Exits (''Error: unknown option -'' @ o1)))"

definition drv_args :: "(string \<Rightarrow> string + string) \<Rightarrow> string \<Rightarrow> pconf_ctx \<Rightarrow> drv_opt list \<Rightarrow> string list \<Rightarrow> drvmain \<Rightarrow> fault + drvmain" where
  "drv_args fopen confpath stack_ctx opts argv s =
     sbind (sfold (drv_option fopen confpath stack_ctx) opts s) (\<lambda>s1.
       if argv \<noteq> [] then Inl (Exits ''Error: too many non-option arguments. Try -h for help.'')
       else if \<not> dm_upsname_found s1 then Inl (Exits ''Error: specifying -a id is now mandatory. Try -h for help.'')
       else if dm_device_path s1 = None then Inl (Exits ''Error: you must specify a port name in ups.conf. Try -h for help.'')
       else Inr s1)"

section \<open>The first variables\<close>

text \<open>From \<open>device.type\<close> to the first round: \<open>initinfo\<close> and \<open>updateinfo\<close> are the driver's own
  functions on its variables.\<close>

definition lb_method :: "dstate \<Rightarrow> bool" where
  "lb_method d \<longleftrightarrow>
     (dstate_getinfo d ''battery.charge'' \<noteq> None \<and> dstate_getinfo d ''battery.charge.low'' \<noteq> None) \<or>
     (dstate_getinfo d ''battery.runtime'' \<noteq> None \<and> dstate_getinfo d ''battery.runtime.low'' \<noteq> None)"

definition copy_info :: "string \<Rightarrow> string \<Rightarrow> dstate \<Rightarrow> dstate" where
  "copy_info src dst d = (case dstate_getinfo d src of None \<Rightarrow> d | Some v \<Rightarrow> fst (dstate_setinfo d dst v))"

definition drv_publish :: "string \<Rightarrow> string \<Rightarrow> (dstate \<Rightarrow> dstate) \<Rightarrow> (dstate \<Rightarrow> dstate) \<Rightarrow> drvmain \<Rightarrow> fault + drvmain" where
  "drv_publish ups_version drv_version initinfo updateinfo s =
     (let s1 = setinfo ''device.type'' ''ups'' s;
          s2 = setinfo ''driver.version'' ups_version s1;
          s3 = setinfo ''driver.version.internal'' drv_version s2;
          s4 = setinfo ''driver.name'' (dm_progname s3) s3;
          s5 = upd_dstate (updateinfo \<circ> initinfo) s4
      in if dstate_getinfo (dm_dstate s5) ''driver.flag.ignorelb'' \<noteq> None \<and> \<not> lb_method (dm_dstate s5)
         then Inl (Exits ''The ignorelb flag is set, but there is no way to determine the battery state of charge.'')
         else
           let s6 = setinfo ''driver.parameter.pollinterval'' (show_int (sint (dm_poll_interval s5))) s5
           in Inr (upd_dstate (copy_info ''ups.serial'' ''device.serial'' \<circ> copy_info ''ups.model'' ''device.model'' \<circ>
                     copy_info ''ups.mfr'' ''device.mfr'') s6))"

definition vartab_free :: "drvmain \<Rightarrow> fault + drvmain" where
  "vartab_free s =
     (if list_ex (\<lambda>tmp. vt_val tmp = Dangling) (dm_vartab s) then Inl FreedPointer else Inr (s\<lparr>dm_vartab := []\<rparr>))"

section \<open>Secrets\<close>

definition cshape :: "cptr \<Rightarrow> cptr" where
  "cshape p = (case p of Ptr _ \<Rightarrow> Ptr [] | q \<Rightarrow> q)"

definition is_secret :: "vartab \<Rightarrow> bool" where
  "is_secret t \<longleftrightarrow> vt_vartype t AND VAR_SENSITIVE \<noteq> 0"

text \<open>The state without the values of sensitive variables.\<close>

definition hide :: "vartab \<Rightarrow> vartab" where
  "hide t = (if is_secret t then t\<lparr>vt_val := cshape (vt_val t)\<rparr> else t)"

definition public :: "drvmain \<Rightarrow> drvmain" where
  "public s = s\<lparr>dm_vartab := map hide (dm_vartab s)\<rparr>"

abbreviation public_result :: "fault + drvmain \<Rightarrow> fault + drvmain" where
  "public_result r \<equiv> sbind r (\<lambda>s. Inr (public s))"

text \<open>A variable that only the driver's table handles, and there as sensitive.\<close>

definition for_table :: "string \<Rightarrow> bool" where
  "for_table var \<longleftrightarrow> var \<notin> {''port'', ''driver'', ''pollinterval'', ''nolock'', ''ignorelb'', ''sddelay'', ''sdorder'', ''desc''} \<and>
     \<not> strncaseeq var ''override.'' 9 \<and> \<not> strncaseeq var ''default.'' 8"

definition entry_of :: "vartab list \<Rightarrow> string \<Rightarrow> nat option" where
  "entry_of tab var = find_index (\<lambda>tmp. strcaseeq (vt_var tmp) var) tab"

definition secret :: "vartab list \<Rightarrow> string \<Rightarrow> bool" where
  "secret tab var \<longleftrightarrow> for_table var \<and> (case entry_of tab var of None \<Rightarrow> False | Some i \<Rightarrow> is_secret (tab ! i))"

lemma hide_simps [simp]:
  "vt_var (hide t) = vt_var t" "vt_vartype (hide t) = vt_vartype t" "is_secret (hide t) = is_secret t"
  "\<not> is_secret t \<Longrightarrow> hide t = t" "hide (hide t) = hide t"
  by (simp_all add: hide_def is_secret_def cshape_def split: cptr.splits)

lemma hide_hide [simp]: "hide \<circ> hide = hide"
  by (simp add: fun_eq_iff)

lemma public_simps [simp]:
  "public (public s) = public s" "dm_dstate (public s) = dm_dstate s" "dm_upsname (public s) = dm_upsname s"
  "dm_progname (public s) = dm_progname s" "dm_vartab (public s) = map hide (dm_vartab s)"
  by (simp_all add: public_def comp_def)

lemma find_index_map: "find_index P (map f xs) = find_index (P \<circ> f) xs"
  by (induction xs) simp_all

lemma entry_of_cong:
  assumes "map (\<lambda>t. (vt_var t, vt_vartype t)) tab' = map (\<lambda>t. (vt_var t, vt_vartype t)) tab"
  shows "entry_of tab' = entry_of tab" "secret tab' = secret tab"
proof -
  have names: "map vt_var tab' = map vt_var tab" using arg_cong [OF assms, of "map fst"] by (simp add: comp_def)
  have "entry_of t v = find_index (\<lambda>w. strcaseeq w v) (map vt_var t)" for t v
    by (simp add: entry_of_def find_index_map comp_def)
  then show e: "entry_of tab' = entry_of tab" by (simp only: names fun_eq_iff) blast
  have "vt_vartype (tab' ! i) = vt_vartype (tab ! i)" if "i < length tab" for i
    using arg_cong [OF assms, of "\<lambda>xs. snd (xs ! i)"] arg_cong [OF assms, of length] that by simp
  then have "is_secret (tab' ! i) = is_secret (tab ! i)" if "entry_of tab var = Some i" for i var
    using find_index_SomeD(1) [OF that [unfolded entry_of_def]] by (simp add: is_secret_def)
  then show "secret tab' = secret tab" by (auto simp: secret_def e fun_eq_iff split: option.splits)
qed

lemma entry_of_hide [simp]: "entry_of (map hide tab) = entry_of tab" "secret (map hide tab) = secret tab"
  by (rule entry_of_cong, simp add: comp_def)+

lemma storeval_entry:
  "storeval var val s =
     (if strncaseeq var ''override.'' 9
      then sbind (xstrdup val) (\<lambda>v.
             Inr (upd_dstate (\<lambda>d. dstate_setflags d (drop 9 var) ST_FLAG_IMMUTABLE) (setinfo (drop 9 var) v s)))
      else if strncaseeq var ''default.'' 8
      then sbind (xstrdup val) (\<lambda>v. Inr (setinfo (drop 8 var) v s))
      else
        case entry_of (dm_vartab s) var of
          None \<Rightarrow> Inl (Exits (''Fatal error: '' @ var @ '' is not a valid '' @
                     (if val = None then ''flag'' else ''variable name'') @ '' for this driver.''))
        | Some i \<Rightarrow>
            sbind (store_ptr val (vt_val (dm_vartab s ! i))) (\<lambda>p.
              Inr ((if is_secret (dm_vartab s ! i) then s else dparam_setinfo var val s)
                \<lparr>dm_vartab := (dm_vartab s)[i := (dm_vartab s ! i)\<lparr>vt_val := p, vt_found := True\<rparr>]\<rparr>)))"
  by (simp add: storeval_def entry_of_def is_secret_def Let_def split: option.splits)

lemma store_ptr_shape:
  "sbind (store_ptr val (cshape p)) (\<lambda>q. Inr (cshape q)) = sbind (store_ptr val p) (\<lambda>q. Inr (cshape q))"
  "sbind (store_ptr (Some v) p) (\<lambda>q. Inr (cshape q)) = sbind (store_ptr (Some w) p) (\<lambda>q. Inr (cshape q))"
  by (simp_all add: store_ptr_def cshape_def split: cptr.splits option.splits)

lemma public_update: "public (u\<lparr>dm_vartab := xs[i := x]\<rparr>) = u\<lparr>dm_vartab := (map hide xs)[i := hide x]\<rparr>"
  by (simp add: public_def map_update)

lemma hide_stored:
  "hide ((hide t)\<lparr>vt_val := p, vt_found := True\<rparr>) = (hide t)\<lparr>vt_val := (if is_secret t then cshape p else p), vt_found := True\<rparr>"
  "hide (t\<lparr>vt_val := p, vt_found := True\<rparr>) = (hide t)\<lparr>vt_val := (if is_secret t then cshape p else p), vt_found := True\<rparr>"
  by (simp_all add: hide_def is_secret_def)

lemma dparam_public: "dparam_setinfo var val (public s) = public (dparam_setinfo var val s)"
  by (simp add: dparam_setinfo_def public_def split: option.splits)

text \<open>Storing commutes with hiding, and does not depend on the value of a secret.\<close>

lemma store_ptr_hidden:
  assumes "is_secret t" "val' = val \<or> val = Some v \<and> val' = Some w"
  shows "sbind (store_ptr val' (cshape (vt_val t))) (\<lambda>p. Inr (cshape p)) = sbind (store_ptr val (vt_val t)) (\<lambda>p. Inr (cshape p))"
  using assms(2) store_ptr_shape by metis

lemma storeval_public:
  assumes "val' = val \<or> val = Some v \<and> val' = Some w \<and> secret (dm_vartab s) var"
  shows "public_result (storeval var val' (public s)) = public_result (storeval var val s)"
proof (cases "strncaseeq var ''override.'' 9 \<or> strncaseeq var ''default.'' 8")
  case True
  with assms have "val' = val" by (auto simp: secret_def for_table_def)
  with True show ?thesis by (cases val) (auto simp: storeval_def public_def)
next
  case False
  show ?thesis
  proof (cases "entry_of (dm_vartab s) var")
    case None
    with assms False show ?thesis by (auto simp: storeval_entry secret_def)
  next
    case (Some i)
    then have i: "i < length (dm_vartab s)" unfolding entry_of_def by (rule find_index_SomeD)
    let ?t = "dm_vartab s ! i"
    let ?put = "\<lambda>u q. u\<lparr>dm_vartab := (map hide (dm_vartab s))[i := (hide ?t)\<lparr>vt_val := q, vt_found := True\<rparr>]\<rparr>"
    show ?thesis
    proof (cases "is_secret ?t")
      case True
      have r: "public_result (storeval var x (public s)) =
          sbind (sbind (store_ptr x (cshape (vt_val ?t))) (\<lambda>p. Inr (cshape p))) (\<lambda>q. Inr (?put s q))"
        "public_result (storeval var x s) = sbind (sbind (store_ptr x (vt_val ?t)) (\<lambda>p. Inr (cshape p))) (\<lambda>q. Inr (?put s q))" for x
        using False Some i True
        by (simp_all add: storeval_entry public_update hide_stored)
          (simp_all add: hide_def public_def)
      have "val' = val \<or> val = Some v \<and> val' = Some w" using assms by blast
      then show ?thesis unfolding r by (simp only: store_ptr_hidden [OF True])
    next
      case not: False
      with Some assms have "val' = val" by (auto simp: secret_def)
      with False Some i not show ?thesis
        by (simp add: storeval_entry dparam_public public_update hide_stored)
          (simp add: public_def)
    qed
  qed
qed

lemma storeval_same: "public_result (storeval var val (public s)) = public_result (storeval var val s)"
  by (rule storeval_public) simp

lemma main_arg_public: "main_arg var val (public s) = (fst (main_arg var val s), public (snd (main_arg var val s)))"
  by (simp add: main_arg_def public_def split: option.splits)

lemma main_arg_secret: "for_table var \<Longrightarrow> main_arg var val s = (False, s)"
  by (auto simp: main_arg_def for_table_def split: option.splits)

text \<open>Two calls that differ at most in the value of a secret.\<close>

definition alike :: "vartab list \<Rightarrow> string option \<times> setting_line \<Rightarrow> string option \<times> setting_line \<Rightarrow> bool" where
  "alike tab c d \<longleftrightarrow> c = d \<or> (fst c \<noteq> None \<and> fst d = fst c \<and> fst (snd d) = fst (snd c) \<and>
     snd (snd c) \<noteq> None \<and> snd (snd d) \<noteq> None \<and> secret tab (fst (snd c)))"

lemma alike_sym: "alike tab c d = alike tab d c"
  by (auto simp: alike_def)

lemma same_call_public:
  "public_result (call_cb main_upsconf_args c (public s)) = public_result (call_cb main_upsconf_args c s)"
proof -
  obtain sec var val where c: "c = (sec, var, val)" by (cases c) auto
  let ?s1 = "s\<lparr>dm_upsname_found := True\<rparr>"
  have found: "(public s)\<lparr>dm_upsname_found := True\<rparr> = public ?s1" by (simp add: public_def)
  obtain h s2 where h: "main_arg var val ?s1 = (h, s2)" by force
  have set: "(public u)\<lparr>dm_dstate := x\<rparr> = public (u\<lparr>dm_dstate := x\<rparr>)" "(public u)\<lparr>dm_poll_interval := k\<rparr> = public (u\<lparr>dm_poll_interval := k\<rparr>)" for x u k
    by (simp_all add: public_def)
  show ?thesis
  proof (cases sec)
    case None
    show ?thesis
      by (simp add: c None call_cb_def main_upsconf_args_def do_global_args_def)
        (simp add: public_def comp_def)
  next
    case (Some nm)
    show ?thesis
      using h
      by (simp add: c Some call_cb_def main_upsconf_args_def found main_arg_public Let_def)
        (auto simp: set storeval_same split: option.splits)
  qed
qed

lemma alike_call_public:
  assumes "alike (dm_vartab s) c d"
  shows "public_result (call_cb main_upsconf_args d (public s)) = public_result (call_cb main_upsconf_args c s)"
proof (cases "c = d")
  case True
  then show ?thesis by (simp add: same_call_public)
next
  case False
  with assms obtain nm var v w where c: "c = (Some nm, var, Some v)" "d = (Some nm, var, Some w)" "secret (dm_vartab s) var"
    by (cases c; cases d) (auto simp: alike_def)
  then have t: "for_table var" by (simp add: secret_def)
  then have var: "var \<noteq> ''driver''" "var \<noteq> ''pollinterval''" by (auto simp: for_table_def)
  let ?s1 = "s\<lparr>dm_upsname_found := True\<rparr>"
  have found: "(public s)\<lparr>dm_upsname_found := True\<rparr> = public ?s1" by (simp add: public_def)
  have "public_result (storeval var (Some w) (public ?s1)) = public_result (storeval var (Some v) ?s1)"
    using c(3) by (intro storeval_public [where v = v and w = w]) simp
  then show ?thesis
    by (simp add: c(1,2) call_cb_def main_upsconf_args_def found main_arg_secret [OF t] var)
qed

lemma storeval_sig:
  "storeval var val s = Inr t \<Longrightarrow>
   map (\<lambda>t. (vt_var t, vt_vartype t)) (dm_vartab t) = map (\<lambda>t. (vt_var t, vt_vartype t)) (dm_vartab s)"
  by (auto simp: storeval_entry map_update_same dparam_setinfo_def
      split: if_splits option.splits)

lemma call_sig:
  "call_cb main_upsconf_args c s = Inr t \<Longrightarrow>
   map (\<lambda>t. (vt_var t, vt_vartype t)) (dm_vartab t) = map (\<lambda>t. (vt_var t, vt_vartype t)) (dm_vartab s)"
  by (auto simp: call_cb_def main_upsconf_args_def do_global_args_def main_arg_def dest!: storeval_sig
      split: if_splits option.splits)

lemma alike_calls_public:
  "list_all2 (alike (dm_vartab s)) cs ds \<Longrightarrow> public s = public t \<Longrightarrow>
   public_result (run_calls main_upsconf_args cs s) = public_result (run_calls main_upsconf_args ds t)"
proof (induction cs arbitrary: ds s t)
  case (Cons c cs)
  then obtain d ds' where ds: "ds = d # ds'" "alike (dm_vartab s) c d" "list_all2 (alike (dm_vartab s)) cs ds'"
    by (auto simp: list_all2_Cons1)
  have step: "public_result (call_cb main_upsconf_args c s) = public_result (call_cb main_upsconf_args d t)"
    using alike_call_public [OF ds(2)] same_call_public [of d t] Cons.prems(2) by simp
  show ?case
  proof (cases "call_cb main_upsconf_args c s")
    case (Inl e)
    with step have "call_cb main_upsconf_args d t = Inl e" by (cases "call_cb main_upsconf_args d t") auto
    with Inl show ?thesis by (simp add: run_calls_def ds(1))
  next
    case (Inr s1)
    with step obtain t1 where t1: "call_cb main_upsconf_args d t = Inr t1" "public s1 = public t1"
      by (cases "call_cb main_upsconf_args d t") auto
    have "list_all2 (alike (dm_vartab s1)) cs ds'"
      using ds(3) entry_of_cong(2) [OF call_sig [OF Inr]] by (simp add: alike_def cong: list.rel_cong)
    from Cons.IH [OF this t1(2)] Inr t1(1) show ?thesis by (simp add: run_calls_def ds(1))
  qed
qed (simp add: run_calls_def)

text \<open>C5: The value of a variable the driver has declared sensitive (such as an SNMP community) has no
  influence on anything a server can read: two sections of ups.conf that differ only in such values give the same
  driver variables, or end the driver in the same way.\<close>

theorem sensitive_not_published:
  assumes "list_all2 (alike (dm_vartab s)) cs ds"
  shows "sbind (run_calls main_upsconf_args cs s) (\<lambda>t. Inr (dm_dstate t)) =
    sbind (run_calls main_upsconf_args ds s) (\<lambda>t. Inr (dm_dstate t))"
proof -
  have "sbind r (\<lambda>t. Inr (dm_dstate t)) = sbind (public_result r) (\<lambda>t. Inr (dm_dstate t))" for r by simp
  with alike_calls_public [OF assms refl] show ?thesis by metis
qed

definition demo_drvmain :: drvmain where
  "demo_drvmain = addvar (VAR_VALUE OR VAR_SENSITIVE) ''community'' ''community name''
     (addvar VAR_VALUE ''mibs'' ''MIB to use''
       \<lparr>dm_dstate = demo_driver, dm_vartab = [], dm_upsname = Some ''apc'', dm_upsname_found = False,
        dm_progname = ''snmp-ups'', dm_device_path = None, dm_device_name = None, dm_poll_interval = 2,
        dm_chroot_path = None, dm_user = None, dm_do_lock_port = True, dm_do_forceshutdown = False\<rparr>)"

theorem sensitive_not_published_witness:
  "sbind (run_calls main_upsconf_args [(Some ''apc'', ''community'', Some ''public''), (Some ''apc'', ''mibs'', Some ''auto'')] demo_drvmain)
     (\<lambda>t. Inr (dm_dstate t)) =
   sbind (run_calls main_upsconf_args [(Some ''apc'', ''community'', Some ''s3cret''), (Some ''apc'', ''mibs'', Some ''auto'')] demo_drvmain)
     (\<lambda>t. Inr (dm_dstate t)) \<and>
   (case run_calls main_upsconf_args [(Some ''apc'', ''community'', Some ''public''), (Some ''apc'', ''mibs'', Some ''auto'')] demo_drvmain of
      Inl _ \<Rightarrow> False
    | Inr t \<Rightarrow> getval t ''community'' = Ptr ''public'' \<and>
        dstate_getinfo (dm_dstate t) ''driver.parameter.mibs'' = Some ''auto'')"
proof -
  have "secret (dm_vartab demo_drvmain) ''community''" by code_simp
  then have "list_all2 (alike (dm_vartab demo_drvmain))
      [(Some ''apc'', ''community'', Some ''public''), (Some ''apc'', ''mibs'', Some ''auto'')]
      [(Some ''apc'', ''community'', Some ''s3cret''), (Some ''apc'', ''mibs'', Some ''auto'')]"
    by (simp add: alike_def)
  moreover have "case run_calls main_upsconf_args [(Some ''apc'', ''community'', Some ''public''), (Some ''apc'', ''mibs'', Some ''auto'')] demo_drvmain of
      Inl _ \<Rightarrow> False
    | Inr t \<Rightarrow> getval t ''community'' = Ptr ''public'' \<and>
        dstate_getinfo (dm_dstate t) ''driver.parameter.mibs'' = Some ''auto''" by code_simp
  ultimately show ?thesis using sensitive_not_published by blast
qed
section \<open>What the driver finds\<close>

definition last_setting :: "(string \<times> string) list \<Rightarrow> string \<Rightarrow> string option" where
  "last_setting ls x = map_option snd (find (\<lambda>l. strcaseeq (fst l) x) (rev ls))"

lemma last_setting_snoc:
  "last_setting (ls @ [l]) x = (if strcaseeq (fst l) x then Some (snd l) else last_setting ls x)"
  by (simp add: last_setting_def)

definition section_calls :: "string \<Rightarrow> (string \<times> string) list \<Rightarrow> (string option \<times> setting_line) list" where
  "section_calls nm ls = map (\<lambda>l. (Some nm, fst l, Some (snd l))) ls"

abbreviation no_dangling :: "vartab list \<Rightarrow> bool" where
  "no_dangling \<equiv> list_all (\<lambda>t. vt_val t \<noteq> Dangling)"

lemma getval_entry:
  "getval s x = (case entry_of (dm_vartab s) x of None \<Rightarrow> Null | Some i \<Rightarrow> vt_val (dm_vartab s ! i))"
  "testvar s x = (case entry_of (dm_vartab s) x of None \<Rightarrow> False | Some i \<Rightarrow> vt_found (dm_vartab s ! i))"
  by (simp_all add: getval_def testvar_def entry_of_def)

lemma entry_of_case: "strcaseeq v w \<Longrightarrow> entry_of tab v = entry_of tab w"
  by (simp add: entry_of_def strcaseeq_iff)

lemma entry_of_name: "entry_of tab v = Some i \<Longrightarrow> i < length tab \<and> strcaseeq (vt_var (tab ! i)) v"
  unfolding entry_of_def using find_index_SomeD by blast

text \<open>One setting of the driver's own section.\<close>

lemma stored_setting:
  assumes "dm_upsname s = Some nm" "for_table var" "entry_of (dm_vartab s) var = Some i" "no_dangling (dm_vartab s)"
  obtains t where "call_cb main_upsconf_args (Some nm, var, Some v) s = Inr t" "dm_upsname t = Some nm"
    "no_dangling (dm_vartab t)"
    "\<forall>x. getval t x = (if strcaseeq var x then Ptr v else getval s x)"
    "\<forall>x. testvar t x = (strcaseeq var x \<or> testvar s x)"
proof -
  let ?s1 = "s\<lparr>dm_upsname_found := True\<rparr>"
  let ?x = "(dm_vartab s ! i)\<lparr>vt_val := Ptr v, vt_found := True\<rparr>"
  let ?t = "(if is_secret (dm_vartab s ! i) then ?s1 else dparam_setinfo var (Some v) ?s1)\<lparr>dm_vartab := (dm_vartab s)[i := ?x]\<rparr>"
  from assms(2) have var: "var \<noteq> ''driver''" "var \<noteq> ''pollinterval''" "\<not> strncaseeq var ''override.'' 9" "\<not> strncaseeq var ''default.'' 8"
    by (auto simp: for_table_def)
  note i = entry_of_name [OF assms(3)]
  have ptr: "store_ptr (Some v) (vt_val (dm_vartab s ! i)) = Inr (Ptr v)"
    using assms(4) i by (auto simp: store_ptr_def list_all_length split: cptr.splits)
  have run: "call_cb main_upsconf_args (Some nm, var, Some v) s = Inr ?t"
    using assms(1,3) ptr var by (simp add: call_cb_def main_upsconf_args_def main_arg_secret [OF assms(2)] storeval_entry)
  have e: "entry_of (dm_vartab ?t) = entry_of (dm_vartab s)"
    using entry_of_cong(1) [OF call_sig [OF run]] .
  have same: "entry_of (dm_vartab s) x = Some i \<longleftrightarrow> strcaseeq var x" for x
    using assms(3) entry_of_case [of var x "dm_vartab s"] entry_of_name [of "dm_vartab s" x i] i
    by (auto simp: strcaseeq_iff)
  show ?thesis
  proof (rule that [OF run])
    show "dm_upsname ?t = Some nm" using assms(1) by (simp add: dparam_setinfo_def)
    show "no_dangling (dm_vartab ?t)" using assms(4) by (auto simp: list_all_iff dest!: subsetD [OF set_update_subset_insert])
    have "getval ?t x = (if strcaseeq var x then Ptr v else getval s x) \<and>
      testvar ?t x = (strcaseeq var x \<or> testvar s x)" for x
      unfolding getval_entry e using same [of x] i
      by (auto simp: nth_list_update split: option.splits)
    then show "\<forall>x. getval ?t x = (if strcaseeq var x then Ptr v else getval s x)"
      "\<forall>x. testvar ?t x = (strcaseeq var x \<or> testvar s x)"
      by blast+
  qed
qed

text \<open>For the settings in its section of ups.conf that it has declared, a driver finds with getval
  the last value given, without regard to the case of the name, and with testvar whether one was given; all other
  variables are as before.\<close>

theorem driver_settings_stored:
  assumes "dm_upsname s = Some nm" and "no_dangling (dm_vartab s)"
    and "list_all (\<lambda>l. for_table (fst l) \<and> entry_of (dm_vartab s) (fst l) \<noteq> None) ls"
  shows "\<exists>t. run_calls main_upsconf_args (section_calls nm ls) s = Inr t \<and>
     (\<forall>x. getval t x = (case last_setting ls x of Some v \<Rightarrow> Ptr v | None \<Rightarrow> getval s x) \<and>
          testvar t x = (last_setting ls x \<noteq> None \<or> testvar s x))"
proof -
  have "\<exists>t. run_calls main_upsconf_args (section_calls nm ls) s = Inr t \<and> dm_upsname t = Some nm \<and>
     no_dangling (dm_vartab t) \<and> entry_of (dm_vartab t) = entry_of (dm_vartab s) \<and>
     (\<forall>x. getval t x = (case last_setting ls x of Some v \<Rightarrow> Ptr v | None \<Rightarrow> getval s x) \<and>
          testvar t x = (last_setting ls x \<noteq> None \<or> testvar s x))"
    using assms(3)
  proof (induction ls rule: rev_induct)
    case Nil
    then show ?case using assms(1,2) by (simp add: run_calls_def section_calls_def last_setting_def)
  next
    case (snoc l ls)
    from snoc obtain t where t: "run_calls main_upsconf_args (section_calls nm ls) s = Inr t" "dm_upsname t = Some nm"
      "no_dangling (dm_vartab t)" "entry_of (dm_vartab t) = entry_of (dm_vartab s)"
      "\<And>x. getval t x = (case last_setting ls x of Some v \<Rightarrow> Ptr v | None \<Rightarrow> getval s x)"
      "\<And>x. testvar t x = (last_setting ls x \<noteq> None \<or> testvar s x)"
      by auto
    from snoc.prems t(4) obtain i where i: "for_table (fst l)" "entry_of (dm_vartab t) (fst l) = Some i" by auto
    obtain u where u: "call_cb main_upsconf_args (Some nm, fst l, Some (snd l)) t = Inr u" "dm_upsname u = Some nm"
      "no_dangling (dm_vartab u)" "\<forall>x. getval u x = (if strcaseeq (fst l) x then Ptr (snd l) else getval t x)"
      "\<forall>x. testvar u x = (strcaseeq (fst l) x \<or> testvar t x)"
      by (rule stored_setting [where v = "snd l", OF t(2) i t(3)])
    have "run_calls main_upsconf_args (section_calls nm (ls @ [l])) s = Inr u"
      using t(1) u(1) by (simp add: section_calls_def run_split) (simp add: run_calls_def)
    moreover have "entry_of (dm_vartab u) = entry_of (dm_vartab s)"
      using entry_of_cong(1) [OF call_sig [OF u(1)]] t(4) by simp
    ultimately show ?case using u t by (simp add: last_setting_snoc)
  qed
  then show ?thesis by blast
qed

theorem driver_settings_stored_witness:
  "\<exists>t. run_calls main_upsconf_args (section_calls ''apc'' [(''mibs'', ''ietf''), (''MIBS'', ''auto'')]) demo_drvmain = Inr t \<and>
     getval t ''mibs'' = Ptr ''auto'' \<and> \<not> testvar t ''community''"
proof -
  let ?ls = "[(''mibs'', ''ietf''), (''MIBS'', ''auto'')]"
  have start: "dm_upsname demo_drvmain = Some ''apc''" "no_dangling (dm_vartab demo_drvmain)"
    by (simp_all add: demo_drvmain_def addvar_def)
  have lines: "list_all (\<lambda>l. for_table (fst l) \<and> entry_of (dm_vartab demo_drvmain) (fst l) \<noteq> None) ?ls" by code_simp
  have v: "last_setting ?ls ''mibs'' = Some ''auto''" "last_setting ?ls ''community'' = None"
    "\<not> testvar demo_drvmain ''community''" by code_simp+
  from driver_settings_stored [OF start lines] obtain t where "run_calls main_upsconf_args (section_calls ''apc'' ?ls) demo_drvmain = Inr t"
    and t: "\<And>x. getval t x = (case last_setting ?ls x of Some v \<Rightarrow> Ptr v | None \<Rightarrow> getval demo_drvmain x)"
      "\<And>x. testvar t x = (last_setting ?ls x \<noteq> None \<or> testvar demo_drvmain x)"
    by blast
  moreover have "getval t ''mibs'' = Ptr ''auto''" "\<not> testvar t ''community''"
    unfolding t(1) [of "''mibs''"] t(2) [of "''community''"] v by (simp_all add: v(3))
  ultimately show ?thesis by blast
qed

text \<open>A variable that is given once with a value and later without one keeps a pointer to freed memory,
  which getval returns to the driver and which is freed again at exit.\<close>

theorem flag_after_value_dangles:
  assumes "for_table var" and "entry_of (dm_vartab s) var = Some i" and "vt_val (dm_vartab s ! i) \<noteq> Dangling"
  shows "\<exists>t. sbind (storeval var (Some v) s) (storeval var None) = Inr t \<and>
    getval t var = Dangling \<and> vartab_free t = Inl FreedPointer"
proof -
  from assms(1) have p: "\<not> strncaseeq var ''override.'' 9" "\<not> strncaseeq var ''default.'' 8"
    by (auto simp: for_table_def)
  note i = entry_of_name [OF assms(2)]
  have ptr: "store_ptr (Some v) (vt_val (dm_vartab s ! i)) = Inr (Ptr v)"
    using assms(3) by (cases "vt_val (dm_vartab s ! i)") (simp_all add: store_ptr_def)
  let ?x = "(dm_vartab s ! i)\<lparr>vt_val := Ptr v, vt_found := True\<rparr>"
  have e: "entry_of ((dm_vartab s)[i := x]) = entry_of (dm_vartab s)" if "vt_var x = vt_var (dm_vartab s ! i)"
    "vt_vartype x = vt_vartype (dm_vartab s ! i)" for x
    using that by (intro entry_of_cong(1)) (simp add: map_update_same)
  obtain t where t: "sbind (storeval var (Some v) s) (storeval var None) = Inr t"
    "dm_vartab t = (dm_vartab s)[i := (dm_vartab s ! i)\<lparr>vt_val := Dangling, vt_found := True\<rparr>]"
    using assms(2) p ptr i e [of ?x] by (simp add: storeval_entry store_ptr_def)
  have "getval t var = Dangling"
    using assms(2) i e [of "(dm_vartab s ! i)\<lparr>vt_val := Dangling, vt_found := True\<rparr>"] by (simp add: getval_entry t(2))
  moreover have "list_ex (\<lambda>x. vt_val x = Dangling) (dm_vartab t)"
    using i by (auto simp: t(2) list_ex_iff in_set_conv_nth intro!: bexI [of _ "(dm_vartab s ! i)\<lparr>vt_val := Dangling, vt_found := True\<rparr>"] exI [of _ i])
  ultimately show ?thesis using t(1) by (simp add: vartab_free_def)
qed

theorem flag_after_value_dangles_witness:
  "\<exists>t. sbind (storeval ''mibs'' (Some ''ietf'') demo_drvmain) (storeval ''mibs'' None) = Inr t \<and>
    getval t ''mibs'' = Dangling \<and> vartab_free t = Inl FreedPointer"
proof -
  have "for_table ''mibs''" "entry_of (dm_vartab demo_drvmain) ''mibs'' = Some 0" "vt_val (dm_vartab demo_drvmain ! 0) \<noteq> Dangling"
    by code_simp+
  then show ?thesis by (rule flag_after_value_dangles)
qed

end
