(* ===== verification/Serverprops.thy ===== *)
theory Serverprops
  imports Upsd
begin

text \<open>
  Properties of the server that follow from its invariants: who can cause what, isolation of the
  clients from each other, which clients are removed, what reaches a driver when a client sets a
  variable or runs a command, and what a client is told when it lists variables.
\<close>

unbundle bit_operations_syntax


text \<open>C2: What a client's line can do to a UPS needs the matching permission. Handling any line of
  any client raises the forced-shutdown flag of a UPS only for a client whose user name, password and
  address pass for FSD; it counts a login only for one that passes for LOGIN; and anything written
  to a driver is either the SET line of a client that passes for SET, for a variable that the driver has
  declared writable and with a value that meets the declared length, values and ranges (\<open>value_admitted\<close>), or an INSTCMD line for a command that the
  driver offers and the client is allowed to run.\<close>

theorem privileged_effects:
  assumes "upsd_inv s" and "i < length (firstclient s)" and "k < length (firstups s)"
    and "old = firstups s ! k" and "new = firstups (parse_net s i) ! k"
  shows "(ups_fsd new \<noteq> ups_fsd old \<longrightarrow> client_may s i ''FSD'' \<and> ups_fsd new) \<and>
    (numlogins new \<noteq> numlogins old \<longrightarrow> client_may s i ''LOGIN'' \<and> numlogins new = numlogins old + 1) \<and>
    (sent (ups_sock new) \<noteq> sent (ups_sock old) \<longrightarrow>
      (\<exists>v x. client_may s i ''SET'' \<and> value_admitted old v x \<and>
         sent (ups_sock new) = sent (ups_sock old) @ [set_line v x]) \<or>
      (\<exists>c x. client_may_cmd s i c \<and> list_ex (\<lambda>y. strcaseeq y c) (ups_cmdlist old) \<and>
         sent (ups_sock new) = sent (ups_sock old) @ [instcmd_line c x]))"
  using privileged_effects_facts [OF assms] by blast

theorem privileged_effects_witness:
  "let s = demo_at (''FSD APC'' @ nl) in
   ups_fsd (firstups (parse_net s 0) ! 0) \<and> \<not> ups_fsd (firstups s ! 0) \<and> client_may s 0 ''FSD''"
proof -
  let ?s = "demo_at (''FSD APC'' @ nl)"
  have e: "\<not> ups_fsd (firstups ?s ! 0)" "ups_fsd (firstups (parse_net ?s 0) ! 0)" "0 < length (firstclient ?s)"
    "0 < length (firstups ?s)"
    using demo_fsd by (simp_all add: demo_at_fields)
  have "client_may ?s 0 ''FSD''"
    using privileged_effects [OF demo_at_inv e(3,4) refl refl] e(1,2) by blast
  with e show ?thesis by (simp only: Let_def simp_thms)
qed

section \<open>Credentials\<close>

lemma set_client_creds:
  "cl_username c = cl_username (client_at s i) \<Longrightarrow> cl_username (client_at (set_client s i c) j) = cl_username (client_at s j)"
  "cl_password c = cl_password (client_at s i) \<Longrightarrow> cl_password (client_at (set_client s i c) j) = cl_password (client_at s j)"
  by (simp_all add: client_at_set del: set_client_fields)

lemma client_read_loop_creds:
  "(cl_username (client_at s j) = Some n \<longrightarrow> cl_username (client_at (client_read_loop s i now cs) j) = Some n) \<and>
   (cl_password (client_at s j) = Some p \<longrightarrow> cl_password (client_at (client_read_loop s i now cs) j) = Some p)"
proof (induction cs arbitrary: s)
  case (Cons c cs)
  obtain r ctx where rc: "pconf_char (cl_ctx (client_at s i)) c = (r, ctx)" by force
  let ?s1 = "set_client s i ((client_at s i)\<lparr>cl_ctx := ctx\<rparr>)"
  let ?s2 = "set_client ?s1 i ((client_at ?s1 i)\<lparr>cl_last_heard := now\<rparr>)"
  have step: "client_read_loop s i now (c # cs) =
      (if r = 1 then client_read_loop (parse_net ?s2 i) i now cs
       else if r = 0 then client_read_loop ?s1 i now cs else ?s1)"
    using rc by (simp only: client_read_loop.simps Let_def prod.case)
  have "cl_username (client_at ?s2 j) = cl_username (client_at s j)"
    "cl_password (client_at ?s2 j) = cl_password (client_at s j)"
    "cl_username (client_at ?s1 j) = cl_username (client_at s j)"
    "cl_password (client_at ?s1 j) = cl_password (client_at s j)"
    by (simp_all add: set_client_creds del: set_client_fields set_client_twice)
  with Cons.IH [of "parse_net ?s2 i"] Cons.IH [of ?s1] c_parse_net.credentials [of ?s2 j _ i]
  show ?case unfolding step by simp
qed simp

section \<open>Kicking and shedding\<close>

lemma scan_clients_clients:
  "firstclient s = ys @ xs \<Longrightarrow>
   firstclient (scan_clients (length xs) s now (length ys)) = ys @ filter (\<lambda>c. now - cl_last_heard c \<le> 60) xs"
proof (induction xs arbitrary: s ys)
  case (Cons x xs)
  have x: "client_at s (length ys) = x" using Cons.prems by simp
  have "firstclient (client_disconnect s (length ys)) = ys @ xs"
    by (simp add: client_disconnect_clients Cons.prems unlink_Cons)
  with Cons.IH [of _ ys] Cons.IH [of s "ys @ [x]"] Cons.prems show ?case
    by (auto simp: x)
qed simp

lemma client_read_loop_others: "j \<noteq> i \<Longrightarrow> client_at (client_read_loop s i now cs) j = client_at s j"
proof (induction cs arbitrary: s)
  case (Cons c cs)
  obtain r ctx where rc: "pconf_char (cl_ctx (client_at s i)) c = (r, ctx)" by force
  then show ?case using Cons by (simp add: c_parse_net.others Let_def)
qed simp

lemma client_input_isolated_facts:
  assumes "i < length (firstclient s)"
  shows "j \<noteq> i \<Longrightarrow> client_at (client_read_loop s i now cs) j = client_at s j"
    and "cl_username (client_at s i) = Some n \<Longrightarrow> cl_username (client_at (client_read_loop s i now cs) i) = Some n"
    and "cl_password (client_at s i) = Some p \<Longrightarrow> cl_password (client_at (client_read_loop s i now cs) i) = Some p"
    and "length (firstclient (client_read_loop s i now cs)) = length (firstclient s)"
  using client_read_loop_others [of j i s now cs] client_read_loop_creds [of s i n i now cs p]
    client_read_loop_len [of s i now cs]
  by simp_all

text \<open>C22: Bytes from one client never touch another client's connection, user name, password,
  login or parser state, and no sequence of bytes changes a user name or password once it is set:
  a client cannot be handed, nor take, another identity.\<close>

theorem client_input_isolated:
  assumes "i < length (firstclient s)"
  shows "(j \<noteq> i \<longrightarrow> client_at (client_read_loop s i now cs) j = client_at s j) \<and>
    (cl_username (client_at s i) = Some n \<longrightarrow> cl_username (client_at (client_read_loop s i now cs) i) = Some n) \<and>
    (cl_password (client_at s i) = Some p \<longrightarrow> cl_password (client_at (client_read_loop s i now cs) i) = Some p) \<and>
    length (firstclient (client_read_loop s i now cs)) = length (firstclient s)"
  using client_input_isolated_facts [OF assms] by blast

theorem client_input_isolated_witness:
  "cl_username (client_at (client_read_loop (demo_at []) 0 200 (''USERNAME root'' @ nl)) 0) = Some ''mon''"
proof -
  have "0 < length (firstclient (demo_at []))" "cl_username (client_at (demo_at []) 0) = Some ''mon''" by code_simp+
  with client_input_isolated [OF this(1)] show ?thesis by blast
qed

text \<open>C29: Kicking the clients of a UPS removes exactly the clients logged into it and keeps the
  others in their order; the scan of a round removes exactly those that were silent for more than
  60 seconds, which includes every client whose last answer could not be written or who has logged
  out.\<close>

theorem clients_removed_exactly:
  "firstclient (kick_login_clients s nm) = filter (\<lambda>c. loginups c \<noteq> Some nm) (firstclient s) \<and>
   firstclient (scan_clients (length (firstclient s)) s now 0) =
     filter (\<lambda>c. now - cl_last_heard c \<le> 60) (firstclient s)"
  using kick_loop_clients [of s "[]" "firstclient s" nm] scan_clients_clients [of s "[]" "firstclient s" now]
  by (simp add: kick_login_clients_def)

section \<open>What the driver is told\<close>

lemma set_line_message:
  assumes "no_nul x" "length v + length (escape x) \<le> 503"
  shows "set_line v x = message [Plain ''SET'', Plain v, Quoted x]"
proof -
  have "pconf_encode x SMALLBUF = escape x"
    using assms pconf_encode_eq [of SMALLBUF x] enc_fit_full [of x "SMALLBUF - 1"] by (simp add: SMALLBUF_def)
  moreover have "length (''SET '' @ v @ '' '' @ quoted (escape x) @ nl) < SMALLBUF"
    using assms(2) by (simp add: SMALLBUF_def)
  ultimately show ?thesis unfolding set_line_def by (simp only: snprintf_id) (simp add: message_def)
qed

text \<open>C28: The SET line the server hands to a driver is read back by the driver's parser, on a
  connection that is at the start of a line, as exactly the three words SET, the variable and the
  value, whatever quotes, backslashes or number signs the value has, as long as name and escaped
  value together have at most 503 bytes.\<close>

theorem set_line_roundtrip:
  assumes "plain_word v" and "list_all word_char x" and "length v + length (escape x) \<le> 503"
    and "ctx_ready ctx"
  shows "pconf_words (feed ctx (set_line v x)) = [''SET'', v, x] \<and> ctx_ready (feed ctx (set_line v x))"
proof -
  have len: "length x \<le> length (escape x)" by (induction x) (auto simp: esc1_def)
  have "msg_ok PCONF_DEFAULT_ARG_LIMIT PCONF_DEFAULT_WORDLEN_LIMIT [Plain ''SET'', Plain v, Quoted x]"
    using assms(1-3) len by (auto simp: msg_ok_def plain_char_def pconf_escape_def)
  from feed_message(3,4) [OF assms(4) this] set_line_message [OF word_chars_no_nul [OF assms(2)] assms(3)]
  show ?thesis by simp
qed

theorem set_line_roundtrip_witness:
  "pconf_words (feed (pconf_init zero_ctx) (set_line ''ups.id'' [CHR 0x22, CHR ''#'', CHR 0x5C])) =
     [''SET'', ''ups.id'', [CHR 0x22, CHR ''#'', CHR 0x5C]]"
proof -
  have "plain_word ''ups.id''" "list_all word_char [CHR 0x22, CHR ''#'', CHR 0x5C]"
    "length ''ups.id'' + length (escape [CHR 0x22, CHR ''#'', CHR 0x5C]) \<le> 503"
    by code_simp+
  from set_line_roundtrip [OF this pconf_init_ready, of zero_ctx] show ?thesis by blast
qed

text \<open>A longer value is accepted as well, but the line is cut to 511 bytes and loses its
  newline: nothing reaches the driver's command handler, the words of the next line are read as
  part of this one, and the client is told OK.\<close>

theorem set_line_truncated:
  assumes "504 \<le> length v + length (pconf_encode x SMALLBUF)"
  shows "length (set_line v x) = 511 \<and> set_line v x = take 511 (''SET '' @ v @ '' '' @ quoted (pconf_encode x SMALLBUF))"
proof -
  let ?t = "''SET '' @ v @ '' '' @ quoted (pconf_encode x SMALLBUF)"
  have len: "511 \<le> length ?t" using assms by simp
  have "set_line v x = take 511 (?t @ nl)" by (simp add: set_line_def snprintf_def SMALLBUF_def)
  also have "\<dots> = take 511 ?t" unfolding take_append using len by (simp del: append_Cons append_Nil)
  finally show ?thesis using len by (metis length_take min.absorb2)
qed

theorem set_line_truncated_witness:
  "CHR 0x0A \<notin> set (set_line ''ups.id'' (replicate 500 (CHR ''x'')))"
proof -
  have e: "escape (replicate n (CHR ''x'')) = replicate n (CHR ''x'')" for n
    by (induction n) (simp_all add: esc1_def pconf_escape_def)
  have "pconf_encode (replicate 500 (CHR ''x'')) SMALLBUF = replicate 500 (CHR ''x'')"
    using pconf_encode_eq [of SMALLBUF "replicate 500 (CHR ''x'')"] e [of 500]
      enc_fit_full [of "replicate 500 (CHR ''x'')" "SMALLBUF - 1"]
    by (simp add: SMALLBUF_def set_replicate_conv_if)
  with set_line_truncated [of "''ups.id''" "replicate 500 (CHR ''x'')"] show ?thesis
    by (auto dest!: in_set_takeD)
qed

text \<open>The value of an instant command is not quoted: a value with a space in it reaches the
  driver as two words, of which it uses the first.\<close>

theorem instcmd_value_split:
  assumes "plain_word c" and "plain_word a" and "plain_word b" and "length c + length a + length b \<le> 500"
    and "ctx_ready ctx"
  shows "pconf_words (feed ctx (instcmd_line c (Some (a @ '' '' @ b)))) = [''INSTCMD'', c, a, b]"
proof -
  have esc: "escape w = w \<and> no_nul w" if "list_all plain_char w" for w
    using that by (induction w) (auto simp: esc1_def plain_char_def)
  have e: "escape (a @ '' '' @ b) = a @ '' '' @ b" "no_nul (a @ '' '' @ b)"
    using esc [of a] esc [of b] assms(2,3) by (auto simp: esc1_def pconf_escape_def)
  have enc: "pconf_encode (a @ '' '' @ b) SMALLBUF = a @ '' '' @ b"
  proof -
    have "length (escape (a @ '' '' @ b)) \<le> SMALLBUF - 1"
      unfolding e(1) using assms(4) by (simp add: SMALLBUF_def)
    from enc_fit_full [OF this] pconf_encode_eq [OF _ _ e(2), of SMALLBUF] e(1) show ?thesis
      by (simp only: SMALLBUF_def) simp
  qed
  have "length (''INSTCMD '' @ c @ '' '' @ (a @ '' '' @ b) @ nl) < SMALLBUF"
    using assms(4) by (simp add: SMALLBUF_def)
  then have line: "instcmd_line c (Some (a @ '' '' @ b)) = message [Plain ''INSTCMD'', Plain c, Plain a, Plain b]"
    unfolding instcmd_line_def option.case enc by (simp only: snprintf_id) (simp add: message_def)
  have "msg_ok PCONF_DEFAULT_ARG_LIMIT PCONF_DEFAULT_WORDLEN_LIMIT [Plain ''INSTCMD'', Plain c, Plain a, Plain b]"
    using assms(1-4) by (auto simp: msg_ok_def plain_char_def pconf_escape_def)
  from feed_message(4) [OF assms(5) this] line show ?thesis by simp
qed

theorem instcmd_value_split_witness:
  "pconf_words (feed (pconf_init zero_ctx) (instcmd_line ''test.battery.start'' (Some ''10 20''))) =
     [''INSTCMD'', ''test.battery.start'', ''10'', ''20'']"
proof -
  have "plain_word ''test.battery.start''" "plain_word ''10''" "plain_word ''20''"
    "length ''test.battery.start'' + length ''10'' + length ''20'' \<le> 500" by code_simp+
  from instcmd_value_split [OF this pconf_init_ready, of zero_ctx] show ?thesis
    by (simp only: append_Cons append_Nil)
qed
section \<open>Listing variables\<close>

text \<open>The answers of a client whose writes succeed.\<close>

definition answered :: "upsd \<Rightarrow> nat \<Rightarrow> string list \<Rightarrow> upsd" where
  "answered s i ts = set_client s i ((client_at s i)\<lparr>cl_sock :=
     (cl_sock (client_at s i))\<lparr>sent := sent (cl_sock (client_at s i)) @ map (snprintf (NUT_NET_ANSWER_MAX + 1)) ts\<rparr>\<rparr>)"

definition reachable_client :: "upsd \<Rightarrow> nat \<Rightarrow> bool" where
  "reachable_client s i \<longleftrightarrow> i < length (firstclient s) \<and> wplan (cl_sock (client_at s i)) = []"

lemma sendback_answered: "reachable_client s i \<Longrightarrow> sendback s i t = (answered s i [t], True)"
  by (simp add: sendback_def answered_def reachable_client_def Let_def)

lemma reachable_answered [simp]: "reachable_client s i \<Longrightarrow> reachable_client (answered s i ts) i"
  by (simp add: reachable_client_def answered_def)

lemma answered_twice: "reachable_client s i \<Longrightarrow> answered (answered s i ts) i us = answered s i (ts @ us)"
  by (simp add: answered_def reachable_client_def)

lemma answered_Nil [simp]: "answered s i [] = s"
  by (simp add: answered_def)

definition var_line :: "string \<Rightarrow> bool \<Rightarrow> st_node \<Rightarrow> string" where
  "var_line ups fsd n = ''VAR '' @ ups @ '' '' @ st_var n @ '' '' @
     quoted ((if fsd \<and> strcaseeq (st_var n) ''ups.status'' then ''FSD '' else []) @ st_val n) @ nl"

definition rw_lines :: "string \<Rightarrow> st_node \<Rightarrow> string list" where
  "rw_lines ups n = (if st_flags n AND ST_FLAG_RW \<noteq> 0
     then [''RW '' @ ups @ '' '' @ st_var n @ '' '' @ quoted (st_val n) @ nl] else [])"

lemma tree_dump_answered:
  "reachable_client s i \<Longrightarrow> tree_dump t s i ups rw fsd =
     (answered s i (concat (map (if rw then rw_lines ups else (\<lambda>n. [var_line ups fsd n])) (inorder t))), True)"
proof (induction t arbitrary: s)
  case (Node l n r)
  let ?f = "if rw then rw_lines ups else (\<lambda>n. [var_line ups fsd n])"
  let ?s1 = "answered s i (concat (map ?f (inorder l)))"
  have s1: "tree_dump l s i ups rw fsd = (?s1, True)" "reachable_client ?s1 i"
    using Node by simp_all
  let ?s2 = "answered ?s1 i (?f n)"
  have node: "(if rw
           then (if st_flags n AND ST_FLAG_RW \<noteq> 0
                 then sendback ?s1 i (''RW '' @ ups @ '' '' @ st_var n @ '' '' @ quoted (st_val n) @ nl)
                 else (?s1, True))
           else if fsd \<and> strcaseeq (st_var n) ''ups.status''
           then sendback ?s1 i (''VAR '' @ ups @ '' '' @ st_var n @ '' '' @ quoted (''FSD '' @ st_val n) @ nl)
           else sendback ?s1 i (''VAR '' @ ups @ '' '' @ st_var n @ '' '' @ quoted (st_val n) @ nl)) = (?s2, True)"
    unfolding sendback_answered [OF s1(2)] by (auto simp: rw_lines_def var_line_def)
  have "tree_dump (Node l n r) s i ups rw fsd = tree_dump r ?s2 i ups rw fsd"
    unfolding tree_dump.simps s1(1) Let_def prod.case node by simp
  also have "\<dots> = (answered ?s2 i (concat (map ?f (inorder r))), True)"
    using Node.IH(2) [of ?s2] s1(2) by simp
  finally show ?case using Node.prems s1(2) by (simp add: answered_twice)
qed simp

lemma list_var_lists_all_facts:
  assumes "reachable_client s i" and "get_ups_ptr s nm = Some u"
    and "0 \<le> sock_fd (firstups s ! u)" and "\<not> ups_stale (firstups s ! u)"
  shows "list_var s i nm = answered s i ([''BEGIN LIST VAR '' @ nm @ nl] @
           map (var_line nm (ups_fsd (firstups s ! u))) (inorder (inforoot (firstups s ! u))) @
           [''END LIST VAR '' @ nm @ nl])"
    and "list_rw s i nm = answered s i ([''BEGIN LIST RW '' @ nm @ nl] @
           concat (map (rw_lines nm) (inorder (inforoot (firstups s ! u)))) @
           [''END LIST RW '' @ nm @ nl])"
proof -
  have av: "with_available s i nm f = f u" for f
    using assms(2-4) by (simp add: with_available_def with_ups_def ups_available_def)
  have one: "concat (map (\<lambda>n. [g n]) xs) = map g xs" for g :: "st_node \<Rightarrow> string" and xs
    by (induction xs) auto
  show "list_var s i nm = answered s i ([''BEGIN LIST VAR '' @ nm @ nl] @
           map (var_line nm (ups_fsd (firstups s ! u))) (inorder (inforoot (firstups s ! u))) @
           [''END LIST VAR '' @ nm @ nl])"
    using assms(1)
    by (simp add: list_var_def av sendback_answered tree_dump_answered answered_twice one
        del: append_Cons append_Nil)
  show "list_rw s i nm = answered s i ([''BEGIN LIST RW '' @ nm @ nl] @
           concat (map (rw_lines nm) (inorder (inforoot (firstups s ! u)))) @
           [''END LIST RW '' @ nm @ nl])"
    using assms(1)
    by (simp add: list_rw_def av sendback_answered tree_dump_answered answered_twice
        del: append_Cons append_Nil)
qed

text \<open>A client that asks for the variables of an available UPS gets one line per variable,
  in ascending order of the names, between the BEGIN and END lines, with the status marked FSD when
  a forced shutdown is set; asking for RW variables gets exactly those with the RW flag.\<close>

theorem list_var_lists_all:
  assumes "reachable_client s i" and "get_ups_ptr s nm = Some u"
    and "0 \<le> sock_fd (firstups s ! u)" and "\<not> ups_stale (firstups s ! u)"
  shows "list_var s i nm = answered s i ([''BEGIN LIST VAR '' @ nm @ nl] @
           map (var_line nm (ups_fsd (firstups s ! u))) (inorder (inforoot (firstups s ! u))) @
           [''END LIST VAR '' @ nm @ nl]) \<and>
    list_rw s i nm = answered s i ([''BEGIN LIST RW '' @ nm @ nl] @
           concat (map (rw_lines nm) (inorder (inforoot (firstups s ! u)))) @
           [''END LIST RW '' @ nm @ nl])"
  by (intro conjI list_var_lists_all_facts [OF assms])

theorem list_var_lists_all_witness:
  "let ups = upstype_open\<lparr>ups_name := ''apc'', ups_fsd := True,
         inforoot := foldl st_apply Leaf [OpSetinfo ''ups.status'' ''OL'', OpSetinfo ''battery.charge'' ''100'']\<rparr>;
       s = (demo_at [])\<lparr>firstups := [ups]\<rparr>
   in sent (cl_sock (client_at (list_var s 0 ''APC'') 0)) =
        [''BEGIN LIST VAR APC'' @ nl, ''VAR APC battery.charge \"100\"'' @ nl,
         ''VAR APC ups.status \"FSD OL\"'' @ nl, ''END LIST VAR APC'' @ nl]"
proof -
  let ?ups = "upstype_open\<lparr>ups_name := ''apc'', ups_fsd := True,
         inforoot := foldl st_apply Leaf [OpSetinfo ''ups.status'' ''OL'', OpSetinfo ''battery.charge'' ''100'']\<rparr>"
  let ?s = "(demo_at [])\<lparr>firstups := [?ups]\<rparr>"
  have h: "reachable_client ?s 0" "get_ups_ptr ?s ''APC'' = Some 0" "0 \<le> sock_fd (firstups ?s ! 0)"
    "\<not> ups_stale (firstups ?s ! 0)" by code_simp+
  have "sent (cl_sock (client_at (answered ?s 0 ([''BEGIN LIST VAR '' @ ''APC'' @ nl] @
           map (var_line ''APC'' (ups_fsd (firstups ?s ! 0))) (inorder (inforoot (firstups ?s ! 0))) @
           [''END LIST VAR '' @ ''APC'' @ nl])) 0)) =
        [''BEGIN LIST VAR APC'' @ nl, ''VAR APC battery.charge \"100\"'' @ nl,
         ''VAR APC ups.status \"FSD OL\"'' @ nl, ''END LIST VAR APC'' @ nl]"
    by code_simp
  with list_var_lists_all [OF h, THEN conjunct1] show ?thesis by (simp only: Let_def)
qed

section \<open>Enumerated values with special characters\<close>

text \<open>The permitted values of an enumerated variable are kept in their escaped form but
  compared with the plain value of a SET: a value that the driver itself has declared is refused as
  INVALID-VALUE when it contains a quote, a backslash or a number sign.\<close>

theorem enum_escaped_refused:
  assumes "no_nul x" and "escape x \<noteq> x" and "length (escape x) \<le> 255" and "inforoot ups = Leaf"
  shows "set_value_error (foldl dmsg_apply ups [DInfo (OpSetinfo v y), DInfo (OpSetflags v [''RW'']), DInfo (OpAddenum v x)])
           v x = Some ''INVALID-VALUE''"
proof -
  have enc: "pconf_encode x ST_MAX_VALUE_LEN = escape x"
    unfolding pconf_encode_value [OF assms(1)]
    using assms(3) by (intro enc_fit_full) (simp add: ST_MAX_VALUE_LEN_def)
  have rw: "setflags_loop [''RW''] 0 = 1"
    by (simp add: strcaseeq_eval ST_FLAG_RW_def)
  have "state_tree_find (foldl st_apply Leaf [OpSetinfo v y, OpSetflags v [''RW''], OpAddenum v x]) v =
      Some ((state_node_new v y)\<lparr>st_flags := 1, st_enum_list := [escape x]\<rparr>)"
    using info_tree.look_run [of Leaf "[OpSetinfo v y, OpSetflags v [''RW''], OpAddenum v x]" v]
    by (simp add: enc rw del: setflags_loop.simps)
  with assms(2,4) show ?thesis
    by (simp add: set_value_error_def sstate_getflags_def sstate_getenumlist_def state_getflags_def
        state_getenumlist_def sstate_getaux_def state_getaux_def ST_FLAG_RW_def ST_FLAG_STRING_def Let_def)
qed

theorem enum_escaped_refused_witness:
  "set_value_error (foldl dmsg_apply upstype_open [DInfo (OpSetinfo ''input.sensitivity'' ''L''),
      DInfo (OpSetflags ''input.sensitivity'' [''RW'']), DInfo (OpAddenum ''input.sensitivity'' ''#1'')])
    ''input.sensitivity'' ''#1'' = Some ''INVALID-VALUE''"
proof -
  have "no_nul ''#1''" "escape ''#1'' \<noteq> ''#1''" "length (escape ''#1'') \<le> 255" "inforoot upstype_open = Leaf"
    by code_simp+
  from enum_escaped_refused [OF this] show ?thesis .
qed

end
