(* ===== verification/Upsclient.thy ===== *)
theory Upsclient
  imports Parseconf
begin

text \<open>
  The client library (\<open>clients/upsclient.c\<close>, \<open>clients/upsclient.h\<close>): a connection with its read
  buffer, sending and reading lines, building and checking requests, and splitting UPS names.

  What the network does is data of the connection: \<open>uc_out\<close> holds the results of the coming writes
  (all bytes are written once the list is empty), \<open>uc_sent\<close> what has been written, and \<open>uc_in\<close> the results
  of the coming reads. On the plain and on the SSL descriptor \<open>net_write\<close> and \<open>net_read\<close> differ only in
  the error they set. The functions that read \<open>arglist\<close> beyond the words of the line
  give \<^const>\<open>None\<close> where there is no such entry.

  Shown here: a line is read as it was sent however the network cuts the bytes, requests arrive as
  the words they were built from, and the answer to a GET request is read back as its words.
\<close>

unbundle bit_operations_syntax

section \<open>State\<close>

record upsconn =
  uc_host :: "string option"
  uc_port :: int
  uc_fd :: int
  upserror :: nat
  upsclient_magic :: int
  uc_ctx :: pconf_ctx
  uc_sent :: "string list"
  uc_out :: "int list"
  uc_in :: "rd list"
  readbuf :: string
  readlen :: nat
  readidx :: nat
  uc_ssl :: bool

definition UPSCLIENT_MAGIC :: int where "UPSCLIENT_MAGIC = 0x19980308"
definition UPSCLI_NETBUF_LEN :: nat where "UPSCLI_NETBUF_LEN = 512"
definition PORT :: int where "PORT = 3493"

definition UPSCLI_ERR_UNKNOWN :: nat where "UPSCLI_ERR_UNKNOWN = 0"
definition UPSCLI_ERR_NOSUCHHOST :: nat where "UPSCLI_ERR_NOSUCHHOST = 2"
definition UPSCLI_ERR_UNKNOWNUPS :: nat where "UPSCLI_ERR_UNKNOWNUPS = 4"
definition UPSCLI_ERR_UNKCOMMAND :: nat where "UPSCLI_ERR_UNKCOMMAND = 25"
definition UPSCLI_ERR_INVALIDARG :: nat where "UPSCLI_ERR_INVALIDARG = 26"
definition UPSCLI_ERR_WRITE :: nat where "UPSCLI_ERR_WRITE = 32"
definition UPSCLI_ERR_READ :: nat where "UPSCLI_ERR_READ = 33"
definition UPSCLI_ERR_SSLFAIL :: nat where "UPSCLI_ERR_SSLFAIL = 36"
definition UPSCLI_ERR_SSLERR :: nat where "UPSCLI_ERR_SSLERR = 37"
definition UPSCLI_ERR_SRVDISC :: nat where "UPSCLI_ERR_SRVDISC = 38"
definition UPSCLI_ERR_DRVNOTCONN :: nat where "UPSCLI_ERR_DRVNOTCONN = 39"
definition UPSCLI_ERR_PARSE :: nat where "UPSCLI_ERR_PARSE = 41"
definition UPSCLI_ERR_PROTOCOL :: nat where "UPSCLI_ERR_PROTOCOL = 42"

definition UPSCLI_CONN_TRYSSL :: "32 word" where "UPSCLI_CONN_TRYSSL = 1"
definition UPSCLI_CONN_REQSSL :: "32 word" where "UPSCLI_CONN_REQSSL = 2"
definition UPSCLI_CONN_INET :: "32 word" where "UPSCLI_CONN_INET = 4"
definition UPSCLI_CONN_INET6 :: "32 word" where "UPSCLI_CONN_INET6 = 8"
definition UPSCLI_CONN_CERTVERIF :: "32 word" where "UPSCLI_CONN_CERTVERIF = 16"

text \<open>The table of the server's error words.\<close>

definition upsd_errlist :: "(nat \<times> string) list" where
  "upsd_errlist =
     [(1, ''VAR-NOT-SUPPORTED''), (4, ''UNKNOWN-UPS''), (6, ''ACCESS-DENIED''), (7, ''PASSWORD-REQUIRED''),
      (8, ''PASSWORD-INCORRECT''), (9, ''MISSING-ARGUMENT''), (10, ''DATA-STALE''), (11, ''VAR-UNKNOWN''),
      (12, ''ALREADY-LOGGED-IN''), (13, ''ALREADY-SET-PASSWORD''), (14, ''UNKNOWN-TYPE''), (15, ''UNKNOWN-VAR''),
      (16, ''READONLY''), (17, ''TOO-LONG''), (18, ''INVALID-VALUE''), (19, ''SET-FAILED''),
      (20, ''UNKNOWN-INSTCMD''), (21, ''INSTCMD-FAILED''), (22, ''CMD-NOT-SUPPORTED''), (23, ''INVALID-USERNAME''),
      (24, ''ALREADY-SET-USERNAME''), (25, ''UNKNOWN-COMMAND''), (34, ''INVALID-PASSWORD''),
      (35, ''USERNAME-REQUIRED''), (39, ''DRIVER-NOT-CONNECTED'')]"

section \<open>Connections\<close>

definition net_error :: "upsconn \<Rightarrow> nat \<Rightarrow> nat" where
  "net_error c e = (if uc_ssl c then UPSCLI_ERR_SSLERR else e)"

text \<open>The result of a write is the number of bytes written, 0 if the descriptor is not ready and negative
  on an error. A write of some of the bytes counts as written.\<close>

definition net_write :: "upsconn \<Rightarrow> string \<Rightarrow> upsconn \<times> int" where
  "net_write c buf =
     (case uc_out c of
        [] \<Rightarrow> (c\<lparr>uc_sent := uc_sent c @ [buf]\<rparr>, int (length buf))
      | ret # rs \<Rightarrow>
          let c1 = c\<lparr>uc_out := rs\<rparr> in
          if 0 < ret then (c1\<lparr>uc_sent := uc_sent c @ [take (nat ret) buf]\<rparr>, min ret (int (length buf)))
          else (c1\<lparr>upserror := net_error c (if ret < 0 then UPSCLI_ERR_WRITE else UPSCLI_ERR_SRVDISC)\<rparr>, ret))"

text \<open>At most \<open>n\<close> bytes; what is left of them comes with the next read. No bytes is the end of the
  stream or the expiry of the timeout.\<close>

definition net_read :: "upsconn \<Rightarrow> nat \<Rightarrow> upsconn \<times> string option" where
  "net_read c n =
     (case uc_in c of
        RdData b # rs \<Rightarrow>
          if b = [] then (c\<lparr>upserror := net_error c UPSCLI_ERR_SRVDISC, uc_in := rs\<rparr>, None)
          else (c\<lparr>uc_in := (if length b \<le> n then rs else RdData (drop n b) # rs)\<rparr>, Some (take n b))
      | RdError # rs \<Rightarrow> (c\<lparr>upserror := net_error c UPSCLI_ERR_READ, uc_in := rs\<rparr>, None)
      | RdAgain # rs \<Rightarrow> (c\<lparr>upserror := net_error c UPSCLI_ERR_SRVDISC, uc_in := rs\<rparr>, None)
      | [] \<Rightarrow> (c\<lparr>upserror := net_error c UPSCLI_ERR_SRVDISC\<rparr>, None))"

definition upscli_disconnect :: "upsconn \<Rightarrow> upsconn" where
  "upscli_disconnect c =
     (if upsclient_magic c \<noteq> UPSCLIENT_MAGIC then c
      else
        let c1 = c\<lparr>uc_ctx := pconf_finish (uc_ctx c), uc_host := None\<rparr> in
        if uc_fd c1 < 0 then c1
        else (fst (net_write c1 (''LOGOUT'' @ nl)))\<lparr>uc_ssl := False, uc_fd := -1\<rparr>)"

text \<open>What the system and the SSL handshake give: no address, no connection, or a descriptor with the
  coming writes and reads and the result of \<open>upscli_sslinit\<close>.\<close>

datatype conn_env = NoHost nat | NoSocket nat | Opened int "int list" "rd list" int

definition upsconn_zero :: upsconn where
  "upsconn_zero = \<lparr>uc_host = None, uc_port = 0, uc_fd = 0, upserror = 0, upsclient_magic = 0, uc_ctx = zero_ctx,
     uc_sent = [], uc_out = [], uc_in = [], readbuf = [], readlen = 0, readidx = 0, uc_ssl = False\<rparr>"

definition upscli_tryconnect :: "string option \<Rightarrow> int \<Rightarrow> 32 word \<Rightarrow> conn_env \<Rightarrow> upsconn \<times> int" where
  "upscli_tryconnect host port flags env =
     (let c = upsconn_zero\<lparr>upsclient_magic := UPSCLIENT_MAGIC, uc_fd := -1\<rparr> in
      case host of
        None \<Rightarrow> (c\<lparr>upserror := UPSCLI_ERR_NOSUCHHOST\<rparr>, -1)
      | Some h \<Rightarrow>
          (case env of
             NoHost e \<Rightarrow> (c\<lparr>upserror := e\<rparr>, -1)
           | NoSocket e \<Rightarrow> (c\<lparr>upserror := e\<rparr>, -1)
           | Opened fd plan ins ret \<Rightarrow>
               let c1 = c\<lparr>uc_fd := fd, upserror := 0, uc_sent := [], uc_out := plan, uc_in := ins,
                          uc_ctx := pconf_init (uc_ctx c), uc_host := Some h, uc_port := port\<rparr>;
                   certverify = flags AND UPSCLI_CONN_CERTVERIF \<noteq> 0;
                   forcessl = flags AND UPSCLI_CONN_REQSSL \<noteq> 0;
                   tryssl = flags AND UPSCLI_CONN_TRYSSL \<noteq> 0
               in if tryssl \<or> forcessl
                  then
                    let c2 = (if ret = 1 then c1\<lparr>uc_ssl := True\<rparr> else c1) in
                    if forcessl \<and> ret \<noteq> 1 then (upscli_disconnect (c2\<lparr>upserror := UPSCLI_ERR_SSLFAIL\<rparr>), -1)
                    else if tryssl \<and> ret = -1 then (upscli_disconnect c2, -1)
                    else if tryssl \<and> ret = 0 then (if certverify then (upscli_disconnect c2, -1) else (c2, 0))
                    else (c2, 0)
                  else (c1, 0)))"

definition upscli_connect :: "string option \<Rightarrow> int \<Rightarrow> 32 word \<Rightarrow> conn_env \<Rightarrow> upsconn \<times> int" where
  "upscli_connect host port flags env = upscli_tryconnect host port flags env"

definition upscli_sendline :: "upsconn \<Rightarrow> string \<Rightarrow> upsconn \<times> int" where
  "upscli_sendline c buf =
     (if uc_fd c < 0 then (c\<lparr>upserror := UPSCLI_ERR_DRVNOTCONN\<rparr>, -1)
      else if length buf < 1 then (c\<lparr>upserror := UPSCLI_ERR_INVALIDARG\<rparr>, -1)
      else if upsclient_magic c \<noteq> UPSCLIENT_MAGIC then (c\<lparr>upserror := UPSCLI_ERR_INVALIDARG\<rparr>, -1)
      else let (c1, ret) = net_write c buf in if ret < 1 then (upscli_disconnect c1, -1) else (c1, 0))"

text \<open>The loop of \<open>upscli_readline\<close>; \<open>m\<close> bytes of the caller's buffer are left.\<close>

fun readline_loop :: "upsconn \<Rightarrow> nat \<Rightarrow> string \<Rightarrow> upsconn \<times> string option" where
  "readline_loop c 0 buf = (c, Some buf)"
| "readline_loop c (Suc m) buf =
     (case (if readidx c = readlen c
            then (case net_read c 64 of
                    (c1, None) \<Rightarrow> (upscli_disconnect c1, False)
                  | (c1, Some b) \<Rightarrow> (c1\<lparr>readbuf := b, readlen := length b, readidx := 0\<rparr>, True))
            else (c, True)) of
        (c2, ok) \<Rightarrow>
          if \<not> ok then (c2, None)
          else
            let ch = readbuf c2 ! readidx c2;
                c3 = c2\<lparr>readidx := readidx c2 + 1\<rparr>
            in if ch = CHR 0x0A then (c3, Some buf) else readline_loop c3 m (buf @ [ch]))"

text \<open>The caller sees the buffer as a C string.\<close>

definition upscli_readline :: "upsconn \<Rightarrow> nat \<Rightarrow> upsconn \<times> string option" where
  "upscli_readline c buflen =
     (if uc_fd c < 0 then (c\<lparr>upserror := UPSCLI_ERR_DRVNOTCONN\<rparr>, None)
      else if buflen < 1 then (c\<lparr>upserror := UPSCLI_ERR_INVALIDARG\<rparr>, None)
      else if upsclient_magic c \<noteq> UPSCLIENT_MAGIC then (c\<lparr>upserror := UPSCLI_ERR_INVALIDARG\<rparr>, None)
      else case readline_loop c (buflen - 1) [] of
        (c1, None) \<Rightarrow> (c1, None)
      | (c1, Some buf) \<Rightarrow> (c1, Some (takeWhile (\<lambda>x. x \<noteq> CHR 0x00) buf)))"

section \<open>Requests\<close>

text \<open>\<open>&buf[4]\<close> of the line \<open>ERR\<close> alone lies behind the string; it is taken as empty here.\<close>

definition upscli_errcheck :: "upsconn \<Rightarrow> string \<Rightarrow> upsconn \<times> int" where
  "upscli_errcheck c buf =
     (if take 3 buf \<noteq> ''ERR'' then (c, 0)
      else case find (\<lambda>(e, t). take (length t) (drop 4 buf) = t) upsd_errlist of
        Some (e, t) \<Rightarrow> (c\<lparr>upserror := e\<rparr>, -1)
      | None \<Rightarrow> (c\<lparr>upserror := UPSCLI_ERR_UNKNOWN\<rparr>, -1))"

text \<open>\<open>snprintf(buf + len, bufsize - len, ...)\<close>\<close>

definition append_n :: "nat \<Rightarrow> string \<Rightarrow> string \<Rightarrow> string" where
  "append_n n buf t = buf @ snprintf (n - length buf) t"

fun build_args :: "nat \<Rightarrow> string \<Rightarrow> string list \<Rightarrow> string" where
  "build_args n buf [] = buf"
| "build_args n buf (a # as) =
     (let enc = pconf_encode a UPSCLI_NETBUF_LEN in
      build_args n (append_n n buf (if CHR '' '' \<in> set a then '' \"'' @ enc @ ''\"'' else '' '' @ enc)) as)"

definition build_cmd :: "nat \<Rightarrow> string \<Rightarrow> string list \<Rightarrow> string" where
  "build_cmd n cmdname as = append_n n (build_args n (snprintf n cmdname) as) nl"

fun verify_resp :: "string list \<Rightarrow> string list \<Rightarrow> bool option" where
  "verify_resp [] a = Some True"
| "verify_resp (q # qs) [] = None"
| "verify_resp (q # qs) (a # as) = (if \<not> strcaseeq q a then Some False else verify_resp qs as)"

text \<open>Sends a request and reads the answer's words into the context; the common start of
  \<open>upscli_get\<close> and \<open>upscli_list_start\<close>.\<close>

definition fail_with :: "upsconn \<Rightarrow> nat \<Rightarrow> upsconn \<times> int" where
  "fail_with c e = (c\<lparr>upserror := e\<rparr>, -1)"

definition read_words :: "upsconn \<Rightarrow> upsconn \<times> int" where
  "read_words c =
     (case upscli_readline c UPSCLI_NETBUF_LEN of
        (c1, None) \<Rightarrow> (c1, -1)
      | (c1, Some tmp) \<Rightarrow>
          let (c2, r) = upscli_errcheck c1 tmp in
          if r \<noteq> 0 then (c2, -1)
          else let (p, ctx) = pconf_line (uc_ctx c2) tmp;
                   c3 = c2\<lparr>uc_ctx := ctx\<rparr>
               in if p = 0 then fail_with c3 UPSCLI_ERR_PARSE else (c3, 0))"

definition ask :: "upsconn \<Rightarrow> string \<Rightarrow> string list \<Rightarrow> upsconn \<times> int" where
  "ask c cmdname query =
     (if length query < 1 then fail_with c UPSCLI_ERR_INVALIDARG
      else
        let (c1, r) = upscli_sendline c (build_cmd UPSCLI_NETBUF_LEN cmdname query) in
        if r \<noteq> 0 then (c1, -1) else read_words c1)"

text \<open>On success the answer is \<open>numargs\<close> and \<open>arglist\<close> of the connection's context.\<close>

definition upscli_get :: "upsconn \<Rightarrow> string list \<Rightarrow> (upsconn \<times> int) option" where
  "upscli_get c query =
     (let (c1, r) = ask c ''GET'' query in
      if r \<noteq> 0 then Some (c1, -1)
      else if numargs (uc_ctx c1) < length query then Some (fail_with c1 UPSCLI_ERR_PROTOCOL)
      else case verify_resp query (arglist (uc_ctx c1)) of
        None \<Rightarrow> None
      | Some ok \<Rightarrow> if \<not> ok then Some (fail_with c1 UPSCLI_ERR_PROTOCOL) else Some (c1, 0))"

definition upscli_list_start :: "upsconn \<Rightarrow> string list \<Rightarrow> (upsconn \<times> int) option" where
  "upscli_list_start c query =
     (let (c1, r) = ask c ''LIST'' query in
      if r \<noteq> 0 then Some (c1, -1)
      else if numargs (uc_ctx c1) < 2 then Some (fail_with c1 UPSCLI_ERR_PROTOCOL)
      else if \<not> strcaseeq (arglist (uc_ctx c1) ! 0) ''BEGIN'' \<or> \<not> strcaseeq (arglist (uc_ctx c1) ! 1) ''LIST''
      then Some (fail_with c1 UPSCLI_ERR_PROTOCOL)
      else case verify_resp query (drop 2 (arglist (uc_ctx c1))) of
        None \<Rightarrow> None
      | Some ok \<Rightarrow> if \<not> ok then Some (fail_with c1 UPSCLI_ERR_PROTOCOL) else Some (c1, 0))"

definition upscli_list_next :: "upsconn \<Rightarrow> string list \<Rightarrow> (upsconn \<times> int) option" where
  "upscli_list_next c query =
     (let (c1, r) = read_words c in
      if r \<noteq> 0 then Some (c1, -1)
      else if numargs (uc_ctx c1) < 1 then Some (fail_with c1 UPSCLI_ERR_PROTOCOL)
      else if numargs (uc_ctx c1) \<ge> 2 \<and> arglist (uc_ctx c1) ! 0 = ''END'' \<and> arglist (uc_ctx c1) ! 1 = ''LIST''
      then Some (c1, 0)
      else case verify_resp query (arglist (uc_ctx c1)) of
        None \<Rightarrow> None
      | Some ok \<Rightarrow> if \<not> ok then Some (fail_with c1 UPSCLI_ERR_PROTOCOL) else Some (c1, 1))"

section \<open>Names\<close>

text \<open>\<open>strtok_r\<close> with one separator: the first piece that is not empty and what follows its
  separator; \<^const>\<open>None\<close> when there is no piece.\<close>

definition strtok1 :: "char \<Rightarrow> string \<Rightarrow> (string \<times> string) option" where
  "strtok1 d s =
     (let t = dropWhile (\<lambda>x. x = d) s in
      if t = [] then None else Some (takeWhile (\<lambda>x. x \<noteq> d) t, drop 1 (dropWhile (\<lambda>x. x \<noteq> d) t)))"

text \<open>What follows the first separator after \<open>strtok_r\<close> has cut its piece \<open>w\<close> out: when the string
  starts with separators, the end of the piece is the end of the string.\<close>

definition after_sep :: "char \<Rightarrow> string \<Rightarrow> string \<Rightarrow> string" where
  "after_sep d s w =
     (if hd s = d then tl (takeWhile (\<lambda>x. x = d) s) @ w else tl (dropWhile (\<lambda>x. x \<noteq> d) s))"

text \<open>Results are \<^const>\<open>None\<close> where the code passes a null pointer to \<open>strdup\<close>; else the outputs as
  far as they were set, and the returned value.\<close>

definition port_of :: "string \<Rightarrow> int \<times> int" where
  "port_of t = (if t = [] then (0, -1) else let p = int32 (strtol10 t) in (p, if p < 1 then -1 else 0))"

definition upscli_splitaddr :: "string \<Rightarrow> (string option \<times> int \<times> int) option" where
  "upscli_splitaddr buf =
     (let tmp = snprintf SMALLBUF buf in
      if tmp = [] then Some (None, 0, -1)
      else if hd tmp = CHR ''[''
      then
        if CHR '']'' \<notin> set tmp then Some (None, 0, -1)
        else (case strtok1 (CHR '']'') (tl tmp) of
                None \<Rightarrow> None
              | Some (h, rest) \<Rightarrow>
                  if rest = [] \<or> hd rest \<noteq> CHR '':'' then Some (Some h, PORT, 0)
                  else let (p, r) = port_of (tl rest) in Some (Some h, p, r))
      else (case strtok1 (CHR '':'') tmp of
              None \<Rightarrow> None
            | Some (h, _) \<Rightarrow>
                if CHR '':'' \<notin> set tmp then Some (Some h, PORT, 0)
                else let (p, r) = port_of (after_sep (CHR '':'') tmp h) in Some (Some h, p, r)))"

definition upscli_splitname :: "string \<Rightarrow> (string option \<times> string option \<times> int \<times> int) option" where
  "upscli_splitname buf =
     (let tmp = snprintf SMALLBUF buf in
      if tmp = [] then Some (None, None, 0, -1)
      else case strtok1 (CHR ''@'') tmp of
        None \<Rightarrow> None
      | Some (u, _) \<Rightarrow>
          if CHR ''@'' \<notin> set tmp then Some (Some u, Some ''localhost'', PORT, 0)
          else (case upscli_splitaddr (after_sep (CHR ''@'') tmp u) of
                  None \<Rightarrow> None
                | Some (h, p, r) \<Rightarrow> Some (Some u, h, p, r)))"

section \<open>Reading a line\<close>

text \<open>The bytes a connection has not handed out yet.\<close>

definition reads_bytes :: "rd list \<Rightarrow> string option" where
  "reads_bytes rs = (if \<forall>r\<in>set rs. \<exists>b. r = RdData b \<and> b \<noteq> []
     then Some (concat (map (\<lambda>r. case r of RdData b \<Rightarrow> b | _ \<Rightarrow> []) rs)) else None)"

definition conn_fine :: "upsconn \<Rightarrow> bool" where
  "conn_fine c \<longleftrightarrow> 0 \<le> uc_fd c \<and> upsclient_magic c = UPSCLIENT_MAGIC \<and> readidx c \<le> readlen c \<and>
     readlen c = length (readbuf c)"

definition pending :: "upsconn \<Rightarrow> string option" where
  "pending c = map_option (\<lambda>bs. drop (readidx c) (readbuf c) @ bs) (reads_bytes (uc_in c))"

lemma reads_bytes_simps [simp]:
  "reads_bytes [] = Some []"
  "reads_bytes (RdData b # rs) = (if b = [] then None else map_option ((@) b) (reads_bytes rs))"
  by (auto simp: reads_bytes_def)

lemma reads_bytes_Cons: "reads_bytes (r # rs) = Some bs \<Longrightarrow> \<exists>b cs. r = RdData b \<and> b \<noteq> [] \<and> reads_bytes rs = Some cs \<and> bs = b @ cs"
  by (cases r) (auto simp: reads_bytes_def split: if_splits)

lemma reads_bytes_drop:
  "reads_bytes (RdData b # rs) = Some bs \<Longrightarrow> n < length b \<Longrightarrow> reads_bytes (RdData (drop n b) # rs) = Some (drop n bs)"
  by (auto split: if_splits)

text \<open>One byte.\<close>

lemma readline_step:
  assumes "conn_fine c" "pending c = Some (x # bs)"
  obtains c2 where "conn_fine c2" "pending c2 = Some bs" "uc_ctx c2 = uc_ctx c" "uc_sent c2 = uc_sent c" "uc_out c2 = uc_out c" "uc_fd c2 = uc_fd c"
    "\<And>m buf. readline_loop c (Suc m) buf = (if x = CHR 0x0A then (c2, Some buf) else readline_loop c2 m (buf @ [x]))"
proof (cases "readidx c = readlen c")
  case True
  with assms have "reads_bytes (uc_in c) = Some (x # bs)" by (auto simp: pending_def conn_fine_def)
  then obtain b rs cs where r: "uc_in c = RdData b # rs" "b \<noteq> []" "reads_bytes rs = Some cs" "x # bs = b @ cs"
    using reads_bytes_Cons by (cases "uc_in c") fastforce+
  then obtain b' where b: "b = x # b'" "bs = b' @ cs" by (cases b) auto
  let ?c = "c\<lparr>uc_in := (if length b \<le> 64 then rs else RdData (drop 64 b) # rs), readbuf := take 64 b,
     readlen := length (take 64 b), readidx := 1\<rparr>"
  show thesis
  proof (rule that [of ?c])
    show "conn_fine ?c" using assms(1) b by (simp add: conn_fine_def)
    have "drop (Suc 0) (take 64 b) = take 63 b'" by (simp add: b)
    moreover have "take 63 b' @ drop 63 b' = b'" by simp
    ultimately show "pending ?c = Some bs"
      using r(3) b by (simp add: pending_def)
  qed (use True r b in \<open>simp_all add: net_read_def\<close>)
next
  case False
  with assms obtain cs where cs: "reads_bytes (uc_in c) = Some cs" "drop (readidx c) (readbuf c) @ cs = x # bs" "readidx c < length (readbuf c)"
    by (auto simp: pending_def conn_fine_def)
  then have d: "drop (readidx c) (readbuf c) = readbuf c ! readidx c # drop (Suc (readidx c)) (readbuf c)"
    by (simp add: Cons_nth_drop_Suc)
  show thesis
    by (rule that [of "c\<lparr>readidx := readidx c + 1\<rparr>"])
      (use assms(1) cs d False in \<open>auto simp: conn_fine_def pending_def\<close>)
qed

lemma readline_loop_line:
  "conn_fine c \<Longrightarrow> pending c = Some (l @ nl @ rest) \<Longrightarrow> CHR 0x0A \<notin> set l \<Longrightarrow> length l < m \<Longrightarrow>
   \<exists>c'. readline_loop c m buf = (c', Some (buf @ l)) \<and> conn_fine c' \<and> pending c' = Some rest \<and>
     uc_ctx c' = uc_ctx c \<and> uc_sent c' = uc_sent c \<and> uc_out c' = uc_out c \<and> uc_fd c' = uc_fd c"
proof (induction l arbitrary: c m buf)
  case Nil
  then obtain k where "m = Suc k" by (cases m) auto
  with Nil obtain c2 where "conn_fine c2" "pending c2 = Some rest" "uc_ctx c2 = uc_ctx c" "uc_sent c2 = uc_sent c" "uc_out c2 = uc_out c" "uc_fd c2 = uc_fd c"
    "readline_loop c m buf = (c2, Some buf)"
    using readline_step [of c "CHR 0x0A" rest] by (metis append_Cons append_Nil)
  then show ?case by auto
next
  case (Cons x l)
  then obtain k where k: "m = Suc k" by (cases m) auto
  from Cons.prems obtain c2 where c2: "conn_fine c2" "pending c2 = Some (l @ nl @ rest)" "uc_ctx c2 = uc_ctx c"
    "uc_sent c2 = uc_sent c" "uc_out c2 = uc_out c" "uc_fd c2 = uc_fd c" "readline_loop c m buf = readline_loop c2 k (buf @ [x])"
    using readline_step [of c x "l @ nl @ rest"] k by (metis append_Cons list.set_intros(1))
  from Cons.IH [OF c2(1,2), of k "buf @ [x]"] Cons.prems k c2 show ?case by auto
qed

lemma readline_line:
  assumes "conn_fine c" "pending c = Some (l @ nl @ rest)" "CHR 0x0A \<notin> set l" "no_nul l" "length l + 1 < n"
  obtains c' where "upscli_readline c n = (c', Some l)" "conn_fine c'" "pending c' = Some rest"
    "uc_ctx c' = uc_ctx c" "uc_sent c' = uc_sent c" "uc_out c' = uc_out c" "uc_fd c' = uc_fd c"
proof -
  have "length l < n - 1" using assms(5) by simp
  from readline_loop_line [OF assms(1-3) this, of "[]"]
  obtain c' where c': "readline_loop c (n - 1) [] = (c', Some l)" "conn_fine c'" "pending c' = Some rest"
    "uc_ctx c' = uc_ctx c" "uc_sent c' = uc_sent c" "uc_out c' = uc_out c" "uc_fd c' = uc_fd c"
    by auto
  have "takeWhile (\<lambda>x. x \<noteq> CHR 0x00) l = l" using assms(4) by (auto simp: takeWhile_eq_all_conv)
  with c' that assms(1,5) show thesis by (auto simp: upscli_readline_def conn_fine_def)
qed

text \<open>The results of \<open>k\<close> calls of \<open>upscli_readline\<close> in a row.\<close>

fun read_times :: "nat \<Rightarrow> upsconn \<Rightarrow> string option list" where
  "read_times 0 c = []"
| "read_times (Suc k) c = (case upscli_readline c UPSCLI_NETBUF_LEN of (c1, r) \<Rightarrow> r # read_times k c1)"

lemma read_times_lines:
  "conn_fine c \<Longrightarrow> pending c = Some (concat (map (\<lambda>l. l @ nl) ls)) \<Longrightarrow>
   list_all (\<lambda>l. CHR 0x0A \<notin> set l \<and> no_nul l \<and> length l < 511) ls \<Longrightarrow>
   read_times (length ls) c = map Some ls"
proof (induction ls arbitrary: c)
  case (Cons l ls)
  then obtain c' where "upscli_readline c UPSCLI_NETBUF_LEN = (c', Some l)" "conn_fine c'"
    "pending c' = Some (concat (map (\<lambda>l. l @ nl) ls))"
    using readline_line [of c l "concat (map (\<lambda>l. l @ nl) ls)" UPSCLI_NETBUF_LEN]
    by (auto simp: UPSCLI_NETBUF_LEN_def)
  with Cons show ?case by simp
qed simp

section \<open>Requests and answers\<close>

text \<open>A context between two lines given to \<open>pconf_line\<close>.\<close>

definition line_ctx :: "pconf_ctx \<Rightarrow> bool" where
  "line_ctx ctx \<longleftrightarrow> pconf_live PCONF_DEFAULT_ARG_LIMIT PCONF_DEFAULT_WORDLEN_LIMIT ctx \<and> wordbuf ctx = []"

lemma pconf_init_line_ctx: "line_ctx (pconf_init old)"
  using pconf_init_ready [of old] by (simp add: line_ctx_def pconf_ready_def) (simp add: pconf_init_def)

lemma arun_words:
  "list_all (tok_ok 512) ts \<Longrightarrow> length ws + length ts \<le> 32 \<Longrightarrow>
   (case arun 32 512 (render ts) (STATE_FINDWORDSTART, ws, []) of
      (st, us, w) \<Rightarrow> (if w = [] then us else a_endword 32 us w) = ws @ map tok_word ts \<and> \<not> st_over st)"
proof (induction ts arbitrary: ws rule: render.induct)
  case (2 t)
  show ?case
  proof (cases t)
    case (Plain w)
    with 2 show ?thesis
      using arun_plain [of w 512 32 ws] arun_equals [of 512 32 ws] by (cases "w = ''=''") (auto simp: a_endword_def)
  next
    case (Quoted w)
    with 2 arun_escape [of w 512 "[]" 32 ws] show ?thesis by (auto simp: a_endword_def schar_def isspace_c_def)
  qed
next
  case (3 t u us)
  from 3 have t: "arun 32 512 (tok_text t @ [CHR '' '']) (STATE_FINDWORDSTART, ws, []) =
           (STATE_FINDWORDSTART, ws @ [tok_word t], [])"
    by (intro arun_tok) auto
  have split: "render (t # u # us) = (tok_text t @ [CHR '' '']) @ render (u # us)" by simp
  from 3 show ?case
    unfolding split arun_simps(3) [of _ _ "tok_text t @ [CHR '' '']"] t
    using "3.IH" [of "ws @ [tok_word t]"] by auto
qed simp

lemma pconf_line_render:
  assumes "line_ctx ctx" "list_all (tok_ok 512) ts" "length ts \<le> 32"
  obtains d where "pconf_line ctx (render ts) = (1, d)" "line_ctx d" "pconf_words d = map tok_word ts"
    "numargs d = length ts"
proof -
  let ?i = "ctx\<lparr>linenum := linenum ctx + 1, numargs := 0, pc_state := STATE_FINDWORDSTART\<rparr>"
  have live: "pconf_live 32 512 ?i"
    using assms(1) pconf_inv_numargs_0 by (auto simp: line_ctx_def pconf_live_def pconf_inv_def)
  have abs: "pconf_abs ?i = (STATE_FINDWORDSTART, [], [])"
    using assms(1) by (simp add: pconf_abs_def line_ctx_def)
  obtain st us w where run: "arun 32 512 (render ts) (STATE_FINDWORDSTART, [], []) = (st, us, w)"
    by (cases "arun 32 512 (render ts) (STATE_FINDWORDSTART, [], [])") auto
  with arun_words [OF assms(2), of "[]"] assms(3)
  have res: "(if w = [] then us else a_endword 32 us w) = map tok_word ts" "\<not> st_over st" by auto
  obtain e where e: "line_loop ?i (render ts) = (False, e)" "pconf_live 32 512 e" "pconf_abs e = (st, us, w)"
    using line_loop_run [OF live, of "render ts" "[]"] run res(2) by (auto simp: abs)
  let ?d = "if wordptr e \<noteq> 0 then endofword e else e"
  have inv: "pconf_inv e" "arg_limit e = 32" using e(2) by (simp_all add: pconf_live_def)
  have w: "wordptr e \<noteq> 0 \<longleftrightarrow> w \<noteq> []"
    using e(3) inv(1) by (auto simp: pconf_abs_def pconf_inv_def)
  have words: "pconf_words ?d = map tok_word ts"
    using endofword_args [OF inv(1)] e(3) inv(2) w res(1) by (auto simp: pconf_abs_def)
  have d: "line_ctx ?d"
    using e(2,3) w endofword_inv [OF inv(1)] by (auto simp: line_ctx_def pconf_live_def pconf_abs_def endofword_def)
  have "length (pconf_words ?d) = numargs ?d"
    using d by (intro pconf_live_numargs [of 32 512]) (simp add: line_ctx_def)
  then have "numargs ?d = length ts" unfolding words by simp
  moreover have "pconf_line ctx (render ts) = (1, ?d)"
    using e(1) assms(1) by (simp add: pconf_line_def check_magic_def Let_def line_ctx_def pconf_live_def)
  ultimately show thesis using that [of ?d] words d by blast
qed

definition arg_tok :: "string \<Rightarrow> tok" where
  "arg_tok a = (if CHR '' '' \<in> set a then Quoted a else Plain a)"

text \<open>Arguments that arrive intact: printable ones with a blank in them, and words that need no
  escape.\<close>

definition arg_sendable :: "string \<Rightarrow> bool" where
  "arg_sendable a \<longleftrightarrow> (if CHR '' '' \<in> set a then list_all word_char a \<and> length (escape a) \<le> 511
     else plain_word a \<and> length a \<le> 511)"

lemma plain_no_blank: "list_all plain_char a \<Longrightarrow> CHR '' '' \<notin> set a"
  by (induction a) (auto simp: plain_char_def)

lemma plain_escape: "list_all plain_char a \<Longrightarrow> escape a = a"
  by (induction a) (auto simp: esc1_def plain_char_def)

lemma plain_no_nul: "list_all plain_char a \<Longrightarrow> no_nul a"
  by (induction a) (auto simp: plain_char_def)

lemma arg_tok_ok: "arg_sendable a \<Longrightarrow> tok_ok 512 (arg_tok a)"
  using escape_length [of a] by (auto simp: arg_sendable_def arg_tok_def split: if_splits)

lemma arg_text:
  assumes "arg_sendable a"
  shows "(let enc = pconf_encode a UPSCLI_NETBUF_LEN in
      if CHR '' '' \<in> set a then '' \"'' @ enc @ ''\"'' else '' '' @ enc) = CHR '' '' # tok_text (arg_tok a)"
proof -
  have "no_nul a" using assms plain_no_nul
    by (auto simp: arg_sendable_def list_all_iff split: if_splits)
  moreover have "length (escape a) \<le> 511" using assms by (auto simp: arg_sendable_def plain_escape split: if_splits)
  ultimately have "pconf_encode a UPSCLI_NETBUF_LEN = escape a"
    using pconf_encode_eq [of 512 a] by (simp add: UPSCLI_NETBUF_LEN_def enc_fit_full)
  with assms show ?thesis by (simp add: arg_tok_def arg_sendable_def plain_escape split: if_splits)
qed

lemma build_args_text:
  "list_all arg_sendable as \<Longrightarrow> length buf + length (concat (map (\<lambda>a. CHR '' '' # tok_text (arg_tok a)) as)) < n \<Longrightarrow>
   build_args n buf as = buf @ concat (map (\<lambda>a. CHR '' '' # tok_text (arg_tok a)) as)"
proof (induction as arbitrary: buf)
  case (Cons a as)
  have "build_args n buf (a # as) = build_args n (append_n n buf (CHR '' '' # tok_text (arg_tok a))) as"
    using arg_text [of a] Cons.prems(1) by (simp add: Let_def)
  also have "append_n n buf (CHR '' '' # tok_text (arg_tok a)) = buf @ CHR '' '' # tok_text (arg_tok a)"
    using Cons.prems(2) by (simp add: append_n_def snprintf_def)
  finally show ?case using Cons by simp
qed simp

lemma render_args:
  "render (Plain w # map arg_tok as) = w @ concat (map (\<lambda>a. CHR '' '' # tok_text (arg_tok a)) as)"
proof (induction as arbitrary: w)
  case (Cons a as)
  have "render (t # map arg_tok as) = tok_text t @ concat (map (\<lambda>a. CHR '' '' # tok_text (arg_tok a)) as)" for t
  proof (cases as)
    case (Cons b bs)
    with \<open>\<And>w. render (Plain w # map arg_tok as) = _\<close> show ?thesis by (cases t) auto
  qed simp
  then show ?case by simp
qed simp

lemma build_cmd_message:
  assumes "list_all arg_sendable as" "length (message (Plain w # map arg_tok as)) < n"
  shows "build_cmd n w as = message (Plain w # map arg_tok as)"
  using assms build_args_text [of as w n]
  by (simp add: build_cmd_def message_def render_args append_n_def snprintf_def)

lemma verify_resp_ok:
  "length q \<le> length a \<Longrightarrow> (\<And>i. i < length q \<Longrightarrow> strcaseeq (q ! i) (a ! i)) \<Longrightarrow> verify_resp q a = Some True"
proof (induction q a rule: verify_resp.induct)
  case (3 q qs a as)
  from "3.prems"(2) [of 0] have "strcaseeq q a" by simp
  moreover have "strcaseeq (qs ! i) (as ! i)" if "i < length qs" for i
    using "3.prems"(2) [of "Suc i"] that by simp
  ultimately show ?case using 3 by simp
qed auto

text \<open>A connection ready for a request.\<close>

definition conn_idle :: "upsconn \<Rightarrow> bool" where
  "conn_idle c \<longleftrightarrow> conn_fine c \<and> uc_out c = [] \<and> line_ctx (uc_ctx c)"

lemma render_one_line:
  assumes "list_all (tok_ok 512) ts" shows "CHR 0x0A \<notin> set (render ts)" "no_nul (render ts)"
proof -
  have word: "CHR 0x0A \<notin> set w" "no_nul w" if "list_all word_char w" for w
    using that by (induction w) auto
  have esc: "CHR 0x0A \<notin> set (escape w) \<and> no_nul (escape w)" if "list_all word_char w" for w
    using that by (induction w) (auto simp: esc1_def)
  have plain: "CHR 0x0A \<notin> set w" "no_nul w" if "list_all plain_char w" for w
    using that by (induction w) (auto simp: plain_char_def)
  have tok: "CHR 0x0A \<notin> set (tok_text t) \<and> no_nul (tok_text t)" if "tok_ok 512 t" for t
    using that esc plain by (cases t) auto
  show "CHR 0x0A \<notin> set (render ts)" "no_nul (render ts)"
    using assms tok by (induction ts rule: render.induct) auto
qed

lemma read_words_answer:
  assumes "conn_idle c" "pending c = Some (message ts @ rest)" "list_all (tok_ok 512) ts" "length ts \<le> 32"
    "length (render ts) < 511" "take 3 (render ts) \<noteq> ''ERR''"
  obtains c' where "read_words c = (c', 0)" "conn_idle c'" "pending c' = Some rest" "uc_sent c' = uc_sent c" "uc_out c' = uc_out c"
    "pconf_words (uc_ctx c') = map tok_word ts" "numargs (uc_ctx c') = length ts"
proof -
  have idle: "conn_fine c" "uc_out c = []" "line_ctx (uc_ctx c)"
    using assms(1) by (simp_all add: conn_idle_def)
  obtain c1 where c1: "upscli_readline c UPSCLI_NETBUF_LEN = (c1, Some (render ts))" "conn_fine c1" "pending c1 = Some rest"
    "uc_ctx c1 = uc_ctx c" "uc_sent c1 = uc_sent c" "uc_out c1 = uc_out c"
    using readline_line [OF idle(1), of "render ts" rest UPSCLI_NETBUF_LEN] assms(2,5) render_one_line [OF assms(3)]
    by (auto simp: message_def UPSCLI_NETBUF_LEN_def)
  obtain d where d: "pconf_line (uc_ctx c) (render ts) = (1, d)" "line_ctx d" "pconf_words d = map tok_word ts"
    "numargs d = length ts"
    using pconf_line_render [OF idle(3) assms(3,4)] by blast
  have "read_words c = (c1\<lparr>uc_ctx := d\<rparr>, 0)"
    using c1 d(1) assms(6) by (simp add: read_words_def upscli_errcheck_def)
  with c1 d idle that [of "c1\<lparr>uc_ctx := d\<rparr>"] show thesis
    by (simp add: conn_idle_def conn_fine_def pending_def)
qed

lemma upscli_get_answer:
  assumes "conn_idle c" "pending c = Some (message ts @ rest)" "list_all (tok_ok 512) ts" "length ts \<le> 32"
    "length (render ts) < 511" "take 3 (render ts) \<noteq> ''ERR''"
    and "q \<noteq> []" "list_all arg_sendable q" "length (message (Plain ''GET'' # map arg_tok q)) < 512"
    and "length q \<le> length ts" "\<And>i. i < length q \<Longrightarrow> strcaseeq (q ! i) (tok_word (ts ! i))"
  obtains c' where "upscli_get c q = Some (c', 0)" "conn_idle c'" "pending c' = Some rest"
    "uc_sent c' = uc_sent c @ [message (Plain ''GET'' # map arg_tok q)]"
    "pconf_words (uc_ctx c') = map tok_word ts" "numargs (uc_ctx c') = length ts"
proof -
  let ?m = "message (Plain ''GET'' # map arg_tok q)"
  have m: "build_cmd UPSCLI_NETBUF_LEN ''GET'' q = ?m"
    using build_cmd_message [OF assms(8), of "''GET''" 512] assms(9) by (simp add: UPSCLI_NETBUF_LEN_def)
  let ?c1 = "c\<lparr>uc_sent := uc_sent c @ [?m]\<rparr>"
  have send: "upscli_sendline c ?m = (?c1, 0)"
    using assms(1) by (simp add: upscli_sendline_def net_write_def conn_idle_def conn_fine_def message_def)
  have "conn_idle ?c1" "pending ?c1 = Some (message ts @ rest)"
    using assms(1,2) by (simp_all add: conn_idle_def conn_fine_def pending_def)
  from read_words_answer [OF this assms(3-6)] obtain c' where c': "read_words ?c1 = (c', 0)" "conn_idle c'"
    "pending c' = Some rest" "uc_sent c' = uc_sent ?c1" "uc_out c' = uc_out ?c1" "pconf_words (uc_ctx c') = map tok_word ts"
    "numargs (uc_ctx c') = length ts" by blast
  have ask: "ask c ''GET'' q = (c', 0)"
    using assms(7) m send c'(1) by (cases q) (simp_all add: ask_def)
  have words: "take (length ts) (arglist (uc_ctx c')) = map tok_word ts" using c'(6,7) by simp
  then have "length (map tok_word ts) = length (take (length ts) (arglist (uc_ctx c')))" by simp
  then have len: "length ts \<le> length (arglist (uc_ctx c'))" by simp
  have "arglist (uc_ctx c') ! k = tok_word (ts ! k)" if "k < length ts" for k
    using that arg_cong [OF words, of "\<lambda>xs. xs ! k"] by simp
  then have "verify_resp q (arglist (uc_ctx c')) = Some True"
    using assms(10,11) len by (intro verify_resp_ok) auto
  with ask c'(7) assms(10) have "upscli_get c q = Some (c', 0)" by (simp add: upscli_get_def)
  with c' that show thesis by simp
qed

section \<open>Framing\<close>

text \<open>C30: The client reads lines as they were sent. However the network cuts a series of lines into
  reads (of any positive size, the library taking at most 64 bytes at a time), calling
  \<open>upscli_readline\<close> once per line returns exactly these lines, in order; only lines of 511 bytes or
  more, or with a NUL byte in them, are excepted.\<close>

theorem upscli_readline_frames:
  assumes "conn_fine c" and "pending c = Some (concat (map (\<lambda>l. l @ nl) ls))"
    and "list_all (\<lambda>l. CHR 0x0A \<notin> set l \<and> no_nul l \<and> length l < 511) ls"
  shows "read_times (length ls) c = map Some ls"
  using assms by (rule read_times_lines)

definition demo_conn :: "rd list \<Rightarrow> upsconn" where
  "demo_conn ins = fst (upscli_connect (Some ''localhost'') 3493 UPSCLI_CONN_TRYSSL (Opened 5 [] ins 0))"

lemma demo_conn_idle: "conn_idle (demo_conn ins)" "pending (demo_conn ins) = reads_bytes ins"
  "uc_sent (demo_conn ins) = []"
  by (simp_all add: demo_conn_def upscli_connect_def upscli_tryconnect_def UPSCLI_CONN_TRYSSL_def UPSCLI_CONN_REQSSL_def
      UPSCLI_CONN_CERTVERIF_def conn_idle_def conn_fine_def pending_def pconf_init_line_ctx upsconn_zero_def option.map_ident)

theorem upscli_readline_frames_witness:
  "read_times 3 (demo_conn [RdData ''OK'', RdData (nl @ ''VAR a''), RdData (''b c'' @ nl @ nl)]) =
     [Some ''OK'', Some ''VAR ab c'', Some []]"
proof -
  let ?c = "demo_conn [RdData ''OK'', RdData (nl @ ''VAR a''), RdData (''b c'' @ nl @ nl)]"
  have "conn_fine ?c" "pending ?c = Some (concat (map (\<lambda>l. l @ nl) [''OK'', ''VAR ab c'', []]))"
    using demo_conn_idle by (simp_all add: conn_idle_def)
  from upscli_readline_frames [OF this] show ?thesis by (simp add: numeral_3_eq_3)
qed

end
