(* ===== verification/Endtoend.thy ===== *)
theory Endtoend
  imports Dstate Serverprops Upsclient
begin

text \<open>
  The three programs together: a variable set by a driver, mirrored by the server and asked for by a
  client through the client library, over connections that cut the bytes anywhere.
\<close>

section \<open>A line of a client\<close>

text \<open>The server's state when the words of the line are in the client's context.\<close>

definition client_heard :: "upsd \<Rightarrow> nat \<Rightarrow> int \<Rightarrow> string \<Rightarrow> upsd" where
  "client_heard s i now l =
     set_client s i ((client_at s i)\<lparr>cl_ctx := feed (cl_ctx (client_at s i)) l, cl_last_heard := now\<rparr>)"

lemma client_read_loop_quiet:
  "i < length (firstclient s) \<Longrightarrow> quiet (cl_ctx (client_at s i)) xs \<Longrightarrow>
   client_read_loop s i now (xs @ ys) =
     client_read_loop (set_client s i ((client_at s i)\<lparr>cl_ctx := feed (cl_ctx (client_at s i)) xs\<rparr>)) i now ys"
proof (induction xs arbitrary: s)
  case (Cons c xs)
  obtain ctx where "pconf_char (cl_ctx (client_at s i)) c = (0, ctx)"
    using Cons.prems(2) by (cases "pconf_char (cl_ctx (client_at s i)) c") auto
  with Cons show ?case by (simp add: client_at_set)
qed simp

lemma client_read_loop_message:
  assumes "i < length (firstclient s)" "ctx_ready (cl_ctx (client_at s i))"
    "msg_ok PCONF_DEFAULT_ARG_LIMIT PCONF_DEFAULT_WORDLEN_LIMIT ts"
  shows "client_read_loop s i now (message ts) = parse_net (client_heard s i now (message ts)) i"
proof -
  note f = feed_message [OF assms(2,3)]
  let ?c = "feed (cl_ctx (client_at s i)) (render ts)"
  obtain ctx where ctx: "pconf_char ?c (CHR 0x0A) = (1, ctx)"
    using f(2) by (cases "pconf_char ?c (CHR 0x0A)") auto
  show ?thesis
    using client_read_loop_quiet [OF assms(1) f(1), of now nl] ctx assms(1)
    by (simp add: message_def client_heard_def client_at_set)
qed

section \<open>A GET request\<close>

definition get_toks :: "string \<Rightarrow> string \<Rightarrow> tok list" where
  "get_toks un v = [Plain ''GET'', Plain ''VAR'', Plain un, Plain v]"

definition shown_value :: "upstype \<Rightarrow> string \<Rightarrow> string \<Rightarrow> string" where
  "shown_value ups v raw = (if strcaseeq v ''ups.status'' \<and> ups_fsd ups then ''FSD '' @ raw else raw)"

definition answer_toks :: "upstype \<Rightarrow> string \<Rightarrow> string \<Rightarrow> string \<Rightarrow> tok list" where
  "answer_toks ups un v raw = [Plain ''VAR'', Plain un, Plain v, Quoted (shown_value ups v raw)]"

lemma value_ok_len: "value_ok x \<Longrightarrow> list_all word_char x \<and> length x \<le> 255"
  using escape_length [of x] by (auto simp: value_ok_def)

lemma get_toks_ok:
  assumes "plain_word un" "plain_word v" "length un + length v \<le> 200"
  shows "msg_ok PCONF_DEFAULT_ARG_LIMIT PCONF_DEFAULT_WORDLEN_LIMIT (get_toks un v)"
    "build_cmd UPSCLI_NETBUF_LEN ''GET'' [''VAR'', un, v] = message (get_toks un v)"
    "length (message (get_toks un v)) < 512" "list_all arg_sendable [''VAR'', un, v]"
    "message (get_toks un v) = message (Plain ''GET'' # map arg_tok [''VAR'', un, v])"
proof -
  show "msg_ok PCONF_DEFAULT_ARG_LIMIT PCONF_DEFAULT_WORDLEN_LIMIT (get_toks un v)" using assms by (auto simp: msg_ok_def get_toks_def)
  show l: "length (message (get_toks un v)) < 512" using assms by (simp add: get_toks_def message_def)
  show a: "list_all arg_sendable [''VAR'', un, v]"
    using assms plain_no_blank [of un] plain_no_blank [of v] by (auto simp: arg_sendable_def)
  show e: "message (get_toks un v) = message (Plain ''GET'' # map arg_tok [''VAR'', un, v])"
    using assms plain_no_blank [of un] plain_no_blank [of v] by (simp add: get_toks_def arg_tok_def)
  show "build_cmd UPSCLI_NETBUF_LEN ''GET'' [''VAR'', un, v] = message (get_toks un v)"
    unfolding e UPSCLI_NETBUF_LEN_def using l e by (intro build_cmd_message [OF a]) simp
qed

lemma answer_toks_ok:
  assumes "plain_word un" "plain_word v" "value_ok raw" "length un + length v \<le> 200"
  shows "list_all (tok_ok 512) (answer_toks ups un v raw)" "length (answer_toks ups un v raw) \<le> 32"
    "length (render (answer_toks ups un v raw)) < 511" "take 3 (render (answer_toks ups un v raw)) \<noteq> ''ERR''"
    "snprintf 513 (''VAR '' @ un @ '' '' @ v @ '' '' @ quoted (if strcaseeq v ''ups.status'' \<and> ups_fsd ups
       then ''FSD '' @ escape raw else escape raw) @ nl) = message (answer_toks ups un v raw)"
  using assms value_ok_len [OF assms(3)]
  by (auto simp: answer_toks_def shown_value_def message_def value_ok_def esc1_def pconf_escape_def snprintf_def)

lemma server_answers_get:
  assumes "i < length (firstclient s)" "ctx_ready (cl_ctx (client_at s i))" "wplan (cl_sock (client_at s i)) = []"
    and "get_ups_ptr s un = Some u" "0 \<le> sock_fd (firstups s ! u)" "\<not> ups_stale (firstups s ! u)"
    and "sstate_getinfo (firstups s ! u) v = Some (escape raw)"
    and "plain_word un" "plain_word v" "value_ok raw" "length un + length v \<le> 200" "\<not> strncaseeq v ''server.'' 7"
  shows "sent (cl_sock (client_at (client_read_loop s i now (message (get_toks un v))) i)) =
     sent (cl_sock (client_at s i)) @ [message (answer_toks (firstups s ! u) un v raw)]"
proof -
  let ?l = "message (get_toks un v)" and ?ups = "firstups s ! u"
  let ?s = "client_heard s i now ?l"
  note req = get_toks_ok [OF assms(8,9,11)]
  have f: "pconf_words (cl_ctx (client_at ?s i)) = [''GET'', ''VAR'', un, v]" "numargs (cl_ctx (client_at ?s i)) = 4"
    using feed_message(4,5) [OF assms(2) req(1)] assms(1) by (simp_all add: client_heard_def get_toks_def)
  have "parse_net ?s i = net_get ?s i [''VAR'', un, v]"
    unfolding parse_net_def Let_def f(1) using f(2)
    by (simp add: netcmds_def strcaseeq_eval check_command_def)
  also have "\<dots> = get_var ?s i un v"
    by (simp add: net_get_def strcaseeq_eval)
  also have "\<dots> = fst (sendback ?s i (''VAR '' @ un @ '' '' @ v @ '' '' @
      quoted (if strcaseeq v ''ups.status'' \<and> ups_fsd ?ups then ''FSD '' @ escape raw else escape raw) @ nl))"
    using assms(4-7,12)
    by (simp add: get_var_def with_available_def with_ups_def get_ups_ptr_def client_heard_def ups_available_def)
  finally have p: "parse_net ?s i = fst (sendback ?s i (''VAR '' @ un @ '' '' @ v @ '' '' @
      quoted (if strcaseeq v ''ups.status'' \<and> ups_fsd ?ups then ''FSD '' @ escape raw else escape raw) @ nl))" .
  have "client_read_loop s i now ?l = parse_net ?s i"
    using client_read_loop_message [OF assms(1,2) req(1)] .
  with assms(1,3) answer_toks_ok(5) [OF assms(8,9,10,11), of ?ups] show ?thesis
    unfolding p by (simp add: sendback_def NUT_NET_ANSWER_MAX_def SMALLBUF_def client_heard_def client_at_set)
qed

text \<open>C12: What a driver sets is what a client reads. Let the server's entry be a copy of the driver's
  state, be connected and not stale, and let a client of the server send the GET request that the
  client library builds for one of the driver's variables. The server answers with one line, and
  the library, on any connection on which the bytes of this line arrive, cut into reads in any way,
  returns the driver's raw value of the variable (after the word FSD, when \<open>ups.status\<close> is asked for
  and the server has the forced shutdown flag set), and leaves the bytes behind the line unread.\<close>

theorem client_reads_driver_value:
  assumes "mirrored (d, firstups s ! u)" and "state_tree_find (dtree_root d) v = Some n" and "value_ok (st_raw n)"
    and "get_ups_ptr s un = Some u" and "0 \<le> sock_fd (firstups s ! u)" and "\<not> ups_stale (firstups s ! u)"
    and "i < length (firstclient s)" and "ctx_ready (cl_ctx (client_at s i))" and "wplan (cl_sock (client_at s i)) = []"
    and "plain_word un" and "plain_word v" and "length un + length v \<le> 200" and "\<not> strncaseeq v ''server.'' 7"
  shows "\<exists>reply.
     sent (cl_sock (client_at (client_read_loop s i now (build_cmd UPSCLI_NETBUF_LEN ''GET'' [''VAR'', un, v])) i)) =
       sent (cl_sock (client_at s i)) @ [reply] \<and>
     (\<forall>c rest. conn_idle c \<and> pending c = Some (reply @ rest) \<longrightarrow>
       (\<exists>c'. upscli_get c [''VAR'', un, v] = Some (c', 0) \<and>
          uc_sent c' = uc_sent c @ [build_cmd UPSCLI_NETBUF_LEN ''GET'' [''VAR'', un, v]] \<and>
          pconf_words (uc_ctx c') = [''VAR'', un, v, shown_value (firstups s ! u) v (st_raw n)] \<and>
          conn_idle c' \<and> pending c' = Some rest))"
proof -
  let ?ups = "firstups s ! u" and ?raw = "st_raw n"
  let ?ts = "answer_toks ?ups un v ?raw"
  note req = get_toks_ok [OF assms(10-12)] and ans = answer_toks_ok [OF assms(10,11,3,12), of ?ups]
  have "node_ok n" using assms(1,2) by (auto simp: mirrored_def intro: st_inv_find)
  then have "st_val n = escape ?raw"
    using assms(3) by (simp add: node_ok_def value_ok_def ST_MAX_VALUE_LEN_def enc_fit_full)
  then have "sstate_getinfo ?ups v = Some (escape ?raw)"
    using mirrored_getinfo(1) [OF assms(1), of v] assms(2) by (simp add: sstate_getinfo_def state_getinfo_def)
  from server_answers_get [OF assms(7-9,4-6) this assms(10,11,3,12,13)]
  have reply: "sent (cl_sock (client_at (client_read_loop s i now (message (get_toks un v))) i)) =
     sent (cl_sock (client_at s i)) @ [message ?ts]" .
  have "\<exists>c'. upscli_get c [''VAR'', un, v] = Some (c', 0) \<and>
      uc_sent c' = uc_sent c @ [message (get_toks un v)] \<and>
      pconf_words (uc_ctx c') = [''VAR'', un, v, shown_value ?ups v ?raw] \<and> conn_idle c' \<and> pending c' = Some rest"
    if "conn_idle c" "pending c = Some (message ?ts @ rest)" for c rest
  proof -
    have words: "map tok_word ?ts = [''VAR'', un, v, shown_value ?ups v ?raw]" by (simp add: answer_toks_def)
    have "strcaseeq ([''VAR'', un, v] ! k) (tok_word (?ts ! k))" if "k < length [''VAR'', un, v]" for k
      using that by (auto simp: answer_toks_def less_Suc_eq strcaseeq_iff)
    note idx = this
    show ?thesis
    proof (rule upscli_get_answer [OF that ans(1-4), where q = "[''VAR'', un, v]"])
      show "length (message (Plain ''GET'' # map arg_tok [''VAR'', un, v])) < 512" using req(3) unfolding req(5) .
      show "length [''VAR'', un, v] \<le> length ?ts" by (simp add: answer_toks_def)
    next
      fix c'
      assume "upscli_get c [''VAR'', un, v] = Some (c', 0)" "conn_idle c'" "pending c' = Some rest"
        "uc_sent c' = uc_sent c @ [message (Plain ''GET'' # map arg_tok [''VAR'', un, v])]"
        "pconf_words (uc_ctx c') = map tok_word ?ts"
      then show ?thesis unfolding req(5) words by blast
    qed (rule idx req(4) list.distinct(2); assumption?)+
  qed
  with reply show ?thesis unfolding req(2) by auto
qed

definition copied_upsd :: upsd where
  "copied_upsd = demo_upsd\<lparr>
     firstups := [upstype_open\<lparr>ups_name := ''apc'', data_ok := True, inforoot := dtree_root demo_driver,
       ups_cmdlist := cmdhead demo_driver\<rparr>],
     firstclient := [\<lparr>cl_addr = ''::1'', cl_sock = sock_new [], cl_last_heard = 0, loginups = None, cl_password = None,
       cl_username = None, cl_ctx = pconf_init zero_ctx\<rparr>]\<rparr>"

lemma copied_mirror: "mirrored (demo_driver, firstups copied_upsd ! 0)"
proof -
  let ?t = "dtree_root demo_driver"
  have inv: "st_inv ?t" by (simp only: demo_driver_def dstate.simps demo_tree_def) (rule st_inv_run, simp, code_simp)
  have fl: "list_all (\<lambda>n. st_flags n AND (ST_FLAG_RW OR ST_FLAG_STRING) = st_flags n) (inorder ?t)" by code_simp
  have "rel_option same_info (state_tree_find ?t v) (state_tree_find ?t v)" for v
    using fl by (cases "state_tree_find ?t v") (auto simp: same_info_def list_all_iff dest!: state_tree_find_SomeD)
  with inv show ?thesis
    by (simp add: mirrored_def copied_upsd_def) (simp add: demo_driver_def)
qed

lemma bytewise: "reads_bytes (map (\<lambda>x. RdData [x]) xs) = Some xs"
  by (induction xs) auto

theorem client_reads_driver_value_witness:
  "\<exists>reply c'.
     sent (cl_sock (client_at (client_read_loop copied_upsd 0 60 (build_cmd UPSCLI_NETBUF_LEN ''GET'' [''VAR'', ''APC'', ''ups.id''])) 0)) = [reply] \<and>
     upscli_get (demo_conn (map (\<lambda>x. RdData [x]) reply)) [''VAR'', ''APC'', ''ups.id''] = Some (c', 0) \<and>
     pconf_words (uc_ctx c') = [''VAR'', ''APC'', ''ups.id'', ''say \"hi\"'']"
proof -
  let ?n = "the (state_tree_find (dtree_root demo_driver) ''ups.id'')"
  have n: "state_tree_find (dtree_root demo_driver) ''ups.id'' = Some ?n" by code_simp
  have raw: "st_raw ?n = ''say \"hi\"''" by code_simp
  have val: "value_ok (st_raw ?n)" unfolding raw by code_simp
  have apc: "strcaseeq ''apc'' ''APC''" by code_simp
  have ups: "get_ups_ptr copied_upsd ''APC'' = Some 0" "0 \<le> sock_fd (firstups copied_upsd ! 0)"
    "\<not> ups_stale (firstups copied_upsd ! 0)" "0 < length (firstclient copied_upsd)"
    "sent (cl_sock (client_at copied_upsd 0)) = []" "wplan (cl_sock (client_at copied_upsd 0)) = []"
    using apc by (simp_all add: copied_upsd_def get_ups_ptr_def upstype_open_def upstype_zero_def)
  have ctx: "ctx_ready (cl_ctx (client_at copied_upsd 0))"
    using pconf_init_ready [of zero_ctx] by (simp add: copied_upsd_def)
  have words: "plain_word ''APC''" "plain_word ''ups.id''" "length ''APC'' + length ''ups.id'' \<le> 200"
    "\<not> strncaseeq ''ups.id'' ''server.'' 7"
    by code_simp+
  have shown: "shown_value (firstups copied_upsd ! 0) ''ups.id'' (st_raw ?n) = ''say \"hi\"''"
    unfolding raw by (simp add: shown_value_def strcaseeq_eval)
  from client_reads_driver_value [OF copied_mirror n val ups(1-4) ctx ups(6) words, of 60]
  obtain reply where reply: "sent (cl_sock (client_at (client_read_loop copied_upsd 0 60
        (build_cmd UPSCLI_NETBUF_LEN ''GET'' [''VAR'', ''APC'', ''ups.id''])) 0)) = [reply]"
    and all: "\<And>c rest. conn_idle c \<Longrightarrow> pending c = Some (reply @ rest) \<Longrightarrow>
       \<exists>c'. upscli_get c [''VAR'', ''APC'', ''ups.id''] = Some (c', 0) \<and>
         pconf_words (uc_ctx c') = [''VAR'', ''APC'', ''ups.id'', ''say \"hi\"'']"
    unfolding ups(5) append_Nil shown by blast
  from all [OF demo_conn_idle(1), of "map (\<lambda>x. RdData [x]) reply" "[]"] demo_conn_idle(2) bytewise reply
  show ?thesis by auto
qed

end
