(* ===== verification/Upsmon.thy ===== *)
theory Upsmon
  imports Upsclient
begin

text \<open>
  The monitor (\<open>clients/upsmon.c\<close>, \<open>clients/upsmon.h\<close>): the watched UPSes with their status flags, what
  the words of \<open>ups.status\<close> do to them, notifications, the decision to shut down with the wait for the
  slaves, the configuration with its reload, and one round of the main loop.

  A pointer to a UPS is its position in the list. Notifications, the shutdown and its parts are
  recorded in \<open>um_out\<close>; a message is recorded as its format and the argument for it, and the child
  that runs the notifier is taken to start. \<open>um_exit\<close> tells that the process has ended, by
  \<open>exit\<close> or by an access outside an array or to a null pointer (\<open>Crash\<close>), or that it is still in the
  loop of \<open>slavesync\<close> after the last of the given clock readings (\<open>Waiting\<close>); what follows in the code
  is then not run. The times that \<open>time\<close> gives are arguments, one for each call of a handler; sums of
  power values are taken to fit an \<open>int\<close>.
\<close>

unbundle bit_operations_syntax

section \<open>State\<close>

definition ST_ONLINE :: "32 word" where "ST_ONLINE = 1"
definition ST_ONBATT :: "32 word" where "ST_ONBATT = 2"
definition ST_LOWBATT :: "32 word" where "ST_LOWBATT = 4"
definition ST_FSD :: "32 word" where "ST_FSD = 8"
definition ST_MASTER :: "32 word" where "ST_MASTER = 16"
definition ST_LOGIN :: "32 word" where "ST_LOGIN = 32"
definition ST_CONNECTED :: "32 word" where "ST_CONNECTED = 64"

record utype =
  u_conn :: upsconn
  u_sys :: string
  u_upsname :: "string option"
  u_hostname :: "string option"
  u_port :: int
  u_pv :: int
  u_un :: "string option"
  u_pw :: string
  u_status :: "32 word"
  u_retain :: bool
  commstate :: int
  linestate :: int
  lastpoll :: int
  lastnoncrit :: int
  lastrbwarn :: int
  lastncwarn :: int

datatype ntype =
    NOTIFY_ONLINE | NOTIFY_ONBATT | NOTIFY_LOWBATT | NOTIFY_FSD | NOTIFY_COMMOK | NOTIFY_COMMBAD
  | NOTIFY_SHUTDOWN | NOTIFY_REPLBATT | NOTIFY_NOCOMM | NOTIFY_NOPARENT

definition NOTIFY_IGNORE :: "32 word" where "NOTIFY_IGNORE = 1"
definition NOTIFY_SYSLOG :: "32 word" where "NOTIFY_SYSLOG = 2"
definition NOTIFY_WALL :: "32 word" where "NOTIFY_WALL = 4"
definition NOTIFY_EXEC :: "32 word" where "NOTIFY_EXEC = 8"

record nentry =
  n_type :: ntype
  n_name :: string
  n_msg :: "string option"
  n_stockmsg :: string
  n_flags :: "32 word"

abbreviation nentry_of :: "ntype \<Rightarrow> string \<Rightarrow> string \<Rightarrow> nentry" where
  "nentry_of t nm msg \<equiv> \<lparr>n_type = t, n_name = nm, n_msg = None, n_stockmsg = msg,
     n_flags = NOTIFY_SYSLOG OR NOTIFY_WALL\<rparr>"

definition notifylist_init :: "nentry list" where
  "notifylist_init =
    [nentry_of NOTIFY_ONLINE ''ONLINE'' ''UPS %s on line power'',
     nentry_of NOTIFY_ONBATT ''ONBATT'' ''UPS %s on battery'',
     nentry_of NOTIFY_LOWBATT ''LOWBATT'' ''UPS %s battery is low'',
     nentry_of NOTIFY_FSD ''FSD'' ''UPS %s: forced shutdown in progress'',
     nentry_of NOTIFY_COMMOK ''COMMOK'' ''Communications with UPS %s established'',
     nentry_of NOTIFY_COMMBAD ''COMMBAD'' ''Communications with UPS %s lost'',
     nentry_of NOTIFY_SHUTDOWN ''SHUTDOWN'' ''Auto logout and shutdown proceeding'',
     nentry_of NOTIFY_REPLBATT ''REPLBATT'' ''UPS %s battery needs to be replaced'',
     nentry_of NOTIFY_NOCOMM ''NOCOMM'' ''UPS %s is unavailable'',
     nentry_of NOTIFY_NOPARENT ''NOPARENT'' ''upsmon parent process died - shutdown impossible'']"

datatype effect =
    Noted ntype string | Syslog string string | Wall string string
  | ExecNotify string string string string string
  | SleepFor int | PipeShutdown | SetPdflag string | SystemShutdown "string option"
  | HostCert string string int int

datatype exit = Exit int | Crash | Waiting

datatype af = AF_UNSPEC | AF_INET | AF_INET6

record upsmon =
  ulist :: "utype list"
  shutdowncmd :: "string option"
  notifycmd :: "string option"
  powerdownflag :: "string option"
  run_as_user :: "string option"
  certpath :: "string option"
  certname :: "string option"
  certpasswd :: "string option"
  minsupplies :: int
  sleepval :: int
  deadtime :: int
  pollfreq :: int
  pollfreqalert :: int
  hostsync :: int
  totalpv :: int
  rbwarntime :: int
  nocommwarntime :: int
  finaldelay :: int
  certverify :: int
  forcessl :: int
  reload_flag :: bool
  exit_flag :: bool
  userfsd :: bool
  use_pipe :: bool
  opt_af :: af
  notifylist :: "nentry list"
  lastwarn :: int
  um_out :: "effect list"
  um_exit :: "exit option"

definition upsmon_init :: upsmon where
  "upsmon_init = \<lparr>ulist = [], shutdowncmd = None, notifycmd = None, powerdownflag = None, run_as_user = None,
     certpath = None, certname = None, certpasswd = None, minsupplies = 1, sleepval = 5, deadtime = 15,
     pollfreq = 5, pollfreqalert = 5, hostsync = 15, totalpv = 0, rbwarntime = 43200, nocommwarntime = 300,
     finaldelay = 5, certverify = 0, forcessl = 0, reload_flag = False, exit_flag = False, userfsd = False,
     use_pipe = True, opt_af = AF_UNSPEC, notifylist = notifylist_init, lastwarn = 0, um_out = [], um_exit = None\<rparr>"

abbreviation u_at :: "upsmon \<Rightarrow> nat \<Rightarrow> utype" where
  "u_at s k \<equiv> ulist s ! k"

definition set_u :: "upsmon \<Rightarrow> nat \<Rightarrow> utype \<Rightarrow> upsmon" where
  "set_u s k u = s\<lparr>ulist := (ulist s)[k := u]\<rparr>"

definition emit :: "upsmon \<Rightarrow> effect list \<Rightarrow> upsmon" where
  "emit s xs = s\<lparr>um_out := um_out s @ xs\<rparr>"

abbreviation halted :: "upsmon \<Rightarrow> bool" where
  "halted s \<equiv> um_exit s \<noteq> None"

definition die :: "upsmon \<Rightarrow> exit \<Rightarrow> upsmon" where
  "die s e = s\<lparr>um_exit := Some e\<rparr>"

definition setflag :: "32 word \<Rightarrow> 32 word \<Rightarrow> 32 word" where
  "setflag v flag = v OR flag"

definition clearflag :: "32 word \<Rightarrow> 32 word \<Rightarrow> 32 word" where
  "clearflag v flag = v XOR (v AND flag)"

definition flag_isset :: "32 word \<Rightarrow> 32 word \<Rightarrow> bool" where
  "flag_isset num flag \<longleftrightarrow> num AND flag = flag"

definition u_setflag :: "upsmon \<Rightarrow> nat \<Rightarrow> 32 word \<Rightarrow> upsmon" where
  "u_setflag s k f = set_u s k ((u_at s k)\<lparr>u_status := setflag (u_status (u_at s k)) f\<rparr>)"

definition u_clearflag :: "upsmon \<Rightarrow> nat \<Rightarrow> 32 word \<Rightarrow> upsmon" where
  "u_clearflag s k f = set_u s k ((u_at s k)\<lparr>u_status := clearflag (u_status (u_at s k)) f\<rparr>)"

definition u_isset :: "upsmon \<Rightarrow> nat \<Rightarrow> 32 word \<Rightarrow> bool" where
  "u_isset s k f \<longleftrightarrow> flag_isset (u_status (u_at s k)) f"

section \<open>Notifications\<close>

definition notify :: "upsmon \<Rightarrow> string \<Rightarrow> string \<Rightarrow> 32 word \<Rightarrow> string \<Rightarrow> string \<Rightarrow> upsmon" where
  "notify s fmt arg flags nt upsname =
     (if flag_isset flags NOTIFY_IGNORE then s
      else emit s
        ((if flag_isset flags NOTIFY_SYSLOG then [Syslog fmt arg] else []) @
         (if flag_isset flags NOTIFY_WALL then [Wall fmt arg] else []) @
         (if flag_isset flags NOTIFY_EXEC
          then (case notifycmd s of Some cmd \<Rightarrow> [ExecNotify cmd fmt arg upsname nt] | None \<Rightarrow> []) else [])))"

text \<open>The call itself is recorded as \<open>Noted\<close>, with the system name or the empty string.\<close>

definition do_notify :: "upsmon \<Rightarrow> nat option \<Rightarrow> ntype \<Rightarrow> upsmon" where
  "do_notify s k nt =
     (let sys = (case k of Some i \<Rightarrow> u_sys (u_at s i) | None \<Rightarrow> []);
          s1 = emit s [Noted nt sys]
      in case find (\<lambda>e. n_type e = nt) (notifylist s) of
           None \<Rightarrow> s1
         | Some e \<Rightarrow>
             notify s1 (case n_msg e of Some m \<Rightarrow> m | None \<Rightarrow> n_stockmsg e) sys (n_flags e) (n_name e) sys)"

section \<open>Talking to the server\<close>

text \<open>Send a line and read one; \<^const>\<open>None\<close> if either fails.\<close>

definition talk :: "utype \<Rightarrow> string \<Rightarrow> utype \<times> string option" where
  "talk u line =
     (case upscli_sendline (u_conn u) (snprintf SMALLBUF line) of
        (c1, r) \<Rightarrow>
          if r < 0 then (u\<lparr>u_conn := c1\<rparr>, None)
          else (case upscli_readline c1 SMALLBUF of (c2, res) \<Rightarrow> (u\<lparr>u_conn := c2\<rparr>, res)))"

abbreviation says_ok :: "string option \<Rightarrow> bool" where
  "says_ok r \<equiv> (case r of None \<Rightarrow> False | Some buf \<Rightarrow> take 2 buf = ''OK'')"

definition checkmaster :: "utype \<Rightarrow> utype \<times> int" where
  "checkmaster u =
     (if \<not> flag_isset (u_status u) ST_MASTER then (u, 1)
      else case u_upsname u of
        None \<Rightarrow> (u, 0)
      | Some nm \<Rightarrow>
          if nm = [] then (u, 0)
          else (case talk u (''MASTER '' @ nm @ nl) of (u1, r) \<Rightarrow> (u1, if says_ok r then 1 else 0)))"

definition do_upsd_auth :: "utype \<Rightarrow> utype \<times> int" where
  "do_upsd_auth u =
     (case u_un u of
        None \<Rightarrow> (u, 0)
      | Some un \<Rightarrow>
          (case talk u (''USERNAME '' @ un @ nl) of
             (u1, None) \<Rightarrow> (u1, 0)
           | (u1, Some _) \<Rightarrow>
               (case talk u1 (''PASSWORD '' @ u_pw u1 @ nl) of
                  (u2, r2) \<Rightarrow>
                    if \<not> says_ok r2 then (u2, 0)
                    else (case u_upsname u2 of
                            None \<Rightarrow> (u2, 0)
                          | Some nm \<Rightarrow>
                              if nm = [] then (u2, 0)
                              else (case talk u2 (''LOGIN '' @ nm @ nl) of
                                      (u3, r3) \<Rightarrow>
                                        if \<not> says_ok r3 then (u3, 0)
                                        else checkmaster (u3\<lparr>u_status := setflag (u_status u3) ST_LOGIN\<rparr>))))))"

text \<open>\<open>answer[numq]\<close> is read when the answer has at least \<open>numq\<close> words; \<open>Inl\<close> is the read behind the
  array.\<close>

definition mon_get_var :: "utype \<Rightarrow> string \<Rightarrow> utype \<times> (unit + string option)" where
  "mon_get_var u var =
     (case u_upsname u of
        None \<Rightarrow> (u, Inr None)
      | Some nm \<Rightarrow>
          let query = (if var = ''numlogins'' then [''NUMLOGINS'', nm]
                       else if var = ''status'' then [''VAR'', nm, ''ups.status''] else [])
          in if query = [] then (u, Inr None)
             else case upscli_get (u_conn u) query of
               None \<Rightarrow> (u, Inl ())
             | Some (c, r) \<Rightarrow>
                 let u1 = u\<lparr>u_conn := c\<rparr> in
                 if r < 0 then (u1, Inr None)
                 else if numargs (uc_ctx c) < length query then (u1, Inr None)
                 else if length query < length (arglist (uc_ctx c))
                 then (u1, Inr (Some (snprintf SMALLBUF (arglist (uc_ctx c) ! length query))))
                 else (u1, Inl ()))"

definition drop_connection :: "upsmon \<Rightarrow> nat \<Rightarrow> upsmon" where
  "drop_connection s k =
     set_u s k ((u_at s k)\<lparr>commstate := 0, linestate := 0,
       u_status := clearflag (clearflag (u_status (u_at s k)) ST_LOGIN) ST_CONNECTED,
       u_conn := upscli_disconnect (u_conn (u_at s k))\<rparr>)"

section \<open>Events of a UPS\<close>

definition ups_is_alive :: "upsmon \<Rightarrow> nat \<Rightarrow> int \<Rightarrow> upsmon" where
  "ups_is_alive s k now =
     (let s1 = set_u s k ((u_at s k)\<lparr>lastpoll := now\<rparr>) in
      if commstate (u_at s1 k) = 1 then s1
      else
        let s2 = (if commstate (u_at s1 k) = 0 then do_notify s1 (Some k) NOTIFY_COMMOK else s1)
        in set_u s2 k ((u_at s2 k)\<lparr>commstate := 1\<rparr>))"

definition ups_is_gone :: "upsmon \<Rightarrow> nat \<Rightarrow> int \<Rightarrow> upsmon" where
  "ups_is_gone s k now =
     (if commstate (u_at s k) \<noteq> 0
      then do_notify (set_u s k ((u_at s k)\<lparr>commstate := 0\<rparr>)) (Some k) NOTIFY_COMMBAD
      else if now - lastpoll (u_at s k) < nocommwarntime s then s
      else if now - lastncwarn (u_at s k) > nocommwarntime s
      then let s1 = do_notify s (Some k) NOTIFY_NOCOMM in set_u s1 k ((u_at s1 k)\<lparr>lastncwarn := now\<rparr>)
      else s)"

definition ups_on_batt :: "upsmon \<Rightarrow> nat \<Rightarrow> upsmon" where
  "ups_on_batt s k =
     (if u_isset s k ST_ONBATT then s
      else
        let s1 = s\<lparr>sleepval := pollfreqalert s\<rparr>;
            s2 = set_u s1 k ((u_at s1 k)\<lparr>linestate := 0\<rparr>);
            s3 = do_notify s2 (Some k) NOTIFY_ONBATT
        in u_clearflag (u_setflag s3 k ST_ONBATT) k ST_ONLINE)"

definition ups_on_line :: "upsmon \<Rightarrow> nat \<Rightarrow> upsmon" where
  "ups_on_line s k =
     (if u_isset s k ST_ONLINE then s
      else
        let s1 = s\<lparr>sleepval := pollfreq s\<rparr>;
            s2 = (if linestate (u_at s1 k) \<noteq> -1 then do_notify s1 (Some k) NOTIFY_ONLINE else s1);
            s3 = set_u s2 k ((u_at s2 k)\<lparr>linestate := 1\<rparr>)
        in u_clearflag (u_setflag s3 k ST_ONLINE) k ST_ONBATT)"

definition ups_low_batt :: "upsmon \<Rightarrow> nat \<Rightarrow> upsmon" where
  "ups_low_batt s k =
     (if u_isset s k ST_LOWBATT then s
      else u_setflag (do_notify s (Some k) NOTIFY_LOWBATT) k ST_LOWBATT)"

definition upsreplbatt :: "upsmon \<Rightarrow> nat \<Rightarrow> int \<Rightarrow> upsmon" where
  "upsreplbatt s k now =
     (if now - lastrbwarn (u_at s k) > rbwarntime s
      then let s1 = do_notify s (Some k) NOTIFY_REPLBATT in set_u s1 k ((u_at s1 k)\<lparr>lastrbwarn := now\<rparr>)
      else s)"

definition ups_fsd :: "upsmon \<Rightarrow> nat \<Rightarrow> upsmon" where
  "ups_fsd s k =
     (if u_isset s k ST_FSD then s
      else u_setflag (do_notify s (Some k) NOTIFY_FSD) k ST_FSD)"

definition update_crittimer :: "upsmon \<Rightarrow> nat \<Rightarrow> int \<Rightarrow> upsmon" where
  "update_crittimer s k now =
     (if \<not> u_isset s k ST_ONBATT \<or> \<not> u_isset s k ST_LOWBATT
      then set_u s k ((u_at s k)\<lparr>lastnoncrit := now\<rparr>) else s)"

section \<open>The shutdown\<close>

definition set_pdflag :: "upsmon \<Rightarrow> upsmon" where
  "set_pdflag s = (case powerdownflag s of None \<Rightarrow> s | Some fn \<Rightarrow> emit s [SetPdflag fn])"

definition doshutdown :: "upsmon \<Rightarrow> upsmon" where
  "doshutdown s =
     (let s1 = emit s [Syslog ''Executing automatic power-fail shutdown'' [],
                       Wall (''Executing automatic power-fail shutdown'' @ nl) []];
          s2 = emit (do_notify s1 None NOTIFY_SHUTDOWN) [SleepFor (finaldelay s1)];
          s3 = (if use_pipe s2 then emit s2 [PipeShutdown]
                else emit (set_pdflag s2) [SystemShutdown (shutdowncmd s2)])
      in die s3 (Exit 0))"

text \<open>The privileged parent, on the byte that came through the pipe.\<close>

definition runparent :: "upsmon \<Rightarrow> int \<Rightarrow> upsmon" where
  "runparent s ch =
     (if ch \<noteq> 1 then die s (Exit 1)
      else die (emit (set_pdflag s) [SystemShutdown (shutdowncmd s)]) (Exit 0))"

definition setfsd :: "upsmon \<Rightarrow> nat \<Rightarrow> upsmon" where
  "setfsd s k =
     (case u_upsname (u_at s k) of
        None \<Rightarrow> s
      | Some nm \<Rightarrow> set_u s k (fst (talk (u_at s k) (''FSD '' @ nm @ nl))))"

text \<open>One pass over the masters; the second component is the largest number of logins seen.\<close>

fun poll_logins :: "upsmon \<Rightarrow> nat list \<Rightarrow> int \<Rightarrow> upsmon \<times> int" where
  "poll_logins s [] m = (s, m)"
| "poll_logins s (k # ks) m =
     (if \<not> u_isset s k ST_MASTER then poll_logins s ks m
      else case mon_get_var (u_at s k) ''numlogins'' of
        (u, Inl _) \<Rightarrow> (die (set_u s k u) Crash, m)
      | (u, Inr None) \<Rightarrow> poll_logins (set_u s k u) ks m
      | (u, Inr (Some t)) \<Rightarrow>
          let logins = int32 (strtol10 t) in
          poll_logins (set_u s k u) ks (if logins > m then logins else m))"

text \<open>\<open>clock\<close> holds the times read after each pass.\<close>

fun slavesync :: "upsmon \<Rightarrow> int \<Rightarrow> int list \<Rightarrow> upsmon" where
  "slavesync s start clock =
     (let (s1, maxlogins) = poll_logins s [0..<length (ulist s)] 0 in
      if halted s1 then s1
      else if maxlogins \<le> 1 then s1
      else (case clock of
              [] \<Rightarrow> die s1 Waiting
            | now # cs \<Rightarrow> if now - start > hostsync s1 then s1 else slavesync s1 start cs))"

declare slavesync.simps [simp del]

definition masters :: "upsmon \<Rightarrow> nat list" where
  "masters s = filter (\<lambda>k. u_isset s k ST_MASTER) [0..<length (ulist s)]"

definition forceshutdown :: "upsmon \<Rightarrow> int \<Rightarrow> int list \<Rightarrow> upsmon" where
  "forceshutdown s start clock =
     (let s1 = foldl setfsd s (masters s) in
      if masters s = [] then doshutdown s1
      else
        let s2 = slavesync s1 start clock
        in if halted s2 then s2 else doshutdown s2)"

definition is_ups_critical :: "upsmon \<Rightarrow> nat \<Rightarrow> int \<Rightarrow> bool" where
  "is_ups_critical s k now \<longleftrightarrow>
     (if u_isset s k ST_FSD then True
      else if \<not> u_isset s k ST_ONBATT \<or> \<not> u_isset s k ST_LOWBATT then False
      else if u_isset s k ST_MASTER then True
      else now - lastnoncrit (u_at s k) > hostsync s)"

fun recalc_loop :: "upsmon \<Rightarrow> nat list \<Rightarrow> int \<Rightarrow> int \<Rightarrow> upsmon \<times> int" where
  "recalc_loop s [] now val_ol = (s, val_ol)"
| "recalc_loop s (k # ks) now val_ol =
     (let s1 = (if now - lastpoll (u_at s k) > deadtime s \<and> u_isset s k ST_ONBATT
                then u_setflag s k ST_LOWBATT else s)
      in recalc_loop s1 ks now (if is_ups_critical s1 k now then val_ol else val_ol + u_pv (u_at s1 k)))"

text \<open>\<open>start\<close> and \<open>clock\<close> are the times that \<open>slavesync\<close> reads, if it comes to that.\<close>

definition recalc :: "upsmon \<Rightarrow> int \<Rightarrow> int \<Rightarrow> int list \<Rightarrow> upsmon" where
  "recalc s now start clock =
     (let (s1, val_ol) = recalc_loop s [0..<length (ulist s)] now 0 in
      if val_ol < minsupplies s1 then forceshutdown s1 start clock else s1)"

section \<open>Polling\<close>

fun strstr :: "string \<Rightarrow> string \<Rightarrow> bool" where
  "strstr [] p \<longleftrightarrow> p = []"
| "strstr (c # cs) p \<longleftrightarrow> take (length p) (c # cs) = p \<or> strstr cs p"

text \<open>The words between the blanks, empty ones included.\<close>

fun status_words :: "string \<Rightarrow> string list" where
  "status_words [] = [[]]"
| "status_words (c # cs) =
     (if c = CHR '' '' then [] # status_words cs
      else (case status_words cs of [] \<Rightarrow> [[c]] | w # ws \<Rightarrow> (c # w) # ws))"

definition status_word :: "nat \<Rightarrow> int \<Rightarrow> upsmon \<Rightarrow> string \<Rightarrow> upsmon" where
  "status_word k now s w =
     (let s1 = (if strcaseeq w ''OL'' then ups_on_line s k else s);
          s2 = (if strcaseeq w ''OB'' then ups_on_batt s1 k else s1);
          s3 = (if strcaseeq w ''LB'' then ups_low_batt s2 k else s2);
          s4 = (if strcaseeq w ''RB'' then upsreplbatt s3 k now else s3);
          s5 = (if strcaseeq w ''FSD'' then ups_fsd s4 k else s4)
      in update_crittimer s5 k now)"

definition parse_status :: "upsmon \<Rightarrow> nat \<Rightarrow> string \<Rightarrow> int \<Rightarrow> upsmon" where
  "parse_status s k status now =
     (if status = [] then ups_is_gone s k now
      else
        let s1 = ups_is_alive s k now;
            s2 = (if \<not> strstr status ''LB'' then u_clearflag s1 k ST_LOWBATT else s1);
            s3 = (if \<not> strstr status ''FSD'' then u_clearflag s2 k ST_FSD else s2)
        in foldl (status_word k now) s3 (status_words status))"

definition try_connect :: "upsmon \<Rightarrow> nat \<Rightarrow> conn_env \<Rightarrow> int \<Rightarrow> upsmon \<times> int" where
  "try_connect s k env now =
     (let s0 = u_clearflag s k ST_CONNECTED in
      if certpath s0 = None \<and> certverify s0 = 1
      then (drop_connection (ups_is_gone s0 k now) k, 0)
      else
        let flags = (if forcessl s0 = 1 then UPSCLI_CONN_REQSSL else UPSCLI_CONN_TRYSSL)
                    OR (if opt_af s0 = AF_INET then UPSCLI_CONN_INET else 0)
                    OR (if opt_af s0 = AF_INET6 then UPSCLI_CONN_INET6 else 0)
                    OR (if certverify s0 = 1 then UPSCLI_CONN_CERTVERIF else 0);
            (c, ret) = upscli_connect (u_hostname (u_at s0 k)) (u_port (u_at s0 k)) flags env;
            s1 = set_u s0 k ((u_at s0 k)\<lparr>u_conn := c\<rparr>)
        in if ret < 0 then (ups_is_gone s1 k now, 0)
           else
             let s2 = u_setflag s1 k ST_CONNECTED;
                 (u, r) = do_upsd_auth (u_at s2 k)
             in (set_u s2 k u, if r = 1 then 1 else 0))"

definition pollups :: "upsmon \<Rightarrow> nat \<Rightarrow> conn_env \<Rightarrow> int \<Rightarrow> upsmon" where
  "pollups s k env now =
     (let (s1, go) = (if u_isset s k ST_CONNECTED then (s, 1) else try_connect s k env now) in
      if go \<noteq> 1 then s1
      else case mon_get_var (u_at s1 k) ''status'' of
        (u, Inl _) \<Rightarrow> die (set_u s1 k u) Crash
      | (u, Inr (Some status)) \<Rightarrow> parse_status (set_u s1 k u) k status now
      | (u, Inr None) \<Rightarrow>
          let s2 = ups_is_gone (set_u s1 k u) k now in
          if uc_fd (u_conn (u_at s2 k)) = -1 then drop_connection s2 k else s2)"

section \<open>Configuration\<close>

definition redefine_ups :: "upsmon \<Rightarrow> nat \<Rightarrow> int \<Rightarrow> string \<Rightarrow> string \<Rightarrow> string \<Rightarrow> upsmon" where
  "redefine_ups s k pv un pw master =
     (let s1 = set_u s k ((u_at s k)\<lparr>u_retain := True, u_pv := pv\<rparr>);
          s2 = s1\<lparr>totalpv := totalpv s1 + pv\<rparr>;
          s3 = (if u_un (u_at s2 k) = Some un then s2
                else
                  let t = set_u s2 k ((u_at s2 k)\<lparr>u_un := Some un\<rparr>)
                  in if \<not> u_isset t k ST_LOGIN then drop_connection t k else t);
          s4 = (if u_pw (u_at s3 k) = pw then s3
                else
                  let t = set_u s3 k ((u_at s3 k)\<lparr>u_pw := pw\<rparr>)
                  in if \<not> u_isset t k ST_LOGIN then drop_connection t k else t)
      in if strcaseeq master ''master'' \<and> \<not> u_isset s4 k ST_MASTER
         then drop_connection (u_setflag s4 k ST_MASTER) k
         else if strcaseeq master ''slave'' \<and> u_isset s4 k ST_MASTER
         then u_clearflag s4 k ST_MASTER
         else s4)"

text \<open>\<open>mem\<close> is what the memory for the new entry's connection holds.\<close>

definition addups :: "upsconn \<Rightarrow> upsmon \<Rightarrow> string \<Rightarrow> string \<Rightarrow> string \<Rightarrow> string \<Rightarrow> string \<Rightarrow> upsmon" where
  "addups mem s sys pvs un pw master =
     (let pv = int32 (strtol10 pvs) in
      if pv < 0 then s
      else case find_index (\<lambda>t. u_sys t = sys) (ulist s) of
        Some k \<Rightarrow> if reload_flag s then redefine_ups s k pv un pw master else s
      | None \<Rightarrow>
          let s1 = s\<lparr>totalpv := totalpv s + pv\<rparr> in
          (case upscli_splitname sys of
             None \<Rightarrow> die s1 Crash
           | Some (nm, host, port, _) \<Rightarrow>
               s1\<lparr>ulist := ulist s1 @ [\<lparr>u_conn = mem, u_sys = sys, u_upsname = nm, u_hostname = host, u_port = port,
                 u_pv = pv, u_un = Some un, u_pw = pw,
                 u_status = (if strcaseeq master ''master'' then setflag 0 ST_MASTER else 0), u_retain = True,
                 commstate = -1, linestate = -1, lastpoll = 0, lastnoncrit = 0, lastrbwarn = 0, lastncwarn = 0\<rparr>]\<rparr>))"

definition set_notifymsg :: "upsmon \<Rightarrow> string \<Rightarrow> string \<Rightarrow> upsmon" where
  "set_notifymsg s name msg =
     (case find_index (\<lambda>e. strcaseeq (n_name e) name) (notifylist s) of
        None \<Rightarrow> s
      | Some i \<Rightarrow> s\<lparr>notifylist := (notifylist s)[i := (notifylist s ! i)\<lparr>n_msg := Some msg\<rparr>]\<rparr>)"

text \<open>The pieces between the plus signs.\<close>

fun plus_words :: "string \<Rightarrow> string list" where
  "plus_words [] = [[]]"
| "plus_words (c # cs) =
     (if c = CHR ''+'' then [] # plus_words cs
      else (case plus_words cs of [] \<Rightarrow> [[c]] | w # ws \<Rightarrow> (c # w) # ws))"

definition notify_flag :: "string \<Rightarrow> 32 word" where
  "notify_flag w =
     (if w = ''SYSLOG'' then NOTIFY_SYSLOG else if w = ''WALL'' then NOTIFY_WALL
      else if w = ''EXEC'' then NOTIFY_EXEC else if w = ''IGNORE'' then NOTIFY_IGNORE else 0)"

definition set_notifyflag :: "upsmon \<Rightarrow> string \<Rightarrow> string \<Rightarrow> upsmon" where
  "set_notifyflag s nt flags =
     (case find_index (\<lambda>e. strcaseeq (n_name e) nt) (notifylist s) of
        None \<Rightarrow> s
      | Some i \<Rightarrow> s\<lparr>notifylist := (notifylist s)[i := (notifylist s ! i)\<lparr>n_flags :=
          foldl (\<lambda>fl w. fl OR notify_flag w) 0 (plus_words flags)\<rparr>]\<rparr>)"

definition parse_conf_arg :: "upsconn \<Rightarrow> upsmon \<Rightarrow> string list \<Rightarrow> upsmon \<times> int" where
  "parse_conf_arg mem s arg =
     (if length arg < 2 then (s, 0)
      else if arg ! 0 = ''SHUTDOWNCMD'' then (s\<lparr>shutdowncmd := Some (arg ! 1)\<rparr>, 1)
      else if arg ! 0 = ''POWERDOWNFLAG'' then (s\<lparr>powerdownflag := Some (arg ! 1)\<rparr>, 1)
      else if arg ! 0 = ''NOTIFYCMD'' then (s\<lparr>notifycmd := Some (arg ! 1)\<rparr>, 1)
      else if arg ! 0 = ''POLLFREQ'' then (s\<lparr>pollfreq := atoi (arg ! 1)\<rparr>, 1)
      else if arg ! 0 = ''POLLFREQALERT'' then (s\<lparr>pollfreqalert := atoi (arg ! 1)\<rparr>, 1)
      else if arg ! 0 = ''HOSTSYNC'' then (s\<lparr>hostsync := atoi (arg ! 1)\<rparr>, 1)
      else if arg ! 0 = ''DEADTIME'' then (s\<lparr>deadtime := atoi (arg ! 1)\<rparr>, 1)
      else if arg ! 0 = ''MINSUPPLIES'' then (s\<lparr>minsupplies := atoi (arg ! 1)\<rparr>, 1)
      else if arg ! 0 = ''RBWARNTIME'' then (s\<lparr>rbwarntime := atoi (arg ! 1)\<rparr>, 1)
      else if arg ! 0 = ''NOCOMMWARNTIME'' then (s\<lparr>nocommwarntime := atoi (arg ! 1)\<rparr>, 1)
      else if arg ! 0 = ''FINALDELAY'' then (s\<lparr>finaldelay := atoi (arg ! 1)\<rparr>, 1)
      else if arg ! 0 = ''RUN_AS_USER'' then (s\<lparr>run_as_user := Some (arg ! 1)\<rparr>, 1)
      else if arg ! 0 = ''CERTPATH'' then (s\<lparr>certpath := Some (arg ! 1)\<rparr>, 1)
      else if arg ! 0 = ''CERTVERIFY'' then (s\<lparr>certverify := atoi (arg ! 1)\<rparr>, 1)
      else if arg ! 0 = ''FORCESSL'' then (s\<lparr>forcessl := atoi (arg ! 1)\<rparr>, 1)
      else if length arg < 3 then (s, 0)
      else if arg ! 0 = ''NOTIFYMSG'' then (set_notifymsg s (arg ! 1) (arg ! 2), 1)
      else if arg ! 0 = ''NOTIFYFLAG'' then (set_notifyflag s (arg ! 1) (arg ! 2), 1)
      else if arg ! 0 = ''CERTIDENT'' then (s\<lparr>certname := Some (arg ! 1), certpasswd := Some (arg ! 2)\<rparr>, 1)
      else if length arg < 5 then (s, 0)
      else if arg ! 0 = ''CERTHOST''
      then (emit s [HostCert (arg ! 1) (arg ! 2) (atoi (arg ! 3)) (atoi (arg ! 4))], 1)
      else if arg ! 0 = ''MONITOR''
      then (if length arg = 5 then (die s (Exit 1), 1)
            else (addups mem s (arg ! 1) (arg ! 2) (arg ! 3) (arg ! 4) (arg ! 5), 1))
      else (s, 0))"

definition conf_line :: "upsconn \<Rightarrow> string list \<Rightarrow> upsmon \<Rightarrow> upsmon" where
  "conf_line mem arg s =
     (if halted s \<or> length arg < 1 then s else fst (parse_conf_arg mem s arg))"

definition loadconfig :: "upsconn \<Rightarrow> (string \<Rightarrow> string + string) \<Rightarrow> string \<Rightarrow> pconf_ctx \<Rightarrow> upsmon \<Rightarrow> upsmon" where
  "loadconfig mem fopen configfile stack_ctx s =
     (case pconf_file_begin fopen (pconf_init stack_ctx) configfile of
        (r, ctx) \<Rightarrow>
          if r = 0 then (if reload_flag s then s else die s (Exit 1))
          else snd (read_lines (\<lambda>ctx. conf_line mem (pconf_words ctx)) ctx s))"

text \<open>The loop of \<open>reload_conf\<close> over the entries, with the deletion of \<open>delete_ups\<close>; \<open>n\<close> entries are
  left, the next at position \<open>i\<close>.\<close>

definition delete_ups :: "upsmon \<Rightarrow> nat \<Rightarrow> upsmon" where
  "delete_ups s k =
     (let s1 = drop_connection s k in s1\<lparr>ulist := take k (ulist s1) @ drop (Suc k) (ulist s1)\<rparr>)"

fun delete_unretained :: "nat \<Rightarrow> upsmon \<Rightarrow> nat \<Rightarrow> upsmon" where
  "delete_unretained 0 s i = s"
| "delete_unretained (Suc n) s i =
     (if \<not> u_retain (u_at s i) then delete_unretained n (delete_ups s i) i
      else delete_unretained n s (Suc i))"

definition reload_conf :: "upsconn \<Rightarrow> (string \<Rightarrow> string + string) \<Rightarrow> string \<Rightarrow> pconf_ctx \<Rightarrow> upsmon \<Rightarrow> upsmon" where
  "reload_conf mem fopen configfile stack_ctx s =
     (case fopen configfile of
        Inl _ \<Rightarrow> s\<lparr>reload_flag := False\<rparr>
      | Inr _ \<Rightarrow>
          let s1 = s\<lparr>ulist := map (\<lambda>u. u\<lparr>u_retain := False\<rparr>) (ulist s), totalpv := 0\<rparr>;
              s2 = loadconfig mem fopen configfile stack_ctx s1
          in if halted s2 then s2
             else
               let s3 = delete_unretained (length (ulist s2)) s2 0
               in if totalpv s3 < minsupplies s3 then die s3 (Exit 1)
                  else s3\<lparr>reload_flag := False\<rparr>)"

section \<open>The main loop\<close>

definition check_parent :: "upsmon \<Rightarrow> bool \<Rightarrow> int \<Rightarrow> upsmon" where
  "check_parent s alive now =
     (if alive then s
      else if now - lastwarn s < 120 then s
      else do_notify (s\<lparr>lastwarn := now\<rparr>) None NOTIFY_NOPARENT)"

definition upsmon_cleanup :: "upsmon \<Rightarrow> upsmon" where
  "upsmon_cleanup s = (foldl drop_connection s [0..<length (ulist s)])\<lparr>ulist := [], run_as_user := None,
     shutdowncmd := None, notifycmd := None, powerdownflag := None\<rparr>"

text \<open>What the outside gives a round: the signals that have come, the time, the connection attempts
  of the UPSes, the times at which the wait for the slaves starts and is looked at, the configuration file, and whether the
  parent is alive.\<close>

record mon_round =
  m_fsd :: bool
  m_reload :: bool
  m_exit :: bool
  m_now :: int
  m_env :: "nat \<Rightarrow> conn_env"
  m_start :: int
  m_clock :: "int list"
  m_file :: "string \<Rightarrow> string + string"
  m_mem :: "upsconn \<times> pconf_ctx"
  m_parent :: bool

definition poll_all :: "mon_round \<Rightarrow> upsmon \<Rightarrow> nat \<Rightarrow> upsmon" where
  "poll_all r s k = (if halted s then s else pollups s k (m_env r k) (m_now r))"

definition signals :: "mon_round \<Rightarrow> upsmon \<Rightarrow> upsmon" where
  "signals r s =
     s\<lparr>userfsd := userfsd s \<or> m_fsd r, reload_flag := reload_flag s \<or> m_reload r, exit_flag := exit_flag s \<or> m_exit r\<rparr>"

definition mon_step :: "string \<Rightarrow> upsmon \<Rightarrow> mon_round \<Rightarrow> upsmon" where
  "mon_step configfile s r =
     (if halted s then s
      else
        let s0 = signals r s in
        if exit_flag s0 then die (upsmon_cleanup s0) (Exit 0)
        else
          let s1 = (if userfsd s0 then forceshutdown s0 (m_start r) (m_clock r) else s0) in
          if userfsd s0 then s1
          else
            let s2 = (if reload_flag s1
                      then reload_conf (fst (m_mem r)) (m_file r) configfile (snd (m_mem r)) s1 else s1) in
            if halted s2 then s2
            else
              let s3 = foldl (poll_all r) s2 [0..<length (ulist s2)] in
              if halted s3 then s3
              else
                let s4 = recalc s3 (m_now r) (m_start r) (m_clock r) in
                if halted s4 then s4
                else if use_pipe s4 then check_parent s4 (m_parent r) (m_now r) else s4)"

section \<open>Flags\<close>

lemma flag_isset_bit: "i < 32 \<Longrightarrow> flag_isset w (2 ^ i) = bit w i"
proof
  assume i: "i < 32"
  show "bit w i" if "flag_isset w (2 ^ i)"
    using that i by (auto simp: flag_isset_def bit_eq_iff bit_simps)
  show "flag_isset w (2 ^ i)" if "bit w i"
    using that by (auto simp: flag_isset_def intro!: bit_word_eqI simp: bit_simps)
qed

lemma bit_setflag: "i < 32 \<Longrightarrow> bit (setflag w (2 ^ i)) n \<longleftrightarrow> bit w n \<or> n = i"
  by (auto simp: setflag_def bit_simps)

lemma bit_clearflag: "i < 32 \<Longrightarrow> bit (clearflag w (2 ^ i)) n \<longleftrightarrow> bit w n \<and> n \<noteq> i"
  by (auto simp: clearflag_def bit_simps)

lemma flag_words_pow:
  "ST_ONLINE = 2 ^ 0" "ST_ONBATT = 2 ^ 1" "ST_LOWBATT = 2 ^ 2" "ST_FSD = 2 ^ 3" "ST_MASTER = 2 ^ 4"
  "ST_LOGIN = 2 ^ 5" "ST_CONNECTED = 2 ^ 6"
  by (simp_all add: ST_ONLINE_def ST_ONBATT_def ST_LOWBATT_def ST_FSD_def ST_MASTER_def ST_LOGIN_def ST_CONNECTED_def)

text \<open>The flags of a UPS as a set of positions.\<close>

lemma isset_bits:
  "flag_isset w ST_ONLINE = bit w 0" "flag_isset w ST_ONBATT = bit w 1" "flag_isset w ST_LOWBATT = bit w 2"
  "flag_isset w ST_FSD = bit w 3" "flag_isset w ST_MASTER = bit w 4" "flag_isset w ST_LOGIN = bit w 5"
  "flag_isset w ST_CONNECTED = bit w 6"
  unfolding flag_words_pow by (rule flag_isset_bit; simp)+

lemma setflag_bits:
  "bit (setflag w ST_ONLINE) n \<longleftrightarrow> bit w n \<or> n = 0" "bit (setflag w ST_ONBATT) n \<longleftrightarrow> bit w n \<or> n = 1"
  "bit (setflag w ST_LOWBATT) n \<longleftrightarrow> bit w n \<or> n = 2" "bit (setflag w ST_FSD) n \<longleftrightarrow> bit w n \<or> n = 3"
  "bit (setflag w ST_MASTER) n \<longleftrightarrow> bit w n \<or> n = 4" "bit (setflag w ST_LOGIN) n \<longleftrightarrow> bit w n \<or> n = 5"
  "bit (setflag w ST_CONNECTED) n \<longleftrightarrow> bit w n \<or> n = 6"
  unfolding flag_words_pow by (rule bit_setflag; simp)+

lemma clearflag_bits:
  "bit (clearflag w ST_ONLINE) n \<longleftrightarrow> bit w n \<and> n \<noteq> 0" "bit (clearflag w ST_ONBATT) n \<longleftrightarrow> bit w n \<and> n \<noteq> 1"
  "bit (clearflag w ST_LOWBATT) n \<longleftrightarrow> bit w n \<and> n \<noteq> 2" "bit (clearflag w ST_FSD) n \<longleftrightarrow> bit w n \<and> n \<noteq> 3"
  "bit (clearflag w ST_MASTER) n \<longleftrightarrow> bit w n \<and> n \<noteq> 4" "bit (clearflag w ST_LOGIN) n \<longleftrightarrow> bit w n \<and> n \<noteq> 5"
  "bit (clearflag w ST_CONNECTED) n \<longleftrightarrow> bit w n \<and> n \<noteq> 6"
  unfolding flag_words_pow by (rule bit_clearflag; simp)+

lemmas flag_bits = isset_bits setflag_bits clearflag_bits

section \<open>What the parts leave alone\<close>

text \<open>An effect of the shutdown itself.\<close>

fun is_shutdown :: "effect \<Rightarrow> bool" where
  "is_shutdown PipeShutdown = True"
| "is_shutdown (SystemShutdown c) = True"
| "is_shutdown _ = False"

abbreviation shutdowns :: "upsmon \<Rightarrow> effect list" where
  "shutdowns s \<equiv> filter is_shutdown (um_out s)"

text \<open>A UPS is never on line and on battery, and its power value is not negative.\<close>

definition u_ok :: "utype \<Rightarrow> bool" where
  "u_ok u \<longleftrightarrow> \<not> (bit (u_status u) 0 \<and> bit (u_status u) 1) \<and> 0 \<le> u_pv u"

text \<open>Handling a UPS keeps the list of UPSes by name, keeps them well formed, does not shut down and
  does not touch the settings of the decision.\<close>

definition tame :: "upsmon \<Rightarrow> upsmon \<Rightarrow> bool" where
  "tame s t \<longleftrightarrow> map u_sys (ulist t) = map u_sys (ulist s) \<and>
     (list_all u_ok (ulist s) \<longrightarrow> list_all u_ok (ulist t)) \<and> shutdowns t = shutdowns s \<and>
     minsupplies t = minsupplies s \<and> hostsync t = hostsync s \<and> deadtime t = deadtime s \<and>
     userfsd t = userfsd s \<and> use_pipe t = use_pipe s \<and> shutdowncmd t = shutdowncmd s \<and>
     powerdownflag t = powerdownflag s \<and> (um_exit t = um_exit s \<or> um_exit t = Some Crash)"

lemma tame_refl [simp, intro]: "tame s s"
  by (simp add: tame_def)

lemma tame_trans [trans]: "tame s t \<Longrightarrow> tame t u \<Longrightarrow> tame s u"
  by (auto simp: tame_def)

lemma tame_len: "tame s t \<Longrightarrow> length (ulist t) = length (ulist s)"
  by (auto simp: tame_def dest: map_eq_imp_length_eq)

lemma tame_set_u:
  assumes "u_sys u = u_sys (u_at s k)" "u_ok (u_at s k) \<Longrightarrow> u_ok u" shows "tame s (set_u s k u)"
proof (cases "k < length (ulist s)")
  case True
  then have "(map u_sys (ulist s))[k := u_sys (u_at s k)] = map u_sys (ulist s)"
    by (metis list_update_id nth_map)
  with True assms show ?thesis
    by (auto simp: tame_def set_u_def map_update list_all_length nth_list_update)
qed (simp add: set_u_def tame_def list_update_beyond)

lemma tame_emit: "list_all (\<lambda>x. \<not> is_shutdown x) xs \<Longrightarrow> tame s (emit s xs)"
  by (auto simp: tame_def emit_def list_all_iff)

lemma tame_die: "tame s (die s Crash)"
  by (auto simp: tame_def die_def)

lemma tame_notify: "tame s (do_notify s k nt)"
proof -
  have n: "tame s (notify s fmt arg fl nm nn)" for s fmt arg fl nm nn
    unfolding notify_def by (auto intro!: tame_emit split: option.splits)
  have e: "tame s (emit s [Noted nt sys])" for sys by (rule tame_emit) simp
  show ?thesis
    unfolding do_notify_def Let_def by (cases "find (\<lambda>e. n_type e = nt) (notifylist s)")
      (simp_all add: e tame_trans [OF e n])
qed

lemma tame_flags:
  "tame s (u_setflag s k ST_LOWBATT)" "tame s (u_setflag s k ST_FSD)" "tame s (u_setflag s k ST_CONNECTED)"
  "tame s (u_clearflag s k ST_LOWBATT)" "tame s (u_clearflag s k ST_FSD)" "tame s (u_clearflag s k ST_CONNECTED)"
  by (auto simp: u_setflag_def u_clearflag_def u_ok_def flag_bits intro!: tame_set_u)

lemma tame_drop: "tame s (drop_connection s k)"
  unfolding drop_connection_def by (rule tame_set_u) (auto simp: u_ok_def flag_bits)

lemma tame_gone: "tame s (ups_is_gone s k now)"
  unfolding ups_is_gone_def Let_def
  by (auto intro!: tame_trans [OF tame_set_u tame_notify] tame_trans [OF tame_notify tame_set_u] simp: u_ok_def)

lemma tame_alive: "tame s (ups_is_alive s k now)"
proof -
  let ?s1 = "set_u s k ((u_at s k)\<lparr>lastpoll := now\<rparr>)"
  have 1: "tame s ?s1" by (rule tame_set_u) (auto simp: u_ok_def)
  have 2: "tame t (set_u t k ((u_at t k)\<lparr>commstate := 1\<rparr>))" for t by (rule tame_set_u) (auto simp: u_ok_def)
  show ?thesis
    unfolding ups_is_alive_def Let_def
    using 1 2 tame_trans [OF 1 2] tame_trans [OF tame_trans [OF 1 tame_notify] 2] by auto
qed

text \<open>Setting one of the two line flags clears the other.\<close>

lemma tame_line:
  "tame s (u_clearflag (u_setflag s k ST_ONLINE) k ST_ONBATT)" "tame s (u_clearflag (u_setflag s k ST_ONBATT) k ST_ONLINE)"
proof -
  have *: "tame s (set_u (set_u s k u) k ((u_at (set_u s k u) k)\<lparr>u_status := f (u_status (u_at (set_u s k u) k))\<rparr>))"
    if "u_sys u = u_sys (u_at s k)" "u_ok (u_at s k) \<Longrightarrow> u_ok (u\<lparr>u_status := f (u_status u)\<rparr>)" for u f
  proof (cases "k < length (ulist s)")
    case True
    then have "set_u (set_u s k u) k ((u_at (set_u s k u) k)\<lparr>u_status := f (u_status (u_at (set_u s k u) k))\<rparr>) =
        set_u s k (u\<lparr>u_status := f (u_status u)\<rparr>)" by (simp add: set_u_def)
    with that show ?thesis by (simp add: tame_set_u)
  qed (simp add: set_u_def tame_def list_update_beyond)
  show "tame s (u_clearflag (u_setflag s k ST_ONLINE) k ST_ONBATT)"
    unfolding u_setflag_def u_clearflag_def
    by (rule * [where f = "\<lambda>w. clearflag w ST_ONBATT"]) (simp_all add: u_ok_def flag_bits)
  show "tame s (u_clearflag (u_setflag s k ST_ONBATT) k ST_ONLINE)"
    unfolding u_setflag_def u_clearflag_def
    by (rule * [where f = "\<lambda>w. clearflag w ST_ONLINE"]) (simp_all add: u_ok_def flag_bits)
qed

lemma tame_sleepval: "tame s (s\<lparr>sleepval := n\<rparr>)"
  by (simp add: tame_def)

lemma tame_linestate: "tame s (set_u s k ((u_at s k)\<lparr>linestate := n\<rparr>))"
  by (rule tame_set_u) (auto simp: u_ok_def)

lemma tame_on_batt: "tame s (ups_on_batt s k)"
proof (cases "u_isset s k ST_ONBATT")
  case False
  have "tame s (do_notify (set_u (s\<lparr>sleepval := pollfreqalert s\<rparr>) k ((u_at (s\<lparr>sleepval := pollfreqalert s\<rparr>) k)\<lparr>linestate := 0\<rparr>)) (Some k) NOTIFY_ONBATT)"
    by (rule tame_trans [OF tame_trans [OF tame_sleepval tame_linestate] tame_notify])
  from tame_trans [OF this tame_line(2)] False show ?thesis by (simp add: ups_on_batt_def Let_def)
qed (simp add: ups_on_batt_def)

lemma tame_on_line: "tame s (ups_on_line s k)"
proof (cases "u_isset s k ST_ONLINE")
  case False
  let ?s1 = "s\<lparr>sleepval := pollfreq s\<rparr>"
  let ?s2 = "if linestate (u_at ?s1 k) \<noteq> -1 then do_notify ?s1 (Some k) NOTIFY_ONLINE else ?s1"
  have "tame s ?s2" using tame_sleepval [of s "pollfreq s"] tame_trans [OF tame_sleepval tame_notify] by auto
  from tame_trans [OF tame_trans [OF this tame_linestate] tame_line(1)] False show ?thesis
    by (simp add: ups_on_line_def Let_def)
qed (simp add: ups_on_line_def)

lemma tame_low_batt: "tame s (ups_low_batt s k)"
  unfolding ups_low_batt_def by (simp add: tame_trans [OF tame_notify tame_flags(1)])

lemma tame_fsd: "tame s (ups_fsd s k)"
  unfolding ups_fsd_def by (simp add: tame_trans [OF tame_notify tame_flags(2)])

lemma tame_replbatt: "tame s (upsreplbatt s k now)"
  unfolding upsreplbatt_def Let_def by (auto intro!: tame_trans [OF tame_notify tame_set_u] simp: u_ok_def)

lemma tame_crittimer: "tame s (update_crittimer s k now)"
  unfolding update_crittimer_def by (auto intro!: tame_set_u simp: u_ok_def)

lemmas tame_ops = tame_on_line tame_on_batt tame_low_batt tame_fsd tame_replbatt tame_crittimer tame_flags

lemma tame_if: "tame s t \<Longrightarrow> (\<And>x. tame x (f x)) \<Longrightarrow> tame s (if b then f t else t)"
  by (auto intro: tame_trans)

lemma tame_status_word: "tame s (status_word k now s w)"
  unfolding status_word_def Let_def
  by (intro tame_trans [OF _ tame_crittimer] tame_if [where f = "\<lambda>x. ups_fsd x k"] tame_if [where f = "\<lambda>x. upsreplbatt x k now"]
      tame_if [where f = "\<lambda>x. ups_low_batt x k"] tame_if [where f = "\<lambda>x. ups_on_batt x k"]
      tame_if [where f = "\<lambda>x. ups_on_line x k"] tame_ops tame_refl)

lemma tame_foldl: "(\<And>x s. tame s (f s x)) \<Longrightarrow> tame s (foldl f s xs)"
  by (induction xs arbitrary: s) (auto intro: tame_trans)

lemma tame_parse_status: "tame s (parse_status s k status now)"
proof -
  let ?s1 = "ups_is_alive s k now"
  let ?s2 = "if \<not> strstr status ''LB'' then u_clearflag ?s1 k ST_LOWBATT else ?s1"
  let ?s3 = "if \<not> strstr status ''FSD'' then u_clearflag ?s2 k ST_FSD else ?s2"
  have "tame s ?s2" by (rule tame_if [OF tame_alive]) (rule tame_flags)
  then have "tame s ?s3" by (rule tame_if) (rule tame_flags)
  then have "tame s (foldl (status_word k now) ?s3 (status_words status))"
    by (rule tame_trans) (rule tame_foldl, rule tame_status_word)
  then show ?thesis unfolding parse_status_def Let_def using tame_gone by simp
qed

text \<open>Talking to the server changes only the connection, and the login flag when logging in.\<close>

lemma talk_fields [simp]:
  "u_sys (fst (talk u l)) = u_sys u" "u_pv (fst (talk u l)) = u_pv u" "u_status (fst (talk u l)) = u_status u"
  by (auto simp: talk_def split: prod.splits)

definition same_ups :: "utype \<Rightarrow> utype \<Rightarrow> bool" where
  "same_ups u v \<longleftrightarrow> u_sys v = u_sys u \<and> u_pv v = u_pv u \<and> (\<forall>n. n \<noteq> 5 \<longrightarrow> bit (u_status v) n = bit (u_status u) n)"

lemma same_ups_refl [simp]: "same_ups u u"
  by (simp add: same_ups_def)

lemma same_ups_trans: "same_ups u v \<Longrightarrow> same_ups v w \<Longrightarrow> same_ups u w"
  by (simp add: same_ups_def)

lemma same_ups_talk: "talk u l = (v, r) \<Longrightarrow> same_ups u v"
  using talk_fields [of u l] by (simp add: same_ups_def)

lemma same_ups_login: "same_ups u (u\<lparr>u_status := setflag (u_status u) ST_LOGIN\<rparr>)"
  by (simp add: same_ups_def flag_bits)

lemma same_ups_checkmaster: "same_ups u (fst (checkmaster u))"
  by (auto simp: checkmaster_def split: option.splits prod.splits dest!: same_ups_talk)

lemma same_ups_auth: "same_ups u (fst (do_upsd_auth u))"
proof (cases "u_un u")
  case (Some un)
  obtain u1 r1 where 1: "talk u (''USERNAME '' @ un @ nl) = (u1, r1)" by force
  obtain u2 r2 where 2: "talk u1 (''PASSWORD '' @ u_pw u1 @ nl) = (u2, r2)" by force
  note s1 = same_ups_talk [OF 1] and s2 = same_ups_trans [OF same_ups_talk [OF 1] same_ups_talk [OF 2]]
  show ?thesis
  proof (cases "u_upsname u2")
    case None
    with Some 1 2 s1 s2 show ?thesis by (auto simp: do_upsd_auth_def split: option.splits)
  next
    case (Some nm)
    obtain u3 r3 where 3: "talk u2 (''LOGIN '' @ nm @ nl) = (u3, r3)" by force
    note s3 = same_ups_trans [OF s2 same_ups_talk [OF 3]]
    have s4: "same_ups u (fst (checkmaster (u3\<lparr>u_status := setflag (u_status u3) ST_LOGIN\<rparr>)))"
      using same_ups_trans [OF same_ups_trans [OF s3 same_ups_login] same_ups_checkmaster] .
    show ?thesis
      using Some \<open>u_un u = Some un\<close> 1 2 3 s1 s2 s3 s4 by (simp add: do_upsd_auth_def split: option.splits)
  qed
qed (simp add: do_upsd_auth_def)

lemma same_ups_get_var: "same_ups u (fst (mon_get_var u v))"
  by (auto simp: mon_get_var_def same_ups_def Let_def split: option.splits prod.splits)

lemma tame_same_ups: "same_ups (u_at s k) u \<Longrightarrow> tame s (set_u s k u)"
  by (rule tame_set_u) (auto simp: same_ups_def u_ok_def)

lemma tame_setfsd: "tame s (setfsd s k)"
proof (cases "u_upsname (u_at s k)")
  case (Some nm)
  have "same_ups (u_at s k) (fst (talk (u_at s k) (''FSD '' @ nm @ nl)))" by (simp add: same_ups_def)
  with Some show ?thesis by (simp add: setfsd_def tame_same_ups)
qed (simp add: setfsd_def)

lemma tame_try_connect: "tame s (fst (try_connect s k env now))"
proof -
  let ?s0 = "u_clearflag s k ST_CONNECTED"
  have 0: "tame s ?s0" by (rule tame_flags)
  have conn: "tame t (set_u t k ((u_at t k)\<lparr>u_conn := c\<rparr>))" for t c by (rule tame_set_u) (auto simp: u_ok_def)
  have auth: "tame t (set_u t k (fst (do_upsd_auth (u_at t k))))" for t
    by (rule tame_same_ups) (rule same_ups_auth)
  show ?thesis
    unfolding try_connect_def Let_def case_prod_unfold
    using tame_trans [OF 0 tame_trans [OF tame_gone tame_drop]]
      tame_trans [OF 0 tame_trans [OF conn tame_gone]]
      tame_trans [OF 0 tame_trans [OF conn tame_trans [OF tame_flags(3) auth]]]
    by simp
qed

lemma tame_get: "mon_get_var (u_at s k) v = (u, r) \<Longrightarrow> tame s (set_u s k u)"
  using same_ups_get_var [of "u_at s k" v] by (simp add: tame_same_ups)

lemma tame_pollups: "tame s (pollups s k env now)"
proof -
  obtain s1 go where c: "(if u_isset s k ST_CONNECTED then (s, 1) else try_connect s k env now) = (s1, go)" by force
  have 1: "tame s s1" using c tame_try_connect [of s k env now] by (auto split: if_splits)
  obtain u r where g: "mon_get_var (u_at s1 k) ''status'' = (u, r)" by force
  note 2 = tame_trans [OF 1 tame_get [OF g]]
  show ?thesis
    unfolding pollups_def Let_def c
    using 1 g tame_trans [OF 2 tame_die] tame_trans [OF 2 tame_parse_status] tame_trans [OF 2 tame_gone]
      tame_trans [OF tame_trans [OF 2 tame_gone] tame_drop]
    by (auto split: sum.splits option.splits)
qed

lemma tame_poll_logins: "tame s (fst (poll_logins s ks m))"
proof (induction ks arbitrary: s m)
  case (Cons k ks)
  obtain u r where g: "mon_get_var (u_at s k) ''numlogins'' = (u, r)" by force
  note 1 = tame_get [OF g]
  show ?case
    using g Cons tame_trans [OF 1 tame_die] tame_trans [OF 1 Cons]
    by (auto simp: Let_def split: sum.splits option.splits)
qed simp

lemma tame_recalc_loop: "tame s (fst (recalc_loop s ks now v))"
proof (induction ks arbitrary: s v)
  case (Cons k ks)
  let ?s1 = "if now - lastpoll (u_at s k) > deadtime s \<and> u_isset s k ST_ONBATT then u_setflag s k ST_LOWBATT else s"
  have "tame s ?s1" using tame_flags(1) by simp
  from tame_trans [OF this Cons] show ?case by (simp add: Let_def)
qed simp

section \<open>The decision to shut down\<close>

text \<open>A UPS as \<open>recalc\<close> judges it: the master has forced a shutdown; or it is on battery, its battery is
  low or it has not been heard for \<open>deadtime\<close> seconds, and we are its master or it has been
  critical for \<open>hostsync\<close> seconds.\<close>

definition critical :: "upsmon \<Rightarrow> utype \<Rightarrow> int \<Rightarrow> bool" where
  "critical s u now \<longleftrightarrow> bit (u_status u) 3 \<or>
     bit (u_status u) 1 \<and> (bit (u_status u) 2 \<or> now - lastpoll u > deadtime s) \<and>
       (bit (u_status u) 4 \<or> now - lastnoncrit u > hostsync s)"

definition power_left :: "upsmon \<Rightarrow> int \<Rightarrow> int" where
  "power_left s now = sum_list (map (\<lambda>u. if critical s u now then 0 else u_pv u) (ulist s))"

lemma u_setflag_other: "j \<noteq> k \<Longrightarrow> u_at (u_setflag s k f) j = u_at s j"
  by (simp add: u_setflag_def set_u_def)

lemma recalc_loop_sum:
  "distinct ks \<Longrightarrow> (\<And>k. k \<in> set ks \<Longrightarrow> k < length (ulist s)) \<Longrightarrow>
   snd (recalc_loop s ks now v) = v + sum_list (map (\<lambda>k. if critical s (u_at s k) now then 0 else u_pv (u_at s k)) ks)"
proof (induction ks arbitrary: s v)
  case (Cons k ks)
  let ?p = "now - lastpoll (u_at s k) > deadtime s \<and> u_isset s k ST_ONBATT"
  let ?s1 = "if ?p then u_setflag s k ST_LOWBATT else s"
  have k: "k < length (ulist s)" using Cons.prems by simp
  have len: "length (ulist ?s1) = length (ulist s)" by (simp add: u_setflag_def set_u_def)
  have settings: "hostsync ?s1 = hostsync s" "deadtime ?s1 = deadtime s" by (simp_all add: u_setflag_def set_u_def)
  have same: "u_at ?s1 j = u_at s j" if "j \<in> set ks" for j
    using that Cons.prems(1) u_setflag_other [of j k s ST_LOWBATT] by auto
  have other: "critical ?s1 (u_at ?s1 j) now = critical s (u_at s j) now" if "j \<in> set ks" for j
    unfolding critical_def settings same [OF that] by simp
  have crit: "is_ups_critical ?s1 k now = critical s (u_at s k) now"
    using k by (auto simp: is_ups_critical_def critical_def u_isset_def u_setflag_def set_u_def flag_bits)
  have pv: "u_pv (u_at ?s1 k) = u_pv (u_at s k)" using k by (simp add: u_setflag_def set_u_def)
  have map: "map (\<lambda>j. if critical ?s1 (u_at ?s1 j) now then 0 else u_pv (u_at ?s1 j)) ks =
      map (\<lambda>j. if critical s (u_at s j) now then 0 else u_pv (u_at s j)) ks"
    using other same by (intro map_cong) simp_all
  have "snd (recalc_loop ?s1 ks now w) = w + sum_list (map (\<lambda>j. if critical s (u_at s j) now then 0 else u_pv (u_at s j)) ks)" for w
    unfolding map [symmetric] using Cons.prems len by (intro Cons.IH) auto
  then show ?case
    unfolding recalc_loop.simps Let_def crit pv by simp
qed simp

lemma power_left_loop: "snd (recalc_loop s [0..<length (ulist s)] now 0) = power_left s now"
proof -
  have "map (\<lambda>k. if critical s (u_at s k) now then 0 else u_pv (u_at s k)) [0..<length (ulist s)] =
      map (\<lambda>u. if critical s u now then 0 else u_pv u) (ulist s)"
    by (intro nth_equalityI) auto
  then show ?thesis by (subst recalc_loop_sum) (auto simp: power_left_def)
qed

lemma recalc_loop_exit: "um_exit (fst (recalc_loop s ks now v)) = um_exit s"
  by (induction ks arbitrary: s v) (auto simp: Let_def u_setflag_def set_u_def)

lemma notify_exit: "um_exit (do_notify s k nt) = um_exit s"
  by (auto simp: do_notify_def notify_def emit_def Let_def split: option.splits)

lemma foldl_exit: "(\<And>s x. um_exit (f s x) = um_exit s) \<Longrightarrow> um_exit (foldl f s xs) = um_exit s"
  by (induction xs arbitrary: s) auto

text \<open>What \<open>doshutdown\<close> does last.\<close>

definition shutdown_call :: "upsmon \<Rightarrow> effect" where
  "shutdown_call s = (if use_pipe s then PipeShutdown else SystemShutdown (shutdowncmd s))"

lemma doshutdown_calls: "shutdowns (doshutdown s) = shutdowns s @ [shutdown_call s] \<and> um_exit (doshutdown s) = Some (Exit 0)"
proof -
  let ?s1 = "emit s [Syslog ''Executing automatic power-fail shutdown'' [],
                     Wall (''Executing automatic power-fail shutdown'' @ nl) []]"
  let ?s2 = "emit (do_notify ?s1 None NOTIFY_SHUTDOWN) [SleepFor (finaldelay ?s1)]"
  have "tame s ?s2" by (rule tame_trans [OF tame_trans [OF tame_emit tame_notify] tame_emit]) simp_all
  then show ?thesis
    by (auto simp: doshutdown_def Let_def tame_def die_def emit_def set_pdflag_def shutdown_call_def split: option.splits)
qed

lemma slavesync_spec:
  "\<not> halted s \<Longrightarrow> (let t = slavesync s start clock in
     shutdowns t = shutdowns s \<and> shutdown_call t = shutdown_call s \<and>
     (um_exit t = None \<or> um_exit t = Some Crash \<or>
      um_exit t = Some Waiting \<and> (\<forall>now\<in>set clock. now - start \<le> hostsync s)))"
proof (induction clock arbitrary: s)
  case Nil
  obtain s1 m where p: "poll_logins s [0..<length (ulist s)] 0 = (s1, m)" by force
  then have "tame s s1" using tame_poll_logins [of s "[0..<length (ulist s)]" 0] by simp
  with Nil p show ?case by (auto simp: slavesync.simps [of s] tame_def Let_def die_def shutdown_call_def)
next
  case (Cons now cs)
  obtain s1 m where p: "poll_logins s [0..<length (ulist s)] 0 = (s1, m)" by force
  then have t: "tame s s1" using tame_poll_logins [of s "[0..<length (ulist s)]" 0] by simp
  show ?case
  proof (cases "halted s1 \<or> m \<le> 1 \<or> now - start > hostsync s1")
    case True
    with p t Cons.prems show ?thesis by (auto simp: slavesync.simps [of s] tame_def Let_def shutdown_call_def)
  next
    case False
    then have "slavesync s start (now # cs) = slavesync s1 start cs"
      using p by (simp add: slavesync.simps [of s])
    with Cons.IH [of s1] False t show ?thesis by (auto simp: Let_def tame_def shutdown_call_def)
  qed
qed

lemma forceshutdown_spec:
  assumes "\<not> halted s"
  shows "let t = forceshutdown s start clock in
     um_exit t = Some (Exit 0) \<and> shutdowns t = shutdowns s @ [shutdown_call s] \<or>
     um_exit t = Some Crash \<and> shutdowns t = shutdowns s \<or>
     um_exit t = Some Waiting \<and> shutdowns t = shutdowns s \<and> (\<forall>now\<in>set clock. now - start \<le> hostsync s)"
proof -
  let ?s1 = "foldl setfsd s (masters s)"
  have t: "tame s ?s1" by (rule tame_foldl) (rule tame_setfsd)
  have "um_exit (setfsd t k) = um_exit t" for t k by (simp add: setfsd_def set_u_def split: option.splits)
  then have e: "um_exit ?s1 = um_exit s" by (rule foldl_exit)
  then have run: "\<not> halted ?s1" using assms by simp
  have same: "shutdowns ?s1 = shutdowns s" "shutdown_call ?s1 = shutdown_call s" "hostsync ?s1 = hostsync s"
    using t by (auto simp: tame_def shutdown_call_def)
  show ?thesis
  proof (cases "masters s = []")
    case True
    then show ?thesis using doshutdown_calls [of ?s1] same by (simp add: forceshutdown_def Let_def)
  next
    case False
    let ?s2 = "slavesync ?s1 start clock"
    show ?thesis
      using False slavesync_spec [OF run, of start clock] doshutdown_calls [of ?s2] same
      by (auto simp: forceshutdown_def Let_def)
  qed
qed

lemma recalc_facts:
  assumes "\<not> halted s"
  shows "power_left s now \<ge> minsupplies s \<Longrightarrow> \<not> halted (recalc s now start clock) \<and> shutdowns (recalc s now start clock) = shutdowns s"
    and "power_left s now < minsupplies s \<Longrightarrow>
      um_exit (recalc s now start clock) = Some (Exit 0) \<and> shutdowns (recalc s now start clock) = shutdowns s @ [shutdown_call s] \<or>
      um_exit (recalc s now start clock) = Some Crash \<and> shutdowns (recalc s now start clock) = shutdowns s \<or>
      um_exit (recalc s now start clock) = Some Waiting \<and> shutdowns (recalc s now start clock) = shutdowns s \<and>
        (\<forall>t\<in>set clock. t - start \<le> hostsync s)"
proof -
  obtain s1 v where l: "recalc_loop s [0..<length (ulist s)] now 0 = (s1, v)" by force
  then have v: "v = power_left s now" using power_left_loop [of s now] by simp
  have t: "tame s s1" and run: "\<not> halted s1"
    using l assms tame_recalc_loop [of s "[0..<length (ulist s)]" now 0] recalc_loop_exit [of s "[0..<length (ulist s)]" now 0]
    by simp_all
  then have same: "shutdowns s1 = shutdowns s" "shutdown_call s1 = shutdown_call s" "hostsync s1 = hostsync s"
    "minsupplies s1 = minsupplies s"
    by (auto simp: tame_def shutdown_call_def)
  have r: "recalc s now start clock = (if power_left s now < minsupplies s then forceshutdown s1 start clock else s1)"
    by (simp add: recalc_def l v same)
  show "\<not> halted (recalc s now start clock) \<and> shutdowns (recalc s now start clock) = shutdowns s" if "power_left s now \<ge> minsupplies s"
    using that run same by (simp add: r)
  show "um_exit (recalc s now start clock) = Some (Exit 0) \<and> shutdowns (recalc s now start clock) = shutdowns s @ [shutdown_call s] \<or>
      um_exit (recalc s now start clock) = Some Crash \<and> shutdowns (recalc s now start clock) = shutdowns s \<or>
      um_exit (recalc s now start clock) = Some Waiting \<and> shutdowns (recalc s now start clock) = shutdowns s \<and>
        (\<forall>t\<in>set clock. t - start \<le> hostsync s)" if "power_left s now < minsupplies s"
    using that forceshutdown_spec [OF run, of start clock] same by (simp add: r Let_def)
qed

section \<open>The wait for the slaves\<close>

text \<open>The connection to the master's own upsd after the FSD line and \<open>i\<close> requests for the number of logins.\<close>

fun login_conn :: "utype \<Rightarrow> nat \<Rightarrow> upsconn" where
  "login_conn u 0 = (case u_upsname u of None \<Rightarrow> u_conn u | Some nm \<Rightarrow> u_conn (fst (talk u (''FSD '' @ nm @ nl))))"
| "login_conn u (Suc i) =
     (case u_upsname u of
        None \<Rightarrow> login_conn u i
      | Some nm \<Rightarrow> (case upscli_get (login_conn u i) [''NUMLOGINS'', nm] of None \<Rightarrow> login_conn u i | Some (c, r) \<Rightarrow> c))"

text \<open>We are the master of the UPS, and the answer to request \<open>i\<close> ends with the name (the number is then read
  behind the words); or it has a number, which is more than one.\<close>

definition short_answer :: "utype \<Rightarrow> nat \<Rightarrow> bool" where
  "short_answer u i \<longleftrightarrow> bit (u_status u) 4 \<and>
     (case u_upsname u of
        None \<Rightarrow> False
      | Some nm \<Rightarrow> (case upscli_get (login_conn u i) [''NUMLOGINS'', nm] of
            None \<Rightarrow> True
          | Some (c, r) \<Rightarrow> 0 \<le> r \<and> 2 \<le> numargs (uc_ctx c) \<and> length (arglist (uc_ctx c)) \<le> 2))"

definition slaves_left :: "utype \<Rightarrow> nat \<Rightarrow> bool" where
  "slaves_left u i \<longleftrightarrow> bit (u_status u) 4 \<and>
     (case u_upsname u of
        None \<Rightarrow> False
      | Some nm \<Rightarrow> (case upscli_get (login_conn u i) [''NUMLOGINS'', nm] of
            None \<Rightarrow> False
          | Some (c, r) \<Rightarrow> 0 \<le> r \<and> 2 \<le> numargs (uc_ctx c) \<and> 2 < length (arglist (uc_ctx c)) \<and>
              1 < int32 (strtol10 (snprintf SMALLBUF (arglist (uc_ctx c) ! 2)))))"

text \<open>After request \<open>i\<close> to every UPS the wait goes on: no answer was short, a slave is left, and the clock
  is not yet past \<open>hostsync\<close>.\<close>

definition waits :: "utype list \<Rightarrow> int \<Rightarrow> int \<Rightarrow> int list \<Rightarrow> nat \<Rightarrow> bool" where
  "waits us hsync start clock i \<longleftrightarrow> \<not> (\<exists>u\<in>set us. short_answer u i) \<and> (\<exists>u\<in>set us. slaves_left u i) \<and>
     i < length clock \<and> clock ! i - start \<le> hsync"

lemma login_conn_status: "login_conn (u\<lparr>u_status := w\<rparr>) i = login_conn u i"
  by (induction i) (auto simp: talk_def split: option.splits prod.splits)

lemma answers_status:
  "bit w 4 = bit (u_status u) 4 \<Longrightarrow> short_answer (u\<lparr>u_status := w\<rparr>) i = short_answer u i"
  "bit w 4 = bit (u_status u) 4 \<Longrightarrow> slaves_left (u\<lparr>u_status := w\<rparr>) i = slaves_left u i"
  by (simp_all add: short_answer_def slaves_left_def login_conn_status cong: option.case_cong)

text \<open>A request on a UPS whose connection is at that point.\<close>

lemma numlogins_answer:
  assumes "mon_get_var (u\<lparr>u_conn := login_conn u i\<rparr>) ''numlogins'' = (v, r)" "bit (u_status u) 4"
  shows "v = u\<lparr>u_conn := login_conn u (Suc i)\<rparr>" "(\<exists>e. r = Inl e) = short_answer u i"
    "(\<exists>t. r = Inr (Some t) \<and> 1 < int32 (strtol10 t)) = slaves_left u i"
proof -
  have "v = u\<lparr>u_conn := login_conn u (Suc i)\<rparr> \<and> (\<exists>e. r = Inl e) = short_answer u i \<and>
    (\<exists>t. r = Inr (Some t) \<and> 1 < int32 (strtol10 t)) = slaves_left u i"
    using assms by (cases "u_upsname u"; cases "upscli_get (login_conn u i) [''NUMLOGINS'', the (u_upsname u)]")
      (auto simp: mon_get_var_def short_answer_def slaves_left_def Let_def numeral_2_eq_2 split: if_splits)
  then show "v = u\<lparr>u_conn := login_conn u (Suc i)\<rparr>" "(\<exists>e. r = Inl e) = short_answer u i"
    "(\<exists>t. r = Inr (Some t) \<and> 1 < int32 (strtol10 t)) = slaves_left u i" by simp_all
qed

text \<open>Every UPS we are the master of has been asked \<open>i\<close> times.\<close>

definition asked_conn :: "nat \<Rightarrow> utype \<Rightarrow> utype" where
  "asked_conn i u = (if bit (u_status u) 4 then u\<lparr>u_conn := login_conn u i\<rparr> else u)"

lemma poll_logins_pass:
  assumes "distinct ks" "\<And>k. k \<in> set ks \<Longrightarrow> k < length us \<and> u_at s k = asked_conn i (us ! k)" "length (ulist s) = length us"
    and "poll_logins s ks m = (t, m')"
  shows "if \<exists>k\<in>set ks. short_answer (us ! k) i then um_exit t = Some Crash
     else um_exit t = um_exit s \<and> (1 < m' \<longleftrightarrow> 1 < m \<or> (\<exists>k\<in>set ks. slaves_left (us ! k) i)) \<and>
       (\<forall>j<length us. u_at t j = (if j \<in> set ks then asked_conn (Suc i) (us ! j) else u_at s j))"
  using assms
proof (induction ks arbitrary: s m)
  case (Cons k ks)
  let ?u = "us ! k"
  have k: "k < length us" "u_at s k = asked_conn i ?u" "k \<notin> set ks" "k < length (ulist s)" using Cons.prems by auto
  have rest: "k' < length us \<and> u_at s k' = asked_conn i (us ! k')" if "k' \<in> set ks" for k'
    using Cons.prems(2) [of k'] that by simp
  have isset: "u_isset s k ST_MASTER = bit (u_status ?u) 4"
    by (simp add: u_isset_def isset_bits k(2) asked_conn_def)
  show ?case
  proof (cases "bit (u_status ?u) 4")
    case False
    then have "poll_logins s ks m = (t, m')" using Cons.prems(4) isset by simp
    note IH = Cons.IH [OF _ rest Cons.prems(3) this]
    have none: "\<not> short_answer ?u i" "\<not> slaves_left ?u i" "asked_conn (Suc i) ?u = u_at s k"
      using False k(2) by (simp_all add: short_answer_def slaves_left_def asked_conn_def)
    then show ?thesis using IH Cons.prems(1) k(3) by (auto split: if_splits)
  next
    case True
    obtain v r where g: "mon_get_var (u_at s k) ''numlogins'' = (v, r)" by force
    then have "mon_get_var (?u\<lparr>u_conn := login_conn ?u i\<rparr>) ''numlogins'' = (v, r)" using k(2) True by (simp add: asked_conn_def)
    note a = numlogins_answer [OF this True]
    have v: "v = asked_conn (Suc i) ?u" using a(1) True by (simp add: asked_conn_def)
    let ?s = "set_u s k v"
    have at: "u_at ?s j = (if j = k then v else u_at s j)" for j using k(4) by (simp add: set_u_def)
    have rest': "k' < length us \<and> u_at ?s k' = asked_conn i (us ! k')" if "k' \<in> set ks" for k'
      using rest [OF that] that k(3) at [of k'] by auto
    have len: "length (ulist ?s) = length us" "um_exit ?s = um_exit s" using Cons.prems(3) by (simp_all add: set_u_def)
    show ?thesis
    proof (cases r)
      case (Inl e)
      then have "short_answer ?u i" using a(2) by blast
      moreover have "t = die ?s Crash" using Cons.prems(4) g isset True Inl by simp
      ultimately show ?thesis by (simp add: die_def)
    next
      case (Inr ans)
      let ?m = "case ans of None \<Rightarrow> m | Some x \<Rightarrow> if int32 (strtol10 x) > m then int32 (strtol10 x) else m"
      have "poll_logins ?s ks ?m = (t, m')"
        using Cons.prems(4) g isset True Inr by (cases ans) (simp_all add: Let_def)
      note IH = Cons.IH [OF _ rest' len(1) this]
      have no: "\<not> short_answer ?u i" using a(2) Inr by blast
      have m: "1 < ?m \<longleftrightarrow> 1 < m \<or> slaves_left ?u i" unfolding a(3) [symmetric] using Inr by (auto split: option.splits)
      show ?thesis
      proof (cases "\<exists>k\<in>set ks. short_answer (us ! k) i")
        case True
        with IH Cons.prems(1) show ?thesis by simp
      next
        case False
        with IH Cons.prems(1) no m k(3) at len(2) v show ?thesis by auto
      qed
    qed
  qed
qed auto

text \<open>How the wait ends: the state \<open>t\<close> after the last request \<open>n\<close>.\<close>

definition wait_ends :: "utype list \<Rightarrow> int \<Rightarrow> int \<Rightarrow> int list \<Rightarrow> nat \<Rightarrow> upsmon \<Rightarrow> bool" where
  "wait_ends us hsync start clock n t \<longleftrightarrow>
     (if \<exists>u\<in>set us. short_answer u n then um_exit t = Some Crash
      else if (\<exists>u\<in>set us. slaves_left u n) \<and> n = length clock then um_exit t = Some Waiting
      else \<not> waits us hsync start clock n \<and> um_exit t = None)"

lemma set_positions: "(\<exists>k\<in>set [0..<length us]. P (us ! k)) = (\<exists>u\<in>set us. P u)"
proof
  show "\<exists>u\<in>set us. P u" if "\<exists>k\<in>set [0..<length us]. P (us ! k)" using that nth_mem by fastforce
  show "\<exists>k\<in>set [0..<length us]. P (us ! k)" if "\<exists>u\<in>set us. P u" using that by (fastforce simp: in_set_conv_nth)
qed

lemma poll_all_pass:
  assumes "\<And>k. k < length us \<Longrightarrow> u_at s k = asked_conn i (us ! k)" "length (ulist s) = length us"
    and "poll_logins s [0..<length us] 0 = (t, m)"
  shows "if \<exists>u\<in>set us. short_answer u i then um_exit t = Some Crash
     else um_exit t = um_exit s \<and> (1 < m \<longleftrightarrow> (\<exists>u\<in>set us. slaves_left u i)) \<and>
       (\<forall>j<length us. u_at t j = asked_conn (Suc i) (us ! j))"
proof -
  have "k < length us \<and> u_at s k = asked_conn i (us ! k)" if "k \<in> set [0..<length us]" for k
    using assms(1) that by simp
  from poll_logins_pass [where i = i and us = us, OF distinct_upt this assms(2,3)] show ?thesis
    using set_positions [where us = us and P = "\<lambda>u. short_answer u i"] set_positions [where us = us and P = "\<lambda>u. slaves_left u i"]
    by (auto split: if_splits)
qed

lemma slavesync_waits:
  assumes "\<not> halted s" "length (ulist s) = length us" "\<And>k. k < length us \<Longrightarrow> u_at s k = asked_conn i (us ! k)"
    and "length clock = i + d"
  shows "\<exists>n. i \<le> n \<and> n \<le> length clock \<and> (\<forall>j. i \<le> j \<and> j < n \<longrightarrow> waits us (hostsync s) start clock j) \<and>
     wait_ends us (hostsync s) start clock n (slavesync s start (drop i clock))"
  using assms
proof (induction d arbitrary: i s)
  case (0 i s)
  obtain s1 m where p: "poll_logins s [0..<length us] 0 = (s1, m)" by force
  note pass = poll_all_pass [where i = i and us = us, OF 0(3,2) p]
  have "wait_ends us (hostsync s) start clock i (slavesync s start (drop i clock))"
  proof (cases "\<exists>u\<in>set us. short_answer u i")
    case True
    with pass p 0(2) show ?thesis by (subst slavesync.simps) (simp add: wait_ends_def)
  next
    case False
    with pass p 0(1,2,4) show ?thesis
      by (subst slavesync.simps) (cases "\<exists>u\<in>set us. slaves_left u i"; simp add: wait_ends_def waits_def die_def)
  qed
  then show ?case using 0(4) by (intro exI [of _ i]) auto
next
  case (Suc d i s)
  obtain s1 m where p: "poll_logins s [0..<length us] 0 = (s1, m)" by force
  note pass = poll_all_pass [where i = i and us = us, OF Suc.prems(3,2) p]
  have t: "tame s s1" using tame_poll_logins [of s "[0..<length us]" 0] p by simp
  have i: "i < length clock" using Suc.prems(4) by simp
  have d: "drop i clock = clock ! i # drop (Suc i) clock" using i by (rule Cons_nth_drop_Suc [symmetric])
  have sync: "slavesync s start (drop i clock) =
      (if halted s1 \<or> m \<le> 1 \<or> clock ! i - start > hostsync s then s1 else slavesync s1 start (drop (Suc i) clock))"
    using p Suc.prems(2) t by (subst slavesync.simps) (simp add: d tame_def)
  show ?case
  proof (cases "waits us (hostsync s) start clock i")
    case False
    have "wait_ends us (hostsync s) start clock i (slavesync s start (drop i clock))"
      unfolding sync using pass Suc.prems(1,3) False i by (auto simp: wait_ends_def waits_def)
    then show ?thesis using i by (intro exI [of _ i]) auto
  next
    case True
    then have no: "\<not> (\<exists>u\<in>set us. short_answer u i)" and w: "\<exists>u\<in>set us. slaves_left u i" "clock ! i - start \<le> hostsync s"
      by (simp_all add: waits_def)
    have s1: "\<not> halted s1" "1 < m" "\<And>j. j < length us \<Longrightarrow> u_at s1 j = asked_conn (Suc i) (us ! j)"
      using pass Suc.prems(1,3) no w(1) by auto
    have same: "length (ulist s1) = length us" "hostsync s1 = hostsync s"
      using tame_len [OF t] t Suc.prems(2) by (simp_all add: tame_def)
    obtain n where n: "Suc i \<le> n" "n \<le> length clock" "\<forall>j. Suc i \<le> j \<and> j < n \<longrightarrow> waits us (hostsync s) start clock j"
      "wait_ends us (hostsync s) start clock n (slavesync s1 start (drop (Suc i) clock))"
      using Suc.IH [OF s1(1) same(1) s1(3)] Suc.prems(4) unfolding same(2) by auto
    have "slavesync s start (drop i clock) = slavesync s1 start (drop (Suc i) clock)"
      unfolding sync using s1 w(2) by simp
    moreover have "waits us (hostsync s) start clock j" if "i \<le> j" "j < n" for j
      using that n(3) True by (cases "j = i") auto
    ultimately show ?thesis using n by (intro exI [of _ n]) simp
  qed
qed

text \<open>The FSD lines to the masters.\<close>

lemma setfsd_at:
  "k < length (ulist s) \<Longrightarrow> u_at (setfsd s k) j = (if j = k then (u_at s k)\<lparr>u_conn := login_conn (u_at s k) 0\<rparr> else u_at s j)"
  by (auto simp: setfsd_def set_u_def talk_def split: option.splits prod.splits)

lemma setfsd_all:
  assumes "distinct ks" "\<And>k. k \<in> set ks \<Longrightarrow> k < length (ulist s)"
  shows "u_at (foldl setfsd s ks) j = (if j \<in> set ks then (u_at s j)\<lparr>u_conn := login_conn (u_at s j) 0\<rparr> else u_at s j)"
  using assms
proof (induction ks arbitrary: s)
  case (Cons k ks)
  have k: "k < length (ulist s)" "k \<notin> set ks" using Cons.prems by auto
  have "length (ulist (setfsd s k)) = length (ulist s)" using tame_len [OF tame_setfsd] .
  then have "u_at (foldl setfsd (setfsd s k) ks) j =
      (if j \<in> set ks then (u_at (setfsd s k) j)\<lparr>u_conn := login_conn (u_at (setfsd s k) j) 0\<rparr> else u_at (setfsd s k) j)"
    using Cons by simp
  with k show ?case by (auto simp: setfsd_at)
qed simp

lemma told_all: "k < length (ulist s) \<Longrightarrow> u_at (foldl setfsd s (masters s)) k = asked_conn 0 (u_at s k)"
  by (subst setfsd_all) (auto simp: masters_def asked_conn_def u_isset_def isset_bits)

lemma forceshutdown_waits:
  assumes "\<not> halted s"
  shows "\<exists>n\<le>length clock. (\<forall>j<n. waits (ulist s) (hostsync s) start clock j) \<and>
     (\<exists>t. wait_ends (ulist s) (hostsync s) start clock n t \<and> shutdowns t = shutdowns s \<and> shutdown_call t = shutdown_call s \<and>
        forceshutdown s start clock = (if halted t then t else doshutdown t))"
proof -
  let ?s1 = "foldl setfsd s (masters s)"
  have t: "tame s ?s1" by (rule tame_foldl) (rule tame_setfsd)
  have "um_exit (setfsd t k) = um_exit t" for t k by (simp add: setfsd_def set_u_def split: option.splits)
  then have e: "um_exit ?s1 = um_exit s" by (rule foldl_exit)
  then have run: "\<not> halted ?s1" using assms by simp
  have same: "shutdowns ?s1 = shutdowns s" "shutdown_call ?s1 = shutdown_call s" "hostsync ?s1 = hostsync s"
    using t by (auto simp: tame_def shutdown_call_def)
  show ?thesis
  proof (cases "masters s = []")
    case True
    then have "\<not> bit (u_status u) 4" if "u \<in> set (ulist s)" for u
      using that by (auto simp: masters_def filter_empty_conv in_set_conv_nth u_isset_def isset_bits)
    then have "wait_ends (ulist s) (hostsync s) start clock 0 ?s1"
      using run by (auto simp: wait_ends_def waits_def short_answer_def slaves_left_def)
    then show ?thesis using True same run by (intro exI [of _ 0]) (auto simp: forceshutdown_def Let_def)
  next
    case False
    let ?t = "slavesync ?s1 start clock"
    have len: "length (ulist ?s1) = length (ulist s)" by (rule tame_len [OF t])
    have "length clock = 0 + length clock" by simp
    from slavesync_waits [where us = "ulist s" and clock = clock and i = 0 and start = start, OF run len told_all this] obtain n where
      "n \<le> length clock" "\<forall>j<n. waits (ulist s) (hostsync s) start clock j" "wait_ends (ulist s) (hostsync s) start clock n ?t"
      unfolding same(3) drop_0 by blast
    moreover have "shutdowns ?t = shutdowns s" "shutdown_call ?t = shutdown_call s"
      using slavesync_spec [OF run, of start clock] same by (simp_all add: Let_def)
    moreover have "forceshutdown s start clock = (if halted ?t then ?t else doshutdown ?t)"
      using False by (simp add: forceshutdown_def Let_def)
    ultimately show ?thesis by blast
  qed
qed

text \<open>\<open>recalc\<close> only sets LOWBATT before.\<close>

lemma recalc_loop_status:
  "length (ulist (fst (recalc_loop s ks now v))) = length (ulist s) \<and>
   (\<forall>j. \<exists>w. bit w 4 = bit (u_status (u_at s j)) 4 \<and> u_at (fst (recalc_loop s ks now v)) j = (u_at s j)\<lparr>u_status := w\<rparr>)"
proof (induction ks arbitrary: s v)
  case Nil
  have "\<exists>w. bit w 4 = bit (u_status u) 4 \<and> u = u\<lparr>u_status := w\<rparr>" for u :: utype
    by (rule exI [of _ "u_status u"]) simp
  then show ?case by simp
next
  case (Cons k ks)
  let ?s1 = "if now - lastpoll (u_at s k) > deadtime s \<and> u_isset s k ST_ONBATT then u_setflag s k ST_LOWBATT else s"
  let ?r = "recalc_loop s (k # ks) now v"
  obtain x where r: "?r = recalc_loop ?s1 ks now x" by (simp add: Let_def)
  have 1: "\<exists>w. bit w 4 = bit (u_status (u_at s j)) 4 \<and> u_at ?s1 j = (u_at s j)\<lparr>u_status := w\<rparr>" for j
  proof (cases "?s1 = s")
    case True
    then show ?thesis by (intro exI [of _ "u_status (u_at s j)"]) simp
  next
    case False
    then have "u_at ?s1 j = (if j = k \<and> k < length (ulist s) then (u_at s k)\<lparr>u_status := setflag (u_status (u_at s k)) ST_LOWBATT\<rparr> else u_at s j)"
      by (auto simp: u_setflag_def set_u_def nth_list_update list_update_beyond)
    then show ?thesis
      by (intro exI [of _ "if j = k \<and> k < length (ulist s) then setflag (u_status (u_at s k)) ST_LOWBATT else u_status (u_at s j)"])
        (auto simp: flag_bits)
  qed
  have "length (ulist ?s1) = length (ulist s)" by (simp add: u_setflag_def set_u_def)
  moreover have "\<exists>w. bit w 4 = bit (u_status (u_at s j)) 4 \<and> u_at (fst ?r) j = (u_at s j)\<lparr>u_status := w\<rparr>" for j
  proof -
    from 1 [of j] obtain w where w: "bit w 4 = bit (u_status (u_at s j)) 4" "u_at ?s1 j = (u_at s j)\<lparr>u_status := w\<rparr>" by blast
    from conjunct2 [OF Cons.IH [of ?s1 x]] obtain w' where
      "bit w' 4 = bit (u_status (u_at ?s1 j)) 4" "u_at (fst (recalc_loop ?s1 ks now x)) j = (u_at ?s1 j)\<lparr>u_status := w'\<rparr>" by blast
    with w show ?thesis unfolding r by (intro exI [of _ w']) simp
  qed
  ultimately show ?case using conjunct1 [OF Cons.IH [of ?s1 x]] r by simp
qed

lemma wait_same_status:
  assumes "length us' = length us" "\<And>j. j < length us \<Longrightarrow> \<exists>w. bit w 4 = bit (u_status (us ! j)) 4 \<and> us' ! j = (us ! j)\<lparr>u_status := w\<rparr>"
  shows "(\<exists>u\<in>set us'. short_answer u i) = (\<exists>u\<in>set us. short_answer u i)"
    "(\<exists>u\<in>set us'. slaves_left u i) = (\<exists>u\<in>set us. slaves_left u i)"
proof -
  have "short_answer (us' ! j) i = short_answer (us ! j) i \<and> slaves_left (us' ! j) i = slaves_left (us ! j) i" if "j < length us" for j
    using assms(2) [OF that] by (auto simp: answers_status)
  with assms(1) show "(\<exists>u\<in>set us'. short_answer u i) = (\<exists>u\<in>set us. short_answer u i)"
    "(\<exists>u\<in>set us'. slaves_left u i) = (\<exists>u\<in>set us. slaves_left u i)"
    by (auto simp: Bex_def in_set_conv_nth)
qed

lemma recalc_waits:
  assumes "\<not> halted s" "power_left s now < minsupplies s"
  shows "\<exists>n\<le>length clock. (\<forall>j<n. waits (ulist s) (hostsync s) start clock j) \<and>
     (\<exists>t. wait_ends (ulist s) (hostsync s) start clock n t \<and> shutdowns t = shutdowns s \<and> shutdown_call t = shutdown_call s \<and>
        recalc s now start clock = (if halted t then t else doshutdown t))"
proof -
  obtain s1 v where l: "recalc_loop s [0..<length (ulist s)] now 0 = (s1, v)" by force
  then have v: "v = power_left s now" using power_left_loop [of s now] by simp
  have t: "tame s s1" and run: "\<not> halted s1"
    using l assms tame_recalc_loop [of s "[0..<length (ulist s)]" now 0] recalc_loop_exit [of s "[0..<length (ulist s)]" now 0]
    by simp_all
  then have same: "shutdowns s1 = shutdowns s" "shutdown_call s1 = shutdown_call s" "hostsync s1 = hostsync s"
    "minsupplies s1 = minsupplies s"
    by (auto simp: tame_def shutdown_call_def)
  have r: "recalc s now start clock = forceshutdown s1 start clock" using assms(2) by (simp add: recalc_def l v same)
  have us: "(\<exists>u\<in>set (ulist s1). short_answer u i) = (\<exists>u\<in>set (ulist s). short_answer u i)"
    "(\<exists>u\<in>set (ulist s1). slaves_left u i) = (\<exists>u\<in>set (ulist s). slaves_left u i)" for i
    using recalc_loop_status [of s "[0..<length (ulist s)]" now 0] l by (auto intro!: wait_same_status)
  then have "waits (ulist s1) = waits (ulist s)" "wait_ends (ulist s1) = wait_ends (ulist s)"
    by (simp_all add: fun_eq_iff waits_def wait_ends_def)
  with forceshutdown_waits [OF run, of clock start] show ?thesis unfolding r same by simp
qed

text \<open>C1: The monitor shuts the host down exactly when too little power is left. \<open>recalc\<close> adds up the
  power values of the UPSes that are not critical. When the sum reaches \<open>minsupplies\<close> it goes on
  and no shutdown command is issued. When it does not, the process never comes back to its loop. After the FSD
  lines it asks each UPS it is the master of for the number of logins, again and again as long as one of them
  reports more than one and at most \<open>hostsync\<close> seconds have passed since the wait began (\<open>waits\<close>);
  then it issues the shutdown command once and exits. A host that is not a master does so at once. Only if an answer is too
  short the process crashes instead; and only if there is no further clock reading is it still waiting.\<close>

theorem recalc_decides:
  assumes "\<not> halted s" and "r = recalc s now start clock"
  shows "(power_left s now \<ge> minsupplies s \<longrightarrow> \<not> halted r \<and> shutdowns r = shutdowns s) \<and>
    (power_left s now < minsupplies s \<longrightarrow>
      (\<exists>n\<le>length clock. (\<forall>i<n. waits (ulist s) (hostsync s) start clock i) \<and>
         (if \<exists>u\<in>set (ulist s). short_answer u n then um_exit r = Some Crash \<and> shutdowns r = shutdowns s
          else if (\<exists>u\<in>set (ulist s). slaves_left u n) \<and> n = length clock
          then um_exit r = Some Waiting \<and> shutdowns r = shutdowns s
          else \<not> waits (ulist s) (hostsync s) start clock n \<and>
            um_exit r = Some (Exit 0) \<and> shutdowns r = shutdowns s @ [shutdown_call s])))"
proof (intro conjI impI)
  show "\<not> halted r" "shutdowns r = shutdowns s" if "power_left s now \<ge> minsupplies s"
    using recalc_facts(1) [OF assms(1) that] assms(2) by simp_all
  assume "power_left s now < minsupplies s"
  from recalc_waits [OF assms(1) this, of clock start] obtain n t where
    n: "n \<le> length clock" "\<forall>i<n. waits (ulist s) (hostsync s) start clock i" and
    t: "wait_ends (ulist s) (hostsync s) start clock n t" "shutdowns t = shutdowns s" "shutdown_call t = shutdown_call s"
      "r = (if halted t then t else doshutdown t)"
    unfolding assms(2) by blast
  show "\<exists>n\<le>length clock. (\<forall>i<n. waits (ulist s) (hostsync s) start clock i) \<and>
         (if \<exists>u\<in>set (ulist s). short_answer u n then um_exit r = Some Crash \<and> shutdowns r = shutdowns s
          else if (\<exists>u\<in>set (ulist s). slaves_left u n) \<and> n = length clock
          then um_exit r = Some Waiting \<and> shutdowns r = shutdowns s
          else \<not> waits (ulist s) (hostsync s) start clock n \<and>
            um_exit r = Some (Exit 0) \<and> shutdowns r = shutdowns s @ [shutdown_call s])"
    by (rule exI [of _ n]) (use n t doshutdown_calls [of t] in \<open>auto simp: wait_ends_def split: if_splits\<close>)
qed

definition demo_ups :: "32 word \<Rightarrow> utype" where
  "demo_ups st = \<lparr>u_conn = upsconn_zero, u_sys = ''apc@localhost'', u_upsname = Some ''apc'', u_hostname = Some ''localhost'',
     u_port = 3493, u_pv = 1, u_un = Some ''mon'', u_pw = ''pw'', u_status = st, u_retain = True, commstate = 1, linestate = 0,
     lastpoll = 1000, lastnoncrit = 900, lastrbwarn = 0, lastncwarn = 0\<rparr>"

theorem recalc_decides_witness:
  "\<not> halted (recalc (upsmon_init\<lparr>ulist := [demo_ups (ST_ONBATT OR ST_LOWBATT)]\<rparr>) 910 910 []) \<and>
   um_exit (recalc (upsmon_init\<lparr>ulist := [demo_ups (ST_ONBATT OR ST_LOWBATT)]\<rparr>) 1001 1001 []) = Some (Exit 0) \<and>
   shutdowns (recalc (upsmon_init\<lparr>ulist := [demo_ups (ST_ONBATT OR ST_LOWBATT)]\<rparr>) 1001 1001 []) = [PipeShutdown]"
proof -
  let ?s = "upsmon_init\<lparr>ulist := [demo_ups (ST_ONBATT OR ST_LOWBATT)]\<rparr>"
  have s: "\<not> halted ?s" "minsupplies ?s = 1" "shutdowns ?s = []" "shutdown_call ?s = PipeShutdown"
    by (simp_all add: upsmon_init_def shutdown_call_def)
  have p: "power_left ?s 910 = 1" "power_left ?s 1001 = 0" by code_simp+
  have "\<not> bit (u_status (demo_ups (ST_ONBATT OR ST_LOWBATT))) 4" by code_simp
  then have "\<not> (\<exists>u\<in>set (ulist ?s). short_answer u n)" "\<not> (\<exists>u\<in>set (ulist ?s). slaves_left u n)" for n
    by (simp_all add: short_answer_def slaves_left_def)
  then show ?thesis
    using recalc_decides [OF s(1) refl, of 910 910 "[]"] recalc_decides [OF s(1) refl, of 1001 1001 "[]"] s p by auto
qed

section \<open>The configuration\<close>

definition mon_inv :: "upsmon \<Rightarrow> bool" where
  "mon_inv s \<longleftrightarrow> list_all u_ok (ulist s) \<and> distinct (map u_sys (ulist s))"

lemma tame_inv: "tame s t \<Longrightarrow> mon_inv s \<Longrightarrow> mon_inv t"
  by (auto simp: tame_def mon_inv_def)

text \<open>A step of the configuration: it keeps the invariant and does not shut down.\<close>

definition conf_ok :: "upsmon \<Rightarrow> upsmon \<Rightarrow> bool" where
  "conf_ok s t \<longleftrightarrow> (mon_inv s \<longrightarrow> mon_inv t) \<and> shutdowns t = shutdowns s"

lemma conf_ok_refl [simp, intro]: "conf_ok s s"
  by (simp add: conf_ok_def)

lemma conf_ok_trans [trans]: "conf_ok s t \<Longrightarrow> conf_ok t u \<Longrightarrow> conf_ok s u"
  by (auto simp: conf_ok_def)

lemma tame_conf: "tame s t \<Longrightarrow> conf_ok s t"
  by (auto simp: conf_ok_def tame_inv) (simp add: tame_def)

lemma conf_set_u: "u_sys u = u_sys (u_at s k) \<Longrightarrow> (u_ok (u_at s k) \<Longrightarrow> u_ok u) \<Longrightarrow> conf_ok s (set_u s k u)"
  by (rule tame_conf) (rule tame_set_u)

lemma conf_relogin:
  assumes "conf_ok s t" "conf_ok t (f t)"
  shows "conf_ok s (if \<not> u_isset (f t) k ST_LOGIN then drop_connection (f t) k else f t)"
  using conf_ok_trans [OF assms] conf_ok_trans [OF conf_ok_trans [OF assms] tame_conf [OF tame_drop]] by simp

lemma conf_redefine: "0 \<le> pv \<Longrightarrow> conf_ok s (redefine_ups s k pv un pw master)"
proof -
  assume pv: "0 \<le> pv"
  let ?s1 = "set_u s k ((u_at s k)\<lparr>u_retain := True, u_pv := pv\<rparr>)"
  let ?s2 = "?s1\<lparr>totalpv := totalpv ?s1 + pv\<rparr>"
  let ?f = "\<lambda>t. set_u t k ((u_at t k)\<lparr>u_un := Some un\<rparr>)" and ?g = "\<lambda>t. set_u t k ((u_at t k)\<lparr>u_pw := pw\<rparr>)"
  let ?s3 = "if u_un (u_at ?s2 k) = Some un then ?s2 else
    if \<not> u_isset (?f ?s2) k ST_LOGIN then drop_connection (?f ?s2) k else ?f ?s2"
  let ?s4 = "if u_pw (u_at ?s3 k) = pw then ?s3 else
    if \<not> u_isset (?g ?s3) k ST_LOGIN then drop_connection (?g ?s3) k else ?g ?s3"
  have f: "conf_ok t (?f t)" and g: "conf_ok t (?g t)" for t by (auto intro!: conf_set_u simp: u_ok_def)
  have "conf_ok s ?s1" using pv by (auto intro!: conf_set_u simp: u_ok_def)
  then have 2: "conf_ok s ?s2" by (simp add: conf_ok_def mon_inv_def)
  have 3: "conf_ok s ?s3" using 2 conf_relogin [where f = ?f and k = k, OF 2 f] by (auto simp del: upsmon.update_convs)
  have 4: "conf_ok s ?s4" using 3 conf_relogin [where f = ?g and k = k, OF 3 g] by (auto simp del: upsmon.update_convs)
  have m: "conf_ok t (drop_connection (u_setflag t k ST_MASTER) k)" "conf_ok t (u_clearflag t k ST_MASTER)" for t
    by (rule conf_ok_trans [OF _ tame_conf [OF tame_drop]])
      (auto simp: u_setflag_def u_clearflag_def u_ok_def flag_bits intro!: conf_set_u)
  show ?thesis
    unfolding redefine_ups_def Let_def using 4 conf_ok_trans [OF 4 m(1)] conf_ok_trans [OF 4 m(2)] by auto
qed

lemma conf_addups: "conf_ok s (addups mem s sys pvs un pw master)"
proof (cases "int32 (strtol10 pvs) < 0")
  case False
  show ?thesis
  proof (cases "find_index (\<lambda>t. u_sys t = sys) (ulist s)")
    case None
    then have new: "sys \<notin> u_sys ` set (ulist s)" by (auto simp: find_index_None)
    have "\<not> bit (if b then setflag 0 ST_MASTER else 0) n" if "n < 2" for b and n :: nat
      using that by (simp add: flag_bits)
    with new False None show ?thesis
      by (auto simp: addups_def Let_def conf_ok_def mon_inv_def u_ok_def die_def flag_bits split: option.splits)
  next
    case (Some k)
    with False show ?thesis by (simp add: addups_def conf_redefine)
  qed
qed (simp add: addups_def)

lemma conf_keep: "ulist t = ulist s \<Longrightarrow> shutdowns t = shutdowns s \<Longrightarrow> conf_ok s t"
  by (simp add: conf_ok_def mon_inv_def)

lemma conf_parse: "conf_ok s (fst (parse_conf_arg mem s arg))"
proof -
  have "conf_ok s (set_notifymsg s a b)" "conf_ok s (set_notifyflag s a b)" for a b
    by (auto simp: set_notifymsg_def set_notifyflag_def intro!: conf_keep split: option.splits)
  then show ?thesis
    unfolding parse_conf_arg_def by (simp add: conf_addups conf_keep emit_def die_def)
qed

lemma conf_read_lines: "conf_ok s (snd (read_lines (\<lambda>ctx. conf_line mem (pconf_words ctx)) ctx s))"
proof (induction "(\<lambda>ctx. conf_line mem (pconf_words ctx)) :: pconf_ctx \<Rightarrow> upsmon \<Rightarrow> upsmon" ctx s rule: read_lines.induct)
  case (1 ctx s)
  obtain r c1 where n: "pconf_file_next ctx = (r, c1)" by force
  obtain e c2 where e: "pconf_parse_error c1 = (e, c2)" by force
  have l: "conf_ok s (conf_line mem (pconf_words c2) s)" by (simp add: conf_line_def conf_parse)
  show ?case
    using n e 1 conf_ok_trans [OF l] by (subst read_lines.simps) auto
qed

lemma conf_loadconfig: "conf_ok s (loadconfig mem fopen fn sc s)"
  by (auto simp: loadconfig_def conf_read_lines conf_keep die_def split: prod.splits)

lemma conf_unlink: "conf_ok s (s\<lparr>ulist := take k (ulist s) @ drop (Suc k) (ulist s)\<rparr>)"
proof -
  have "distinct ys \<Longrightarrow> distinct (take k ys @ drop (Suc k) ys)" for ys :: "string list"
    using set_take_disj_set_drop_if_distinct [of ys k "Suc k"] by simp
  from this [of "map u_sys (ulist s)"] show ?thesis
    by (auto simp: conf_ok_def mon_inv_def list_all_iff take_map drop_map dest: in_set_takeD in_set_dropD)
qed

lemma conf_delete: "conf_ok s (delete_ups s k)"
  unfolding delete_ups_def Let_def by (rule conf_ok_trans [OF tame_conf [OF tame_drop] conf_unlink])

lemma conf_delete_unretained: "conf_ok s (delete_unretained n s i)"
  by (induction n arbitrary: s i) (auto intro: conf_ok_trans [OF conf_delete])

lemma conf_reload: "conf_ok s (reload_conf mem fopen fn sc s)"
proof -
  let ?s1 = "s\<lparr>ulist := map (\<lambda>u. u\<lparr>u_retain := False\<rparr>) (ulist s), totalpv := 0\<rparr>"
  have 1: "conf_ok s ?s1"
    by (auto simp: conf_ok_def mon_inv_def u_ok_def list_all_iff comp_def)
  note 2 = conf_ok_trans [OF 1 conf_loadconfig]
  note 3 = conf_ok_trans [OF 2 conf_delete_unretained]
  have 4: "conf_ok s t \<Longrightarrow> conf_ok s (die t e)" "conf_ok s t \<Longrightarrow> conf_ok s (t\<lparr>reload_flag := b\<rparr>)" for t e b
    by (auto simp: conf_ok_def mon_inv_def die_def)
  show ?thesis
    unfolding reload_conf_def Let_def using 2 3 4 [OF conf_ok_refl] 4 [OF 3] by (auto simp del: upsmon.update_convs split: sum.splits)
qed

section \<open>Rounds\<close>

lemma emit_ulist [simp]: "ulist (emit s xs) = ulist s"
  by (simp add: emit_def)

lemma notify_ulist [simp]: "ulist (do_notify s k nt) = ulist s"
  by (auto simp: do_notify_def notify_def Let_def split: option.splits)

lemma doshutdown_ulist: "ulist (doshutdown s) = ulist s"
  by (auto simp: doshutdown_def Let_def set_pdflag_def die_def split: option.splits)

lemma slavesync_inv: "mon_inv s \<Longrightarrow> mon_inv (slavesync s start clock)"
proof (induction clock arbitrary: s)
  case Nil
  obtain s1 m where p: "poll_logins s [0..<length (ulist s)] 0 = (s1, m)" by force
  then have "mon_inv s1" using tame_inv [OF tame_poll_logins Nil] by (metis fst_conv)
  with p show ?case by (simp add: slavesync.simps [of s] mon_inv_def die_def)
next
  case (Cons now cs)
  obtain s1 m where p: "poll_logins s [0..<length (ulist s)] 0 = (s1, m)" by force
  then have "mon_inv s1" using tame_inv [OF tame_poll_logins Cons.prems] by (metis fst_conv)
  with p Cons.IH [of s1] show ?case by (simp add: slavesync.simps [of s])
qed

lemma forceshutdown_inv: "mon_inv s \<Longrightarrow> mon_inv (forceshutdown s start clock)"
proof -
  assume s: "mon_inv s"
  let ?s1 = "foldl setfsd s (masters s)"
  have 1: "mon_inv ?s1" using s by (rule tame_inv [OF tame_foldl [OF tame_setfsd]])
  have "mon_inv t \<Longrightarrow> mon_inv (doshutdown t)" for t by (simp add: mon_inv_def doshutdown_ulist)
  then show ?thesis using s 1 slavesync_inv [OF 1] by (cases "masters s = []") (simp_all add: forceshutdown_def Let_def)
qed

lemma recalc_inv: "mon_inv s \<Longrightarrow> mon_inv (recalc s now start clock)"
proof -
  assume s: "mon_inv s"
  obtain s1 v where l: "recalc_loop s [0..<length (ulist s)] now 0 = (s1, v)" by force
  then have "mon_inv s1" using tame_inv [OF tame_recalc_loop s] by (metis fst_conv)
  with l show ?thesis by (simp add: recalc_def forceshutdown_inv)
qed

text \<open>The state of a round before its decision: after the configuration and the polls.\<close>

definition before_polls :: "string \<Rightarrow> upsmon \<Rightarrow> mon_round \<Rightarrow> upsmon" where
  "before_polls configfile s r =
     (if reload_flag (signals r s) then reload_conf (fst (m_mem r)) (m_file r) configfile (snd (m_mem r)) (signals r s)
      else signals r s)"

definition after_polls :: "string \<Rightarrow> upsmon \<Rightarrow> mon_round \<Rightarrow> upsmon" where
  "after_polls configfile s r =
     (let s2 = before_polls configfile s r in foldl (poll_all r) s2 [0..<length (ulist s2)])"

lemma mon_step_cases:
  obtains "mon_step c s r = s" "halted s"
  | "mon_step c s r = die (upsmon_cleanup (signals r s)) (Exit 0)" "\<not> halted s"
  | "mon_step c s r = forceshutdown (signals r s) (m_start r) (m_clock r)" "userfsd (signals r s)" "\<not> halted s"
  | "mon_step c s r = before_polls c s r" "\<not> halted s"
  | "mon_step c s r = after_polls c s r" "\<not> halted s"
  | "mon_step c s r = recalc (after_polls c s r) (m_now r) (m_start r) (m_clock r)" "\<not> halted s" "\<not> halted (after_polls c s r)"
  | "mon_step c s r = check_parent (recalc (after_polls c s r) (m_now r) (m_start r) (m_clock r)) (m_parent r) (m_now r)"
    "\<not> halted s" "\<not> halted (after_polls c s r)" "\<not> halted (recalc (after_polls c s r) (m_now r) (m_start r) (m_clock r))"
proof -
  consider "halted s" | "\<not> halted s" "exit_flag (signals r s)"
    | "\<not> halted s" "\<not> exit_flag (signals r s)" "userfsd (signals r s)"
    | "\<not> halted s" "\<not> exit_flag (signals r s)" "\<not> userfsd (signals r s)" by blast
  then show thesis
  proof cases
    case 4
    then have "mon_step c s r = (if halted (before_polls c s r) then before_polls c s r
        else if halted (after_polls c s r) then after_polls c s r
        else let s4 = recalc (after_polls c s r) (m_now r) (m_start r) (m_clock r) in
          if halted s4 then s4 else if use_pipe s4 then check_parent s4 (m_parent r) (m_now r) else s4)"
      by (simp add: mon_step_def before_polls_def after_polls_def Let_def)
    with that 4 show thesis by (auto simp: Let_def split: if_splits)
  qed (use that in \<open>simp_all add: mon_step_def Let_def\<close>)
qed

lemma signals_conf: "conf_ok s (signals r s)"
  by (rule conf_keep) (simp_all add: signals_def)

lemma before_polls_conf: "conf_ok s (before_polls c s r)"
  unfolding before_polls_def using signals_conf conf_ok_trans [OF signals_conf conf_reload] by simp

lemma after_polls_conf: "conf_ok s (after_polls c s r)"
proof -
  have "tame t (poll_all r t k)" for t k by (simp add: poll_all_def tame_pollups)
  then have "tame t (foldl (poll_all r) t ks)" for t ks by (rule tame_foldl)
  from conf_ok_trans [OF before_polls_conf tame_conf [OF this]] show ?thesis
    unfolding after_polls_def Let_def .
qed

lemma cleanup_conf: "shutdowns (upsmon_cleanup s) = shutdowns s" "mon_inv (upsmon_cleanup s)"
proof -
  have "tame s (foldl drop_connection s ks)" for ks by (rule tame_foldl) (rule tame_drop)
  then show "shutdowns (upsmon_cleanup s) = shutdowns s" by (simp add: upsmon_cleanup_def tame_def)
qed (simp add: upsmon_cleanup_def mon_inv_def)

lemma check_parent_tame: "tame s (check_parent s b now)"
proof -
  have "tame s (s\<lparr>lastwarn := now\<rparr>)" by (simp add: tame_def)
  from tame_trans [OF this tame_notify] show ?thesis by (simp add: check_parent_def)
qed

lemma mon_step_inv: "mon_inv s \<Longrightarrow> mon_inv (mon_step c s r)"
proof -
  assume s: "mon_inv s"
  have b: "mon_inv (before_polls c s r)" "mon_inv (after_polls c s r)" "mon_inv (signals r s)"
    using s before_polls_conf [of s c r] after_polls_conf [of s c r] signals_conf [of s r] by (simp_all add: conf_ok_def)
  show ?thesis
  proof (cases rule: mon_step_cases [of c s r])
    case 2
    have "mon_inv (die t e) = mon_inv t" for t e by (simp add: die_def mon_inv_def)
    with 2 cleanup_conf(2) show ?thesis by simp
  next
    case 7
    with recalc_inv [OF b(2)] show ?thesis by (simp add: tame_inv [OF check_parent_tame])
  qed (use s b recalc_inv forceshutdown_inv in simp_all)
qed

lemma mon_step_shutdown:
  assumes "shutdowns (mon_step c s r) \<noteq> shutdowns s"
  shows "userfsd (signals r s) \<or> power_left (after_polls c s r) (m_now r) < minsupplies (after_polls c s r)"
proof (cases rule: mon_step_cases [of c s r])
  case 2
  have "shutdowns (signals r s) = shutdowns s" using signals_conf [of s r] by (simp add: conf_ok_def)
  with assms 2 cleanup_conf(1) [of "signals r s"] show ?thesis by (simp add: die_def)
next
  case 4
  with assms before_polls_conf [of s c r] show ?thesis by (simp add: conf_ok_def)
next
  case 5
  with assms after_polls_conf [of s c r] show ?thesis by (simp add: conf_ok_def)
next
  case 6
  with assms after_polls_conf [of s c r] recalc_facts(1) [OF 6(3), of "m_now r" "m_start r" "m_clock r"] show ?thesis
    by (auto simp: conf_ok_def)
next
  case 7
  with assms after_polls_conf [of s c r] recalc_facts(1) [OF 7(3), of "m_now r" "m_start r" "m_clock r"]
    check_parent_tame [of "recalc (after_polls c s r) (m_now r) (m_start r) (m_clock r)" "m_parent r" "m_now r"] show ?thesis
    by (auto simp: conf_ok_def tame_def)
qed (use assms in simp_all)

text \<open>The shutdown command is issued at most once, and then the process has ended.\<close>

definition once :: "upsmon \<Rightarrow> bool" where
  "once s \<longleftrightarrow> shutdowns s = [] \<or> um_exit s = Some (Exit 0) \<and> length (shutdowns s) = 1"

lemma mon_step_once:
  assumes "once s" shows "once (mon_step c s r)"
proof (cases "halted s")
  case False
  then have 0: "shutdowns s = []" using assms by (simp add: once_def)
  note b = signals_conf [of s r] before_polls_conf [of s c r] after_polls_conf [of s c r]
  show ?thesis
  proof (cases rule: mon_step_cases [of c s r])
    case 2
    with 0 b cleanup_conf(1) [of "signals r s"] show ?thesis by (simp add: once_def conf_ok_def die_def)
  next
    case 3
    have "\<not> halted (signals r s)" using False by (simp add: signals_def)
    from forceshutdown_spec [OF this, of "m_start r" "m_clock r"] 3 0 b show ?thesis
      by (auto simp: once_def conf_ok_def Let_def)
  next
    case 6
    with recalc_facts [OF 6(3), of "m_now r" "m_start r" "m_clock r"] 0 b show ?thesis
      by (cases "power_left (after_polls c s r) (m_now r) < minsupplies (after_polls c s r)") (auto simp: once_def conf_ok_def)
  next
    case 7
    with recalc_facts [OF 7(3), of "m_now r" "m_start r" "m_clock r"] 0 b
      check_parent_tame [of "recalc (after_polls c s r) (m_now r) (m_start r) (m_clock r)" "m_parent r" "m_now r"] show ?thesis
      by (cases "power_left (after_polls c s r) (m_now r) < minsupplies (after_polls c s r)")
        (auto simp: once_def conf_ok_def tame_def)
  qed (use 0 b False in \<open>simp_all add: once_def conf_ok_def\<close>)
qed (use assms in \<open>simp add: mon_step_def\<close>)

text \<open>The loop of the monitor, from the state that the configuration file leaves.\<close>

definition mon_start :: "upsmon \<Rightarrow> bool" where
  "mon_start s \<longleftrightarrow> (\<exists>mem fopen fn sc. s = loadconfig mem fopen fn sc upsmon_init)"

interpretation monitor: event_loop mon_start "mon_step c" "\<lambda>s. mon_inv s \<and> once s" for c
proof
  show "mon_inv s \<and> once s" if "mon_start s" for s
  proof -
    have "mon_inv upsmon_init" "shutdowns upsmon_init = []" by (simp_all add: upsmon_init_def mon_inv_def)
    with that conf_loadconfig show ?thesis by (auto simp: mon_start_def conf_ok_def once_def)
  qed
qed (simp add: mon_step_inv mon_step_once)

text \<open>C8: In every state that the monitor reaches from its configuration file through any sequence of
  rounds (polls, reloads, signals, lost connections), no two watched UPSes have the same name, none
  is marked on line and on battery at once, no power value is negative, and the shutdown command has
  been issued at most once, after which the process has ended with status 0.\<close>

theorem monitor_states_ok:
  fixes c :: string and mem :: upsconn and fopen :: "string \<Rightarrow> string + string" and stack :: pconf_ctx
    and rounds :: "mon_round list"
  defines "s \<equiv> foldl (mon_step c) (loadconfig mem fopen c stack upsmon_init) rounds"
  shows "distinct (map u_sys (ulist s)) \<and>
    list_all (\<lambda>u. \<not> (flag_isset (u_status u) ST_ONLINE \<and> flag_isset (u_status u) ST_ONBATT) \<and> 0 \<le> u_pv u) (ulist s) \<and>
    (shutdowns s = [] \<or> um_exit s = Some (Exit 0) \<and> length (shutdowns s) = 1)"
proof -
  have "mon_start (loadconfig mem fopen c stack upsmon_init)" by (auto simp: mon_start_def)
  from monitor.init_run_inv [OF this] have "mon_inv s \<and> once s" unfolding s_def .
  then show ?thesis by (simp add: mon_inv_def once_def u_ok_def [abs_def] isset_bits)
qed

text \<open>C20: The monitor issues the shutdown command in a round only when it was told to with the signal for a
  forced shutdown, or when, after the polls of the round, the UPSes that are not critical feed fewer
  than \<open>minsupplies\<close> power supplies.\<close>

theorem shutdown_only_when_needed:
  assumes "shutdowns (mon_step c s r) \<noteq> shutdowns s"
  shows "userfsd (signals r s) \<or> power_left (after_polls c s r) (m_now r) < minsupplies (after_polls c s r)"
  by (rule mon_step_shutdown [OF assms])

definition demo_round :: "int \<Rightarrow> mon_round" where
  "demo_round now = \<lparr>m_fsd = False, m_reload = False, m_exit = False, m_now = now, m_env = (\<lambda>_. NoHost 1), m_start = now, m_clock = [],
     m_file = (\<lambda>_. Inl []), m_mem = (upsconn_zero, pconf_init zero_ctx), m_parent = True\<rparr>"

theorem shutdown_only_when_needed_witness:
  "let s = upsmon_init\<lparr>ulist := [demo_ups (ST_ONBATT OR ST_LOWBATT)]\<rparr>; r = demo_round 1001 in
   shutdowns (mon_step [] s r) = [PipeShutdown] \<and> power_left (after_polls [] s r) 1001 < minsupplies (after_polls [] s r)"
proof -
  let ?s = "upsmon_init\<lparr>ulist := [demo_ups (ST_ONBATT OR ST_LOWBATT)]\<rparr>" and ?r = "demo_round 1001"
  have e: "shutdowns (mon_step [] ?s ?r) = [PipeShutdown]" by code_simp
  have "shutdowns ?s = []" by (simp add: upsmon_init_def)
  with e have n: "shutdowns (mon_step [] ?s ?r) \<noteq> shutdowns ?s" by simp
  have "\<not> userfsd (signals ?r ?s)" "m_now ?r = 1001" by (simp_all add: signals_def demo_round_def upsmon_init_def)
  with shutdown_only_when_needed [OF n] e show ?thesis by (simp add: Let_def)
qed

section \<open>What a status does\<close>

abbreviation st :: "upsmon \<Rightarrow> nat \<Rightarrow> 32 word" where
  "st s k \<equiv> u_status (u_at s k)"

text \<open>Handling UPS \<open>k\<close> keeps the number of UPSes and the others.\<close>

definition only :: "nat \<Rightarrow> upsmon \<Rightarrow> upsmon \<Rightarrow> bool" where
  "only k s t \<longleftrightarrow> length (ulist t) = length (ulist s) \<and> (\<forall>j. j \<noteq> k \<longrightarrow> u_at t j = u_at s j)"

lemma only_refl [simp]: "only k s s"
  by (simp add: only_def)

lemma only_trans: "only k s t \<Longrightarrow> only k t u \<Longrightarrow> only k s u"
  by (simp add: only_def)

lemma ulist_notify [simp]: "ulist (do_notify s k nt) = ulist s"
  by (auto simp: do_notify_def notify_def emit_def Let_def split: option.splits)

lemma ulist_set_u: "ulist (set_u s k u) = (ulist s)[k := u]"
  by (simp add: set_u_def)

lemma tolower_status:
  "tolower CHR ''O'' = CHR ''o''" "tolower CHR ''L'' = CHR ''l''" "tolower CHR ''B'' = CHR ''b''"
  "tolower CHR ''R'' = CHR ''r''" "tolower CHR ''F'' = CHR ''f''" "tolower CHR ''S'' = CHR ''s''"
  "tolower CHR ''D'' = CHR ''d''"
  by code_simp+

lemma status_word_bits:
  assumes k: "k < length (ulist s)" and ok: "\<not> (bit (st s k) 0 \<and> bit (st s k) 1)"
  shows "only k s (status_word k now s w)"
    and "bit (st (status_word k now s w) k) n \<longleftrightarrow>
      (if n = 0 then strcaseeq w ''OL'' \<or> bit (st s k) 0 \<and> \<not> strcaseeq w ''OB''
       else if n = 1 then strcaseeq w ''OB'' \<or> bit (st s k) 1 \<and> \<not> strcaseeq w ''OL''
       else if n = 2 then strcaseeq w ''LB'' \<or> bit (st s k) 2
       else if n = 3 then strcaseeq w ''FSD'' \<or> bit (st s k) 3 else bit (st s k) n)"
proof -
  note ops = ups_on_line_def ups_on_batt_def ups_low_batt_def upsreplbatt_def ups_fsd_def update_crittimer_def
  note defs = u_isset_def u_setflag_def u_clearflag_def Let_def ulist_set_u
  have line: "only k s (ups_on_line s k)" "\<And>n. bit (st (ups_on_line s k) k) n \<longleftrightarrow> n = 0 \<or> n \<noteq> 1 \<and> bit (st s k) n"
    and batt: "only k s (ups_on_batt s k)" "\<And>n. bit (st (ups_on_batt s k) k) n \<longleftrightarrow> n = 1 \<or> n \<noteq> 0 \<and> bit (st s k) n"
    if "k < length (ulist s)" "\<not> (bit (st s k) 0 \<and> bit (st s k) 1)" for s
    using that by (auto simp: ops defs only_def flag_bits intro!: gr0I)
  have low: "only k s (ups_low_batt s k)" "\<And>n. bit (st (ups_low_batt s k) k) n \<longleftrightarrow> n = 2 \<or> bit (st s k) n"
    and fsd: "only k s (ups_fsd s k)" "\<And>n. bit (st (ups_fsd s k) k) n \<longleftrightarrow> n = 3 \<or> bit (st s k) n"
    and rep: "only k s (upsreplbatt s k now)" "st (upsreplbatt s k now) k = st s k"
    and crit: "only k s (update_crittimer s k now)" "st (update_crittimer s k now) k = st s k"
    if "k < length (ulist s)" for s
    using that by (auto simp: ops defs only_def flag_bits)
  have x: "\<not> (strcaseeq w ''OL'' \<and> strcaseeq w ''OB'')" "\<not> (strcaseeq w ''OL'' \<and> strcaseeq w ''LB'')"
    "\<not> (strcaseeq w ''OL'' \<and> strcaseeq w ''RB'')" "\<not> (strcaseeq w ''OL'' \<and> strcaseeq w ''FSD'')"
    "\<not> (strcaseeq w ''OB'' \<and> strcaseeq w ''LB'')" "\<not> (strcaseeq w ''OB'' \<and> strcaseeq w ''RB'')"
    "\<not> (strcaseeq w ''OB'' \<and> strcaseeq w ''FSD'')" "\<not> (strcaseeq w ''LB'' \<and> strcaseeq w ''RB'')"
    "\<not> (strcaseeq w ''LB'' \<and> strcaseeq w ''FSD'')" "\<not> (strcaseeq w ''RB'' \<and> strcaseeq w ''FSD'')"
    by (auto simp: strcaseeq_iff tolower_status)
  have len: "only k s t \<Longrightarrow> k < length (ulist s) \<Longrightarrow> k < length (ulist t)" for s t by (simp add: only_def)
  consider "strcaseeq w ''OL''" | "strcaseeq w ''OB''" | "strcaseeq w ''LB''" | "strcaseeq w ''RB''" | "strcaseeq w ''FSD''"
    | "\<not> strcaseeq w ''OL''" "\<not> strcaseeq w ''OB''" "\<not> strcaseeq w ''LB''" "\<not> strcaseeq w ''RB''" "\<not> strcaseeq w ''FSD''"
    by blast
  then have "only k s (status_word k now s w) \<and> (bit (st (status_word k now s w) k) n \<longleftrightarrow>
      (if n = 0 then strcaseeq w ''OL'' \<or> bit (st s k) 0 \<and> \<not> strcaseeq w ''OB''
       else if n = 1 then strcaseeq w ''OB'' \<or> bit (st s k) 1 \<and> \<not> strcaseeq w ''OL''
       else if n = 2 then strcaseeq w ''LB'' \<or> bit (st s k) 2
       else if n = 3 then strcaseeq w ''FSD'' \<or> bit (st s k) 3 else bit (st s k) n))"
  proof cases
    case 1
    with x have "status_word k now s w = update_crittimer (ups_on_line s k) k now" by (simp add: status_word_def)
    with 1 x show ?thesis using line [OF k ok] crit [OF len [OF line(1) [OF k ok] k]] by (auto intro: only_trans)
  next
    case 2
    with x have "status_word k now s w = update_crittimer (ups_on_batt s k) k now" by (simp add: status_word_def)
    with 2 x show ?thesis using batt [OF k ok] crit [OF len [OF batt(1) [OF k ok] k]] by (auto intro: only_trans)
  next
    case 3
    with x have "status_word k now s w = update_crittimer (ups_low_batt s k) k now" by (simp add: status_word_def)
    with 3 x show ?thesis using low [OF k] crit [OF len [OF low(1) [OF k] k]] by (auto intro: only_trans)
  next
    case 4
    with x have "status_word k now s w = update_crittimer (upsreplbatt s k now) k now" by (simp add: status_word_def)
    with 4 x show ?thesis using rep [OF k] crit [OF len [OF rep(1) [OF k] k]] by (auto intro: only_trans)
  next
    case 5
    with x have "status_word k now s w = update_crittimer (ups_fsd s k) k now" by (simp add: status_word_def)
    with 5 x show ?thesis using fsd [OF k] crit [OF len [OF fsd(1) [OF k] k]] by (auto intro: only_trans)
  next
    case 6
    then have "status_word k now s w = update_crittimer s k now" by (simp add: status_word_def)
    with 6 show ?thesis using crit [OF k] by auto
  qed
  then show "only k s (status_word k now s w)"
    and "bit (st (status_word k now s w) k) n \<longleftrightarrow>
      (if n = 0 then strcaseeq w ''OL'' \<or> bit (st s k) 0 \<and> \<not> strcaseeq w ''OB''
       else if n = 1 then strcaseeq w ''OB'' \<or> bit (st s k) 1 \<and> \<not> strcaseeq w ''OL''
       else if n = 2 then strcaseeq w ''LB'' \<or> bit (st s k) 2
       else if n = 3 then strcaseeq w ''FSD'' \<or> bit (st s k) 3 else bit (st s k) n)"
    by blast+
qed
lemma status_words_bits:
  assumes "k < length (ulist s)" and "\<not> (bit (st s k) 0 \<and> bit (st s k) 1)"
  defines "line ws \<equiv> filter (\<lambda>w. strcaseeq w ''OL'' \<or> strcaseeq w ''OB'') ws"
  shows "only k s (foldl (status_word k now) s ws)"
    and "\<not> (bit (st (foldl (status_word k now) s ws) k) 0 \<and> bit (st (foldl (status_word k now) s ws) k) 1)"
    and "bit (st (foldl (status_word k now) s ws) k) n \<longleftrightarrow>
      (if n = 0 then (if line ws = [] then bit (st s k) 0 else strcaseeq (last (line ws)) ''OL'')
       else if n = 1 then (if line ws = [] then bit (st s k) 1 else strcaseeq (last (line ws)) ''OB'')
       else if n = 2 then (\<exists>w\<in>set ws. strcaseeq w ''LB'') \<or> bit (st s k) 2
       else if n = 3 then (\<exists>w\<in>set ws. strcaseeq w ''FSD'') \<or> bit (st s k) 3 else bit (st s k) n)"
proof -
  have x: "\<not> (strcaseeq w ''OL'' \<and> strcaseeq w ''OB'')" for w by (auto simp: strcaseeq_iff tolower_status)
  have "only k s (foldl (status_word k now) s ws) \<and> 
    \<not> (bit (st (foldl (status_word k now) s ws) k) 0 \<and> bit (st (foldl (status_word k now) s ws) k) 1) \<and>
    (\<forall>n. bit (st (foldl (status_word k now) s ws) k) n \<longleftrightarrow>
      (if n = 0 then (if line ws = [] then bit (st s k) 0 else strcaseeq (last (line ws)) ''OL'')
       else if n = 1 then (if line ws = [] then bit (st s k) 1 else strcaseeq (last (line ws)) ''OB'')
       else if n = 2 then (\<exists>w\<in>set ws. strcaseeq w ''LB'') \<or> bit (st s k) 2
       else if n = 3 then (\<exists>w\<in>set ws. strcaseeq w ''FSD'') \<or> bit (st s k) 3 else bit (st s k) n))"
  proof (induction ws rule: rev_induct)
    case Nil
    with assms(2) show ?case by (simp add: line_def)
  next
    case (snoc w ws)
    let ?t = "foldl (status_word k now) s ws"
    have k: "k < length (ulist ?t)" using snoc assms(1) by (simp add: only_def)
    have ok: "\<not> (bit (st ?t k) 0 \<and> bit (st ?t k) 1)" using snoc by blast
    note w = status_word_bits [OF k ok, where w = w and now = now]
    have o: "only k s (foldl (status_word k now) s (ws @ [w]))" using snoc w(1) only_trans by auto
    have l: "line (ws @ [w]) = (if strcaseeq w ''OL'' \<or> strcaseeq w ''OB'' then line ws @ [w] else line ws)"
      by (simp add: line_def)
    have i: "bit (st ?t k) n \<longleftrightarrow>
      (if n = 0 then (if line ws = [] then bit (st s k) 0 else strcaseeq (last (line ws)) ''OL'')
       else if n = 1 then (if line ws = [] then bit (st s k) 1 else strcaseeq (last (line ws)) ''OB'')
       else if n = 2 then (\<exists>w\<in>set ws. strcaseeq w ''LB'') \<or> bit (st s k) 2
       else if n = 3 then (\<exists>w\<in>set ws. strcaseeq w ''FSD'') \<or> bit (st s k) 3 else bit (st s k) n)" for n
      using snoc by blast
    have ok': "\<not> (bit (st (status_word k now ?t w) k) 0 \<and> bit (st (status_word k now ?t w) k) 1)"
      using ok x [of w] by (auto simp: w(2))
    show ?case
      using o ok' x [of w] by (simp add: l w(2) i)
  qed
  then show "only k s (foldl (status_word k now) s ws)"
    and "\<not> (bit (st (foldl (status_word k now) s ws) k) 0 \<and> bit (st (foldl (status_word k now) s ws) k) 1)"
    and "bit (st (foldl (status_word k now) s ws) k) n \<longleftrightarrow>
      (if n = 0 then (if line ws = [] then bit (st s k) 0 else strcaseeq (last (line ws)) ''OL'')
       else if n = 1 then (if line ws = [] then bit (st s k) 1 else strcaseeq (last (line ws)) ''OB'')
       else if n = 2 then (\<exists>w\<in>set ws. strcaseeq w ''LB'') \<or> bit (st s k) 2
       else if n = 3 then (\<exists>w\<in>set ws. strcaseeq w ''FSD'') \<or> bit (st s k) 3 else bit (st s k) n)"
    by blast+
qed

text \<open>C19: The status flags follow the words of \<open>ups.status\<close>. After a status is handled, the UPS is on line
  or on battery as the last of the words OL and OB says (as before when there is neither); it has a low
  battery when there is a word LB, whatever it had before, and forced shutdown likewise with FSD; a low battery
  or forced shutdown of before is kept when the status contains those letters somewhere else, as in another
  word. The other flags of the UPS and the other UPSes stay as they are.\<close>

theorem parse_status_flags:
  fixes now :: int
  assumes "mon_inv s" and "k < length (ulist s)" and "status \<noteq> []"
  defines "t \<equiv> parse_status s k status now" and "ws \<equiv> status_words status"
  defines "line \<equiv> filter (\<lambda>w. strcaseeq w ''OL'' \<or> strcaseeq w ''OB'') ws"
  shows "flag_isset (st t k) ST_ONLINE =
      (if line = [] then flag_isset (st s k) ST_ONLINE else strcaseeq (last line) ''OL'') \<and>
    flag_isset (st t k) ST_ONBATT =
      (if line = [] then flag_isset (st s k) ST_ONBATT else strcaseeq (last line) ''OB'') \<and>
    flag_isset (st t k) ST_LOWBATT =
      (list_ex (\<lambda>w. strcaseeq w ''LB'') ws \<or> flag_isset (st s k) ST_LOWBATT \<and> strstr status ''LB'') \<and>
    flag_isset (st t k) ST_FSD =
      (list_ex (\<lambda>w. strcaseeq w ''FSD'') ws \<or> flag_isset (st s k) ST_FSD \<and> strstr status ''FSD'') \<and>
    drop_bit 4 (st t k) = drop_bit 4 (st s k) \<and>
    (ulist t)[k := u_at s k] = ulist s"
proof -
  let ?s1 = "ups_is_alive s k now"
  let ?s2 = "if \<not> strstr status ''LB'' then u_clearflag ?s1 k ST_LOWBATT else ?s1"
  let ?s3 = "if \<not> strstr status ''FSD'' then u_clearflag ?s2 k ST_FSD else ?s2"
  have b: "bit (st ?s3 k) n \<longleftrightarrow> bit (st s k) n \<and> (n = 2 \<longrightarrow> strstr status ''LB'') \<and> (n = 3 \<longrightarrow> strstr status ''FSD'')" for n
    using assms(2) by (auto simp: ups_is_alive_def u_clearflag_def Let_def ulist_set_u flag_bits)
  have o: "only k s ?s3"
    using assms(2) by (auto simp: ups_is_alive_def u_clearflag_def Let_def ulist_set_u only_def)
  have "\<not> (bit (st s k) 0 \<and> bit (st s k) 1)"
    using assms(1,2) by (auto simp: mon_inv_def u_ok_def list_all_length)
  then have k: "k < length (ulist ?s3)" and ok: "\<not> (bit (st ?s3 k) 0 \<and> bit (st ?s3 k) 1)"
    using o assms(2) by (simp_all add: b only_def)
  note w = status_words_bits [OF k ok, where now = now and ws = ws]
  have t: "t = foldl (status_word k now) ?s3 ws"
    using assms(3) by (simp add: t_def ws_def parse_status_def Let_def)
  have "only k s t" unfolding t by (rule only_trans [OF o w(1)])
  then have rest: "(ulist t)[k := u_at s k] = ulist s"
    using assms(2) by (auto simp: only_def list_eq_iff_nth_eq nth_list_update)
  have "drop_bit 4 (st t k) = drop_bit 4 (st s k)"
    unfolding t by (rule bit_eqI) (simp add: bit_drop_bit_eq w(3) b)
  with rest show ?thesis
    unfolding isset_bits by (simp add: t w(3) b line_def list_ex_iff)
qed

theorem parse_status_flags_witness:
  "let s = upsmon_init\<lparr>ulist := [demo_ups (ST_ONLINE OR ST_FSD)]\<rparr>; t = parse_status s 0 ''OB LB'' 7 in
   u_isset t 0 ST_ONBATT \<and> u_isset t 0 ST_LOWBATT \<and> \<not> u_isset t 0 ST_ONLINE \<and> \<not> u_isset t 0 ST_FSD"
proof -
  let ?s = "upsmon_init\<lparr>ulist := [demo_ups (ST_ONLINE OR ST_FSD)]\<rparr>"
  have i: "mon_inv ?s" by (simp add: mon_inv_def u_ok_def demo_ups_def ST_ONLINE_def ST_FSD_def)
  have l: "0 < length (ulist ?s)" by simp
  have n: "''OB LB'' \<noteq> []" by simp
  have w: "status_words ''OB LB'' = [''OB'', ''LB'']" by code_simp
  have f: "\<not> strstr ''OB LB'' ''FSD''" by code_simp
  show ?thesis
    using parse_status_flags [OF i l n, of 7] unfolding w
    by (simp add: f u_isset_def Let_def strcaseeq_iff tolower_status)
qed

end
