(* ===== verification/Upssched.thy ===== *)
theory Upssched
  imports Upsconf
begin

text \<open>
  The timer helper of the monitor (\<open>clients/upssched.c\<close>, \<open>clients/upssched.h\<close>). upsmon runs it for every
  notification. The process reads \<open>upssched.conf\<close>, and each AT line that fits the notification runs a
  command or sends a request to the timer daemon, which it starts first if there is none. The daemon
  keeps the timers and runs the script when one is due.

  A connection of the daemon is \<open>us_conn\<close>: the socket for the answers, the bytes that have arrived and were
  not read yet, whether the client has closed it, and the parser. A connection is named by its position
  in the list. One round of the loop in \<open>start_daemon\<close> is \<open>us_step\<close>: what \<open>accept\<close> gives, what arrives on
  each connection, and the times that \<open>time\<close> returns. Commands handed to \<open>system\<close> are in \<open>us_ran\<close>.

  For the client the environment gives the outcome of each attempt to connect (\<open>us_attempt\<close>), one after
  another; what the client does to its surroundings is in \<open>cs_effects\<close>.

  Shown here: every timer is run exactly once, in the first round in which it is due; the request the
  client writes is read by the daemon, in pieces of 128 bytes, as the timer that was meant; a
  START-TIMER line without an interval makes the client ask thirty times and fail; what holds in every
  state of the daemon.
\<close>

section \<open>The daemon\<close>

record ttype =
  tt_name :: string
  tt_etime :: int

record us_conn =
  uc_sock :: sock
  uc_in :: string
  uc_closed :: bool
  uc_ctx :: pconf_ctx

record us_daemon =
  us_cmdscript :: string
  thead :: "ttype list"
  us_conns :: "us_conn list"
  emptyctr :: int
  us_ran :: "string list"
  us_exited :: bool

definition EMPTY_WAIT :: int where "EMPTY_WAIT = 15"
definition US_SOCK_BUF_LEN :: nat where "US_SOCK_BUF_LEN = 256"
definition US_MAX_READ :: nat where "US_MAX_READ = 128"
definition MAX_TRIES :: nat where "MAX_TRIES = 30"

text \<open>The line handed to \<open>system\<close>.\<close>

definition exec_line :: "string \<Rightarrow> string \<Rightarrow> string" where
  "exec_line script cmd = snprintf LARGEBUF (script @ '' '' @ cmd)"

definition us_exec_cmd :: "us_daemon \<Rightarrow> string \<Rightarrow> us_daemon" where
  "us_exec_cmd d cmd = d\<lparr>us_ran := us_ran d @ [exec_line (us_cmdscript d) cmd]\<rparr>"

definition removetimer :: "us_daemon \<Rightarrow> nat \<Rightarrow> us_daemon" where
  "removetimer d i = d\<lparr>thead := take i (thead d) @ drop (Suc i) (thead d)\<rparr>"

text \<open>The walk over the queue; the position stays where it is when the timer there is removed.\<close>

function timer_loop :: "int \<Rightarrow> nat \<Rightarrow> us_daemon \<Rightarrow> us_daemon" where
  "timer_loop now i d =
     (if i < length (thead d)
      then if tt_etime (thead d ! i) \<le> now
           then timer_loop now i (removetimer (us_exec_cmd d (tt_name (thead d ! i))) i)
           else timer_loop now (Suc i) d
      else d)"
  by pat_completeness auto
termination
  by (relation "measure (\<lambda>(now, i, d). length (thead d) - i)") (auto simp: removetimer_def us_exec_cmd_def)

declare timer_loop.simps [simp del]

definition checktimers :: "int \<Rightarrow> us_daemon \<Rightarrow> us_daemon" where
  "checktimers now d =
     (if thead d = []
      then let n = emptyctr d + 1 in
        if n < EMPTY_WAIT then d\<lparr>emptyctr := n\<rparr> else d\<lparr>emptyctr := n, us_exited := True\<rparr>
      else timer_loop now 0 (d\<lparr>emptyctr := 0\<rparr>))"

definition start_timer :: "int \<Rightarrow> string \<Rightarrow> string \<Rightarrow> us_daemon \<Rightarrow> us_daemon" where
  "start_timer now name ofsstr d =
     (let ofs = atoi ofsstr in
      if ofs < 0 then d else d\<lparr>thead := thead d @ [\<lparr>tt_name = name, tt_etime = now + ofs\<rparr>]\<rparr>)"

definition cancel_timer :: "string \<Rightarrow> string option \<Rightarrow> us_daemon \<Rightarrow> us_daemon" where
  "cancel_timer name cname d =
     (case find_index (\<lambda>t. tt_name t = name) (thead d) of
        Some i \<Rightarrow> removetimer d i
      | None \<Rightarrow> (case cname of
            None \<Rightarrow> d
          | Some c \<Rightarrow> if c \<noteq> [] then us_exec_cmd d c else d))"

definition us_conn_del :: "us_daemon \<Rightarrow> nat \<Rightarrow> us_daemon" where
  "us_conn_del d i = d\<lparr>us_conns := take i (us_conns d) @ drop (Suc i) (us_conns d)\<rparr>"

definition us_send_to_one :: "us_daemon \<Rightarrow> nat \<Rightarrow> string \<Rightarrow> us_daemon" where
  "us_send_to_one d i txt =
     (let c = us_conns d ! i;
          (k, ok) = sock_write (uc_sock c) (snprintf US_SOCK_BUF_LEN txt)
      in if \<not> ok then us_conn_del d i
         else d\<lparr>us_conns := (us_conns d)[i := c\<lparr>uc_sock := k\<rparr>]\<rparr>)"

text \<open>What \<open>accept\<close> and \<open>fcntl\<close> give: a failure, or a connection with the results of its coming writes and
  the memory \<open>xmalloc\<close> returned for its parser.\<close>

definition us_conn_add :: "us_daemon \<Rightarrow> (bool list \<times> pconf_ctx) option \<Rightarrow> us_daemon" where
  "us_conn_add d acc =
     (case acc of
        None \<Rightarrow> d
      | Some (plan, mem) \<Rightarrow> d\<lparr>us_conns := us_conns d @
          [\<lparr>uc_sock = sock_new plan, uc_in = [], uc_closed = False, uc_ctx = pconf_init mem\<rparr>]\<rparr>)"

text \<open>The flag tells whether the line was understood.\<close>

definition us_sock_arg :: "int \<Rightarrow> us_daemon \<Rightarrow> nat \<Rightarrow> fault + (us_daemon \<times> bool)" where
  "us_sock_arg now d i =
     (let ctx = uc_ctx (us_conns d ! i) in
      if numargs ctx < 1 then Inr (d, False)
      else if arglist ctx ! 0 = ''CANCEL''
      then sbind (arg_word ctx 1) (\<lambda>name.
        let d1 = (if numargs ctx < 3 then cancel_timer name None d
                  else cancel_timer name (Some (arglist ctx ! 2)) d)
        in Inr (us_send_to_one d1 i (''OK'' @ nl), True))
      else if numargs ctx < 3 then Inr (d, False)
      else if arglist ctx ! 0 = ''START''
      then let d1 = start_timer now (arglist ctx ! 1) (arglist ctx ! 2) d
           in Inr (us_send_to_one d1 i (''OK'' @ nl), True)
      else Inr (d, False))"

text \<open>\<open>sock_read\<close> with \<open>n\<close> more bytes to read at most.\<close>

fun us_sock_read :: "int \<Rightarrow> nat \<Rightarrow> us_daemon \<Rightarrow> nat \<Rightarrow> fault + (us_daemon \<times> int)" where
  "us_sock_read now 0 d i = Inr (d, 0)"
| "us_sock_read now (Suc n) d i =
     (let c = us_conns d ! i in
      case uc_in c of
        [] \<Rightarrow> Inr (d, if uc_closed c then -1 else 0)
      | ch # rest \<Rightarrow>
          let (r, ctx) = pconf_char (uc_ctx c) ch;
              d1 = d\<lparr>us_conns := (us_conns d)[i := c\<lparr>uc_in := rest, uc_ctx := ctx\<rparr>]\<rparr>
          in if r = 0 then us_sock_read now n d1 i
             else if r = -1 then Inr (d1, 0)
             else sbind (us_sock_arg now d1 i) (\<lambda>(d2, known).
                    Inr (if known then d2 else us_send_to_one d2 i (''ERR UNKNOWN'' @ nl), 1)))"

text \<open>The loop over the connections: \<open>ready\<close> is what \<open>select\<close> reported for those that existed when it was
  called; the position moves on unless the connection there is gone.\<close>

fun us_poll :: "int \<Rightarrow> nat \<Rightarrow> bool list \<Rightarrow> us_daemon \<Rightarrow> fault + us_daemon" where
  "us_poll now i [] d = Inr d"
| "us_poll now i (b # bs) d =
     (if \<not> b then us_poll now (Suc i) bs d
      else sbind (us_sock_read now US_MAX_READ d i) (\<lambda>(d1, r).
        let d2 = (if r < 0 then us_conn_del d1 i else d1)
        in us_poll now (if length (us_conns d2) < length (us_conns d) then i else Suc i) bs d2))"

text \<open>Bytes from a client, and whether it has closed the connection behind them.\<close>

definition us_receive :: "us_conn \<Rightarrow> string \<times> bool \<Rightarrow> us_conn" where
  "us_receive c a = c\<lparr>uc_in := uc_in c @ fst a, uc_closed := uc_closed c \<or> snd a\<rparr>"

definition us_arrive :: "(string \<times> bool) list \<Rightarrow> us_conn list \<Rightarrow> us_conn list" where
  "us_arrive as cs = map (\<lambda>(c, a). us_receive c a) (zip cs as) @ drop (length as) cs"

text \<open>A connection is readable when there are bytes to read or it was closed.\<close>

definition us_ready :: "us_conn \<Rightarrow> bool" where
  "us_ready c \<longleftrightarrow> uc_in c \<noteq> [] \<or> uc_closed c"

text \<open>One round: \<open>select\<close> fails, or a client connects or not and bytes arrive; the time at which commands are
  read and the time at which the timers are looked at.\<close>

datatype us_event =
    UsSelectFails int
  | UsRound "(bool list \<times> pconf_ctx) option option" "(string \<times> bool) list" int int

definition us_step :: "us_daemon \<Rightarrow> us_event \<Rightarrow> fault + us_daemon" where
  "us_step d ev =
     (if us_exited d then Inr d
      else case ev of
        UsSelectFails t \<Rightarrow> Inr (checktimers t d)
      | UsRound acc arr t t' \<Rightarrow>
          let d0 = d\<lparr>us_conns := us_arrive arr (us_conns d)\<rparr>;
              ready = map us_ready (us_conns d0);
              d1 = (case acc of None \<Rightarrow> d0 | Some a \<Rightarrow> us_conn_add d0 a)
          in sbind (us_poll t 0 ready d1) (\<lambda>d2. Inr (checktimers t' d2)))"

text \<open>The daemon when the loop is entered.\<close>

definition us_daemon_start :: "string \<Rightarrow> us_daemon" where
  "us_daemon_start script =
     \<lparr>us_cmdscript = script, thead = [], us_conns = [], emptyctr = 0, us_ran = [], us_exited = False\<rparr>"

section \<open>The client\<close>

text \<open>What happens when there is no daemon: the lock file exists, the start fails (with the message of
  \<open>fatal_with_errno\<close>), or the daemon is running when the parent goes on.\<close>

datatype us_lock = LockHeld | StartFails string | DaemonForked

text \<open>One call of \<open>try_connect\<close>: no daemon listens, or it is reached; then whether it takes the whole request
  and what \<open>read\<close> gives within two seconds, nothing at the end of the stream, an error or the alarm.\<close>

datatype us_attempt = NoDaemon us_lock | Connects bool string

datatype us_effect = LockRemoved | DaemonStarted | Requested string | RanScript string

datatype us_parent = PARENT_STARTED | PARENT_UNNECESSARY | ParentFd bool string | ParentExits

record us_client =
  cs_cmdscript :: "string option"
  cs_pipefn :: "string option"
  cs_lockfn :: "string option"
  cs_upsname :: string
  cs_notify :: string
  cs_attempts :: nat
  cs_effects :: "us_effect list"
  cs_failed :: "string option"

definition cs_do :: "us_effect \<Rightarrow> us_client \<Rightarrow> us_client" where
  "cs_do e s = s\<lparr>cs_effects := cs_effects s @ [e]\<rparr>"

definition cs_fatal :: "string \<Rightarrow> us_client \<Rightarrow> us_client" where
  "cs_fatal msg s = s\<lparr>cs_failed := Some msg\<rparr>"

text \<open>The loop of \<open>us_check_parent\<close> with \<open>n\<close> tries left.\<close>

fun us_check_parent :: "nat \<Rightarrow> (nat \<Rightarrow> us_attempt) \<Rightarrow> string \<Rightarrow> string option \<Rightarrow> us_client \<Rightarrow> us_client \<times> us_parent" where
  "us_check_parent 0 env cmd arg2 s =
     (cs_fatal ''Failed to connect to parent and failed to create parent'' s, ParentExits)"
| "us_check_parent (Suc n) env cmd arg2 s =
     (let s1 = s\<lparr>cs_attempts := cs_attempts s + 1\<rparr> in
      case env (cs_attempts s) of
        Connects w r \<Rightarrow> (s1, ParentFd w r)
      | NoDaemon lock \<Rightarrow>
          if cmd = ''CANCEL'' \<and> arg2 = None then (s1, PARENT_UNNECESSARY)
          else (case lock of
                  DaemonForked \<Rightarrow> (cs_do DaemonStarted s1, PARENT_STARTED)
                | StartFails msg \<Rightarrow> (cs_fatal msg s1, ParentExits)
                | LockHeld \<Rightarrow> us_check_parent n env cmd arg2 (cs_do LockRemoved s1)))"

fun sendcmd_loop :: "nat \<Rightarrow> (nat \<Rightarrow> us_attempt) \<Rightarrow> string \<Rightarrow> string option \<Rightarrow> string \<Rightarrow> us_client \<Rightarrow> us_client" where
  "sendcmd_loop 0 env cmd arg2 enc s =
     cs_fatal ''Unable to connect to daemon and unable to start daemon'' s"
| "sendcmd_loop (Suc n) env cmd arg2 enc s =
     (case us_check_parent MAX_TRIES env cmd arg2 s of
        (s1, PARENT_STARTED) \<Rightarrow> sendcmd_loop n env cmd arg2 enc s1
      | (s1, PARENT_UNNECESSARY) \<Rightarrow> s1
      | (s1, ParentExits) \<Rightarrow> s1
      | (s1, ParentFd w r) \<Rightarrow>
          if \<not> w then sendcmd_loop n env cmd arg2 enc s1
          else let s2 = cs_do (Requested enc) s1; buf = take SMALLBUF r in
            if length buf < 2 then sendcmd_loop n env cmd arg2 enc s2
            else if strneq buf ''OK'' 2 then s2
            else sendcmd_loop n env cmd arg2 enc s2)"

text \<open>The request.\<close>

definition us_request :: "string \<Rightarrow> string \<Rightarrow> string option \<Rightarrow> string" where
  "us_request cmd arg1 arg2 =
     (let buf = snprintf SMALLBUF (cmd @ '' '' @ quoted (pconf_encode arg1 SMALLBUF));
          buf2 = (case arg2 of
                    None \<Rightarrow> buf
                  | Some a \<Rightarrow> snprintfcat buf SMALLBUF ('' '' @ quoted (pconf_encode a SMALLBUF)))
      in snprintf SMALLBUF (buf2 @ nl))"

definition sendcmd :: "(nat \<Rightarrow> us_attempt) \<Rightarrow> string \<Rightarrow> string option \<Rightarrow> string option \<Rightarrow> us_client \<Rightarrow> us_client" where
  "sendcmd env cmd arg1 arg2 s =
     (case arg1 of
        None \<Rightarrow> s
      | Some a1 \<Rightarrow> sendcmd_loop MAX_TRIES env cmd arg2 (us_request cmd a1 arg2) s)"

text \<open>\<open>parse_at\<close>; the test of the argument of EXECUTE compares the pointer with zero, so only a missing
  argument is refused.\<close>

definition parse_at :: "(nat \<Rightarrow> us_attempt) \<Rightarrow> string \<Rightarrow> string \<Rightarrow> string \<Rightarrow> string option \<Rightarrow> string option \<Rightarrow> us_client \<Rightarrow> us_client" where
  "parse_at env ntype un cmd ca1 ca2 s =
     (case cs_cmdscript s of
        None \<Rightarrow> cs_fatal ''CMDSCRIPT must be set before any ATs in the config file!'' s
      | Some script \<Rightarrow>
          if cs_pipefn s = None then cs_fatal ''PIPEFN must be set before any ATs in the config file!'' s
          else if cs_lockfn s = None then cs_fatal ''LOCKFN must be set before any ATs in the config file!'' s
          else if cs_upsname s \<noteq> un \<and> un \<noteq> ''*'' then s
          else if \<not> strcaseeq (cs_notify s) ntype then s
          else if cmd = ''START-TIMER'' then sendcmd env ''START'' ca1 ca2 s
          else if cmd = ''CANCEL-TIMER'' then sendcmd env ''CANCEL'' ca1 ca2 s
          else if cmd = ''EXECUTE''
          then (case ca1 of None \<Rightarrow> s | Some c \<Rightarrow> cs_do (RanScript (exec_line script c)) s)
          else s)"

definition us_conf_arg :: "(nat \<Rightarrow> us_attempt) \<Rightarrow> string list \<Rightarrow> us_client \<Rightarrow> us_client \<times> bool" where
  "us_conf_arg env arg s =
     (if length arg < 2 then (s, False)
      else if arg ! 0 = ''CMDSCRIPT'' then (s\<lparr>cs_cmdscript := Some (arg ! 1)\<rparr>, True)
      else if arg ! 0 = ''PIPEFN'' then (s\<lparr>cs_pipefn := Some (arg ! 1)\<rparr>, True)
      else if arg ! 0 = ''LOCKFN'' then (s\<lparr>cs_lockfn := Some (arg ! 1)\<rparr>, True)
      else if length arg < 5 then (s, False)
      else if arg ! 0 = ''AT''
      then (parse_at env (arg ! 1) (arg ! 2) (arg ! 3) (Some (arg ! 4))
              (if length arg > 5 then Some (arg ! 5) else None) s, True)
      else (s, False))"

text \<open>A process that has ended handles no further line; a directive that is not understood is only
  logged.\<close>

definition us_conf_line :: "(nat \<Rightarrow> us_attempt) \<Rightarrow> string list \<Rightarrow> us_client \<Rightarrow> us_client" where
  "us_conf_line env arg s =
     (if cs_failed s \<noteq> None \<or> length arg < 1 then s else fst (us_conf_arg env arg s))"

definition checkconf :: "(nat \<Rightarrow> us_attempt) \<Rightarrow> (string \<Rightarrow> string + string) \<Rightarrow> string \<Rightarrow> pconf_ctx \<Rightarrow> us_client \<Rightarrow> us_client" where
  "checkconf env fopen confpath stack_ctx s =
     (case pconf_file_begin fopen (pconf_init stack_ctx) (snprintf SMALLBUF (confpath @ ''/upssched.conf'')) of
        (r, ctx) \<Rightarrow>
          if r = 0 then cs_fatal (errmsg ctx) s
          else snd (read_lines (\<lambda>ctx s. us_conf_line env (pconf_words ctx) s) ctx s))"

text \<open>\<open>main\<close> with the values of UPSNAME and NOTIFYTYPE in the environment.\<close>

definition upssched_main :: "(nat \<Rightarrow> us_attempt) \<Rightarrow> (string \<Rightarrow> string + string) \<Rightarrow> string \<Rightarrow> pconf_ctx \<Rightarrow> string option \<Rightarrow> string option \<Rightarrow> us_client" where
  "upssched_main env fopen confpath stack_ctx upsname notify_type =
     (let s = \<lparr>cs_cmdscript = None, cs_pipefn = None, cs_lockfn = None, cs_upsname = [], cs_notify = [],
               cs_attempts = 0, cs_effects = [], cs_failed = None\<rparr>
      in case (upsname, notify_type) of
           (Some un, Some nt) \<Rightarrow> checkconf env fopen confpath stack_ctx (s\<lparr>cs_upsname := un, cs_notify := nt\<rparr>)
         | _ \<Rightarrow> cs_fatal ''Error: UPSNAME and NOTIFYTYPE must be set.'' s)"

section \<open>The timers\<close>

lemma timer_ops_conns [simp]:
  "us_conns (us_exec_cmd d c) = us_conns d" "us_conns (removetimer d i) = us_conns d"
  "us_exited (us_exec_cmd d c) = us_exited d" "us_exited (removetimer d i) = us_exited d"
  "emptyctr (us_exec_cmd d c) = emptyctr d" "emptyctr (removetimer d i) = emptyctr d"
  "thead (us_exec_cmd d c) = thead d" "us_ran (removetimer d i) = us_ran d"
  "us_cmdscript (us_exec_cmd d c) = us_cmdscript d" "us_cmdscript (removetimer d i) = us_cmdscript d"
  by (simp_all add: us_exec_cmd_def removetimer_def)

text \<open>The script call of a timer.\<close>

abbreviation timer_line :: "string \<Rightarrow> ttype \<Rightarrow> string" where
  "timer_line script t \<equiv> exec_line script (tt_name t)"

lemma timer_loop_eq:
  "i \<le> length (thead d) \<Longrightarrow> timer_loop now i d =
     d\<lparr>thead := take i (thead d) @ filter (\<lambda>t. now < tt_etime t) (drop i (thead d)),
       us_ran := us_ran d @ map (timer_line (us_cmdscript d)) (filter (\<lambda>t. tt_etime t \<le> now) (drop i (thead d)))\<rparr>"
proof (induction now i d rule: timer_loop.induct)
  case (1 now i d)
  show ?case
  proof (cases "i < length (thead d)")
    case i: True
    have dr: "drop i (thead d) = thead d ! i # drop (Suc i) (thead d)" using i by (rule Cons_nth_drop_Suc [symmetric])
    show ?thesis
    proof (cases "tt_etime (thead d ! i) \<le> now")
      case True
      then show ?thesis
        using 1(1) [OF i True] i unfolding dr
        by (subst timer_loop.simps) (simp add: removetimer_def us_exec_cmd_def)
    next
      case False
      then show ?thesis
        using 1(2) [OF i False] i unfolding dr
        by (subst timer_loop.simps) (simp add: take_Suc_conv_app_nth)
    qed
  next
    case False
    with 1(3) show ?thesis by (subst timer_loop.simps) simp
  qed
qed

lemma checktimers_eq:
  "checktimers now d =
     (if thead d = []
      then d\<lparr>emptyctr := emptyctr d + 1, us_exited := us_exited d \<or> EMPTY_WAIT \<le> emptyctr d + 1\<rparr>
      else d\<lparr>emptyctr := 0, thead := filter (\<lambda>t. now < tt_etime t) (thead d),
             us_ran := us_ran d @ map (timer_line (us_cmdscript d)) (filter (\<lambda>t. tt_etime t \<le> now) (thead d))\<rparr>)"
  by (simp add: checktimers_def timer_loop_eq Let_def)

lemma checktimers_fields [simp]:
  "thead (checktimers now d) = filter (\<lambda>t. now < tt_etime t) (thead d)"
  "us_ran (checktimers now d) = us_ran d @ map (timer_line (us_cmdscript d)) (filter (\<lambda>t. tt_etime t \<le> now) (thead d))"
  "us_conns (checktimers now d) = us_conns d" "us_cmdscript (checktimers now d) = us_cmdscript d"
  "us_exited (checktimers now d) \<longleftrightarrow> us_exited d \<or> thead d = [] \<and> EMPTY_WAIT \<le> emptyctr d + 1"
  "emptyctr (checktimers now d) = (if thead d = [] then emptyctr d + 1 else 0)"
  by (simp_all add: checktimers_eq)

section \<open>Rounds in which no client says anything\<close>

definition us_quiet :: "us_daemon \<Rightarrow> bool" where
  "us_quiet d \<longleftrightarrow> (\<forall>c\<in>set (us_conns d). \<not> us_ready c)"

fun us_now :: "us_event \<Rightarrow> int" where
  "us_now (UsSelectFails t) = t"
| "us_now (UsRound acc arr t t') = t'"

fun us_calm :: "us_event \<Rightarrow> bool" where
  "us_calm (UsSelectFails t) = True"
| "us_calm (UsRound acc arr t t') = (\<forall>a\<in>set arr. a = ([], False))"

definition us_run :: "us_daemon \<Rightarrow> us_event list \<Rightarrow> fault + us_daemon" where
  "us_run d evs = sfold (\<lambda>e d. us_step d e) evs d"

lemma us_run_simps [simp]: "us_run d [] = Inr d" "us_run d (e # es) = sbind (us_step d e) (\<lambda>d'. us_run d' es)"
  by (simp_all add: us_run_def)

lemma us_receive_nothing [simp]: "us_receive c ([], False) = c"
  by (simp add: us_receive_def)

lemma us_arrive_nothing: "\<forall>a\<in>set arr. a = ([], False) \<Longrightarrow> us_arrive arr cs = cs"
proof (induction arr arbitrary: cs)
  case (Cons a arr)
  then show ?case by (cases cs) (auto simp: us_arrive_def)
qed (simp add: us_arrive_def)

lemma us_poll_none: "list_all Not bs \<Longrightarrow> us_poll now i bs d = Inr d"
  by (induction bs arbitrary: i) auto

lemma us_conn_add_fields [simp]:
  "thead (us_conn_add d a) = thead d" "us_ran (us_conn_add d a) = us_ran d" "emptyctr (us_conn_add d a) = emptyctr d"
  "us_exited (us_conn_add d a) = us_exited d" "us_cmdscript (us_conn_add d a) = us_cmdscript d"
  by (simp_all add: us_conn_add_def split: option.splits)

text \<open>The daemon without its connections: what a round without input does to the timers is
  \<open>checktimers\<close>.\<close>

definition us_core :: "us_daemon \<Rightarrow> us_daemon" where
  "us_core d = d\<lparr>us_conns := []\<rparr>"

lemma us_core_fields [simp]:
  "thead (us_core d) = thead d" "us_ran (us_core d) = us_ran d" "emptyctr (us_core d) = emptyctr d"
  "us_exited (us_core d) = us_exited d" "us_cmdscript (us_core d) = us_cmdscript d"
  "us_core (d\<lparr>us_conns := cs\<rparr>) = us_core d" "us_core (us_core d) = us_core d" "us_core (us_conn_add d a) = us_core d"
  by (simp_all add: us_core_def us_conn_add_def split: option.splits)

lemma us_core_checktimers [simp]: "us_core (checktimers t d) = checktimers t (us_core d)"
  by (auto simp: us_core_def checktimers_eq)

lemma us_step_calm:
  assumes "us_calm e" "us_quiet d" "\<not> us_exited d"
  obtains d' where "us_step d e = Inr d'" "us_quiet d'" "us_core d' = checktimers (us_now e) (us_core d)"
proof (cases e)
  case (UsSelectFails t)
  with assms that [of "checktimers t d"] show ?thesis by (simp add: us_step_def us_quiet_def)
next
  case (UsRound acc arr t t')
  let ?d = "case acc of None \<Rightarrow> d | Some a \<Rightarrow> us_conn_add d a"
  have arr: "us_arrive arr (us_conns d) = us_conns d" using assms(1) UsRound by (simp add: us_arrive_nothing)
  have "list_all Not (map us_ready (us_conns d))" using assms(2) by (simp add: us_quiet_def list_all_iff)
  then have "us_step d e = Inr (checktimers t' ?d)"
    using assms(3) UsRound by (simp add: us_step_def arr us_poll_none)
  moreover have "us_quiet (checktimers t' ?d)"
    using assms(2) by (auto simp: us_quiet_def us_conn_add_def us_ready_def split: option.splits)
  moreover have "us_core (checktimers t' ?d) = checktimers t' (us_core d)" by (simp split: option.splits)
  ultimately show ?thesis using that UsRound by simp
qed

lemma us_step_calm_fields:
  assumes "us_calm e" "us_quiet d" "us_exited d \<longrightarrow> thead d = []"
  obtains d' where "us_step d e = Inr d'" "us_quiet d'" "us_exited d' \<longrightarrow> thead d' = []"
    "thead d' = filter (\<lambda>t. us_now e < tt_etime t) (thead d)" "us_cmdscript d' = us_cmdscript d"
    "us_ran d' = us_ran d @ map (timer_line (us_cmdscript d)) (filter (\<lambda>t. tt_etime t \<le> us_now e) (thead d))"
proof (cases "us_exited d")
  case True
  with assms that [of d] show ?thesis by (simp add: us_step_def)
next
  case False
  from us_step_calm [OF assms(1,2) False] obtain d'
    where d': "us_step d e = Inr d'" "us_quiet d'" "us_core d' = checktimers (us_now e) (us_core d)" .
  note f = arg_cong [OF d'(3), of thead] arg_cong [OF d'(3), of us_ran] arg_cong [OF d'(3), of us_cmdscript]
    arg_cong [OF d'(3), of us_exited]
  show ?thesis by (rule that [OF d'(1,2)]) (use f False in auto)
qed

text \<open>The calls of the script in the \<open>k\<close>-th of the rounds: the timers that are due then and were not due before.\<close>

definition ran_in_round :: "us_event list \<Rightarrow> us_daemon \<Rightarrow> nat \<Rightarrow> string list" where
  "ran_in_round evs d k =
     map (timer_line (us_cmdscript d)) (filter (\<lambda>t. find_index (\<lambda>e. tt_etime t \<le> us_now e) evs = Some k) (thead d))"

lemma timers_run:
  assumes "us_exited d \<longrightarrow> thead d = []" "us_quiet d" "list_all us_calm evs"
  shows "\<exists>d'. us_run d evs = Inr d' \<and> us_quiet d' \<and>
           thead d' = filter (\<lambda>t. \<forall>e\<in>set evs. us_now e < tt_etime t) (thead d) \<and>
           us_ran d' = us_ran d @ concat (map (ran_in_round evs d) [0..<length evs])"
  using assms
proof (induction evs arbitrary: d)
  case (Cons e es)
  from Cons.prems have e: "us_calm e" "us_quiet d" "us_exited d \<longrightarrow> thead d = []" by auto
  from us_step_calm_fields [OF e] obtain d1 where d1: "us_step d e = Inr d1" "us_quiet d1"
    "us_exited d1 \<longrightarrow> thead d1 = []" "thead d1 = filter (\<lambda>t. us_now e < tt_etime t) (thead d)"
    "us_cmdscript d1 = us_cmdscript d"
    "us_ran d1 = us_ran d @ map (timer_line (us_cmdscript d)) (filter (\<lambda>t. tt_etime t \<le> us_now e) (thead d))" .
  from Cons.IH [OF d1(3,2)] Cons.prems(3) obtain d' where d': "us_run d1 es = Inr d'" "us_quiet d'"
    "thead d' = filter (\<lambda>t. \<forall>e\<in>set es. us_now e < tt_etime t) (thead d1)"
    "us_ran d' = us_ran d1 @ concat (map (ran_in_round es d1) [0..<length es])" by auto
  have first: "ran_in_round (e # es) d 0 = map (timer_line (us_cmdscript d)) (filter (\<lambda>t. tt_etime t \<le> us_now e) (thead d))"
    unfolding ran_in_round_def by (rule arg_cong [where f = "map _"]) (rule filter_cong, auto)
  have later: "ran_in_round (e # es) d (Suc k) = ran_in_round es d1 k" for k
    unfolding ran_in_round_def d1(4,5) filter_filter
    by (rule arg_cong [where f = "map _"]) (rule filter_cong, auto simp: not_le)
  have "[0..<length (e # es)] = 0 # map Suc [0..<length es]"
    by (simp add: map_Suc_upt upt_conv_Cons del: upt_Suc)
  then have "concat (map (ran_in_round (e # es) d) [0..<length (e # es)]) =
      ran_in_round (e # es) d 0 @ concat (map (ran_in_round es d1) [0..<length es])"
    by (simp add: later comp_def)
  with d' d1 show ?case by (auto simp: first intro!: filter_cong)
qed simp

lemma us_idle_exit:
  assumes "us_quiet d" "list_all us_calm evs" "thead d = []" "\<not> us_exited d" "emptyctr d < EMPTY_WAIT"
    "us_run d evs = Inr d'"
  shows "us_exited d' \<longleftrightarrow> EMPTY_WAIT \<le> emptyctr d + int (length evs)"
  using assms
proof (induction evs arbitrary: d)
  case (Cons e es)
  from Cons.prems have e: "us_calm e" "us_quiet d" "\<not> us_exited d" by auto
  from us_step_calm [OF e] obtain d1 where d1: "us_step d e = Inr d1" "us_quiet d1"
    "us_core d1 = checktimers (us_now e) (us_core d)" .
  have f: "thead d1 = []" "emptyctr d1 = emptyctr d + 1" "us_exited d1 \<longleftrightarrow> EMPTY_WAIT \<le> emptyctr d + 1"
    using arg_cong [OF d1(3), of thead] arg_cong [OF d1(3), of emptyctr] arg_cong [OF d1(3), of us_exited] Cons.prems(3,4)
    by auto
  have ex: "us_run d es = Inr d" if "us_exited d" for d es using that by (induction es) (simp_all add: us_step_def)
  show ?case
  proof (cases "EMPTY_WAIT \<le> emptyctr d + 1")
    case True
    with f Cons.prems(6) ex [of d1 es] d1(1) show ?thesis by simp
  next
    case False
    with f Cons.prems(2,6) d1(1) Cons.IH [OF d1(2)] show ?thesis by (simp add: add.assoc)
  qed
qed simp

section \<open>A request of a client\<close>

text \<open>The meaning of the words of a line, and the answer.\<close>

definition us_known :: "string list \<Rightarrow> bool" where
  "us_known ws \<longleftrightarrow> ws ! 0 = ''CANCEL'' \<or> 3 \<le> length ws \<and> ws ! 0 = ''START''"

definition us_apply :: "int \<Rightarrow> string list \<Rightarrow> us_daemon \<Rightarrow> us_daemon" where
  "us_apply now ws d =
     (if ws ! 0 = ''CANCEL'' then cancel_timer (ws ! 1) (if length ws < 3 then None else Some (ws ! 2)) d
      else if us_known ws then start_timer now (ws ! 1) (ws ! 2) d
      else d)"

definition us_answer :: "string list \<Rightarrow> string" where
  "us_answer ws = (if us_known ws then ''OK'' @ nl else ''ERR UNKNOWN'' @ nl)"

definition us_line_ok :: "string list \<Rightarrow> bool" where
  "us_line_ok ws \<longleftrightarrow> ws \<noteq> [] \<and> (ws ! 0 = ''CANCEL'' \<longrightarrow> 2 \<le> length ws)"

lemma us_ops_conns [simp]:
  "us_conns (cancel_timer n c d) = us_conns d" "us_conns (start_timer t n x d) = us_conns d"
  "us_conns (us_apply t ws d) = us_conns d"
  by (simp_all add: cancel_timer_def start_timer_def us_apply_def Let_def split: option.splits)

lemma us_core_ops [simp]:
  "us_core (cancel_timer n c d) = cancel_timer n c (us_core d)"
  "us_core (start_timer t n x d) = start_timer t n x (us_core d)"
  "us_core (us_apply t ws d) = us_apply t ws (us_core d)"
  by (simp_all add: us_core_def cancel_timer_def start_timer_def us_apply_def Let_def removetimer_def us_exec_cmd_def
      split: option.splits)

lemma us_apply_conns: "us_apply t ws (d\<lparr>us_conns := cs\<rparr>) = (us_apply t ws d)\<lparr>us_conns := cs\<rparr>"
  by (simp add: cancel_timer_def start_timer_def us_apply_def Let_def removetimer_def us_exec_cmd_def split: option.splits)

lemma us_send_ok:
  assumes "wplan (uc_sock (us_conns d ! i)) = []" "length txt < 256"
  shows "us_send_to_one d i txt = d\<lparr>us_conns := (us_conns d)[i := (us_conns d ! i)\<lparr>uc_sock :=
           (uc_sock (us_conns d ! i))\<lparr>sent := sent (uc_sock (us_conns d ! i)) @ [txt]\<rparr>\<rparr>]\<rparr>"
  using assms by (simp add: us_send_to_one_def US_SOCK_BUF_LEN_def Let_def)

text \<open>The connection after a line was handled.\<close>

definition us_told :: "string \<Rightarrow> us_conn \<Rightarrow> us_conn" where
  "us_told txt c = c\<lparr>uc_sock := (uc_sock c)\<lparr>sent := sent (uc_sock c) @ [txt]\<rparr>\<rparr>"

lemma us_line_handled:
  assumes "us_line_ok ws" "pconf_words (uc_ctx (us_conns d ! i)) = ws" "numargs (uc_ctx (us_conns d ! i)) = length ws"
    and "wplan (uc_sock (us_conns d ! i)) = []"
  shows "sbind (us_sock_arg now d i) (\<lambda>(d2, known).
           Inr (if known then d2 else us_send_to_one d2 i (''ERR UNKNOWN'' @ nl), 1)) =
         Inr ((us_apply now ws d)\<lparr>us_conns := (us_conns d)[i := us_told (us_answer ws) (us_conns d ! i)]\<rparr>, 1)"
proof -
  let ?ctx = "uc_ctx (us_conns d ! i)"
  have len: "length ws \<le> length (arglist ?ctx)" using assms(2,3) by (metis length_take min.cobounded1)
  have nth: "arglist ?ctx ! k = ws ! k" if "k < length ws" for k
    using assms(2,3) that by (metis nth_take)
  have "ws \<noteq> []" using assms(1) by (simp add: us_line_ok_def)
  then have w0: "arglist ?ctx ! 0 = ws ! 0" "0 < numargs ?ctx" using nth [of 0] assms(3) by auto
  consider "ws ! 0 = ''CANCEL''" "2 \<le> length ws" | "ws ! 0 = ''START''" "3 \<le> length ws" | "\<not> us_known ws"
    using assms(1) by (auto simp: us_known_def us_line_ok_def)
  then show ?thesis
  proof cases
    case 1
    then have "arg_word ?ctx 1 = Inr (ws ! 1)" using len nth [of 1] by (simp add: arg_word_def)
    with 1 w0 nth [of 2] assms(3,4) show ?thesis
      by (simp add: us_sock_arg_def Let_def us_apply_def us_known_def us_answer_def us_told_def us_send_ok)
  next
    case 2
    with w0 nth [of 1] nth [of 2] assms(3,4) show ?thesis
      by (simp add: us_sock_arg_def Let_def us_apply_def us_known_def us_answer_def us_told_def us_send_ok)
  next
    case 3
    with w0 assms(3,4) show ?thesis
      by (auto simp: us_sock_arg_def Let_def us_apply_def us_known_def us_answer_def us_told_def us_send_ok)
  qed
qed

lemma us_sock_read_quiet:
  "i < length (us_conns d) \<Longrightarrow> uc_in (us_conns d ! i) = xs @ ys \<Longrightarrow> quiet (uc_ctx (us_conns d ! i)) xs \<Longrightarrow>
   us_sock_read now (length xs + n) d i =
     us_sock_read now n (d\<lparr>us_conns := (us_conns d)[i := (us_conns d ! i)\<lparr>uc_in := ys,
       uc_ctx := feed (uc_ctx (us_conns d ! i)) xs\<rparr>]\<rparr>) i"
proof (induction xs arbitrary: d)
  case Nil
  then have "(us_conns d ! i)\<lparr>uc_in := ys, uc_ctx := uc_ctx (us_conns d ! i)\<rparr> = us_conns d ! i" by simp
  then show ?case by simp
next
  case (Cons c xs)
  let ?c = "us_conns d ! i"
  obtain ctx where ctx: "pconf_char (uc_ctx ?c) c = (0, ctx)"
    using Cons.prems(3) by (cases "pconf_char (uc_ctx ?c) c") auto
  let ?d = "d\<lparr>us_conns := (us_conns d)[i := ?c\<lparr>uc_in := xs @ ys, uc_ctx := ctx\<rparr>]\<rparr>"
  have "us_sock_read now (length (c # xs) + n) d i = us_sock_read now (length xs + n) ?d i"
    using Cons.prems(2) ctx by simp
  with Cons.IH [of ?d] Cons.prems ctx show ?case by simp
qed

text \<open>A round in which nothing arrives, with one connection that still has bytes to be read.\<close>

fun us_calm_round :: "us_event \<Rightarrow> bool" where
  "us_calm_round (UsSelectFails t) = False"
| "us_calm_round (UsRound acc arr t t') = (\<forall>a\<in>set arr. a = ([], False))"

fun us_read_at :: "us_event \<Rightarrow> int" where
  "us_read_at (UsSelectFails t) = t"
| "us_read_at (UsRound acc arr t t') = t"

abbreviation others_quiet :: "us_daemon \<Rightarrow> nat \<Rightarrow> bool" where
  "others_quiet d i \<equiv> (\<forall>j<length (us_conns d). j \<noteq> i \<longrightarrow> \<not> us_ready (us_conns d ! j))"

lemma us_poll_skip: "list_all Not bs \<Longrightarrow> us_poll now i (bs @ cs) d = us_poll now (i + length bs) cs d"
  by (induction bs arbitrary: i) auto

lemma us_poll_one:
  assumes "i < length bs" "bs ! i" "\<And>j. j < length bs \<Longrightarrow> j \<noteq> i \<Longrightarrow> \<not> bs ! j"
    and "us_sock_read now US_MAX_READ d i = Inr (d1, r)" "0 \<le> r"
  shows "us_poll now 0 bs d = Inr d1"
proof -
  have bs: "bs = take i bs @ True # drop (Suc i) bs" using id_take_nth_drop [OF assms(1)] assms(2) by simp
  have "list_all Not (take i bs)" "list_all Not (drop (Suc i) bs)"
    using assms(1,3) by (auto simp: list_all_length)
  moreover have "length (take i bs) = i" using assms(1) by simp
  ultimately have "us_poll now 0 (take i bs @ True # drop (Suc i) bs) d = Inr d1"
    using assms(4,5) by (simp add: us_poll_skip us_poll_none)
  with bs show ?thesis by simp
qed

text \<open>What such a round is: the connection is read, and the timers are looked at.\<close>

lemma us_round_one:
  assumes "us_calm_round e" "\<not> us_exited d" "i < length (us_conns d)" "others_quiet d i" "us_ready (us_conns d ! i)"
    and "\<And>d0. us_core d0 = us_core d \<Longrightarrow> i < length (us_conns d0) \<Longrightarrow> us_conns d0 ! i = us_conns d ! i \<Longrightarrow>
           us_sock_read (us_read_at e) US_MAX_READ d0 i = Inr ((f d0)\<lparr>us_conns := (us_conns d0)[i := c]\<rparr>, r)"
    and "0 \<le> r" "\<And>d0. us_core (f d0) = f (us_core d0)"
  obtains d' where "us_step d e = Inr d'" "us_core d' = checktimers (us_now e) (f (us_core d))"
    "i < length (us_conns d')" "us_conns d' ! i = c" "others_quiet d' i"
proof (cases e)
  case (UsSelectFails t)
  with assms(1) show ?thesis by simp
next
  case (UsRound acc arr t t')
  let ?d = "case acc of None \<Rightarrow> d | Some a \<Rightarrow> us_conn_add d a"
  have conns: "\<exists>new. us_conns ?d = us_conns d @ new \<and> list_all (\<lambda>c. \<not> us_ready c) new"
    by (auto simp: us_conn_add_def us_ready_def split: option.splits)
  then obtain new where new: "us_conns ?d = us_conns d @ new" "list_all (\<lambda>c. \<not> us_ready c) new" by blast
  have core: "us_core ?d = us_core d" by (simp split: option.splits)
  have arr: "us_arrive arr (us_conns d) = us_conns d" using assms(1) UsRound by (simp add: us_arrive_nothing)
  have rd: "us_sock_read t US_MAX_READ ?d i = Inr ((f ?d)\<lparr>us_conns := (us_conns ?d)[i := c]\<rparr>, r)"
    using assms(6) [OF core] new(1) assms(3) UsRound by (simp add: nth_append)
  have "us_poll t 0 (map us_ready (us_conns d)) ?d = Inr ((f ?d)\<lparr>us_conns := (us_conns ?d)[i := c]\<rparr>)"
    by (rule us_poll_one [OF _ _ _ rd assms(7)]) (use assms(3-5) in auto)
  then have step: "us_step d e = Inr (checktimers t' ((f ?d)\<lparr>us_conns := (us_conns ?d)[i := c]\<rparr>))"
    using assms(2) UsRound by (simp add: us_step_def arr)
  show ?thesis
  proof (rule that [OF step])
    show "us_core (checktimers t' ((f ?d)\<lparr>us_conns := (us_conns ?d)[i := c]\<rparr>)) = checktimers (us_now e) (f (us_core d))"
      using UsRound core assms(8) [of ?d] by simp
  qed (use new assms(3,4) in \<open>auto simp: nth_append list_all_length\<close>)
qed

text \<open>A whole line that has arrived is read in pieces of \<open>US_MAX_READ\<close> bytes, one in each round.\<close>

abbreviation us_ctx_ready :: "pconf_ctx \<Rightarrow> bool" where
  "us_ctx_ready ctx \<equiv> pconf_ready PCONF_DEFAULT_ARG_LIMIT PCONF_DEFAULT_WORDLEN_LIMIT ctx"

abbreviation us_msg_ok :: "tok list \<Rightarrow> bool" where
  "us_msg_ok ts \<equiv> msg_ok PCONF_DEFAULT_ARG_LIMIT PCONF_DEFAULT_WORDLEN_LIMIT ts"

definition half_read :: "pconf_ctx \<Rightarrow> tok list \<Rightarrow> nat \<Rightarrow> us_conn \<Rightarrow> us_conn" where
  "half_read ctx ts k c = c\<lparr>uc_in := drop k (message ts), uc_ctx := feed ctx (take k (message ts))\<rparr>"

lemma quiet_append: "quiet ctx (xs @ ys) \<longleftrightarrow> quiet ctx xs \<and> quiet (feed ctx xs) ys"
  by (induction xs arbitrary: ctx) auto

lemma feed_append: "feed ctx (xs @ ys) = feed (feed ctx xs) ys"
  by (induction xs arbitrary: ctx) auto

lemma half_read_fields [simp]:
  "uc_in (half_read ctx ts k c) = drop k (message ts)" "uc_ctx (half_read ctx ts k c) = feed ctx (take k (message ts))"
  "uc_sock (half_read ctx ts k c) = uc_sock c" "half_read ctx ts j (half_read ctx ts k c) = half_read ctx ts j c"
  by (simp_all add: half_read_def)

lemma us_read_piece:
  assumes "us_ctx_ready ctx" "us_msg_ok ts" "k + US_MAX_READ < length (message ts)"
    and "i < length (us_conns d)" "us_conns d ! i = half_read ctx ts k c"
  shows "us_sock_read now US_MAX_READ d i =
           Inr (d\<lparr>us_conns := (us_conns d)[i := half_read ctx ts (k + US_MAX_READ) c]\<rparr>, 0)"
proof -
  let ?m = "message ts" and ?n = US_MAX_READ
  have split: "drop k ?m = take ?n (drop k ?m) @ drop (k + ?n) ?m" "length (take ?n (drop k ?m)) = ?n"
    using assms(3) by (simp_all add: add.commute [of k] flip: drop_drop)
  have pre: "take (k + ?n) ?m = take k ?m @ take ?n (drop k ?m)" by (rule take_add)
  have "take (k + ?n) (render ts) = take (k + ?n) ?m" using assms(3) by (simp add: message_def)
  moreover have "quiet ctx (take (k + ?n) (render ts))"
    using feed_message(1) [OF assms(1,2)] by (metis append_take_drop_id quiet_append)
  ultimately have "quiet (feed ctx (take k ?m)) (take ?n (drop k ?m))"
    unfolding pre by (simp add: quiet_append)
  then have "us_sock_read now (length (take ?n (drop k ?m)) + 0) d i =
      us_sock_read now 0 (d\<lparr>us_conns := (us_conns d)[i := half_read ctx ts (k + ?n) c]\<rparr>) i"
    using assms(4,5) split(1)
    by (subst us_sock_read_quiet [where ys = "drop (k + ?n) ?m"]) (auto simp: half_read_def pre feed_append)
  then show ?thesis using split(2) by simp
qed

lemma us_read_last:
  assumes "us_ctx_ready ctx" "us_msg_ok ts" "us_line_ok (map tok_word ts)"
    and "k < length (message ts)" "length (message ts) \<le> k + US_MAX_READ"
    and "i < length (us_conns d)" "us_conns d ! i = half_read ctx ts k c" "wplan (uc_sock c) = []"
  shows "us_sock_read now US_MAX_READ d i =
           Inr ((us_apply now (map tok_word ts) d)\<lparr>us_conns := (us_conns d)[i :=
             us_told (us_answer (map tok_word ts)) (half_read ctx ts (length (message ts)) c)]\<rparr>, 1)"
proof -
  let ?r = "render ts" and ?m = "message ts"
  have k: "k \<le> length ?r" "length ?m = Suc (length ?r)" using assms(4) by (auto simp: message_def)
  then have tk: "take k ?m = take k ?r" "drop k ?m = drop k ?r @ nl" by (simp_all add: message_def)
  note f = feed_message [OF assms(1,2)]
  have q: "quiet (feed ctx (take k ?r)) (drop k ?r)" "feed (feed ctx (take k ?r)) (drop k ?r) = feed ctx ?r"
    using f(1) by (metis append_take_drop_id quiet_append, metis append_take_drop_id feed_append)
  obtain ctx' where ctx': "pconf_char (feed ctx ?r) (CHR 0x0A) = (1, ctx')"
    using f(2) by (cases "pconf_char (feed ctx ?r) (CHR 0x0A)") auto
  have all: "feed ctx ?m = ctx'" using ctx' by (simp add: message_def feed_append)
  let ?c = "c\<lparr>uc_in := nl, uc_ctx := feed ctx ?r\<rparr>" and ?c' = "half_read ctx ts (length ?m) c"
  have upd: "(d\<lparr>us_conns := (us_conns d)[i := ?c]\<rparr>)\<lparr>us_conns := (us_conns d)[i := ?c']\<rparr> = d\<lparr>us_conns := (us_conns d)[i := ?c']\<rparr>"
    by simp
  have n: "length (drop k ?r) + Suc (US_MAX_READ - Suc (length (drop k ?r))) = US_MAX_READ"
    using k assms(4,5) by simp
  have "us_sock_read now (length (drop k ?r) + Suc (US_MAX_READ - Suc (length (drop k ?r)))) d i =
      us_sock_read now (Suc (US_MAX_READ - Suc (length (drop k ?r)))) (d\<lparr>us_conns := (us_conns d)[i := ?c]\<rparr>) i"
    using assms(6,7) q tk by (subst us_sock_read_quiet [where ys = nl]) (simp_all add: half_read_def)
  also have "\<dots> = sbind (us_sock_arg now (d\<lparr>us_conns := (us_conns d)[i := ?c']\<rparr>) i) (\<lambda>(d2, known).
           Inr (if known then d2 else us_send_to_one d2 i (''ERR UNKNOWN'' @ nl), 1))"
    using assms(6) ctx' all by (simp add: half_read_def)
  also have "\<dots> = Inr ((us_apply now (map tok_word ts) d)\<lparr>us_conns := (us_conns d)[i :=
             us_told (us_answer (map tok_word ts)) ?c']\<rparr>, 1)"
    using us_line_handled [OF assms(3), of "d\<lparr>us_conns := (us_conns d)[i := ?c']\<rparr>" i now] f(4,5) assms(6,8) all
    by (simp add: us_apply_conns)
  finally show ?thesis unfolding n .
qed

lemma us_line_delivered:
  assumes "us_ctx_ready ctx" "us_msg_ok ts" "us_line_ok (map tok_word ts)" "wplan (uc_sock c) = []"
    and "list_all us_calm_round (es @ [e])" "k + US_MAX_READ * length es < length (message ts)"
      "length (message ts) \<le> k + US_MAX_READ * (length es + 1)"
    and "i < length (us_conns d)" "us_conns d ! i = half_read ctx ts k c" "others_quiet d i"
    and "\<not> us_exited (fold checktimers (map us_now es) (us_core d))"
  shows "\<exists>d'. us_run d (es @ [e]) = Inr d' \<and>
     us_core d' = checktimers (us_now e) (us_apply (us_read_at e) (map tok_word ts)
       (fold checktimers (map us_now es) (us_core d))) \<and>
     i < length (us_conns d') \<and> us_conns d' ! i = us_told (us_answer (map tok_word ts)) (half_read ctx ts (length (message ts)) c)"
  using assms(5-)
proof (induction es arbitrary: k d)
  case Nil
  let ?c = "us_told (us_answer (map tok_word ts)) (half_read ctx ts (length (message ts)) c)"
  have rdy: "us_ready (us_conns d ! i)" using Nil by (simp add: us_ready_def)
  obtain d' where d': "us_step d e = Inr d'" "us_core d' = checktimers (us_now e) (us_apply (us_read_at e) (map tok_word ts) (us_core d))"
    "i < length (us_conns d')" "us_conns d' ! i = ?c" "others_quiet d' i"
  proof (rule us_round_one [where f = "us_apply (us_read_at e) (map tok_word ts)" and c = ?c and r = 1])
    fix d0 assume d0: "us_core d0 = us_core d" "i < length (us_conns d0)" "us_conns d0 ! i = us_conns d ! i"
    show "us_sock_read (us_read_at e) US_MAX_READ d0 i =
        Inr ((us_apply (us_read_at e) (map tok_word ts) d0)\<lparr>us_conns := (us_conns d0)[i := ?c]\<rparr>, 1)"
      by (rule us_read_last [OF assms(1-3) _ _ d0(2) _ assms(4)]) (use Nil d0 in auto)
  qed (use Nil rdy in auto)
  then show ?case by simp
next
  case (Cons e1 es)
  have k: "k + US_MAX_READ < length (message ts)" using Cons.prems(2) by simp
  have ex: "\<not> us_exited (us_core d)"
  proof
    have keep: "us_exited d \<Longrightarrow> us_exited (fold checktimers xs d)" for xs d by (induction xs arbitrary: d) simp_all
    assume "us_exited (us_core d)"
    then show False using Cons.prems(7) keep by blast
  qed
  have rdy: "us_ready (us_conns d ! i)" using Cons.prems k by (simp add: us_ready_def)
  obtain d1 where d1: "us_step d e1 = Inr d1" "us_core d1 = checktimers (us_now e1) (us_core d)"
    "i < length (us_conns d1)" "us_conns d1 ! i = half_read ctx ts (k + US_MAX_READ) c" "others_quiet d1 i"
  proof (rule us_round_one [where f = "\<lambda>d. d" and c = "half_read ctx ts (k + US_MAX_READ) c" and r = 0])
    fix d0 assume d0: "us_core d0 = us_core d" "i < length (us_conns d0)" "us_conns d0 ! i = us_conns d ! i"
    show "us_sock_read (us_read_at e1) US_MAX_READ d0 i =
        Inr (d0\<lparr>us_conns := (us_conns d0)[i := half_read ctx ts (k + US_MAX_READ) c]\<rparr>, 0)"
      by (rule us_read_piece [OF assms(1,2) k d0(2)]) (use Cons.prems d0 in simp)
  qed (use Cons.prems rdy ex in auto)
  show ?case
    using Cons.IH [OF _ _ _ d1(3,4,5)] Cons.prems d1(1,2) by (simp add: algebra_simps)
qed

text \<open>The bytes of a round have arrived before the connections are looked at.\<close>

lemma us_step_arrived:
  "\<not> us_exited d \<Longrightarrow> us_step d (UsRound acc arr t t') =
     us_step (d\<lparr>us_conns := us_arrive arr (us_conns d)\<rparr>) (UsRound acc [] t t')"
  by (simp add: us_step_def us_arrive_def)

lemma us_arrive_one:
  assumes "i < length cs"
  shows "us_arrive (replicate i ([], False) @ [(l, False)]) cs = cs[i := us_receive (cs ! i) (l, False)]"
  using assms
proof (induction i arbitrary: cs)
  case 0
  then show ?case by (cases cs) (simp_all add: us_arrive_def)
next
  case (Suc i)
  then obtain c cs' where cs: "cs = c # cs'" "i < length cs'" by (cases cs) auto
  with Suc.IH [OF cs(2)] show ?case by (simp add: us_arrive_def)
qed

text \<open>The line arrives with the first round of \<open>evs\<close>, nothing arrives in the others, and the last of
  them reads its newline.\<close>

definition us_rounds :: "nat \<Rightarrow> string \<Rightarrow> us_event list \<Rightarrow> bool" where
  "us_rounds i l evs \<longleftrightarrow>
     (case evs of
        UsRound acc arr t t' # es \<Rightarrow> arr = replicate i ([], False) @ [(l, False)] \<and> list_all us_calm_round es \<and>
          length es = (length l - 1) div US_MAX_READ
      | _ \<Rightarrow> False)"

lemma us_message_arrives:
  assumes "us_ctx_ready (uc_ctx (us_conns d ! i))" "uc_in (us_conns d ! i) = []" "wplan (uc_sock (us_conns d ! i)) = []"
    and "i < length (us_conns d)" "us_quiet d" "us_msg_ok ts" "us_line_ok (map tok_word ts)"
    and "us_rounds i (message ts) evs"
    and "\<not> us_exited d" "\<not> us_exited (fold checktimers (map us_now (butlast evs)) (us_core d))"
  obtains d' where "us_run d evs = Inr d'"
    "us_core d' = checktimers (us_now (last evs)) (us_apply (us_read_at (last evs)) (map tok_word ts)
       (fold checktimers (map us_now (butlast evs)) (us_core d)))"
    "sent (uc_sock (us_conns d' ! i)) = sent (uc_sock (us_conns d ! i)) @ [us_answer (map tok_word ts)]"
proof -
  let ?c = "us_conns d ! i" and ?m = "message ts"
  from assms(8) obtain acc arr t t' es where evs: "evs = UsRound acc arr t t' # es"
    "arr = replicate i ([], False) @ [(?m, False)]" "list_all us_calm_round es" "length es = (length ?m - 1) div US_MAX_READ"
    by (auto simp: us_rounds_def split: list.splits us_event.splits)
  let ?d = "d\<lparr>us_conns := (us_conns d)[i := us_receive ?c (?m, False)]\<rparr>" and ?evs = "UsRound acc [] t t' # es"
  have run: "us_run d evs = us_run ?d ?evs"
    using assms(4,9) by (simp add: evs(1) us_step_arrived [OF assms(9)] evs(2) us_arrive_one)
  have rc: "us_receive ?c (?m, False) = half_read (uc_ctx ?c) ts 0 ?c"
    using assms(2,5) assms(4) by (cases ?c) (auto simp: us_receive_def half_read_def us_quiet_def us_ready_def)
  have split: "?evs = butlast ?evs @ [last ?evs]" by simp
  have len: "US_MAX_READ * length (butlast ?evs) < length ?m" "length ?m \<le> US_MAX_READ * (length (butlast ?evs) + 1)"
  proof -
    have b: "length (butlast ?evs) = length es" by simp
    have "0 < length ?m" by (simp add: message_def)
    then show "US_MAX_READ * length (butlast ?evs) < length ?m"
      unfolding b evs(4) using times_div_less_eq_dividend [of US_MAX_READ "length ?m - 1"] by linarith
    show "length ?m \<le> US_MAX_READ * (length (butlast ?evs) + 1)"
      unfolding b evs(4) using dividend_less_times_div [of US_MAX_READ "length ?m - 1"] by (simp add: US_MAX_READ_def)
  qed
  have now: "map us_now (butlast ?evs) = map us_now (butlast evs)" "us_now (last ?evs) = us_now (last evs)"
    "us_read_at (last ?evs) = us_read_at (last evs)"
    by (auto simp: evs(1))
  have "\<exists>d'. us_run ?d (butlast ?evs @ [last ?evs]) = Inr d' \<and>
     us_core d' = checktimers (us_now (last ?evs)) (us_apply (us_read_at (last ?evs)) (map tok_word ts)
       (fold checktimers (map us_now (butlast ?evs)) (us_core ?d))) \<and>
     i < length (us_conns d') \<and>
     us_conns d' ! i = us_told (us_answer (map tok_word ts)) (half_read (uc_ctx ?c) ts (length ?m) ?c)"
  proof (rule us_line_delivered [OF assms(1,6,7,3), where k = 0])
    show "list_all us_calm_round (butlast ?evs @ [last ?evs])" unfolding split [symmetric] using evs(3) by simp
    show "us_conns ?d ! i = half_read (uc_ctx ?c) ts 0 ?c" using assms(4) rc by simp
    show "others_quiet ?d i" using assms(5) by (simp add: us_quiet_def)
    show "\<not> us_exited (fold checktimers (map us_now (butlast ?evs)) (us_core ?d))"
      unfolding now using assms(10) by simp
  qed (use len assms(4) in simp_all)
  then obtain d' where d': "us_run ?d ?evs = Inr d'" "us_core d' = checktimers (us_now (last ?evs)) (us_apply (us_read_at (last ?evs)) (map tok_word ts)
       (fold checktimers (map us_now (butlast ?evs)) (us_core ?d)))"
     "us_conns d' ! i = us_told (us_answer (map tok_word ts)) (half_read (uc_ctx ?c) ts (length ?m) ?c)"
    unfolding split [symmetric] by blast
  have "us_core d' = checktimers (us_now (last evs)) (us_apply (us_read_at (last evs)) (map tok_word ts)
       (fold checktimers (map us_now (butlast evs)) (us_core d)))"
    using d'(2) unfolding now by simp
  then show ?thesis
    by (rule that [rotated]) (use run d'(1,3) in \<open>simp_all add: now us_told_def\<close>)
qed

section \<open>The client's request\<close>

definition us_toks :: "string \<Rightarrow> string \<Rightarrow> string option \<Rightarrow> tok list" where
  "us_toks cmd arg1 arg2 =
     [Plain cmd, Quoted arg1] @ (case arg2 of None \<Rightarrow> [] | Some a \<Rightarrow> [Quoted a])"

text \<open>Printable arguments that fit into the buffer once they are escaped.\<close>

definition us_args_ok :: "string \<Rightarrow> string option \<Rightarrow> bool" where
  "us_args_ok arg1 arg2 \<longleftrightarrow> list_all word_char arg1 \<and>
     (case arg2 of None \<Rightarrow> length (escape arg1) \<le> 490
      | Some a \<Rightarrow> list_all word_char a \<and> length (escape arg1) + length (escape a) \<le> 490)"

lemma encode_fits: "list_all word_char a \<Longrightarrow> length (escape a) \<le> 490 \<Longrightarrow> pconf_encode a SMALLBUF = escape a"
proof -
  assume a: "list_all word_char a" "length (escape a) \<le> 490"
  then have "no_nul a" by (auto simp: list_all_iff)
  with a show ?thesis
    using pconf_encode_eq [of SMALLBUF a] enc_fit_full [of a "SMALLBUF - 1"] by (simp add: SMALLBUF_def)
qed

lemma us_request_message:
  assumes "us_args_ok arg1 arg2" "cmd = ''START'' \<or> cmd = ''CANCEL''"
  shows "us_request cmd arg1 arg2 = message (us_toks cmd arg1 arg2)" "us_msg_ok (us_toks cmd arg1 arg2)"
proof -
  have cmd: "plain_word cmd" "length cmd \<le> 6" using assms(2) by (auto simp: plain_char_def pconf_escape_def)
  from assms(1) have e: "list_all word_char arg1" "length (escape arg1) \<le> 490" "\<And>a. arg2 = Some a \<Longrightarrow> list_all word_char a"
    "\<And>a. arg2 = Some a \<Longrightarrow> length (escape arg1) + length (escape a) \<le> 490"
    by (auto simp: us_args_ok_def split: option.splits)
  show "us_request cmd arg1 arg2 = message (us_toks cmd arg1 arg2)"
    using e cmd encode_fits [OF e(1,2)]
    by (cases arg2) (auto simp: us_request_def us_toks_def message_def encode_fits [unfolded SMALLBUF_def] SMALLBUF_def snprintf_def snprintfcat_def Let_def)
  show "us_msg_ok (us_toks cmd arg1 arg2)"
    using e cmd escape_length [of arg1] escape_length [of "the arg2"]
    by (auto simp: msg_ok_def us_toks_def PCONF_DEFAULT_ARG_LIMIT_def PCONF_DEFAULT_WORDLEN_LIMIT_def split: option.splits)
qed

lemma MAX_TRIES_Suc: obtains n where "MAX_TRIES = Suc n"
  by (rule that [of 29]) (simp add: MAX_TRIES_def)

lemma check_parent_connected:
  assumes "env (cs_attempts s) = Connects w r"
  shows "us_check_parent MAX_TRIES env cmd arg2 s = (s\<lparr>cs_attempts := cs_attempts s + 1\<rparr>, ParentFd w r)"
proof -
  obtain n where n: "MAX_TRIES = Suc n" by (rule MAX_TRIES_Suc)
  show ?thesis unfolding n using assms by simp
qed

lemma sendcmd_confirmed:
  assumes "env (cs_attempts s) = Connects True (''OK'' @ rest)"
  shows "sendcmd env cmd (Some arg1) arg2 s =
     cs_do (Requested (us_request cmd arg1 arg2)) (s\<lparr>cs_attempts := cs_attempts s + 1\<rparr>)"
proof -
  have "sendcmd_loop (Suc n) env cmd arg2 enc s = cs_do (Requested enc) (s\<lparr>cs_attempts := cs_attempts s + 1\<rparr>)" for n enc
    using check_parent_connected [where env = env and s = s, OF assms] by (simp add: strneq_def SMALLBUF_def)
  then show ?thesis by (metis MAX_TRIES_Suc option.simps(5) sendcmd_def)
qed

text \<open>A daemon that answers something else is asked again.\<close>

lemma sendcmd_loop_refused:
  assumes "\<And>k. \<exists>r. env k = Connects True r \<and> take 2 r \<noteq> ''OK''"
  shows "sendcmd_loop n env cmd arg2 enc s =
     cs_fatal ''Unable to connect to daemon and unable to start daemon''
       (s\<lparr>cs_attempts := cs_attempts s + n, cs_effects := cs_effects s @ replicate n (Requested enc)\<rparr>)"
proof (induction n arbitrary: s)
  case (Suc n)
  obtain r where r: "env (cs_attempts s) = Connects True r" "take 2 r \<noteq> ''OK''" using assms by blast
  have "sendcmd_loop (Suc n) env cmd arg2 enc s =
      sendcmd_loop n env cmd arg2 enc (cs_do (Requested enc) (s\<lparr>cs_attempts := cs_attempts s + 1\<rparr>))"
    using check_parent_connected [where env = env and s = s, OF r(1)] r(2) by (auto simp: strneq_def SMALLBUF_def Let_def min_def)
  then show ?case by (simp add: Suc.IH cs_do_def replicate_append_same flip: replicate_append_same)
qed (simp add: cs_fatal_def)

section \<open>The configuration file\<close>

text \<open>An AT line: notification, UPS, command and its one or two arguments.\<close>

type_synonym at_line = "string \<times> string \<times> string \<times> string \<times> string option"

fun at_toks :: "at_line \<Rightarrow> tok list" where
  "at_toks (ntype, un, cmd, a1, a2) =
     [Plain ''AT'', Quoted ntype, Quoted un, Quoted cmd, Quoted a1] @ (case a2 of None \<Rightarrow> [] | Some a \<Rightarrow> [Quoted a])"

text \<open>Does the line fit the UPS and the notification of this run?\<close>

fun at_fits :: "string \<Rightarrow> string \<Rightarrow> at_line \<Rightarrow> bool" where
  "at_fits upsname notify (ntype, un, cmd, a1, a2) =
     ((un = upsname \<or> un = ''*'') \<and> strcaseeq notify ntype)"

definition sched_toks :: "string \<Rightarrow> string \<Rightarrow> string \<Rightarrow> at_line list \<Rightarrow> tok list list" where
  "sched_toks script pipe lock ats =
     [[Plain ''CMDSCRIPT'', Quoted script], [Plain ''PIPEFN'', Quoted pipe], [Plain ''LOCKFN'', Quoted lock]] @ map at_toks ats"

definition sched_conf :: "string \<Rightarrow> string \<Rightarrow> string \<Rightarrow> at_line list \<Rightarrow> string" where
  "sched_conf script pipe lock ats = concat (map message (sched_toks script pipe lock ats))"

definition sched_conf_ok :: "string \<Rightarrow> string \<Rightarrow> string \<Rightarrow> at_line list \<Rightarrow> bool" where
  "sched_conf_ok script pipe lock ats \<longleftrightarrow> list_all us_msg_ok (sched_toks script pipe lock ats)"

definition us_client_at :: "string \<Rightarrow> string \<Rightarrow> string \<Rightarrow> string \<Rightarrow> string \<Rightarrow> us_client" where
  "us_client_at script pipe lock upsname notify =
     \<lparr>cs_cmdscript = Some script, cs_pipefn = Some pipe, cs_lockfn = Some lock, cs_upsname = upsname,
      cs_notify = notify, cs_attempts = 0, cs_effects = [], cs_failed = None\<rparr>"

definition at_line_run :: "(nat \<Rightarrow> us_attempt) \<Rightarrow> us_client \<Rightarrow> at_line \<Rightarrow> us_client" where
  "at_line_run env s at = us_conf_line env (map tok_word (at_toks at)) s"

text \<open>Reading the file is going through its AT lines in order.\<close>

lemma upssched_main_lines:
  assumes "sched_conf_ok script pipe lock ats"
    and "fopen (snprintf SMALLBUF (confpath @ ''/upssched.conf'')) = Inr (sched_conf script pipe lock ats)"
  shows "upssched_main env fopen confpath old (Some upsname) (Some notify) =
     foldl (at_line_run env) (us_client_at script pipe lock upsname notify) ats"
proof -
  let ?tss = "sched_toks script pipe lock ats"
  let ?ctx = "(pconf_init old)\<lparr>pc_f := Some (concat (map message ?tss))\<rparr>"
  have beg: "pconf_file_begin fopen (pconf_init old) (snprintf SMALLBUF (confpath @ ''/upssched.conf'')) = (1, ?ctx)"
    using assms(2) by (simp add: pconf_file_begin_def check_magic_def sched_conf_def) (simp add: pconf_init_def)
  have "pconf_live 32 512 ?ctx" using pconf_init_live [of old] by (simp add: pconf_live_def)
  moreover have "list_all (msg_ok 32 512) ?tss"
    using assms(1) by (simp add: sched_conf_ok_def PCONF_DEFAULT_ARG_LIMIT_def PCONF_DEFAULT_WORDLEN_LIMIT_def)
  ultimately have "snd (read_lines (\<lambda>ctx. us_conf_line env (pconf_words ctx)) ?ctx s) =
      foldl (\<lambda>s ts. us_conf_line env (map tok_word ts) s) s ?tss" for s
    by (intro read_lines_messages) (simp_all add: pconf_init_def)
  then show ?thesis
    by (simp add: upssched_main_def checkconf_def beg sched_toks_def us_conf_line_def us_conf_arg_def
        us_client_at_def foldl_map at_line_run_def [abs_def])
qed

lemma check_parent_settings:
  "cs_upsname (fst (us_check_parent n env cmd a s)) = cs_upsname s" "cs_notify (fst (us_check_parent n env cmd a s)) = cs_notify s"
  "cs_cmdscript (fst (us_check_parent n env cmd a s)) = cs_cmdscript s" "cs_pipefn (fst (us_check_parent n env cmd a s)) = cs_pipefn s"
  "cs_lockfn (fst (us_check_parent n env cmd a s)) = cs_lockfn s"
  by (induction n arbitrary: s) (auto simp: cs_fatal_def cs_do_def Let_def split: us_attempt.splits us_lock.splits)

definition same_settings :: "us_client \<Rightarrow> us_client \<Rightarrow> bool" where
  "same_settings s t \<longleftrightarrow> cs_upsname s = cs_upsname t \<and> cs_notify s = cs_notify t \<and> cs_cmdscript s = cs_cmdscript t \<and>
     cs_pipefn s = cs_pipefn t \<and> cs_lockfn s = cs_lockfn t"

lemma sendcmd_loop_settings: "same_settings (sendcmd_loop n env cmd a enc s) s"
proof (induction n arbitrary: s)
  case (Suc n)
  obtain s1 p where p: "us_check_parent MAX_TRIES env cmd a s = (s1, p)" by force
  have s1: "same_settings s1 s"
    using check_parent_settings [of MAX_TRIES env cmd a s] p by (simp add: same_settings_def)
  have trans: "same_settings (sendcmd_loop n env cmd a enc t) s" if "same_settings t s" for t
    using Suc [of t] that by (simp add: same_settings_def)
  have s2: "same_settings (cs_do e s1) s" for e using s1 by (simp add: same_settings_def cs_do_def)
  show ?case using s1 s2 trans by (auto simp: p Let_def split: us_parent.splits)
qed (simp add: cs_fatal_def same_settings_def)

lemma at_line_run_eq:
  "at_line_run env s (n, u, cmd, a1, a2) =
     (if cs_failed s \<noteq> None then s else parse_at env n u cmd (Some a1) a2 s)"
  by (cases a2) (simp_all add: at_line_run_def us_conf_line_def us_conf_arg_def)

lemma at_line_settings: "same_settings (at_line_run env s at) s"
proof -
  have "same_settings (sendcmd env cmd a b s) s" for cmd a b
    using sendcmd_loop_settings by (simp add: sendcmd_def same_settings_def split: option.splits)
  then show ?thesis
    by (cases at; cases "cs_cmdscript s") (auto simp: at_line_run_eq parse_at_def same_settings_def cs_fatal_def cs_do_def)
qed

text \<open>Lines for other UPSes or notifications do nothing.\<close>

lemma at_lines_filter:
  "cs_cmdscript s \<noteq> None \<Longrightarrow> cs_pipefn s \<noteq> None \<Longrightarrow> cs_lockfn s \<noteq> None \<Longrightarrow>
   foldl (at_line_run env) s ats = foldl (at_line_run env) s (filter (at_fits (cs_upsname s) (cs_notify s)) ats)"
proof (induction ats arbitrary: s)
  case (Cons at ats)
  note k = at_line_settings [of env s at, unfolded same_settings_def]
  have skip: "at_line_run env s at = s" if "\<not> at_fits (cs_upsname s) (cs_notify s) at"
  proof -
    obtain script pipe lock where "cs_cmdscript s = Some script" "cs_pipefn s = Some pipe" "cs_lockfn s = Some lock"
      using Cons.prems by blast
    with that show ?thesis by (cases at) (auto simp: at_line_run_eq parse_at_def)
  qed
  have "foldl (at_line_run env) (at_line_run env s at) ats =
      foldl (at_line_run env) (at_line_run env s at) (filter (at_fits (cs_upsname s) (cs_notify s)) ats)"
    using Cons.IH [of "at_line_run env s at"] Cons.prems by (simp only: k simp_thms)
  with skip show ?case by (cases "at_fits (cs_upsname s) (cs_notify s) at") simp_all
qed simp

lemma at_line_timer:
  assumes "cs_cmdscript s \<noteq> None" "cs_pipefn s \<noteq> None" "cs_lockfn s \<noteq> None" "cs_failed s = None"
    "at_fits (cs_upsname s) (cs_notify s) (n, u, cmd, a1, a2)"
  shows "cmd = ''START-TIMER'' \<Longrightarrow> at_line_run env s (n, u, cmd, a1, a2) = sendcmd env ''START'' (Some a1) a2 s"
    and "cmd = ''CANCEL-TIMER'' \<Longrightarrow> at_line_run env s (n, u, cmd, a1, a2) = sendcmd env ''CANCEL'' (Some a1) a2 s"
proof -
  obtain script pipe lock where "cs_cmdscript s = Some script" "cs_pipefn s = Some pipe" "cs_lockfn s = Some lock"
    using assms(1-3) by blast
  with assms(4,5) show "cmd = ''START-TIMER'' \<Longrightarrow> at_line_run env s (n, u, cmd, a1, a2) = sendcmd env ''START'' (Some a1) a2 s"
    "cmd = ''CANCEL-TIMER'' \<Longrightarrow> at_line_run env s (n, u, cmd, a1, a2) = sendcmd env ''CANCEL'' (Some a1) a2 s"
    by (auto simp: at_line_run_eq parse_at_def)
qed

section \<open>The states of the daemon\<close>

text \<open>What holds inside a round, and what holds between rounds.\<close>

definition us_busy_ok :: "us_daemon \<Rightarrow> bool" where
  "us_busy_ok d \<longleftrightarrow> (\<forall>c\<in>set (us_conns d). pconf_live 32 512 (uc_ctx c)) \<and> 0 \<le> emptyctr d \<and> emptyctr d < EMPTY_WAIT \<and>
     \<not> us_exited d \<and> (\<forall>l\<in>set (us_ran d). length l < LARGEBUF)"

definition us_round_ok :: "us_daemon \<Rightarrow> bool" where
  "us_round_ok d \<longleftrightarrow> (\<forall>c\<in>set (us_conns d). pconf_live 32 512 (uc_ctx c)) \<and> 0 \<le> emptyctr d \<and> emptyctr d \<le> EMPTY_WAIT \<and>
     (us_exited d \<longleftrightarrow> emptyctr d = EMPTY_WAIT) \<and> (0 < emptyctr d \<longrightarrow> thead d = []) \<and>
     (\<forall>l\<in>set (us_ran d). length l < LARGEBUF)"

lemma exec_line_length: "length (exec_line s c) < LARGEBUF"
  by (simp add: exec_line_def snprintf_length LARGEBUF_def)

lemma us_round_busy: "us_round_ok d \<Longrightarrow> \<not> us_exited d \<Longrightarrow> us_busy_ok d"
  by (auto simp: us_round_ok_def us_busy_ok_def)

lemma checktimers_ok: "us_busy_ok d \<Longrightarrow> us_round_ok (checktimers t d)"
  using exec_line_length by (auto simp: us_busy_ok_def us_round_ok_def)

lemma us_busy_conns:
  "us_busy_ok d \<Longrightarrow> \<forall>c\<in>set cs. pconf_live 32 512 (uc_ctx c) \<Longrightarrow> us_busy_ok (d\<lparr>us_conns := cs\<rparr>)"
  by (simp add: us_busy_ok_def)

lemma us_busy_ctx: "us_busy_ok d \<Longrightarrow> c \<in> set (us_conns d) \<Longrightarrow> pconf_live 32 512 (uc_ctx c)"
  by (simp add: us_busy_ok_def)

lemma us_conn_del_ok: "us_busy_ok d \<Longrightarrow> us_busy_ok (us_conn_del d i)"
  unfolding us_conn_del_def by (rule us_busy_conns) (auto dest!: in_set_takeD in_set_dropD intro: us_busy_ctx)

lemma us_busy_update:
  "us_busy_ok d \<Longrightarrow> pconf_live 32 512 (uc_ctx c) \<Longrightarrow> us_busy_ok (d\<lparr>us_conns := (us_conns d)[i := c]\<rparr>)"
  by (rule us_busy_conns) (auto dest!: set_update_subset [THEN subsetD] intro: us_busy_ctx)

lemma us_send_ok_inv: "us_busy_ok d \<Longrightarrow> i < length (us_conns d) \<Longrightarrow> us_busy_ok (us_send_to_one d i txt)"
  by (auto simp: us_send_to_one_def Let_def us_conn_del_ok us_busy_ctx intro!: us_busy_update split: prod.splits)

lemma us_timer_ops_ok:
  "us_busy_ok d \<Longrightarrow> us_busy_ok (cancel_timer n c d)" "us_busy_ok d \<Longrightarrow> us_busy_ok (start_timer t n x d)"
  using exec_line_length
  by (auto simp: us_busy_ok_def cancel_timer_def start_timer_def us_exec_cmd_def removetimer_def Let_def split: option.splits)

lemma us_sock_arg_ok:
  assumes "us_busy_ok d" "i < length (us_conns d)" "us_sock_arg now d i = Inr (d', known)"
  shows "us_busy_ok d' \<and> (\<not> known \<longrightarrow> d' = d)"
  using assms us_send_ok_inv us_timer_ops_ok
  by (auto simp: us_sock_arg_def Let_def split: if_splits)

lemma us_sock_read_ok:
  "us_busy_ok d \<Longrightarrow> i < length (us_conns d) \<Longrightarrow> us_sock_read now n d i = Inr (d', r) \<Longrightarrow> us_busy_ok d'"
proof (induction n arbitrary: d)
  case (Suc n)
  let ?c = "us_conns d ! i"
  show ?case
  proof (cases "uc_in ?c")
    case Nil
    with Suc.prems show ?thesis by simp
  next
    case (Cons ch rest)
    obtain q ctx where q: "pconf_char (uc_ctx ?c) ch = (q, ctx)" by force
    let ?d = "d\<lparr>us_conns := (us_conns d)[i := ?c\<lparr>uc_in := rest, uc_ctx := ctx\<rparr>]\<rparr>"
    have "pconf_live 32 512 (uc_ctx ?c)" using Suc.prems(1,2) by (simp add: us_busy_ctx)
    then have "pconf_live 32 512 ctx" using pconf_char_abs(2) [of 32 512 "uc_ctx ?c" ch] q by simp
    then have d: "us_busy_ok ?d" using us_busy_update [OF Suc.prems(1)] by simp
    consider "q = 0" | "q = -1" | "q \<noteq> 0" "q \<noteq> -1" by blast
    then show ?thesis
    proof cases
      case 1
      then show ?thesis using Suc.IH [OF d] Suc.prems q Cons by simp
    next
      case 2
      then show ?thesis using Suc.prems q Cons d by simp
    next
      case 3
      then obtain d2 known where d2: "us_sock_arg now ?d i = Inr (d2, known)"
        "d' = (if known then d2 else us_send_to_one d2 i (''ERR UNKNOWN'' @ nl))"
        using Suc.prems(3) q Cons by (auto simp: Let_def)
      have i: "i < length (us_conns ?d)" using Suc.prems(2) by simp
      show ?thesis
        using us_sock_arg_ok [OF d i d2(1)] us_send_ok_inv [OF d i] d2(2) by (cases known) simp_all
    qed
  qed
qed simp

text \<open>A read drops at most the connection it reads.\<close>

lemma us_send_length: "length (us_conns d) - 1 \<le> length (us_conns (us_send_to_one d i txt))"
  by (auto simp: us_send_to_one_def us_conn_del_def Let_def split: prod.splits)

lemma us_sock_arg_length:
  assumes "us_sock_arg now d i = Inr (d', known)"
  shows "length (us_conns d) - 1 \<le> length (us_conns d') \<and> (\<not> known \<longrightarrow> d' = d)"
proof -
  have "length (us_conns d) - 1 \<le> length (us_conns (us_send_to_one d1 i l))" if "us_conns d1 = us_conns d" for d1 l
    using us_send_length [of d1] that by simp
  with assms show ?thesis by (auto simp: us_sock_arg_def Let_def split: if_splits)
qed

lemma us_sock_read_length:
  "i < length (us_conns d) \<Longrightarrow> us_sock_read now n d i = Inr (d', r) \<Longrightarrow>
   length (us_conns d) - 1 \<le> length (us_conns d') \<and> (r < 0 \<longrightarrow> length (us_conns d') = length (us_conns d))"
proof (induction n arbitrary: d)
  case (Suc n)
  let ?c = "us_conns d ! i"
  show ?case
  proof (cases "uc_in ?c")
    case Nil
    with Suc.prems show ?thesis by auto
  next
    case (Cons ch rest)
    obtain q ctx where q: "pconf_char (uc_ctx ?c) ch = (q, ctx)" by force
    let ?d = "d\<lparr>us_conns := (us_conns d)[i := ?c\<lparr>uc_in := rest, uc_ctx := ctx\<rparr>]\<rparr>"
    consider "q = 0" | "q = -1" | "q \<noteq> 0" "q \<noteq> -1" by blast
    then show ?thesis
    proof cases
      case 1
      then show ?thesis using Suc.IH [of ?d] Suc.prems q Cons by simp
    next
      case 2
      then show ?thesis using Suc.prems q Cons by auto
    next
      case 3
      then obtain d2 known where d2: "us_sock_arg now ?d i = Inr (d2, known)"
        "d' = (if known then d2 else us_send_to_one d2 i (''ERR UNKNOWN'' @ nl))" "r = 1"
        using Suc.prems(2) q Cons by (auto simp: Let_def)
      show ?thesis
        using us_sock_arg_length [OF d2(1)] us_send_length [of ?d i] d2(2,3) by (cases known) simp_all
    qed
  qed
qed simp

lemma us_poll_ok:
  "us_busy_ok d \<Longrightarrow> i + length bs \<le> length (us_conns d) \<Longrightarrow> us_poll now i bs d = Inr d' \<Longrightarrow> us_busy_ok d'"
proof (induction bs arbitrary: i d)
  case (Cons b bs)
  show ?case
  proof (cases b)
    case True
    then obtain d1 r where d1: "us_sock_read now US_MAX_READ d i = Inr (d1, r)"
      using Cons.prems(3) by auto
    let ?d2 = "if r < 0 then us_conn_del d1 i else d1"
    have i: "i < length (us_conns d)" using Cons.prems(2) by simp
    have ok: "us_busy_ok ?d2"
      using us_sock_read_ok [OF Cons.prems(1) i d1] us_conn_del_ok by simp
    have len: "length (us_conns d) - 1 \<le> length (us_conns ?d2)"
      using us_sock_read_length [OF i d1] by (auto simp: us_conn_del_def)
    let ?i = "if length (us_conns ?d2) < length (us_conns d) then i else Suc i"
    have "us_poll now ?i bs ?d2 = Inr d'" using Cons.prems(3) True d1 by (simp add: Let_def)
    moreover have "?i + length bs \<le> length (us_conns ?d2)"
      using len Cons.prems(2) unfolding list.size by presburger
    ultimately show ?thesis using Cons.IH [OF ok] by blast
  qed (use Cons.IH [OF Cons.prems(1), of "Suc i"] Cons.prems in simp)
qed simp

lemma us_arrive_ctx: "c \<in> set (us_arrive arr cs) \<Longrightarrow> \<exists>c0\<in>set cs. uc_ctx c = uc_ctx c0"
  by (auto simp: us_arrive_def us_receive_def dest: set_zip_leftD in_set_dropD)

lemma us_conn_add_ok: "us_busy_ok d \<Longrightarrow> us_busy_ok (us_conn_add d a)"
  using pconf_init_live by (auto simp: us_busy_ok_def us_conn_add_def split: option.splits)

lemma us_step_ok: assumes "us_round_ok d" "us_step d ev = Inr d'" shows "us_round_ok d'"
proof (cases "us_exited d")
  case True
  with assms show ?thesis by (simp add: us_step_def)
next
  case False
  note busy = us_round_busy [OF assms(1) False]
  show ?thesis
  proof (cases ev)
    case (UsSelectFails t)
    with assms(2) False checktimers_ok [OF busy] show ?thesis by (auto simp: us_step_def)
  next
    case (UsRound acc arr t t')
    let ?d0 = "d\<lparr>us_conns := us_arrive arr (us_conns d)\<rparr>"
    let ?d1 = "case acc of None \<Rightarrow> ?d0 | Some a \<Rightarrow> us_conn_add ?d0 a"
    have "us_busy_ok ?d0"
      by (rule us_busy_conns [OF busy]) (use us_arrive_ctx us_busy_ctx [OF busy] in fastforce)
    then have d1: "us_busy_ok ?d1" using us_conn_add_ok by (simp split: option.splits)
    from assms(2) False UsRound obtain d2 where
      d2: "us_poll t 0 (map us_ready (us_conns ?d0)) ?d1 = Inr d2" "d' = checktimers t' d2"
      by (auto simp: us_step_def Let_def)
    have "us_busy_ok d2"
      by (rule us_poll_ok [OF d1 _ d2(1)]) (auto simp: us_conn_add_def split: option.splits)
    with d2(2) show ?thesis by (simp add: checktimers_ok)
  qed
qed

text \<open>A daemon that has read outside its memory is not followed further.\<close>

definition us_daemon_step :: "fault + us_daemon \<Rightarrow> us_event \<Rightarrow> fault + us_daemon" where
  "us_daemon_step so ev = sbind so (\<lambda>d. us_step d ev)"

definition us_inv :: "fault + us_daemon \<Rightarrow> bool" where
  "us_inv so = (case so of Inl _ \<Rightarrow> True | Inr d \<Rightarrow> us_round_ok d)"

interpretation timer_daemon: event_loop "\<lambda>so. \<exists>script. so = Inr (us_daemon_start script)" us_daemon_step us_inv
proof
  fix so :: "fault + us_daemon" assume "\<exists>script. so = Inr (us_daemon_start script)"
  then show "us_inv so" by (auto simp: us_inv_def us_round_ok_def us_daemon_start_def EMPTY_WAIT_def)
next
  fix so e assume "us_inv so"
  then show "us_inv (us_daemon_step so e)"
    using us_step_ok by (auto simp: us_inv_def us_daemon_step_def split: sum.splits)
qed

section \<open>Properties\<close>

text \<open>In every state that the daemon reaches it has ended exactly when fifteen rounds in a row had no
  timer, the parsers of its connections are in order, and every line given to the system fits its
  buffer.\<close>

theorem timer_daemon_ok:
  assumes "foldl us_daemon_step (Inr (us_daemon_start script)) evs = Inr d"
  shows "us_round_ok d"
  using timer_daemon.init_run_inv [of "Inr (us_daemon_start script)" evs] assms by (auto simp: us_inv_def)

text \<open>A request without a confirmation is sent again, and the daemon cannot tell that it has started the
  timer already: it starts a second one of the same name, and CANCEL takes away only the first.\<close>

theorem late_confirmation_doubles_timer:
  assumes "env (cs_attempts s) = Connects True []" "env (cs_attempts s + 1) = Connects True (''OK'' @ nl)" "0 \<le> atoi x"
  shows "cs_effects (sendcmd env ''START'' (Some name) (Some x) s) =
           cs_effects s @ replicate 2 (Requested (us_request ''START'' name (Some x))) \<and>
         thead (cancel_timer name c (start_timer t' name x (start_timer t name x (us_daemon_start script)))) =
           [\<lparr>tt_name = name, tt_etime = t' + atoi x\<rparr>]"
proof -
  let ?enc = "us_request ''START'' name (Some x)"
  let ?s = "cs_do (Requested ?enc) (s\<lparr>cs_attempts := cs_attempts s + 1\<rparr>)"
  have s: "env (cs_attempts ?s) = Connects True (''OK'' @ nl)" using assms(2) by (simp add: cs_do_def)
  have "sendcmd_loop (Suc (Suc n)) env ''START'' (Some x) ?enc s =
      cs_do (Requested ?enc) (?s\<lparr>cs_attempts := cs_attempts ?s + 1\<rparr>)" for n
    using check_parent_connected [where env = env and s = s, OF assms(1)] check_parent_connected [where env = env and s = ?s, OF s]
    by (simp add: strneq_def SMALLBUF_def)
  moreover have "MAX_TRIES = Suc (Suc 28)" by (simp add: MAX_TRIES_def)
  ultimately have "sendcmd env ''START'' (Some name) (Some x) s = cs_do (Requested ?enc) (?s\<lparr>cs_attempts := cs_attempts ?s + 1\<rparr>)"
    by (metis option.simps(5) sendcmd_def)
  with assms(3) show ?thesis
    by (simp add: cs_do_def numeral_eq_Suc cancel_timer_def start_timer_def removetimer_def us_daemon_start_def Let_def)
qed

text \<open>C14: While no client says anything, every timer is run exactly once, in the first round at which its
  time has come, those of one round in the order in which they were started; it is then gone, and the
  timers whose time has not come remain.\<close>

theorem timers_run_once:
  assumes "\<not> us_exited d" "us_quiet d" "list_all us_calm evs"
  shows "\<exists>d'. us_run d evs = Inr d' \<and> thead d' = filter (\<lambda>t. \<forall>e\<in>set evs. us_now e < tt_etime t) (thead d) \<and>
           us_ran d' = us_ran d @ concat (map (ran_in_round evs d) [0..<length evs])"
  using timers_run [of d evs] assms by blast

definition demo_timers :: us_daemon where
  "demo_timers = (us_daemon_start ''run'')\<lparr>thead :=
     [\<lparr>tt_name = ''a'', tt_etime = 10\<rparr>, \<lparr>tt_name = ''b'', tt_etime = 5\<rparr>, \<lparr>tt_name = ''c'', tt_etime = 99\<rparr>]\<rparr>"

theorem timers_run_once_witness:
  "\<exists>d'. us_run demo_timers [UsSelectFails 4, UsRound None [] 6 6, UsSelectFails 12] = Inr d' \<and>
     thead d' = [\<lparr>tt_name = ''c'', tt_etime = 99\<rparr>] \<and> us_ran d' = [''run b'', ''run a'']"
proof -
  have "\<not> us_exited demo_timers" "us_quiet demo_timers" "list_all us_calm [UsSelectFails 4, UsRound None [] 6 6, UsSelectFails 12]"
    by (simp_all add: demo_timers_def us_daemon_start_def us_quiet_def)
  from timers_run_once [OF this] show ?thesis
    by (simp add: demo_timers_def us_daemon_start_def ran_in_round_def exec_line_def LARGEBUF_def upt_rec)
qed

text \<open>C13: An AT line that fits the notification becomes what it says. Let the configuration file have one
  line for this UPS and notification, START-TIMER with an interval or CANCEL-TIMER. Then upssched writes one
  request, and a daemon to which it comes on a fresh connection, while the other clients are silent,
  reads it in pieces of 128 bytes and starts or cancels exactly this timer, with the interval counted from the moment the
  line was complete, and confirms it; unless fifteen empty rounds have ended the daemon before.\<close>

theorem at_line_reaches_daemon:
  assumes "sched_conf_ok script pipe lock ats"
    and "fopen (snprintf SMALLBUF (confpath @ ''/upssched.conf'')) = Inr (sched_conf script pipe lock ats)"
    and "filter (at_fits upsname notify) ats = [(n, u, cmd, a1, a2)]" "us_args_ok a1 a2"
    and "cmd = ''START-TIMER'' \<and> a2 = Some x \<and> req = us_request ''START'' a1 a2 \<or>
         cmd = ''CANCEL-TIMER'' \<and> req = us_request ''CANCEL'' a1 a2"
    and "env 0 = Connects True (''OK'' @ nl)"
    and "i < length (us_conns d)" "us_ctx_ready (uc_ctx (us_conns d ! i))" "uc_in (us_conns d ! i) = []"
      "wplan (uc_sock (us_conns d ! i)) = []" "us_quiet d" "us_rounds i req evs" "\<not> us_exited d"
    and "before = fold checktimers (map us_now (butlast evs)) (us_core d)" "\<not> us_exited before"
  shows "cs_effects (upssched_main env fopen confpath old (Some upsname) (Some notify)) = [Requested req] \<and>
     cs_failed (upssched_main env fopen confpath old (Some upsname) (Some notify)) = None \<and>
     (\<exists>d'. us_run d evs = Inr d' \<and>
        us_core d' = checktimers (us_now (last evs))
          (if cmd = ''START-TIMER'' then start_timer (us_read_at (last evs)) a1 x before else cancel_timer a1 a2 before) \<and>
        sent (uc_sock (us_conns d' ! i)) = sent (uc_sock (us_conns d ! i)) @ [''OK'' @ nl])"
proof -
  let ?s = "us_client_at script pipe lock upsname notify" and ?m = "upssched_main env fopen confpath old (Some upsname) (Some notify)"
  let ?cmd = "if cmd = ''START-TIMER'' then ''START'' else ''CANCEL''"
  have req: "req = us_request ?cmd a1 a2" using assms(5) by auto
  have main: "?m = at_line_run env ?s (n, u, cmd, a1, a2)"
    using upssched_main_lines [where fopen = fopen and confpath = confpath, OF assms(1,2)] at_lines_filter [of ?s env ats] assms(3) by (simp add: us_client_at_def)
  have fits: "at_fits (cs_upsname ?s) (cs_notify ?s) (n, u, cmd, a1, a2)"
    using assms(3) filter_eq_ConsD [of "at_fits upsname notify" ats] by (auto simp: us_client_at_def simp del: at_fits.simps)
  have "?m = sendcmd env ?cmd (Some a1) a2 ?s"
    unfolding main using assms(5) at_line_timer [OF _ _ _ _ fits] by (auto simp: us_client_at_def)
  also have "\<dots> = cs_do (Requested req) (?s\<lparr>cs_attempts := 1\<rparr>)"
    unfolding req using assms(6) by (subst sendcmd_confirmed) (simp_all add: us_client_at_def)
  finally have m: "cs_effects ?m = [Requested req]" "cs_failed ?m = None" by (simp_all add: cs_do_def us_client_at_def)
  have msg: "req = message (us_toks ?cmd a1 a2)" "us_msg_ok (us_toks ?cmd a1 a2)"
    unfolding req using us_request_message [OF assms(4)] by simp_all
  have line: "us_line_ok (map tok_word (us_toks ?cmd a1 a2))" by (simp add: us_line_ok_def us_toks_def)
  obtain d' where "us_run d evs = Inr d'"
    "us_core d' = checktimers (us_now (last evs)) (us_apply (us_read_at (last evs)) (map tok_word (us_toks ?cmd a1 a2)) before)"
    "sent (uc_sock (us_conns d' ! i)) = sent (uc_sock (us_conns d ! i)) @ [us_answer (map tok_word (us_toks ?cmd a1 a2))]"
    unfolding assms(14)
    using us_message_arrives [OF assms(8,9,10,7,11) msg(2) line assms(12) [unfolded msg(1)] assms(13) assms(15) [unfolded assms(14)]] .
  moreover have "us_apply t (map tok_word (us_toks ?cmd a1 a2)) b =
      (if cmd = ''START-TIMER'' then start_timer t a1 x b else cancel_timer a1 a2 b)"
    "us_answer (map tok_word (us_toks ?cmd a1 a2)) = ''OK'' @ nl" for t b
    using assms(5) by (auto simp: us_toks_def us_apply_def us_answer_def us_known_def split: option.splits)
  ultimately show ?thesis using m by auto
qed

definition demo_sched_daemon :: us_daemon where
  "demo_sched_daemon = (us_daemon_start ''run'')\<lparr>us_conns :=
     [\<lparr>uc_sock = sock_new [], uc_in = [], uc_closed = False, uc_ctx = pconf_init zero_ctx\<rparr>]\<rparr>"

lemma demo_sched_daemon_ok:
  "0 < length (us_conns demo_sched_daemon)" "us_ctx_ready (uc_ctx (us_conns demo_sched_daemon ! 0))"
  "uc_in (us_conns demo_sched_daemon ! 0) = []" "wplan (uc_sock (us_conns demo_sched_daemon ! 0)) = []"
  "us_quiet demo_sched_daemon" "\<not> us_exited demo_sched_daemon" "sent (uc_sock (us_conns demo_sched_daemon ! 0)) = []"
  using pconf_init_ready [of zero_ctx]
  by (simp_all add: demo_sched_daemon_def us_daemon_start_def us_quiet_def us_ready_def)

definition demo_ats :: "string option \<Rightarrow> at_line list" where
  "demo_ats x = [(''ONLINE'', ''*'', ''CANCEL-TIMER'', ''t'', None), (''ONBATT'', ''*'', ''START-TIMER'', ''t'', x)]"

lemma demo_ats_ok:
  assumes "x = None \<or> x = Some ''30''"
  shows "sched_conf_ok ''run'' ''p'' ''l'' (demo_ats x)" "us_args_ok ''t'' x"
    and "filter (at_fits ''ups'' ''ONBATT'') (demo_ats x) = [(''ONBATT'', ''*'', ''START-TIMER'', ''t'', x)]"
proof -
  show "sched_conf_ok ''run'' ''p'' ''l'' (demo_ats x)"
    using assms
    by (auto simp: sched_conf_ok_def sched_toks_def demo_ats_def msg_ok_def plain_char_def pconf_escape_def
        PCONF_DEFAULT_ARG_LIMIT_def PCONF_DEFAULT_WORDLEN_LIMIT_def)
  show "us_args_ok ''t'' x" using assms by (auto simp: us_args_ok_def esc1_def pconf_escape_def)
  show "filter (at_fits ''ups'' ''ONBATT'') (demo_ats x) = [(''ONBATT'', ''*'', ''START-TIMER'', ''t'', x)]"
    by (simp add: demo_ats_def strcaseeq_iff tolower_def)
qed

theorem at_line_reaches_daemon_witness:
  "\<exists>evs d'. us_run demo_sched_daemon evs = Inr d' \<and> thead d' = [\<lparr>tt_name = ''t'', tt_etime = 130\<rparr>] \<and>
     sent (uc_sock (us_conns d' ! 0)) = [''OK'' @ nl]"
proof -
  let ?req = "us_request ''START'' ''t'' (Some ''30'')"
  let ?evs = "[UsRound None [(?req, False)] 100 100]"
  note ats = demo_ats_ok [of "Some ''30''", simplified]
  have len: "us_rounds 0 ?req ?evs"
    unfolding us_request_message(1) [OF ats(2), of "''START''", simplified]
    by (simp add: us_rounds_def us_toks_def message_def esc1_def pconf_escape_def US_MAX_READ_def)
  have "\<exists>d'. us_run demo_sched_daemon ?evs = Inr d' \<and>
      us_core d' = checktimers 100 (start_timer 100 ''t'' ''30'' (us_core demo_sched_daemon)) \<and>
      sent (uc_sock (us_conns d' ! 0)) = [''OK'' @ nl]"
    using at_line_reaches_daemon [where fopen = "\<lambda>f. Inr (sched_conf ''run'' ''p'' ''l'' (demo_ats (Some ''30'')))"
        and upsname = "''ups''" and notify = "''ONBATT''" and x = "''30''" and env = "\<lambda>k. Connects True (''OK'' @ nl)"
        and d = demo_sched_daemon and i = 0 and evs = ?evs and before = "us_core demo_sched_daemon",
        OF ats(1) refl ats(3,2) _ refl demo_sched_daemon_ok(1-5) len demo_sched_daemon_ok(6)] demo_sched_daemon_ok(6,7)
    by simp
  then obtain d' where d': "us_run demo_sched_daemon ?evs = Inr d'"
    "us_core d' = checktimers 100 (start_timer 100 ''t'' ''30'' (us_core demo_sched_daemon))"
    "sent (uc_sock (us_conns d' ! 0)) = [''OK'' @ nl]" by blast
  have "atoi ''30'' = 30" by code_simp
  then have "thead d' = [\<lparr>tt_name = ''t'', tt_etime = 130\<rparr>]"
    using arg_cong [OF d'(2), of thead] by (simp add: start_timer_def demo_sched_daemon_def us_daemon_start_def)
  with d'(1,3) show ?thesis by blast
qed

text \<open>C37: A START-TIMER line without an interval is accepted by the reader of the configuration, but the
  daemon does not know such a request: it starts nothing and answers so, and upssched asks thirty
  times and then ends, with the message that it could not reach the daemon.\<close>

theorem start_without_interval_fails:
  assumes "sched_conf_ok script pipe lock ats"
    and "fopen (snprintf SMALLBUF (confpath @ ''/upssched.conf'')) = Inr (sched_conf script pipe lock ats)"
    and "filter (at_fits upsname notify) ats = [(n, u, ''START-TIMER'', name, None)]" "us_args_ok name None"
    and "req = us_request ''START'' name None" "\<And>k. env k = Connects True (''ERR UNKNOWN'' @ nl)"
    and "i < length (us_conns d)" "us_ctx_ready (uc_ctx (us_conns d ! i))" "uc_in (us_conns d ! i) = []"
      "wplan (uc_sock (us_conns d ! i)) = []" "us_quiet d" "us_rounds i req evs" "\<not> us_exited d"
    and "\<not> us_exited (fold checktimers (map us_now (butlast evs)) (us_core d))"
  shows "cs_effects (upssched_main env fopen confpath old (Some upsname) (Some notify)) = replicate 30 (Requested req) \<and>
     cs_failed (upssched_main env fopen confpath old (Some upsname) (Some notify)) =
       Some ''Unable to connect to daemon and unable to start daemon'' \<and>
     (\<exists>d'. us_run d evs = Inr d' \<and>
        us_core d' = checktimers (us_now (last evs)) (fold checktimers (map us_now (butlast evs)) (us_core d)) \<and>
        sent (uc_sock (us_conns d' ! i)) = sent (uc_sock (us_conns d ! i)) @ [''ERR UNKNOWN'' @ nl])"
proof -
  let ?s = "us_client_at script pipe lock upsname notify" and ?m = "upssched_main env fopen confpath old (Some upsname) (Some notify)"
  have main: "?m = at_line_run env ?s (n, u, ''START-TIMER'', name, None)"
    using upssched_main_lines [where fopen = fopen and confpath = confpath, OF assms(1,2)] at_lines_filter [of ?s env ats] assms(3)
    by (simp add: us_client_at_def)
  have fits: "at_fits (cs_upsname ?s) (cs_notify ?s) (n, u, ''START-TIMER'', name, None)"
    using assms(3) filter_eq_ConsD [of "at_fits upsname notify" ats] by (auto simp: us_client_at_def simp del: at_fits.simps)
  have "?m = sendcmd_loop MAX_TRIES env ''START'' None req ?s"
    unfolding main assms(5) using at_line_timer(1) [OF _ _ _ _ fits] by (simp add: us_client_at_def sendcmd_def)
  also have "\<dots> = cs_fatal ''Unable to connect to daemon and unable to start daemon''
      (?s\<lparr>cs_attempts := cs_attempts ?s + MAX_TRIES, cs_effects := cs_effects ?s @ replicate MAX_TRIES (Requested req)\<rparr>)"
    using assms(6) by (intro sendcmd_loop_refused) simp
  finally have m: "cs_effects ?m = replicate 30 (Requested req)"
    "cs_failed ?m = Some ''Unable to connect to daemon and unable to start daemon''"
    by (simp_all add: cs_fatal_def us_client_at_def MAX_TRIES_def)
  have msg: "req = message (us_toks ''START'' name None)" "us_msg_ok (us_toks ''START'' name None)"
    unfolding assms(5) using us_request_message [OF assms(4)] by simp_all
  have line: "us_line_ok (map tok_word (us_toks ''START'' name None))" by (simp add: us_line_ok_def us_toks_def)
  obtain d' where "us_run d evs = Inr d'"
    "us_core d' = checktimers (us_now (last evs)) (us_apply (us_read_at (last evs)) (map tok_word (us_toks ''START'' name None))
      (fold checktimers (map us_now (butlast evs)) (us_core d)))"
    "sent (uc_sock (us_conns d' ! i)) = sent (uc_sock (us_conns d ! i)) @ [us_answer (map tok_word (us_toks ''START'' name None))]"
    using us_message_arrives [OF assms(8,9,10,7,11) msg(2) line assms(12) [unfolded msg(1)] assms(13,14)] .
  then show ?thesis using m by (auto simp: us_toks_def us_apply_def us_answer_def us_known_def)
qed

theorem start_without_interval_fails_witness:
  "\<exists>evs d'. us_run demo_sched_daemon evs = Inr d' \<and> thead d' = [] \<and> sent (uc_sock (us_conns d' ! 0)) = [''ERR UNKNOWN'' @ nl]"
proof -
  let ?req = "us_request ''START'' ''t'' None"
  let ?evs = "[UsRound None [(?req, False)] 100 100]"
  note ats = demo_ats_ok [of None, simplified]
  have len: "us_rounds 0 ?req ?evs"
    unfolding us_request_message(1) [OF ats(2), of "''START''", simplified]
    by (simp add: us_rounds_def us_toks_def message_def esc1_def pconf_escape_def US_MAX_READ_def)
  have "\<exists>d'. us_run demo_sched_daemon ?evs = Inr d' \<and> us_core d' = checktimers 100 (us_core demo_sched_daemon) \<and>
      sent (uc_sock (us_conns d' ! 0)) = [''ERR UNKNOWN'' @ nl]"
    using start_without_interval_fails [where fopen = "\<lambda>f. Inr (sched_conf ''run'' ''p'' ''l'' (demo_ats None))"
        and upsname = "''ups''" and notify = "''ONBATT''" and env = "\<lambda>k. Connects True (''ERR UNKNOWN'' @ nl)"
        and d = demo_sched_daemon and i = 0 and evs = ?evs,
        OF ats(1) refl ats(3,2) refl refl demo_sched_daemon_ok(1-5) len demo_sched_daemon_ok(6)] demo_sched_daemon_ok(6,7)
    by simp
  then obtain d' where d': "us_run demo_sched_daemon ?evs = Inr d'" "us_core d' = checktimers 100 (us_core demo_sched_daemon)"
    "sent (uc_sock (us_conns d' ! 0)) = [''ERR UNKNOWN'' @ nl]" by blast
  have "thead d' = []"
    using arg_cong [OF d'(2), of thead] by (simp add: demo_sched_daemon_def us_daemon_start_def)
  with d'(1,3) show ?thesis by blast
qed

end
