(* ===== verification/Dummyups.thy ===== *)
theory Dummyups
  imports Dstate Upsconf
begin

text \<open>
  A whole driver: the simulated device of \<open>drivers/dummy-ups.c\<close> and \<open>drivers/dummy-ups.h\<close> in its dummy mode. It plays a
  definition file: lines \<open>name: value\<close> are published through the driver's state, a line TIMER pauses
  the reading, and at the end of the file it starts again from the beginning.

  The open file is \<open>du_ctx\<close>, kept between the rounds of the main loop while a TIMER is pending. The array
  \<open>var_value\<close> of \<open>parse_data_file\<close> is not set at its start: what it holds then is the argument \<open>stack\<close>, and it keeps its
  text from line to line. The colon behind a name is removed in place in the source, in a word that is
  not read again; here the shortened word is a value. The length in the table is a \<open>float\<close> that only
  holds whole numbers. Each call of \<open>time\<close> within one round gives \<open>now\<close>.

  Shown here: the driver plays the script, and a server that reads its broadcasts has the values of the
  script; a line without a value publishes the value of an earlier line.
\<close>

unbundle bit_operations_syntax

section \<open>The table of known variables\<close>

record dummy_info =
  info_type :: string
  info_flags :: "32 word"
  info_len :: int
  default_value :: "string option"
  du_flag_init :: bool

abbreviation nut_info :: "string \<Rightarrow> 32 word \<Rightarrow> int \<Rightarrow> string option \<Rightarrow> bool \<Rightarrow> dummy_info" where
  "nut_info v fl len def ini \<equiv>
     \<lparr>info_type = v, info_flags = fl, info_len = len, default_value = def, du_flag_init = ini\<rparr>"

definition nut_data :: "dummy_info list" where
  "nut_data =
   [nut_info ''ups.mfr'' (ST_FLAG_STRING OR ST_FLAG_RW) 32 (Some ''Dummy Manufacturer'') True,
    nut_info ''ups.model'' (ST_FLAG_STRING OR ST_FLAG_RW) 32 (Some ''Dummy UPS'') True,
    nut_info ''ups.status'' (ST_FLAG_STRING OR ST_FLAG_RW) 32 (Some ''OL'') True,
    nut_info ''ups.serial'' (ST_FLAG_STRING OR ST_FLAG_RW) 32 None False,
    nut_info ''ups.load'' ST_FLAG_RW 32 None False,
    nut_info ''ups.alarm'' (ST_FLAG_STRING OR ST_FLAG_RW) 32 None False,
    nut_info ''ups.time'' (ST_FLAG_STRING OR ST_FLAG_RW) 16 None False,
    nut_info ''ups.date'' (ST_FLAG_STRING OR ST_FLAG_RW) 16 None False,
    nut_info ''ups.mfr.date'' (ST_FLAG_STRING OR ST_FLAG_RW) 16 None False,
    nut_info ''ups.serial'' (ST_FLAG_STRING OR ST_FLAG_RW) 16 None False,
    nut_info ''ups.firmware'' (ST_FLAG_STRING OR ST_FLAG_RW) 16 None False,
    nut_info ''ups.firmware.aux'' (ST_FLAG_STRING OR ST_FLAG_RW) 16 None False,
    nut_info ''ups.temperature'' ST_FLAG_RW 1 None False,
    nut_info ''ups.id'' (ST_FLAG_STRING OR ST_FLAG_RW) 16 None False,
    nut_info ''ups.delay.start'' ST_FLAG_RW 1 None False,
    nut_info ''ups.delay.reboot'' ST_FLAG_RW 1 None False,
    nut_info ''ups.delay.shutdown'' ST_FLAG_RW 1 None False,
    nut_info ''ups.test.interval'' ST_FLAG_RW 1 None False,
    nut_info ''ups.test.result'' (ST_FLAG_STRING OR ST_FLAG_RW) 16 None False,
    nut_info ''input.voltage'' ST_FLAG_RW 1 None False,
    nut_info ''input.voltage.maximum'' ST_FLAG_RW 1 None False,
    nut_info ''input.voltage.minimum'' ST_FLAG_RW 1 None False,
    nut_info ''input.voltage.nominal'' ST_FLAG_RW 1 None False,
    nut_info ''input.transfer.reason'' (ST_FLAG_STRING OR ST_FLAG_RW) 1 None False,
    nut_info ''input.transfer.low'' ST_FLAG_RW 1 None False,
    nut_info ''input.transfer.high'' ST_FLAG_RW 1 None False,
    nut_info ''input.sensitivity'' (ST_FLAG_STRING OR ST_FLAG_RW) 1 None False,
    nut_info ''input.quality'' (ST_FLAG_STRING OR ST_FLAG_RW) 6 None False,
    nut_info ''input.frequency'' ST_FLAG_RW 1 None False,
    nut_info ''input.transfer.boost.low'' ST_FLAG_RW 1 None False,
    nut_info ''input.transfer.boost.high'' ST_FLAG_RW 1 None False,
    nut_info ''input.transfer.trim.low'' ST_FLAG_RW 1 None False,
    nut_info ''input.transfer.trim.high'' ST_FLAG_RW 1 None False,
    nut_info ''output.voltage'' ST_FLAG_RW 1 None False,
    nut_info ''output.frequency'' ST_FLAG_RW 1 None False,
    nut_info ''output.current'' ST_FLAG_RW 1 None False,
    nut_info ''battery.charge'' ST_FLAG_RW 1 None False,
    nut_info ''battery.charge.low'' ST_FLAG_RW 1 None False,
    nut_info ''battery.voltage'' ST_FLAG_RW 1 None False,
    nut_info ''battery.current'' ST_FLAG_RW 1 None False,
    nut_info ''battery.runtime'' ST_FLAG_RW 1 None False,
    nut_info ''battery.runtime.low'' ST_FLAG_RW 1 None False,
    nut_info ''battery.charge.restart'' ST_FLAG_RW 1 None False,
    nut_info ''battery.temperature'' ST_FLAG_RW 1 None False,
    nut_info ''battery.voltage.nominal'' ST_FLAG_RW 1 None False,
    nut_info ''ambient.temperature'' ST_FLAG_RW 1 None False,
    nut_info ''ambient.temperature.alarm'' ST_FLAG_RW 1 None False,
    nut_info ''ambient.temperature.high'' ST_FLAG_RW 1 None False,
    nut_info ''ambient.temperature.low'' ST_FLAG_RW 1 None False,
    nut_info ''ambient.humidity'' ST_FLAG_RW 1 None False,
    nut_info ''ambient.humidity.alarm'' ST_FLAG_RW 1 None False,
    nut_info ''ambient.humidity.high'' ST_FLAG_RW 1 None False,
    nut_info ''ambient.humidity.low'' ST_FLAG_RW 1 None False]"

definition find_info :: "string \<Rightarrow> dummy_info option" where
  "find_info varname = find (\<lambda>item. strcaseeq (info_type item) varname) nut_data"

definition is_valid_data :: "string \<Rightarrow> bool" where
  "is_valid_data varname = (case find_info varname of Some item \<Rightarrow> True | None \<Rightarrow> True)"

definition is_valid_value :: "string \<Rightarrow> string \<Rightarrow> bool" where
  "is_valid_value varname val = (case find_info varname of Some item \<Rightarrow> True | None \<Rightarrow> True)"

section \<open>The driver\<close>

datatype du_mode = MODE_NONE | MODE_DUMMY | MODE_REPEATER

record dummy_ups =
  du_dstate :: dstate
  du_path :: string
  dummy_mode :: du_mode
  du_ctx :: "pconf_ctx option"
  next_update :: int

definition MAX_STRING_SIZE :: nat where "MAX_STRING_SIZE = 128"

text \<open>The flags and the length of a variable of the table.\<close>

definition set_attributes :: "dummy_info \<Rightarrow> dstate \<Rightarrow> dstate" where
  "set_attributes item d =
     (let d1 = dstate_setflags d (info_type item) (info_flags item) in
      if info_flags item AND ST_FLAG_STRING \<noteq> 0 then dstate_setaux d1 (info_type item) (info_len item) else d1)"

text \<open>The flag is true for \<open>STAT_SET_HANDLED\<close>.\<close>

definition dummy_setvar :: "dstate \<Rightarrow> string \<Rightarrow> string \<Rightarrow> dstate \<times> bool" where
  "dummy_setvar d varname val =
     (if strneq varname ''ups.status'' 10
      then (status_commit (status_set (status_init d) val), True)
      else if \<not> is_valid_data varname then (d, False)
      else if \<not> is_valid_value varname val then (d, False)
      else if length val = 0 then (fst (dstate_delinfo d varname), True)
      else
        let d1 = fst (dstate_setinfo d varname val) in
        (case find_info varname of
           Some item \<Rightarrow> set_attributes item d1
         | None \<Rightarrow> d1, True))"

text \<open>A line that is not a TIMER: the words, the contents of \<open>var_value\<close> and the driver's state.\<close>

definition join_values :: "string \<Rightarrow> string list \<Rightarrow> string" where
  "join_values var_value ws =
     (case ws of
        [] \<Rightarrow> var_value
      | w # rest \<Rightarrow> foldl (\<lambda>b x. snprintfcat b MAX_STRING_SIZE ('' '' @ x)) (snprintf MAX_STRING_SIZE w) rest)"

definition data_line :: "string list \<Rightarrow> string \<times> dstate \<Rightarrow> string \<times> dstate" where
  "data_line arg st =
     (let name = takeWhile (\<lambda>c. c \<noteq> CHR '':'') (arg ! 0) in
      if strneq name ''driver.'' 7 then st
      else if strneq name ''ups.status'' 10
      then (fst st, status_commit (foldl status_set (status_init (snd st)) (tl arg)))
      else let v = join_values (fst st) (tl arg) in (v, fst (dummy_setvar (snd st) name v)))"

text \<open>The reading loop, up to the end of the file or the next TIMER; the result has the context, the
  driver's state and \<open>next_update\<close>.\<close>

function data_loop :: "int \<Rightarrow> pconf_ctx \<Rightarrow> string \<times> dstate \<Rightarrow> fault + (pconf_ctx \<times> dstate \<times> int)" where
  "data_loop now ctx st =
     (case pconf_file_next ctx of
        (r, ctx1) \<Rightarrow>
          if r = 0 then Inr (ctx1, snd st, -1)
          else (case pconf_parse_error ctx1 of
                  (e, ctx2) \<Rightarrow>
                    if e \<noteq> 0 then data_loop now ctx2 st
                    else if numargs ctx2 < 1 then data_loop now ctx2 st
                    else if strneq (arglist ctx2 ! 0) ''TIMER'' 5
                    then sbind (arg_word ctx2 1) (\<lambda>delay. Inr (ctx2, snd st, now + atoi delay))
                    else data_loop now ctx2 (data_line (pconf_words ctx2) st)))"
  by pat_completeness auto
termination
  by (relation "measure (\<lambda>(now, ctx, st). length (unread ctx))",
      simp_all only: wf_measure in_measure case_prod_conv) (erule (2) read_lines_decreases)+

declare data_loop.simps [simp del]

definition parse_data_file :: "(string \<Rightarrow> string + string) \<Rightarrow> string \<Rightarrow> pconf_ctx \<Rightarrow> string \<Rightarrow> int \<Rightarrow> dummy_ups \<Rightarrow> fault + dummy_ups" where
  "parse_data_file fopen confpath mem stack now d =
     (if now < next_update d then Inr d
      else
        let fn = snprintf SMALLBUF (if du_path d \<noteq> [] \<and> hd (du_path d) = CHR ''/'' then du_path d
                                    else confpath @ ''/'' @ du_path d);
            opened = (case du_ctx d of
                        Some ctx \<Rightarrow> Inr ctx
                      | None \<Rightarrow> (case pconf_file_begin fopen (pconf_init mem) fn of
                                   (r, ctx) \<Rightarrow> if r = 0
                                     then Inl (Exits (''Can'' @ [CHR 0x27] @ ''t open dummy-ups definition file '' @ fn @ '': '' @ errmsg ctx))
                                     else Inr ctx))
        in sbind opened (\<lambda>ctx. sbind (data_loop now ctx (stack, du_dstate d)) (\<lambda>(ctx1, ds, next).
             Inr (d\<lparr>du_dstate := ds, next_update := next, du_ctx := (if next = -1 then None else Some ctx1)\<rparr>))))"

text \<open>\<open>upsdrv_initups\<close>: the name of a remote UPS selects the repeater mode.\<close>

definition dummy_initups :: "dummy_ups \<Rightarrow> dummy_ups" where
  "dummy_initups d =
     (if CHR ''@'' \<in> set (du_path d)
      then d\<lparr>dummy_mode := MODE_REPEATER, du_dstate := fst (dstate_setinfo (du_dstate d) ''driver.parameter.mode'' ''repeater'')\<rparr>
      else d\<lparr>dummy_mode := MODE_DUMMY, du_dstate := fst (dstate_setinfo (du_dstate d) ''driver.parameter.mode'' ''dummy'')\<rparr>)"

definition init_variable :: "dstate \<Rightarrow> dummy_info \<Rightarrow> dstate" where
  "init_variable d item =
     (if du_flag_init item
      then set_attributes item (fst (dstate_setinfo d (info_type item)
             (case default_value item of Some x \<Rightarrow> x | None \<Rightarrow> ''(null)'')))
      else d)"

text \<open>\<open>upsdrv_initinfo\<close> and \<open>upsdrv_updateinfo\<close> in the dummy mode.\<close>

definition dummy_initinfo :: "(string \<Rightarrow> string + string) \<Rightarrow> string \<Rightarrow> pconf_ctx \<Rightarrow> string \<Rightarrow> int \<Rightarrow> dummy_ups \<Rightarrow> fault + dummy_ups" where
  "dummy_initinfo fopen confpath mem stack now d =
     sbind (parse_data_file fopen confpath mem stack now (d\<lparr>du_dstate := foldl init_variable (du_dstate d) nut_data\<rparr>)) (\<lambda>d1.
       let s1 = dstate_dataok ((du_dstate d1)\<lparr>upsh_setvar := True\<rparr>)
       in Inr (d1\<lparr>du_dstate := dstate_addcmd (s1\<lparr>upsh_instcmd := True\<rparr>) ''load.off''\<rparr>))"

definition dummy_updateinfo :: "(string \<Rightarrow> string + string) \<Rightarrow> string \<Rightarrow> pconf_ctx \<Rightarrow> string \<Rightarrow> int \<Rightarrow> dummy_ups \<Rightarrow> fault + dummy_ups" where
  "dummy_updateinfo fopen confpath mem stack now d =
     sbind (parse_data_file fopen confpath mem stack now d) (\<lambda>d1. Inr (d1\<lparr>du_dstate := dstate_dataok (du_dstate d1)\<rparr>))"

section \<open>Scripts\<close>

text \<open>A line of data is a name and the words of the value; a script is a list of segments, each ended by a
  TIMER, and the lines behind the last TIMER.\<close>

type_synonym data_entry = "string \<times> tok list"
type_synonym du_script = "(data_entry list \<times> int) list \<times> data_entry list"

definition entry_toks :: "data_entry \<Rightarrow> tok list" where
  "entry_toks e = Plain (fst e @ '':'') # snd e"

definition timer_toks :: "int \<Rightarrow> tok list" where
  "timer_toks t = [Plain ''TIMER'', Plain (show_int t)]"

definition entries_text :: "data_entry list \<Rightarrow> string" where
  "entries_text es = concat (map (message \<circ> entry_toks) es)"

fun script_text :: "du_script \<Rightarrow> string" where
  "script_text ([], rest) = entries_text rest"
| "script_text ((es, t) # segs, rest) = entries_text es @ message (timer_toks t) @ script_text (segs, rest)"

text \<open>A name without colon that is not taken for a TIMER, with at least one word of value unless the line is
  skipped or holds the status.\<close>

definition entry_ok :: "data_entry \<Rightarrow> bool" where
  "entry_ok e \<longleftrightarrow> msg_ok 32 512 (entry_toks e) \<and> CHR '':'' \<notin> set (fst e) \<and> \<not> strneq (fst e) ''TIMER'' 5 \<and>
     (snd e \<noteq> [] \<or> strneq (fst e) ''driver.'' 7 \<or> strneq (fst e) ''ups.status'' 10)"

definition script_ok :: "du_script \<Rightarrow> bool" where
  "script_ok s \<longleftrightarrow> list_all (\<lambda>(es, t). list_all entry_ok es \<and> 0 \<le> t \<and> in_int32 t) (fst s) \<and> list_all entry_ok (snd s)"

text \<open>What the value of a line is: its words with a blank between them, cut to the array. It holds 127 characters of
  a first word that is so long, but \<open>snprintfcat\<close> stops at 126.\<close>

fun blank_joined :: "string list \<Rightarrow> string" where
  "blank_joined [] = []"
| "blank_joined [w] = w"
| "blank_joined (w # v # ws) = w @ CHR '' '' # blank_joined (v # ws)"

definition line_value :: "string list \<Rightarrow> string" where
  "line_value ws = take (if ws \<noteq> [] \<and> 127 \<le> length (hd ws) then 127 else 126) (blank_joined ws)"

text \<open>The driver leaves out LB from the first status on at which \<open>driver.flag.ignorelb\<close> exists.\<close>

definition ignores_lb :: "dstate \<Rightarrow> bool" where
  "ignores_lb d \<longleftrightarrow> ignorelb d \<or> dstate_getinfo d ''driver.flag.ignorelb'' \<noteq> None"

abbreviation of_driver :: "data_entry \<Rightarrow> bool" where
  "of_driver e \<equiv> take 7 (fst e) = ''driver.''"

abbreviation of_status :: "data_entry \<Rightarrow> bool" where
  "of_status e \<equiv> take 10 (fst e) = ''ups.status''"

text \<open>What a line means, in calls of the driver's interface. A line of the collection \<open>driver\<close> means nothing; the
  words of a status are the elements that are reported; an empty value deletes the variable, and any other
  sets it, and then declares it with the flags of its entry in the table and, for a string, the length.\<close>

definition entry_calls :: "dstate \<Rightarrow> data_entry \<Rightarrow> drv_op list" where
  "entry_calls d e =
     (let ws = map tok_word (snd e); v = line_value ws in
      if of_driver e then []
      else if of_status e then [DrvSetinfo ''ups.status'' (reported (d\<lparr>ignorelb := ignores_lb d\<rparr>) ws)]
      else if v = [] then [DrvDelinfo (fst e)]
      else DrvSetinfo (fst e) v #
        (case filter (\<lambda>item. lower (info_type item) = lower (fst e)) nut_data of
           [] \<Rightarrow> []
         | item # _ \<Rightarrow> DrvSetflags (info_type item) (info_flags item) #
             (if bit (info_flags item) 1 then [DrvSetaux (info_type item) (info_len item)] else [])))"

definition entry_effect :: "dstate \<Rightarrow> data_entry \<Rightarrow> dstate" where
  "entry_effect d e =
     (let d1 = foldl drv_apply d (entry_calls d e)
      in if \<not> of_driver e \<and> of_status e then d1\<lparr>ignorelb := ignores_lb d\<rparr> else d1)"

text \<open>What the code does with a line.\<close>

definition entry_apply :: "dstate \<Rightarrow> data_entry \<Rightarrow> dstate" where
  "entry_apply d e = snd (data_line (map tok_word (entry_toks e)) ([], d))"

text \<open>One round of a player: the rest of the script that is being played, the end of the pause, and the
  driver's state; \<open>eff\<close> is what a line does.\<close>

definition play :: "(dstate \<Rightarrow> data_entry \<Rightarrow> dstate) \<Rightarrow> du_script \<Rightarrow> int \<Rightarrow> du_script option \<times> int \<times> dstate \<Rightarrow> du_script option \<times> int \<times> dstate" where
  "play eff script now st =
     (case st of (rem, next, d) \<Rightarrow>
        if now < next then st
        else case (case rem of None \<Rightarrow> script | Some s \<Rightarrow> s) of
               ([], rest) \<Rightarrow> (None, -1, foldl eff d rest)
             | ((es, t) # segs, rest) \<Rightarrow> (Some (segs, rest), now + t, foldl eff d es))"

definition play_round :: "(dstate \<Rightarrow> data_entry \<Rightarrow> dstate) \<Rightarrow> du_script \<Rightarrow> du_script option \<times> int \<times> dstate \<Rightarrow> int \<Rightarrow> du_script option \<times> int \<times> dstate" where
  "play_round eff script st now = (case play eff script now st of (rem, next, d) \<Rightarrow> (rem, next, dstate_dataok d))"

section \<open>The driver plays the script\<close>

lemma entry_words: "map tok_word (entry_toks e) = (fst e @ '':'') # map tok_word (snd e)"
  by (simp add: entry_toks_def)

lemma entry_name:
  "CHR '':'' \<notin> set n \<Longrightarrow> takeWhile (\<lambda>c. c \<noteq> CHR '':'') (n @ CHR '':'' # r) = n"
  by (induction n) auto

lemma data_line_entry:
  assumes "entry_ok e"
  shows "snd (data_line (map tok_word (entry_toks e)) (v, d)) = entry_apply d e"
proof -
  have n: "takeWhile (\<lambda>c. c \<noteq> CHR '':'') (fst e @ '':'') = fst e"
    using assms entry_name [of "fst e" "[]"] by (simp add: entry_ok_def)
  show ?thesis
  proof (cases "snd e")
    case Nil
    with assms show ?thesis by (auto simp: entry_apply_def data_line_def entry_words n Let_def entry_ok_def)
  next
    case (Cons w ws)
    then show ?thesis by (simp add: entry_apply_def data_line_def entry_words n Let_def join_values_def)
  qed
qed

lemma strneq_timer: "CHR '':'' \<notin> set n \<Longrightarrow> strneq (n @ '':'') ''TIMER'' 5 = strneq n ''TIMER'' 5"
proof -
  have "take 5 (n @ '':'') = ''TIMER'' \<Longrightarrow> take 5 n = ''TIMER''"
  proof (cases "length n < 5")
    case True
    assume a: "take 5 (n @ '':'') = ''TIMER''"
    then have "CHR '':'' \<in> set (take 5 (n @ '':''))" using True by simp
    with a show ?thesis by simp
  qed simp
  moreover have "take 5 n = ''TIMER'' \<Longrightarrow> take 5 (n @ '':'') = ''TIMER''"
    by (cases "length n < 5") (auto dest: arg_cong [where f = length])
  ultimately show ?thesis by (auto simp: strneq_def)
qed

text \<open>A context at the start of a line, with the rest of the file before it.\<close>

definition line_start :: "pconf_ctx \<Rightarrow> string \<Rightarrow> bool" where
  "line_start ctx s \<longleftrightarrow> pconf_live 32 512 ctx \<and> wordbuf ctx = [] \<and> pc_error ctx = 0 \<and> pc_f ctx = Some s"

lemma line_start_next:
  assumes "line_start ctx (message ts @ rest)" "msg_ok 32 512 ts"
  obtains ctx' where "pconf_file_next ctx = (1, ctx')" "line_start ctx' rest" "pconf_words ctx' = map tok_word ts"
    "numargs ctx' = length ts" "pconf_parse_error ctx' = (0, ctx')"
  using pconf_file_next_message [of 32 512 ctx ts rest] assms pconf_live_parse_error
  by (auto simp: line_start_def)

text \<open>A file that has just been opened.\<close>

lemma file_opened:
  assumes "fopen fn = Inr s"
  shows "pconf_file_begin fopen (pconf_init mem) fn = (1, (pconf_init mem)\<lparr>pc_f := Some s\<rparr>)"
    and "line_start ((pconf_init mem)\<lparr>pc_f := Some s\<rparr>) s"
proof -
  show "pconf_file_begin fopen (pconf_init mem) fn = (1, (pconf_init mem)\<lparr>pc_f := Some s\<rparr>)"
    using assms by (simp add: pconf_file_begin_def check_magic_def) (simp add: pconf_init_def)
  show "line_start ((pconf_init mem)\<lparr>pc_f := Some s\<rparr>) s"
    using pconf_init_live [of mem] by (simp add: line_start_def pconf_live_def) (simp add: pconf_init_def)
qed

lemma line_start_end: "line_start ctx [] \<Longrightarrow> fst (pconf_file_next ctx) = 0"
  by (simp add: line_start_def pconf_file_next_def check_magic_def pconf_live_def)

lemma ctx_word: "pconf_words ctx = ws \<Longrightarrow> numargs ctx = length ws \<Longrightarrow> k < length ws \<Longrightarrow>
    k < length (arglist ctx) \<and> arglist ctx ! k = ws ! k"
  by (metis length_take min_less_iff_conj nth_take)

lemma data_loop_entry:
  assumes "line_start ctx (message (entry_toks e) @ rest)" "entry_ok e"
  obtains ctx' v' where "data_loop now ctx (v, d) = data_loop now ctx' (v', entry_apply d e)" "line_start ctx' rest"
proof -
  from assms(2) have "msg_ok 32 512 (entry_toks e)" by (simp add: entry_ok_def)
  from line_start_next [OF assms(1) this] obtain ctx' where c: "pconf_file_next ctx = (1, ctx')" "line_start ctx' rest"
    "pconf_words ctx' = map tok_word (entry_toks e)" "numargs ctx' = length (entry_toks e)" "pconf_parse_error ctx' = (0, ctx')" .
  have "arglist ctx' ! 0 = fst e @ '':''"
    using ctx_word [OF c(3), of 0] c(4) by (simp add: entry_toks_def)
  then have "\<not> strneq (arglist ctx' ! 0) ''TIMER'' 5" using assms(2) by (simp add: strneq_timer entry_ok_def)
  then have "data_loop now ctx (v, d) = data_loop now ctx' (data_line (map tok_word (entry_toks e)) (v, d))"
    using c by (subst data_loop.simps) (simp add: entry_toks_def)
  with that c(2) data_line_entry [OF assms(2), of v d] show ?thesis by (metis prod.collapse)
qed

lemma data_loop_entries:
  "line_start ctx (entries_text es @ rest) \<Longrightarrow> list_all entry_ok es \<Longrightarrow>
   \<exists>ctx' v'. data_loop now ctx (v, d) = data_loop now ctx' (v', foldl entry_apply d es) \<and> line_start ctx' rest"
proof (induction es arbitrary: ctx v d)
  case (Cons e es)
  from Cons.prems have "line_start ctx (message (entry_toks e) @ entries_text es @ rest)" "entry_ok e"
    by (simp_all add: entries_text_def)
  from data_loop_entry [OF this, of now v d] obtain ctx1 v1 where
    s: "data_loop now ctx (v, d) = data_loop now ctx1 (v1, entry_apply d e)" "line_start ctx1 (entries_text es @ rest)" .
  from Cons.IH [OF s(2)] Cons.prems(2) s(1) show ?case by simp
qed (auto simp: entries_text_def)

lemma data_loop_timer:
  assumes "line_start ctx (message (timer_toks t) @ rest)" "0 \<le> t" "in_int32 t"
  obtains ctx' where "data_loop now ctx (v, d) = Inr (ctx', d, now + t)" "line_start ctx' rest"
proof -
  have "msg_ok 32 512 (timer_toks t)"
    using show_int_plain [of t] show_int_length [OF assms(3)] by (simp add: timer_toks_def msg_ok_def plain_char_def pconf_escape_def)
  from line_start_next [OF assms(1) this] obtain ctx' where c: "pconf_file_next ctx = (1, ctx')" "line_start ctx' rest"
    "pconf_words ctx' = map tok_word (timer_toks t)" "numargs ctx' = length (timer_toks t)" "pconf_parse_error ctx' = (0, ctx')" .
  have w: "arglist ctx' ! 0 = ''TIMER''" "1 < length (arglist ctx')" "arglist ctx' ! 1 = show_int t"
    using ctx_word [OF c(3), of 0] ctx_word [OF c(3), of 1] c(4) by (simp_all add: timer_toks_def)
  have "data_loop now ctx (v, d) = Inr (ctx', d, now + t)"
    using c w assms(3) by (subst data_loop.simps) (simp add: timer_toks_def strneq_def arg_word_def)
  with that c(2) show ?thesis by blast
qed

lemma data_loop_end: "line_start ctx [] \<Longrightarrow> \<exists>ctx'. data_loop now ctx (v, d) = Inr (ctx', d, -1)"
  using line_start_end [of ctx] by (subst data_loop.simps) (auto split: prod.splits)

text \<open>The driver and the player in the same place.\<close>

definition playing :: "dummy_ups \<Rightarrow> du_script option \<times> int \<times> dstate \<Rightarrow> bool" where
  "playing d st \<longleftrightarrow>
     (case st of (rem, next, ds) \<Rightarrow> du_dstate d = ds \<and> next_update d = next \<and>
        (case rem of
           None \<Rightarrow> du_ctx d = None
         | Some s \<Rightarrow> script_ok s \<and> (\<exists>ctx. du_ctx d = Some ctx \<and> line_start ctx (script_text s))))"

definition du_file :: "string \<Rightarrow> dummy_ups \<Rightarrow> string" where
  "du_file confpath d =
     snprintf SMALLBUF (if du_path d \<noteq> [] \<and> hd (du_path d) = CHR ''/'' then du_path d else confpath @ ''/'' @ du_path d)"

lemma data_loop_script:
  assumes "script_ok s" "line_start ctx (script_text s)" "0 \<le> now"
  shows "\<exists>ctx'. (case s of
      ([], rest) \<Rightarrow> data_loop now ctx (v, d) = Inr (ctx', foldl entry_apply d rest, -1)
    | ((es, t) # segs, rest) \<Rightarrow> data_loop now ctx (v, d) = Inr (ctx', foldl entry_apply d es, now + t) \<and> 0 \<le> now + t \<and>
        script_ok (segs, rest) \<and> line_start ctx' (script_text (segs, rest)))"
proof (cases s rule: script_text.cases)
  case (1 rest)
  with assms data_loop_entries [of ctx rest "[]" now v d] data_loop_end show ?thesis
    by (auto simp: script_ok_def)
next
  case (2 es t segs rest)
  with assms have ok: "list_all entry_ok es" "0 \<le> t" "in_int32 t" "script_ok (segs, rest)"
    by (simp_all add: script_ok_def)
  from data_loop_entries [of ctx es "message (timer_toks t) @ script_text (segs, rest)" now v d] assms(2) ok(1) 2
  obtain ctx1 v1 where 1: "data_loop now ctx (v, d) = data_loop now ctx1 (v1, foldl entry_apply d es)"
    "line_start ctx1 (message (timer_toks t) @ script_text (segs, rest))" by auto
  from data_loop_timer [OF 1(2) ok(2,3), of now v1 "foldl entry_apply d es"] obtain ctx2 where
    "data_loop now ctx1 (v1, foldl entry_apply d es) = Inr (ctx2, foldl entry_apply d es, now + t)"
    "line_start ctx2 (script_text (segs, rest))" .
  with 1(1) 2 ok(2,4) assms(3) show ?thesis by auto
qed

lemma dummy_pass:
  assumes "playing d st" "script_ok script" "fopen (du_file confpath d) = Inr (script_text script)" "0 \<le> now"
  obtains d' where "dummy_updateinfo fopen confpath mem stack now d = Inr d'" "playing d' (play_round entry_apply script st now)"
    "du_path d' = du_path d"
proof -
  obtain rem nxt ds where st: "st = (rem, nxt, ds)" by (cases st)
  with assms(1) have d: "du_dstate d = ds" "next_update d = nxt"
    and rem: "case rem of None \<Rightarrow> du_ctx d = None
       | Some s \<Rightarrow> script_ok s \<and> (\<exists>ctx. du_ctx d = Some ctx \<and> line_start ctx (script_text s))"
    by (simp_all add: playing_def)
  show ?thesis
  proof (cases "now < nxt")
    case True
    then show ?thesis
      using that [of "d\<lparr>du_dstate := dstate_dataok ds\<rparr>"] d rem st
      by (simp add: dummy_updateinfo_def parse_data_file_def play_round_def play_def playing_def split: option.splits)
  next
    case False
    let ?s = "case rem of None \<Rightarrow> script | Some s \<Rightarrow> s"
    let ?opened = "case du_ctx d of
        Some ctx \<Rightarrow> Inr ctx
      | None \<Rightarrow> (case pconf_file_begin fopen (pconf_init mem) (du_file confpath d) of
                   (r, ctx) \<Rightarrow> if r = 0
                     then Inl (Exits (''Can'' @ [CHR 0x27] @ ''t open dummy-ups definition file '' @ du_file confpath d @ '': '' @ errmsg ctx))
                     else Inr ctx)"
    have "\<exists>ctx. ?opened = Inr ctx \<and> line_start ctx (script_text ?s)"
    proof (cases rem)
      case None
      show ?thesis using None rem file_opened [where fopen = fopen, OF assms(3), of mem] by simp
    next
      case (Some s)
      with rem show ?thesis by auto
    qed
    then obtain ctx where ctx: "?opened = Inr ctx" "line_start ctx (script_text ?s)" by blast
    have ok: "script_ok ?s" using rem assms(2) by (cases rem) auto
    have run: "dummy_updateinfo fopen confpath mem stack now d =
        sbind (data_loop now ctx (stack, ds)) (\<lambda>(ctx1, ds1, nxt1). Inr (d\<lparr>next_update := nxt1,
          du_ctx := (if nxt1 = -1 then None else Some ctx1), du_dstate := dstate_dataok ds1\<rparr>))"
      using False d ctx(1)
      by (simp add: dummy_updateinfo_def parse_data_file_def du_file_def [symmetric] case_prod_unfold)
    obtain ctx' where loop: "case ?s of
      ([], rest) \<Rightarrow> data_loop now ctx (stack, ds) = Inr (ctx', foldl entry_apply ds rest, -1)
    | ((es, t) # segs, rest) \<Rightarrow> data_loop now ctx (stack, ds) = Inr (ctx', foldl entry_apply ds es, now + t) \<and> 0 \<le> now + t \<and>
        script_ok (segs, rest) \<and> line_start ctx' (script_text (segs, rest))"
      using data_loop_script [OF ok ctx(2) assms(4), of stack ds] by (rule exE)
    show ?thesis
    proof (cases ?s rule: script_text.cases)
      case (1 rest)
      with loop that [of "d\<lparr>du_dstate := dstate_dataok (foldl entry_apply ds rest), next_update := -1, du_ctx := None\<rparr>"] False st run
      show ?thesis by (simp add: play_round_def play_def playing_def)
    next
      case (2 es t segs rest)
      with loop that [of "d\<lparr>du_dstate := dstate_dataok (foldl entry_apply ds es), next_update := now + t, du_ctx := Some ctx'\<rparr>"] False st run
      show ?thesis by (simp add: play_round_def play_def playing_def)
    qed
  qed
qed

text \<open>A number of rounds, each with the memory it finds and its time.\<close>

definition dummy_rounds :: "(string \<Rightarrow> string + string) \<Rightarrow> string \<Rightarrow> (pconf_ctx \<times> string \<times> int) list \<Rightarrow> dummy_ups \<Rightarrow> fault + dummy_ups" where
  "dummy_rounds fopen confpath = sfold (\<lambda>(mem, stack, now). dummy_updateinfo fopen confpath mem stack now)"

lemma dummy_rounds_play:
  "playing d st \<Longrightarrow> script_ok script \<Longrightarrow> fopen (du_file confpath d) = Inr (script_text script) \<Longrightarrow>
   list_all (\<lambda>(mem, stack, now). 0 \<le> now) rounds \<Longrightarrow>
   \<exists>d'. dummy_rounds fopen confpath rounds d = Inr d' \<and> playing d' (foldl (play_round entry_apply script) st (map (snd \<circ> snd) rounds))"
proof (induction rounds arbitrary: d st)
  case (Cons x rounds)
  obtain mem stack now where x: "x = (mem, stack, now)" by (cases x)
  have now: "0 \<le> now" using Cons.prems(4) x by simp
  obtain d1 where d1: "dummy_updateinfo fopen confpath mem stack now d = Inr d1" "playing d1 (play_round entry_apply script st now)"
    "du_path d1 = du_path d"
    using dummy_pass [where fopen = fopen and confpath = confpath, OF Cons.prems(1-3) now, of mem stack] by blast
  then have "fopen (du_file confpath d1) = Inr (script_text script)" using Cons.prems(3) unfolding du_file_def by (simp only:)
  with Cons.IH [OF d1(2) Cons.prems(2)] Cons.prems(4) d1(1) show ?case by (simp add: dummy_rounds_def x)
qed (simp add: dummy_rounds_def)

section \<open>What the server is told\<close>

abbreviation clear_char :: "char \<Rightarrow> bool" where
  "clear_char c \<equiv> word_char c \<and> \<not> pconf_escape c"

lemma clear_value_text: "list_all clear_char x \<Longrightarrow> length x \<le> 255 \<Longrightarrow> clear_value x"
proof -
  assume x: "list_all clear_char x" "length x \<le> 255"
  then have "escape x = x" by (induction x) (auto simp: esc1_def)
  with x show ?thesis by (auto simp: clear_value_def value_ok_def list_all_iff)
qed

text \<open>A line whose text needs no escaping; a status that fits the buffer of the driver.\<close>

definition entry_clear :: "data_entry \<Rightarrow> bool" where
  "entry_clear e \<longleftrightarrow> name_ok (fst e) \<and> list_all (list_all clear_char) (map tok_word (snd e)) \<and>
     sum_list (map (\<lambda>w. length w + 1) (map tok_word (snd e))) \<le> 240"

definition script_clear :: "du_script \<Rightarrow> bool" where
  "script_clear s \<longleftrightarrow> list_all (\<lambda>seg. list_all entry_clear (fst seg)) (fst s) \<and> list_all entry_clear (snd s)"

text \<open>The code computes the value and finds the entry of the table.\<close>

lemma blank_joined_concat: "blank_joined (w # ws) = w @ concat (map ((#) (CHR '' '')) ws)"
  by (induction ws arbitrary: w) simp_all

lemma take_again: "take n (take n xs @ ys) = take n (xs @ ys)"
  by (cases "length xs \<le> n") simp_all

lemma snprintfcat_blank:
  "length b \<le> 126 \<Longrightarrow> snprintfcat b MAX_STRING_SIZE (CHR '' '' # x) = take 126 (b @ CHR '' '' # x)"
  "126 \<le> length b \<Longrightarrow> snprintfcat b MAX_STRING_SIZE (CHR '' '' # x) = b"
  by (simp_all add: snprintfcat_def MAX_STRING_SIZE_def)

lemma foldl_snprintfcat:
  "length b \<le> 126 \<Longrightarrow>
     foldl (\<lambda>b x. snprintfcat b MAX_STRING_SIZE (CHR '' '' # x)) b ws = take 126 (b @ concat (map ((#) (CHR '' '')) ws))"
  "126 \<le> length b \<Longrightarrow> foldl (\<lambda>b x. snprintfcat b MAX_STRING_SIZE (CHR '' '' # x)) b ws = b"
proof (induction ws arbitrary: b)
  case (Cons x xs)
  {
    case (1 b)
    let ?b = "snprintfcat b MAX_STRING_SIZE (CHR '' '' # x)"
    note b = snprintfcat_blank(1) [OF 1, of x]
    have "length ?b \<le> 126" unfolding b by simp
    from Cons.IH(1) [OF this] show ?case
      unfolding foldl.simps b by (simp only: take_again list.map concat.simps append_assoc append_Cons)
  next
    case (2 b)
    from snprintfcat_blank(2) [OF 2, of x] Cons.IH(2) [OF 2] show ?case by simp
  }
qed simp_all

lemma join_values_line: "ws \<noteq> [] \<Longrightarrow> join_values v ws = line_value ws"
proof (cases ws)
  case (Cons w rest)
  have w: "snprintf MAX_STRING_SIZE w = take 127 w" by (simp add: snprintf_def MAX_STRING_SIZE_def)
  show ?thesis
  proof (cases "127 \<le> length w")
    case True
    then have "126 \<le> length (take 127 w)" by simp
    from foldl_snprintfcat(2) [OF this, of rest] True show ?thesis
      by (simp add: Cons join_values_def w line_value_def blank_joined_concat)
  next
    case False
    then show ?thesis using foldl_snprintfcat(1) [of w rest]
      by (simp add: Cons join_values_def w line_value_def blank_joined_concat)
  qed
qed simp

lemma line_value_join: "join_values [] ws = line_value ws"
  using join_values_line [of ws "[]"] by (cases "ws = []") (simp_all add: join_values_def line_value_def)

lemma find_info_filter:
  "find_info v = (case filter (\<lambda>item. lower (info_type item) = lower v) nut_data of [] \<Rightarrow> None | item # _ \<Rightarrow> Some item)"
proof -
  have "find P xs = (case filter P xs of [] \<Rightarrow> None | x # _ \<Rightarrow> Some x)" for P :: "dummy_info \<Rightarrow> bool" and xs
    by (induction xs) simp_all
  then show ?thesis by (simp add: find_info_def strcaseeq_iff)
qed

lemma string_flag: "(w AND ST_FLAG_STRING \<noteq> 0) = bit w 1"
  by (simp add: ST_FLAG_STRING_def flag_mask_bit)

lemma nut_data_ok:
  "list_all (\<lambda>item. name_ok (info_type item) \<and> flag_words (info_flags item) \<noteq> [] \<and> in_int32 (info_len item)) nut_data"
  by code_simp

lemma find_info_ok:
  "find_info v = Some item \<Longrightarrow> name_ok (info_type item) \<and> flag_words (info_flags item) \<noteq> [] \<and> in_int32 (info_len item)"
  using nut_data_ok by (auto simp: find_info_def find_Some_iff list_all_length)

lemma list_all_take: "list_all P x \<Longrightarrow> list_all P (take n x)"
  by (auto simp: list_all_iff dest: in_set_takeD)

lemma join_values_clear:
  assumes "list_all (list_all clear_char) ws" "list_all clear_char v" "length v < 128"
  shows "list_all clear_char (join_values v ws) \<and> length (join_values v ws) < 128"
proof (cases ws)
  case (Cons w ws')
  have "list_all clear_char b \<and> length b < 128 \<Longrightarrow>
      list_all clear_char (foldl (\<lambda>b x. snprintfcat b MAX_STRING_SIZE ('' '' @ x)) b xs) \<and>
      length (foldl (\<lambda>b x. snprintfcat b MAX_STRING_SIZE ('' '' @ x)) b xs) < 128"
    if "list_all (list_all clear_char) xs" for b xs
    using that
  proof (induction xs arbitrary: b)
    case (Cons x xs)
    have "length (snprintfcat b MAX_STRING_SIZE ('' '' @ x)) < MAX_STRING_SIZE"
      using Cons.prems(1) by (intro snprintfcat_length) (simp add: MAX_STRING_SIZE_def)
    moreover have "list_all clear_char (snprintfcat b MAX_STRING_SIZE ('' '' @ x))"
      using Cons.prems by (simp add: snprintfcat_def Let_def list_all_take pconf_escape_def)
    ultimately show ?case using Cons.IH Cons.prems(2) by (simp add: MAX_STRING_SIZE_def)
  qed simp
  moreover have "list_all clear_char (snprintf MAX_STRING_SIZE w)" "length (snprintf MAX_STRING_SIZE w) < 128"
    using assms(1) Cons by (simp_all add: snprintf_def MAX_STRING_SIZE_def list_all_take)
  ultimately show ?thesis using assms(1) Cons by (simp add: join_values_def)
qed (use assms in \<open>simp add: join_values_def\<close>)

lemma spaced_sum: "length (spaced b xs) \<le> length b + sum_list (map (\<lambda>w. length w + 1) xs)"
proof (induction xs arbitrary: b)
  case (Cons x xs)
  show ?case using Cons [of "if b = [] then x else b @ '' '' @ x"] by (auto split: if_splits)
qed simp

lemma reported_clear:
  assumes "list_all (list_all clear_char) ws" "sum_list (map (\<lambda>w. length w + 1) ws) \<le> 240"
  shows "clear_value (reported d ws)" "length (reported d ws) \<le> 254"
proof -
  have "sum_list (map (\<lambda>w. length w + 1) (filter f ws)) \<le> sum_list (map (\<lambda>w. length w + 1) ws)" for f
    by (induction ws) auto
  then have "length (spaced [] (filter f ws)) \<le> 240" for f
    using spaced_sum [of "[]" "filter f ws"] assms(2) by (metis (no_types, lifting) add_0 le_trans list.size(3))
  from this [of "\<lambda>x. \<not> (ignorelb d \<and> strcaseeq x ''LB'')"] this [of "\<lambda>x. \<not> strcaseeq x ''LB''"] show len: "length (reported d ws) \<le> 254"
    by (simp add: reported_def)
  have "list_all clear_char (reported d ws)"
    by (rule reported_all [OF _ assms(1)]) (auto simp: pconf_escape_def)
  with len show "clear_value (reported d ws)" by (intro clear_value_text) simp_all
qed

text \<open>States that differ in the driver's status buffer only, which no server sees.\<close>

definition same_published :: "dstate \<Rightarrow> dstate \<Rightarrow> bool" where
  "same_published d d' \<longleftrightarrow> (\<exists>l b. d' = d\<lparr>ignorelb := l, status_buf := b\<rparr>)"

lemma same_published_refl [simp]: "same_published d d"
  unfolding same_published_def by (intro exI [of _ "ignorelb d"] exI [of _ "status_buf d"]) simp

lemma drv_apply_buf:
  "drv_apply (d\<lparr>ignorelb := l, status_buf := b\<rparr>) x = (drv_apply d x)\<lparr>ignorelb := l, status_buf := b\<rparr>"
  by (cases x) (simp_all add: dstate_ops send_to_all_def Let_def split: prod.splits option.splits)

lemma same_published_apply: "same_published d d' \<Longrightarrow> same_published (drv_apply d x) (drv_apply d' x)"
  unfolding same_published_def using drv_apply_buf by blast

lemma same_published_run: "same_published d d' \<Longrightarrow> same_published (foldl drv_apply d xs) (foldl drv_apply d' xs)"
  by (induction xs arbitrary: d d') (auto intro: same_published_apply)

lemma same_published_trans: "same_published a b \<Longrightarrow> same_published b c \<Longrightarrow> same_published a c"
  by (clarsimp simp: same_published_def) blast

text \<open>States that differ in the contents of the status buffer, which the next status clears.\<close>

definition same_driver :: "dstate \<Rightarrow> dstate \<Rightarrow> bool" where
  "same_driver d d' \<longleftrightarrow> (\<exists>b. d' = d\<lparr>status_buf := b\<rparr>)"

lemma same_driver_refl [simp]: "same_driver d d"
  unfolding same_driver_def by (rule exI [of _ "status_buf d"]) simp

lemma same_driver_trans: "same_driver a b \<Longrightarrow> same_driver b c \<Longrightarrow> same_driver a c"
  by (clarsimp simp: same_driver_def) blast

lemma drv_apply_status_buf: "drv_apply (d\<lparr>status_buf := b\<rparr>) x = (drv_apply d x)\<lparr>status_buf := b\<rparr>"
  by (cases x) (simp_all add: dstate_ops send_to_all_def Let_def split: prod.splits option.splits)

lemma same_driver_apply: "same_driver d d' \<Longrightarrow> same_driver (drv_apply d x) (drv_apply d' x)"
  unfolding same_driver_def using drv_apply_status_buf by blast

lemma run_status_buf: "foldl drv_apply (d\<lparr>status_buf := b\<rparr>) xs = (foldl drv_apply d xs)\<lparr>status_buf := b\<rparr>"
  by (induction xs arbitrary: d) (simp_all add: drv_apply_status_buf)

lemma same_driver_published: "same_driver d d' \<Longrightarrow> same_published d d'"
proof -
  assume "same_driver d d'"
  then obtain b where "d' = d\<lparr>status_buf := b\<rparr>" by (auto simp: same_driver_def)
  then show ?thesis unfolding same_published_def by (intro exI [of _ "ignorelb d"] exI [of _ b]) simp
qed

lemma same_published_fields:
  assumes "same_published d d'"
  shows "mirrored (d', u) = mirrored (d, u)" "connhead d' = connhead d" "dtree_root d' = dtree_root d"
  using assms by (auto simp: same_published_def mirrored_def)

lemma status_init_ignores: "(status_init d)\<lparr>status_buf := b\<rparr> = d\<lparr>ignorelb := ignores_lb d, status_buf := b\<rparr>"
  by (simp add: status_init_def ignores_lb_def Let_def)

lemma reported_buf: "reported (d\<lparr>status_buf := b\<rparr>) ws = reported d ws"
  by (simp add: reported_def below_def dstate_getinfo_def)

lemma reported_status_init: "reported (status_init d) ws = reported (d\<lparr>ignorelb := ignores_lb d\<rparr>) ws"
  using reported_buf [where d = "status_init d" and b = "[]" and ws = ws] reported_buf [where d = "d\<lparr>ignorelb := ignores_lb d\<rparr>" and b = "[]" and ws = ws]
  by (simp add: status_init_ignores)

lemma entry_calls_ok:
  assumes "entry_ok e" "entry_clear e"
  shows "list_all drv_ok (entry_calls d e)"
proof -
  let ?n = "fst e" and ?ws = "map tok_word (snd e)"
  have clear: "name_ok ?n" "list_all (list_all clear_char) ?ws" "sum_list (map (\<lambda>w. length w + 1) ?ws) \<le> 240"
    using assms(2) unfolding entry_clear_def by blast+
  have v: "clear_value (line_value ?ws)"
    using join_values_clear [OF clear(2), of "[]"] unfolding line_value_join [symmetric] by (intro clear_value_text) auto
  have "name_ok ''ups.status''" by code_simp
  with clear(1) v reported_clear(1) [OF clear(2,3)] find_info_ok [of ?n] show ?thesis
    by (auto simp: entry_calls_def Let_def find_info_filter split: list.splits)
qed

text \<open>The code does with a line what the line means.\<close>

lemma entry_published:
  assumes "entry_ok e" "entry_clear e"
  shows "same_driver (entry_effect d e) (entry_apply d e)"
proof -
  let ?n = "fst e" and ?ws = "map tok_word (snd e)"
  let ?v = "join_values [] ?ws"
  have name: "takeWhile (\<lambda>c. c \<noteq> CHR '':'') (?n @ '':'') = ?n"
    using assms(1) entry_name [of ?n "[]"] by (simp add: entry_ok_def)
  have clear: "list_all (list_all clear_char) ?ws" "sum_list (map (\<lambda>w. length w + 1) ?ws) \<le> 240"
    using assms(2) unfolding entry_clear_def by blast+
  have line: "entry_apply d e = (if of_driver e then d
      else if of_status e then status_commit (foldl status_set (status_init d) ?ws)
      else fst (dummy_setvar d ?n ?v))"
    by (simp add: entry_apply_def data_line_def entry_words name Let_def strneq_def)
  consider (skip) "of_driver e" | (status) "\<not> of_driver e" "of_status e" | (var) "\<not> of_driver e" "\<not> of_status e" by blast
  then show ?thesis
  proof cases
    case skip
    then show ?thesis unfolding line by (simp add: entry_effect_def entry_calls_def Let_def)
  next
    case status
    let ?r = "reported (d\<lparr>ignorelb := ignores_lb d\<rparr>) ?ws"
    obtain b where "status_commit (foldl status_set (status_init d) ?ws) =
        fst (dstate_setinfo ((status_init d)\<lparr>status_buf := b\<rparr>) ''ups.status'' ?r)"
      using status_commit_reports [OF reported_clear(2) [OF clear]] unfolding reported_status_init by blast
    also have "\<dots> = (drv_apply d (DrvSetinfo ''ups.status'' ?r))\<lparr>ignorelb := ignores_lb d, status_buf := b\<rparr>"
      unfolding status_init_ignores by (subst drv_apply_buf [symmetric]) simp
    finally show ?thesis
      using status unfolding line by (auto simp: entry_effect_def entry_calls_def Let_def same_driver_def)
  next
    case var
    have "fst (dummy_setvar d ?n ?v) = entry_effect d e"
      using var by (simp add: dummy_setvar_def entry_effect_def entry_calls_def Let_def is_valid_data_def is_valid_value_def
          set_attributes_def line_value_join find_info_filter string_flag strneq_def split: option.splits list.splits)
    then show ?thesis using var unfolding line by simp
  qed
qed

lemma same_driver_effect:
  assumes "same_driver d d'"
  shows "same_driver (entry_effect d e) (entry_effect d' e)"
proof -
  from assms obtain b where b: "d' = d\<lparr>status_buf := b\<rparr>" by (auto simp: same_driver_def)
  have lb: "ignores_lb d' = ignores_lb d" by (simp add: b ignores_lb_def dstate_getinfo_def)
  have "reported (d'\<lparr>ignorelb := ignores_lb d\<rparr>) ws = reported (d\<lparr>ignorelb := ignores_lb d\<rparr>) ws" for ws
    by (simp add: b reported_def below_def dstate_getinfo_def)
  then have "entry_calls d' e = entry_calls d e" by (simp add: entry_calls_def lb Let_def)
  then have "entry_effect d' e = (entry_effect d e)\<lparr>status_buf := b\<rparr>"
    unfolding entry_effect_def lb by (simp add: b run_status_buf Let_def)
  then show ?thesis unfolding same_driver_def by blast
qed

lemma same_driver_entries:
  "same_driver d d' \<Longrightarrow> list_all entry_ok es \<Longrightarrow> list_all entry_clear es \<Longrightarrow>
   same_driver (foldl entry_effect d es) (foldl entry_apply d' es)"
proof (induction es arbitrary: d d')
  case (Cons e es)
  then have "same_driver (entry_effect d e) (entry_apply d' e)"
    using same_driver_trans [OF same_driver_effect [OF Cons.prems(1)] entry_published [of e d']] by simp
  from Cons.IH [OF this] Cons.prems show ?case by simp
qed simp

text \<open>The player of what the lines mean and the player of what the code does, in the same place.\<close>

definition in_step :: "du_script option \<times> int \<times> dstate \<Rightarrow> du_script option \<times> int \<times> dstate \<Rightarrow> bool" where
  "in_step st st' \<longleftrightarrow> fst st' = fst st \<and> fst (snd st') = fst (snd st) \<and> same_driver (snd (snd st)) (snd (snd st')) \<and>
     (\<forall>s. fst st = Some s \<longrightarrow> script_ok s \<and> script_clear s)"

lemma in_step_play:
  assumes "in_step st st'" "script_ok script" "script_clear script"
  shows "in_step (play_round entry_effect script st now) (play_round entry_apply script st' now)"
proof -
  obtain rem nxt ds ds' where st: "st = (rem, nxt, ds)" "st' = (rem, nxt, ds')" and same: "same_driver ds ds'"
    and rem: "\<And>s. rem = Some s \<Longrightarrow> script_ok s \<and> script_clear s"
    using assms(1) by (cases st; cases st') (auto simp: in_step_def)
  let ?s = "case rem of None \<Rightarrow> script | Some s \<Rightarrow> s"
  have s: "script_ok ?s" "script_clear ?s" using assms(2,3) rem by (auto split: option.splits)
  note ok = same_driver_apply [where x = DrvDataok, simplified]
  show ?thesis
  proof (cases ?s rule: script_text.cases)
    case (1 rest)
    with s same_driver_entries [OF same, of rest] rem same show ?thesis
      by (auto simp: in_step_def play_round_def play_def st script_ok_def script_clear_def intro: ok)
  next
    case (2 es t segs rest)
    with s same_driver_entries [OF same, of es] rem same show ?thesis
      by (auto simp: in_step_def play_round_def play_def st script_ok_def script_clear_def intro: ok)
  qed
qed

lemma in_step_rounds:
  "in_step st st' \<Longrightarrow> script_ok script \<Longrightarrow> script_clear script \<Longrightarrow>
   in_step (foldl (play_round entry_effect script) st ts) (foldl (play_round entry_apply script) st' ts)"
  by (induction ts arbitrary: st st') (simp_all add: in_step_play)

text \<open>The player makes calls of the driver's interface.\<close>

definition made_by_calls :: "dstate \<Rightarrow> dstate \<Rightarrow> bool" where
  "made_by_calls d d' \<longleftrightarrow> (\<exists>ops. list_all drv_ok ops \<and> same_published (foldl drv_apply d ops) d')"

lemma made_by_refl [simp]: "made_by_calls d d"
  unfolding made_by_calls_def by (rule exI [of _ "[]"]) simp

lemma made_by_step:
  assumes "made_by_calls d d'" "list_all drv_ok ops" "same_published (foldl drv_apply d' ops) d''"
  shows "made_by_calls d d''"
proof -
  from assms(1) obtain xs where xs: "list_all drv_ok xs" "same_published (foldl drv_apply d xs) d'"
    by (auto simp: made_by_calls_def)
  have "same_published (foldl drv_apply d (xs @ ops)) d''"
    using same_published_trans [OF same_published_run [OF xs(2)] assms(3)] by simp
  with xs(1) assms(2) show ?thesis unfolding made_by_calls_def by (intro exI [of _ "xs @ ops"]) simp
qed

lemma effect_published: "same_published (foldl drv_apply d (entry_calls d e)) (entry_effect d e)"
proof -
  have "same_published x (x\<lparr>ignorelb := l\<rparr>)" for x l
    unfolding same_published_def by (intro exI [of _ l] exI [of _ "status_buf x"]) simp
  then show ?thesis by (simp add: entry_effect_def Let_def)
qed

lemma made_by_entries:
  "made_by_calls d d' \<Longrightarrow> list_all entry_ok es \<Longrightarrow> list_all entry_clear es \<Longrightarrow> made_by_calls d (foldl entry_effect d' es)"
  by (induction es arbitrary: d') (auto intro: made_by_step entry_calls_ok effect_published)

lemma made_by_play:
  assumes "made_by_calls d (snd (snd st))" "in_step st st'" "script_ok script" "script_clear script"
  shows "made_by_calls d (snd (snd (play_round entry_effect script st now)))"
proof -
  obtain rem nxt ds where st: "st = (rem, nxt, ds)" by (cases st)
  let ?s = "case rem of None \<Rightarrow> script | Some s \<Rightarrow> s"
  have s: "script_ok ?s" "script_clear ?s" using assms(2-4) st by (auto simp: in_step_def split: option.splits)
  have ok: "made_by_calls d (dstate_dataok d1)" if "made_by_calls d d1" for d1
    by (rule made_by_step [OF that, of "[DrvDataok]"]) simp_all
  have d: "made_by_calls d ds" using assms(1) st by simp
  show ?thesis
  proof (cases ?s rule: script_text.cases)
    case (1 rest)
    with s d ok made_by_entries [OF d, of rest] show ?thesis
      by (simp add: play_round_def play_def st script_ok_def script_clear_def)
  next
    case (2 es t segs rest)
    with s d ok made_by_entries [OF d, of es] show ?thesis
      by (simp add: play_round_def play_def st script_ok_def script_clear_def)
  qed
qed

lemma made_by_rounds:
  "made_by_calls d (snd (snd st)) \<Longrightarrow> in_step st st' \<Longrightarrow> script_ok script \<Longrightarrow> script_clear script \<Longrightarrow>
   made_by_calls d (snd (snd (foldl (play_round entry_effect script) st ts)))"
proof (induction ts arbitrary: st st')
  case (Cons t ts)
  show ?case
    using Cons.IH [OF made_by_play [OF Cons.prems] in_step_play [OF Cons.prems(2-4)] Cons.prems(3,4)] by simp
qed simp

section \<open>Properties\<close>

text \<open>C18: From the definition file to the server. Let the definition file hold a script of values that need no
  escaping, and let a server's
  entry be a copy of the driver's state before the first round. Then the rounds of the driver, at any times,
  never fail and publish what the script says: a segment is published when the pause before
  it is over, nothing changes during a pause, and after the last line the script starts again. A line sets its
  variable to its words joined with blanks and gives it the flags and the length of the table of known
  variables, or reports the elements of a status (\<open>entry_calls\<close>). Each connection
  of the driver receives lines from which the server, however their bytes are cut into reads, makes a copy of the state
  the script has led to.\<close>

theorem dummy_script_reaches_server:
  assumes "script_ok script" "script_clear script" "fopen (du_file confpath d) = Inr (script_text script)"
    and "list_all (\<lambda>(mem, stack, now). 0 \<le> now) rounds" "du_ctx d = None" "next_update d = -1"
    and "mirrored (du_dstate d, ups)" "conns_ok (du_dstate d)" "i < length (connhead (du_dstate d))"
      "0 \<le> sock_fd ups" "ctx_ready (sock_ctx ups)"
    and "played = snd (snd (foldl (play_round entry_effect script) (None, -1, du_dstate d) (map (snd \<circ> snd) rounds)))"
  shows "\<exists>d' ls. dummy_rounds fopen confpath rounds d = Inr d' \<and> same_driver played (du_dstate d') \<and>
     sent (cn_sock (connhead (du_dstate d') ! i)) = sent (cn_sock (connhead (du_dstate d) ! i)) @ ls \<and>
     (\<forall>bs now. concat bs = concat ls \<and> list_all (\<lambda>b. length b \<le> SMALLBUF) bs \<longrightarrow>
       (\<exists>ups'. sstate_reads ups now bs = Some ups' \<and> mirrored (played, ups')))"
proof -
  let ?st = "(None, -1, du_dstate d)" and ?ts = "map (snd \<circ> snd) rounds"
  have "playing d ?st" using assms(5,6) by (simp add: playing_def)
  from dummy_rounds_play [where fopen = fopen and confpath = confpath, OF this assms(1,3,4)] obtain d' where
    d': "dummy_rounds fopen confpath rounds d = Inr d'" "playing d' (foldl (play_round entry_apply script) ?st ?ts)" by blast
  have step: "in_step ?st ?st" by (simp add: in_step_def)
  from d'(2) in_step_rounds [OF step assms(1,2), of ?ts] have same: "same_driver played (du_dstate d')"
    unfolding assms(12) by (auto simp: playing_def in_step_def split: prod.splits)
  have "made_by_calls (du_dstate d) played"
    unfolding assms(12) by (rule made_by_rounds [OF _ step assms(1,2)]) simp
  then obtain ops where ops: "list_all drv_ok ops" "same_published (foldl drv_apply (du_dstate d) ops) played"
    by (auto simp: made_by_calls_def)
  from calls_reach_server [OF assms(7-9) ops(1) assms(10,11)] obtain ls where
    "sent (cn_sock (connhead (du_dstate d') ! i)) = sent (cn_sock (connhead (du_dstate d) ! i)) @ ls"
    "\<And>bs now. concat bs = concat ls \<and> list_all (\<lambda>b. length b \<le> SMALLBUF) bs \<Longrightarrow>
       \<exists>ups'. sstate_reads ups now bs = Some ups' \<and> mirrored (played, ups')"
    unfolding same_published_fields(2) [OF same_driver_published [OF same]] same_published_fields [OF ops(2)] by blast
  with d'(1) same show ?thesis by blast
qed

definition demo_script :: du_script where
  "demo_script = ([([(''ups.status'', [Plain ''OL''])], 60), ([(''ups.status'', [Plain ''OB''])], 60),
     ([(''ups.status'', [Plain ''OB'', Plain ''LB''])], 60)], [])"

definition demo_dummy :: "dstate \<Rightarrow> dummy_ups" where
  "demo_dummy ds = \<lparr>du_dstate = ds, du_path = ''/etc/nut/ups.seq'', dummy_mode = MODE_DUMMY, du_ctx = None, next_update = -1\<rparr>"

theorem dummy_script_reaches_server_witness:
  "\<exists>d' ls ups'. dummy_rounds (\<lambda>fn. Inr (script_text demo_script)) ''/etc'' [(zero_ctx, [], 0), (zero_ctx, ''x'', 30), (zero_ctx, [], 60)]
       (demo_dummy (demo_driver\<lparr>dtree_root := Leaf, cmdhead := []\<rparr>)) = Inr d' \<and>
     sent (cn_sock (connhead (du_dstate d') ! 0)) = ls \<and>
     sstate_reads (upstype_open\<lparr>data_ok := True\<rparr>) 9 (map (\<lambda>c. [c]) (concat ls)) = Some ups' \<and>
     state_getinfo (inforoot ups') ''ups.status'' = Some ''OB''"
proof -
  let ?ds = "demo_driver\<lparr>dtree_root := Leaf, cmdhead := []\<rparr>" and ?u = "upstype_open\<lparr>data_ok := True\<rparr>"
  let ?r = "[(zero_ctx, [], 0), (zero_ctx, ''x'', 30), (zero_ctx, [], 60)] :: (pconf_ctx \<times> string \<times> int) list"
  have 1: "script_ok demo_script" "script_clear demo_script" by code_simp+
  have 2: "mirrored (?ds, ?u)" by (simp add: mirrored_def demo_driver_def upstype_open_def upstype_zero_def)
  have 3: "conns_ok ?ds" "0 < length (connhead ?ds)" "sent (cn_sock (connhead ?ds ! 0)) = []"
    by (simp_all add: conns_ok_def demo_driver_def)
  have 4: "0 \<le> sock_fd ?u" "ctx_ready (sock_ctx ?u)" using upstype_open_ready by (simp_all add: upstype_open_def)
  let ?p = "snd (snd (foldl (play_round entry_effect demo_script) (None, -1, ?ds) [0, 30, 60]))"
  have 5: "state_getinfo (dtree_root ?p) ''ups.status'' = Some ''OB''" by code_simp
  have "\<exists>d' ls. dummy_rounds (\<lambda>fn. Inr (script_text demo_script)) ''/etc'' ?r (demo_dummy ?ds) = Inr d' \<and> same_driver ?p (du_dstate d') \<and>
     sent (cn_sock (connhead (du_dstate d') ! 0)) = ls \<and>
     (\<forall>bs now. concat bs = concat ls \<and> list_all (\<lambda>b. length b \<le> SMALLBUF) bs \<longrightarrow>
       (\<exists>ups'. sstate_reads ?u now bs = Some ups' \<and> mirrored (?p, ups')))"
    using dummy_script_reaches_server [OF 1, where d = "demo_dummy ?ds" and rounds = ?r and ups = ?u and i = 0 and played = ?p
        and fopen = "\<lambda>fn. Inr (script_text demo_script)" and confpath = "''/etc''"] 2 3 4
    by (simp add: demo_dummy_def)
  then obtain d' ls where d': "dummy_rounds (\<lambda>fn. Inr (script_text demo_script)) ''/etc'' ?r (demo_dummy ?ds) = Inr d'"
      "sent (cn_sock (connhead (du_dstate d') ! 0)) = ls"
    and all: "\<And>bs now. concat bs = concat ls \<and> list_all (\<lambda>b. length b \<le> SMALLBUF) bs \<Longrightarrow>
       \<exists>ups'. sstate_reads ?u now bs = Some ups' \<and> mirrored (?p, ups')"
    by metis
  from all [of "map (\<lambda>c. [c]) (concat ls)" 9] byte_reads obtain ups' where
    ups': "sstate_reads ?u 9 (map (\<lambda>c. [c]) (concat ls)) = Some ups'" "mirrored (?p, ups')" by metis
  have "state_getinfo (inforoot ups') ''ups.status'' = Some ''OB''"
    using mirrored_getinfo(1) [OF ups'(2)] 5 by simp
  with d' ups'(1) show ?thesis by blast
qed

lemma data_line_var:
  assumes "entry_ok e" "\<not> strneq (fst e) ''driver.'' 7" "\<not> strneq (fst e) ''ups.status'' 10"
  shows "data_line (map tok_word (entry_toks e)) (v, d) = (join_values [] (map tok_word (snd e)), entry_apply d e)"
proof -
  have n: "takeWhile (\<lambda>c. c \<noteq> CHR '':'') (fst e @ '':'') = fst e"
    using assms(1) entry_name [of "fst e" "[]"] by (simp add: entry_ok_def)
  obtain w ws where "snd e = w # ws" using assms by (cases "snd e") (auto simp: entry_ok_def)
  with assms(2,3) show ?thesis by (simp add: entry_apply_def data_line_def entry_words n Let_def join_values_def)
qed

text \<open>C38: A name without a value does not remove the variable, as the manual says: the line is given
  the value of the line before it, which is still in the buffer.\<close>

theorem valueless_line_copies_previous:
  assumes "entry_ok e" "\<not> strneq (fst e) ''driver.'' 7" "\<not> strneq (fst e) ''ups.status'' 10"
    and "msg_ok 32 512 [Plain (n @ '':'')]" "CHR '':'' \<notin> set n" "\<not> strneq n ''TIMER'' 5"
      "\<not> strneq n ''driver.'' 7" "\<not> strneq n ''ups.status'' 10"
    and "fopen (du_file confpath d) = Inr (message (entry_toks e) @ message [Plain (n @ '':'')])"
    and "du_ctx d = None" "next_update d \<le> now"
  shows "\<exists>d'. parse_data_file fopen confpath mem stack now d = Inr d' \<and>
     du_dstate d' = fst (dummy_setvar (entry_apply (du_dstate d) e) n (join_values [] (map tok_word (snd e))))"
proof -
  let ?f = "message (entry_toks e) @ message [Plain (n @ '':'')]" and ?v = "join_values [] (map tok_word (snd e))"
  let ?ctx = "(pconf_init mem)\<lparr>pc_f := Some ?f\<rparr>"
  note beg = file_opened(1) [where fopen = fopen, OF assms(9), of mem]
  note at = file_opened(2) [where fopen = fopen, OF assms(9), of mem]
  have m: "msg_ok 32 512 (entry_toks e)" using assms(1) by (simp add: entry_ok_def)
  from line_start_next [OF at m] obtain c1 where c1: "pconf_file_next ?ctx = (1, c1)" "line_start c1 (message [Plain (n @ '':'')] @ [])"
    "pconf_words c1 = map tok_word (entry_toks e)" "numargs c1 = length (entry_toks e)" "pconf_parse_error c1 = (0, c1)" by auto
  from line_start_next [OF c1(2) assms(4)] obtain c2 where c2: "pconf_file_next c1 = (1, c2)" "line_start c2 []"
    "pconf_words c2 = [n @ '':'']" "numargs c2 = 1" "pconf_parse_error c2 = (0, c2)" by auto
  have w: "arglist c1 ! 0 = fst e @ '':''" "arglist c2 ! 0 = n @ '':''"
    using ctx_word [OF c1(3), of 0] c1(4) ctx_word [OF c2(3), of 0] c2(4) by (simp_all add: entry_toks_def)
  have "\<not> strneq (arglist c1 ! 0) ''TIMER'' 5" "\<not> strneq (arglist c2 ! 0) ''TIMER'' 5"
    using w assms(1,5,6) by (simp_all add: strneq_timer entry_ok_def)
  then have "data_loop now ?ctx (stack, du_dstate d) = data_loop now c2 (data_line [n @ '':''] (?v, entry_apply (du_dstate d) e))"
    using c1 c2 data_line_var [OF assms(1-3), of stack "du_dstate d"]
    by (subst data_loop.simps, subst (2) data_loop.simps) (simp add: entry_toks_def)
  also have "data_line [n @ '':''] (?v, entry_apply (du_dstate d) e) = (?v, fst (dummy_setvar (entry_apply (du_dstate d) e) n ?v))"
    using assms(7,8) entry_name [OF assms(5), of "[]"] by (simp add: data_line_def join_values_def Let_def)
  finally obtain c3 where "data_loop now ?ctx (stack, du_dstate d) = Inr (c3, fst (dummy_setvar (entry_apply (du_dstate d) e) n ?v), -1)"
    using data_loop_end [OF c2(2)] by metis
  with assms(10,11) beg show ?thesis by (simp add: parse_data_file_def du_file_def [symmetric])
qed

theorem valueless_line_copies_previous_witness:
  "\<exists>d'. parse_data_file (\<lambda>fn. Inr (message [Plain ''ups.test.result:'', Plain ''Done''] @ message [Plain ''ups.alarm:''])) ''/etc''
       zero_ctx [] 5 (demo_dummy (demo_driver\<lparr>dtree_root := Leaf, cmdhead := []\<rparr>)) = Inr d' \<and>
     dstate_getinfo (du_dstate d') ''ups.alarm'' = Some ''Done''"
proof -
  let ?ds = "demo_driver\<lparr>dtree_root := Leaf, cmdhead := []\<rparr>" and ?e = "(''ups.test.result'', [Plain ''Done''])"
  have ok: "entry_ok ?e" "\<not> strneq (fst ?e) ''driver.'' 7" "\<not> strneq (fst ?e) ''ups.status'' 10" by code_simp+
  have n: "msg_ok 32 512 [Plain (''ups.alarm'' @ '':'')]" "CHR '':'' \<notin> set ''ups.alarm''" "\<not> strneq ''ups.alarm'' ''TIMER'' 5"
    "\<not> strneq ''ups.alarm'' ''driver.'' 7" "\<not> strneq ''ups.alarm'' ''ups.status'' 10" by code_simp+
  have "dstate_getinfo (fst (dummy_setvar (entry_apply ?ds ?e) ''ups.alarm'' (join_values [] (map tok_word (snd ?e))))) ''ups.alarm'' =
      Some ''Done''" by code_simp
  with valueless_line_copies_previous [OF ok n, where d = "demo_dummy ?ds" and confpath = "''/etc''" and mem = zero_ctx and stack = "[]"
      and now = 5 and fopen = "\<lambda>fn. Inr (message [Plain ''ups.test.result:'', Plain ''Done''] @ message [Plain ''ups.alarm:''])"]
  show ?thesis by (auto simp: demo_dummy_def entry_toks_def)
qed

end
