(* ===== verification/Hidparser.thy ===== *)
theory Hidparser
  imports Prelude "HOL-Library.Log_Nat" "HOL-Library.Sublist"
begin

text \<open>
  The parser of USB HID report descriptors (\<open>drivers/hidparser.c\<close>, \<open>drivers/hidtypes.h\<close>): the items of a
  descriptor with the parser's environment, the list of objects and report lengths that come out, the
  search for an object, and reading and writing an object's bits in a report.

  A descriptor or a report is a list of bytes. Fields of type \<open>uint8_t\<close> and \<open>uint16_t\<close> are numbers with the
  wrap-around written out where code can leave the range; a \<open>long\<close> is an \<open>int\<close> (only values of up to 32
  bits reach it). An access outside an array or through a null pointer, and a shift or an addition
  that C leaves undefined, gives \<^const>\<open>None\<close>; the shift of 1 by 31 gives the sign bit, as gcc defines
  it. The loops over the items need not end (the position has 16 bits): they are
  partial functions, and \<^const>\<open>None\<close> as the outer result means that the loop does not end.
\<close>

unbundle bit_operations_syntax

section \<open>Data\<close>

definition PATH_SIZE :: nat where "PATH_SIZE = 10"
definition USAGE_TAB_SIZE :: nat where "USAGE_TAB_SIZE = 50"
definition MAX_REPORT :: nat where "MAX_REPORT = 300"

definition SIZE_MASK :: "8 word" where "SIZE_MASK = 0x03"
definition ITEM_COLLECTION :: "8 word" where "ITEM_COLLECTION = 0xA0"
definition ITEM_END_COLLECTION :: "8 word" where "ITEM_END_COLLECTION = 0xC0"
definition ITEM_FEATURE :: "8 word" where "ITEM_FEATURE = 0xB0"
definition ITEM_INPUT :: "8 word" where "ITEM_INPUT = 0x80"
definition ITEM_OUTPUT :: "8 word" where "ITEM_OUTPUT = 0x90"
definition ITEM_UPAGE :: "8 word" where "ITEM_UPAGE = 0x04"
definition ITEM_LOG_MIN :: "8 word" where "ITEM_LOG_MIN = 0x14"
definition ITEM_LOG_MAX :: "8 word" where "ITEM_LOG_MAX = 0x24"
definition ITEM_PHY_MIN :: "8 word" where "ITEM_PHY_MIN = 0x34"
definition ITEM_PHY_MAX :: "8 word" where "ITEM_PHY_MAX = 0x44"
definition ITEM_UNIT_EXP :: "8 word" where "ITEM_UNIT_EXP = 0x54"
definition ITEM_UNIT :: "8 word" where "ITEM_UNIT = 0x64"
definition ITEM_REP_SIZE :: "8 word" where "ITEM_REP_SIZE = 0x74"
definition ITEM_REP_ID :: "8 word" where "ITEM_REP_ID = 0x84"
definition ITEM_REP_COUNT :: "8 word" where "ITEM_REP_COUNT = 0x94"
definition ITEM_USAGE :: "8 word" where "ITEM_USAGE = 0x08"
definition ITEM_LONG :: "8 word" where "ITEM_LONG = 0xFC"
definition ITEM_MASK :: "8 word" where "ITEM_MASK = 0xFC"
definition ATTR_DATA_CST :: "8 word" where "ATTR_DATA_CST = 0x01"

lemmas item_defs = SIZE_MASK_def ITEM_COLLECTION_def ITEM_END_COLLECTION_def ITEM_FEATURE_def ITEM_INPUT_def
  ITEM_OUTPUT_def ITEM_UPAGE_def ITEM_LOG_MIN_def ITEM_LOG_MAX_def ITEM_PHY_MIN_def ITEM_PHY_MAX_def
  ITEM_UNIT_EXP_def ITEM_UNIT_def ITEM_REP_SIZE_def ITEM_REP_ID_def ITEM_REP_COUNT_def ITEM_USAGE_def
  ITEM_LONG_def ITEM_MASK_def

type_synonym node = "32 word"

record hid_path =
  PathSize :: nat
  Node :: "node list"

record hid_data =
  Path :: hid_path
  ReportID :: nat
  Offset :: nat
  Size :: nat
  Type :: "8 word"
  Attribute :: "8 word"
  Unit :: int
  UnitExp :: int
  LogMin :: int
  LogMax :: int
  PhyMin :: int
  PhyMax :: int
  have_PhyMin :: bool
  have_PhyMax :: bool

record hid_desc =
  item :: "hid_data list"
  replen :: "nat list"

text \<open>A used entry of the table of offsets is a report's ID, its type, and the next free bit.\<close>

record hid_parser =
  ReportDesc :: "8 word list"
  Pos :: nat
  Item :: "8 word"
  Value :: int
  Data :: hid_data
  OffsetTab :: "(nat \<times> 8 word \<times> nat) list"
  ReportCount :: nat
  Count :: nat
  UPage :: int
  UsageTab :: "node list"
  UsageSize :: nat

definition path_zero :: hid_path where
  "path_zero = \<lparr>PathSize = 0, Node = replicate PATH_SIZE 0\<rparr>"

definition data_zero :: hid_data where
  "data_zero = \<lparr>Path = path_zero, ReportID = 0, Offset = 0, Size = 0, Type = 0, Attribute = 0, Unit = 0, UnitExp = 0,
     LogMin = 0, LogMax = 0, PhyMin = 0, PhyMax = 0, have_PhyMin = False, have_PhyMax = False\<rparr>"

definition parser_init :: "8 word list \<Rightarrow> hid_parser" where
  "parser_init desc = \<lparr>ReportDesc = desc, Pos = 0, Item = 0, Value = 0, Data = data_zero,
     OffsetTab = replicate MAX_REPORT (0, 0, 0), ReportCount = 0, Count = 0, UPage = 0,
     UsageTab = replicate USAGE_TAB_SIZE 0, UsageSize = 0\<rparr>"

definition ItemSize :: "nat list" where
  "ItemSize = [0, 1, 2, 4]"

definition item_size :: "8 word \<Rightarrow> nat" where
  "item_size it = ItemSize ! unat (it AND SIZE_MASK)"

text \<open>A value of one to four bytes, the lowest first.\<close>

fun le_value :: "8 word list \<Rightarrow> int" where
  "le_value [] = 0"
| "le_value (b # bs) = uint b + 256 * le_value bs"

section \<open>The items of a descriptor\<close>

definition ResetLocalState :: "hid_parser \<Rightarrow> hid_parser" where
  "ResetLocalState p = p\<lparr>UsageSize := 0, UsageTab := replicate USAGE_TAB_SIZE 0\<rparr>"

text \<open>The first entry for the report, or the first unused one, which becomes the entry for it; the table
  with it and its position.\<close>

fun GetReportOffset :: "(nat \<times> 8 word \<times> nat) list \<Rightarrow> nat \<Rightarrow> 8 word \<Rightarrow> ((nat \<times> 8 word \<times> nat) list \<times> nat) option" where
  "GetReportOffset [] rid ty = None"
| "GetReportOffset ((i, t, off) # es) rid ty =
     (if i = 0 then Some ((rid, ty, 0) # es, 0)
      else if i = rid \<and> t = ty then Some ((i, t, off) # es, 0)
      else case GetReportOffset es rid ty of
             None \<Rightarrow> None
           | Some (es', k) \<Rightarrow> Some ((i, t, off) # es', Suc k))"

definition FormatValue :: "int \<Rightarrow> nat \<Rightarrow> int" where
  "FormatValue v n = (if n = 1 then signed_take_bit 7 v else if n = 2 then signed_take_bit 15 v
     else if n = 4 then signed_take_bit 31 v else v)"

text \<open>Read the next item, unless objects of the current one are left.\<close>

definition next_item :: "hid_parser \<Rightarrow> hid_parser option" where
  "next_item p =
     (if Count p \<noteq> 0 then Some p
      else
        let it = ReportDesc p ! Pos p; pos = (Pos p + 1) mod 2 ^ 16; n = item_size it
        in if length (ReportDesc p) < pos + n then None
           else Some (p\<lparr>Item := it, Value := le_value (take n (drop pos (ReportDesc p))), Pos := (pos + n) mod 2 ^ 16\<rparr>))"

definition push_usage :: "hid_parser \<Rightarrow> hid_parser option" where
  "push_usage p =
     (if USAGE_TAB_SIZE \<le> UsageSize p then None
      else
        let u = (if 2 < unat (Item p AND SIZE_MASK) then word_of_int (Value p)
                 else push_bit 16 (word_of_int (UPage p)) OR (word_of_int (Value p) AND 0xFFFF))
        in Some (p\<lparr>UsageTab := (UsageTab p)[UsageSize p := u], UsageSize := UsageSize p + 1\<rparr>))"

definition push_node :: "node \<Rightarrow> hid_parser \<Rightarrow> hid_parser option" where
  "push_node u p =
     (let q = Path (Data p) in
      if PATH_SIZE \<le> PathSize q then None
      else Some (p\<lparr>Data := (Data p)\<lparr>Path := \<lparr>PathSize = PathSize q + 1, Node = (Node q)[PathSize q := u]\<rparr>\<rparr>\<rparr>))"

text \<open>Shift the stack of usages down by one; the loop reads one entry behind the last one in use.\<close>

definition unstack_usage :: "hid_parser \<Rightarrow> hid_parser option" where
  "unstack_usage p =
     (if UsageSize p = 0 then Some p
      else if USAGE_TAB_SIZE \<le> UsageSize p then None
      else Some (p\<lparr>UsageTab := take (UsageSize p) (tl (UsageTab p)) @ drop (UsageSize p) (UsageTab p),
                    UsageSize := UsageSize p - 1\<rparr>))"

definition drop_node :: "hid_parser \<Rightarrow> hid_parser" where
  "drop_node p = p\<lparr>Data := (Data p)\<lparr>Path := (Path (Data p))\<lparr>PathSize := (PathSize (Path (Data p)) + 255) mod 256\<rparr>\<rparr>\<rparr>"

definition is_index :: "node \<Rightarrow> bool" where
  "is_index u \<longleftrightarrow> u AND 0xffff0000 = 0x00ff0000"

definition do_collection :: "hid_parser \<Rightarrow> hid_parser option" where
  "do_collection p =
     (case push_node (UsageTab p ! 0) p of
        None \<Rightarrow> None
      | Some p1 \<Rightarrow>
          (case unstack_usage p1 of
             None \<Rightarrow> None
           | Some p2 \<Rightarrow>
               (case (if 0x80 \<le> Value p2 then push_node (0x00ff0000 OR (word_of_int (Value p2) AND 0x7F)) p2 else Some p2) of
                  None \<Rightarrow> None
                | Some p3 \<Rightarrow> Some (ResetLocalState p3))))"

definition do_end_collection :: "hid_parser \<Rightarrow> hid_parser option" where
  "do_end_collection p =
     (let p1 = drop_node p; q = Path (Data p1)
      in if PATH_SIZE \<le> PathSize q then None
         else Some (ResetLocalState (if is_index (Node q ! PathSize q) then drop_node p1 else p1)))"

text \<open>The offset of the next object of \<open>n\<close> bits in a report, and the table with the offset moved behind it.\<close>

definition next_offset :: "(nat \<times> 8 word \<times> nat) list \<Rightarrow> nat \<Rightarrow> 8 word \<Rightarrow> nat \<Rightarrow> ((nat \<times> 8 word \<times> nat) list \<times> nat) option" where
  "next_offset tab rid ty n =
     (case GetReportOffset tab rid ty of
        None \<Rightarrow> None
      | Some (tab1, k) \<Rightarrow>
          (case GetReportOffset tab1 rid ty of
             None \<Rightarrow> None
           | Some (tab2, k2) \<Rightarrow>
               (case tab2 ! k2 of (i, t, off) \<Rightarrow> Some (tab2[k2 := (i, t, (off + n) mod 256)], snd (snd (tab1 ! k))))))"

text \<open>A feature, an input or an output: the result is 1 for an object with a usage and 0 for the
  continuation of one, with the object.\<close>

definition do_main :: "hid_parser \<Rightarrow> (int \<times> hid_parser \<times> hid_data) option" where
  "do_main p =
     (let found = (if UsageTab p ! 0 \<noteq> 0 then 1 else 0);
          p1 = (if Count p = 0 then p\<lparr>Count := ReportCount p\<rparr> else p);
          ty = Item p AND ITEM_MASK
      in case push_node (UsageTab p ! 0) p1 of
           None \<Rightarrow> None
         | Some p2 \<Rightarrow>
             (case unstack_usage p2 of
                None \<Rightarrow> None
              | Some p3 \<Rightarrow>
                  (case next_offset (OffsetTab p3) (ReportID (Data p3)) ty (Size (Data p3)) of
                     None \<Rightarrow> None
                   | Some (tab, off) \<Rightarrow>
                       let d = (Data p3)\<lparr>Type := ty, Attribute := word_of_int (Value p3), Offset := off\<rparr>;
                           p4 = drop_node (p3\<lparr>Data := d, OffsetTab := tab, Count := (Count p3 + 255) mod 256\<rparr>)
                       in Some (found, (if Count p4 = 0 then ResetLocalState p4 else p4), d))))"

text \<open>The other items only change the environment.\<close>

definition do_other :: "hid_parser \<Rightarrow> hid_parser option" where
  "do_other p =
     (let ty = Item p AND ITEM_MASK; v = Value p; d = Data p; n = item_size (Item p)
      in if ty = ITEM_UPAGE then Some (p\<lparr>UPage := v mod 2 ^ 16\<rparr>)
         else if ty = ITEM_USAGE then push_usage p
         else if ty = ITEM_COLLECTION then do_collection p
         else if ty = ITEM_END_COLLECTION then do_end_collection p
         else if ty = ITEM_REP_ID then Some (p\<lparr>Data := d\<lparr>ReportID := nat (v mod 256)\<rparr>\<rparr>)
         else if ty = ITEM_REP_SIZE then Some (p\<lparr>Data := d\<lparr>Size := nat (v mod 256)\<rparr>\<rparr>)
         else if ty = ITEM_REP_COUNT then Some (p\<lparr>ReportCount := nat (v mod 256)\<rparr>)
         else if ty = ITEM_UNIT_EXP
         then let e = signed_take_bit 7 v in Some (p\<lparr>Data := d\<lparr>UnitExp := (if 7 < e then signed_take_bit 7 (e OR 0xF0) else e)\<rparr>\<rparr>)
         else if ty = ITEM_UNIT then Some (p\<lparr>Data := d\<lparr>Unit := v\<rparr>\<rparr>)
         else if ty = ITEM_LOG_MIN then Some (p\<lparr>Data := d\<lparr>LogMin := FormatValue v n\<rparr>\<rparr>)
         else if ty = ITEM_LOG_MAX then Some (p\<lparr>Data := d\<lparr>LogMax := FormatValue v n\<rparr>\<rparr>)
         else if ty = ITEM_PHY_MIN then Some (p\<lparr>Data := d\<lparr>PhyMin := FormatValue v n, have_PhyMin := True\<rparr>\<rparr>)
         else if ty = ITEM_PHY_MAX then Some (p\<lparr>Data := d\<lparr>PhyMax := FormatValue v n, have_PhyMax := True\<rparr>\<rparr>)
         else if ty = ITEM_LONG then Some (p\<lparr>Pos := (Pos p + nat (v mod 256)) mod 2 ^ 16\<rparr>)
         else Some p)"

definition is_main :: "8 word \<Rightarrow> bool" where
  "is_main it \<longleftrightarrow> it AND ITEM_MASK \<in> {ITEM_FEATURE, ITEM_INPUT, ITEM_OUTPUT}"

text \<open>The result -1 comes with no object.\<close>

partial_function (option) HIDParse :: "hid_parser \<Rightarrow> (int \<times> hid_parser \<times> hid_data) option option" where [code]:
  "HIDParse p =
     (if length (ReportDesc p) \<le> Pos p then Some (Some (-1, p, data_zero))
      else case next_item p of
        None \<Rightarrow> Some None
      | Some p1 \<Rightarrow>
          if is_main (Item p1) then Some (do_main p1)
          else (case do_other p1 of
                  None \<Rightarrow> Some None
                | Some p2 \<Rightarrow> HIDParse p2))"

text \<open>The items found so far and the lengths of the reports in bytes.\<close>

partial_function (option) parse_loop ::
  "hid_parser \<Rightarrow> hid_data list \<Rightarrow> nat list \<Rightarrow> (hid_data list \<times> nat list) option option" where [code]:
  "parse_loop p items lens =
     (if MAX_REPORT \<le> length items then Some (Some (items, lens))
      else case HIDParse p of
        None \<Rightarrow> None
      | Some None \<Rightarrow> Some None
      | Some (Some (ret, p1, d)) \<Rightarrow>
          if ret < 0 then Some (Some (items, lens))
          else
            let len = (Offset d + Size d + 7) div 8
            in parse_loop p1 (if ret = 1 then items @ [d] else items)
                 (if lens ! ReportID d < len then lens[ReportID d := len] else lens))"

definition Parse_ReportDesc :: "8 word list \<Rightarrow> hid_desc option option option" where
  "Parse_ReportDesc desc =
     (case parse_loop (parser_init desc) [] (replicate 256 0) of
        None \<Rightarrow> None
      | Some None \<Rightarrow> Some None
      | Some (Some (items, lens)) \<Rightarrow>
          Some (Some (if items = [] then None else Some \<lparr>item = items, replen = lens\<rparr>)))"

section \<open>Objects\<close>

definition FindObject_with_Path :: "hid_desc \<Rightarrow> hid_path \<Rightarrow> 8 word \<Rightarrow> hid_data option" where
  "FindObject_with_Path desc path ty =
     find (\<lambda>d. Type d = ty \<and> take (PathSize path) (Node (Path d)) = take (PathSize path) (Node path)) (item desc)"

definition FindObject :: "hid_desc \<Rightarrow> hid_data \<Rightarrow> hid_data option" where
  "FindObject desc d = FindObject_with_Path desc (Path d) (Type d)"

definition FindObject_with_ID :: "hid_desc \<Rightarrow> nat \<Rightarrow> nat \<Rightarrow> 8 word \<Rightarrow> hid_data option" where
  "FindObject_with_ID desc rid off ty = find (\<lambda>d. ReportID d = rid \<and> Type d = ty \<and> Offset d = off) (item desc)"

text \<open>\<open>1 << w\<close> as an \<open>int\<close>.\<close>

definition shl1 :: "nat \<Rightarrow> int option" where
  "shl1 w = (if w < 31 then Some (2 ^ w) else if w = 31 then Some (- (2 ^ 31)) else None)"

text \<open>\<open>(1 << w) - 1\<close>.\<close>

definition low_mask :: "nat \<Rightarrow> int option" where
  "low_mask w = (case shl1 w of None \<Rightarrow> None | Some x \<Rightarrow> if x = - (2 ^ 31) then None else Some (x - 1))"

fun hibit_bytes :: "nat \<Rightarrow> nat \<Rightarrow> nat \<times> nat" where
  "hibit_bytes x res = (if 0xff < x then hibit_bytes (x div 256) (res + 8) else (x, res))"

fun hibit_bits :: "nat \<Rightarrow> nat \<Rightarrow> nat" where
  "hibit_bits x res = (if x \<noteq> 0 then hibit_bits (x div 2) (res + 1) else res)"

declare hibit_bytes.simps [simp del] hibit_bits.simps [simp del]

definition hibit :: "nat \<Rightarrow> nat" where
  "hibit x = (case hibit_bytes x 0 of (y, res) \<Rightarrow> hibit_bits y res)"

fun get_bits :: "8 word list \<Rightarrow> nat \<Rightarrow> nat \<Rightarrow> nat \<Rightarrow> int \<Rightarrow> int option" where
  "get_bits buf 0 w b v = Some v"
| "get_bits buf (Suc n) w b v =
     (if length buf \<le> b div 8 then None
      else if bit (buf ! (b div 8)) (b mod 8)
      then (case shl1 w of None \<Rightarrow> None | Some x \<Rightarrow> get_bits buf n (Suc w) (Suc b) (v + x))
      else get_bits buf n (Suc w) (Suc b) v)"

text \<open>The sign bit of a field of \<open>w\<close> bits, and the sign extension with it.\<close>

definition sign_extend :: "hid_data \<Rightarrow> nat \<Rightarrow> int \<Rightarrow> int \<Rightarrow> int option" where
  "sign_extend d w msk v =
     (if w = 0 then None
      else case shl1 (w - 1) of
        None \<Rightarrow> None
      | Some signbit \<Rightarrow> Some (if LogMin d < 0 \<and> v AND signbit \<noteq> 0 then v OR NOT msk else v))"

definition GetValue :: "8 word list \<Rightarrow> hid_data \<Rightarrow> int option" where
  "GetValue buf d =
     (case get_bits buf (Size d) 0 (Offset d + 8) 0 of
        None \<Rightarrow> None
      | Some raw \<Rightarrow>
          let span = LogMax d - LogMin d + 1 in
          if span \<le> 0 then Some raw
          else
            let b = hibit (nat ((span - 1) mod 2 ^ 32)) in
            (case low_mask b of
               None \<Rightarrow> None
             | Some msk \<Rightarrow>
                 (case sign_extend d b msk (raw AND msk) of
                    None \<Rightarrow> None
                  | Some v \<Rightarrow>
                      if LogMin d \<le> v \<and> v \<le> LogMax d then Some v
                      else
                        let m = (v - LogMin d) AND msk in
                        if LogMin d + m \<le> LogMax d then Some (LogMin d + m)
                        else (case low_mask (Size d) of
                                None \<Rightarrow> None
                              | Some msk2 \<Rightarrow>
                                  (case sign_extend d (Size d) msk2 raw of
                                     None \<Rightarrow> None
                                   | Some r \<Rightarrow> Some (if r < LogMin d then LogMin d else if LogMax d < r then LogMax d else r))))))"

fun set_bits :: "8 word list \<Rightarrow> nat \<Rightarrow> nat \<Rightarrow> nat \<Rightarrow> int \<Rightarrow> 8 word list option" where
  "set_bits buf 0 w b v = Some buf"
| "set_bits buf (Suc n) w b v =
     (if 32 \<le> w \<or> length buf \<le> b div 8 then None
      else
        let x = buf ! (b div 8); m = push_bit (b mod 8) 1
        in set_bits (buf[b div 8 := (if bit v w then x OR m else x AND NOT m)]) n (Suc w) (Suc b) v)"

definition SetValue :: "hid_data \<Rightarrow> 8 word list \<Rightarrow> int \<Rightarrow> 8 word list option" where
  "SetValue d buf v = set_bits buf (Size d) 0 (Offset d + 8) v"

section \<open>Bits\<close>

text \<open>Bit \<open>i\<close> of a report.\<close>

definition rbit :: "8 word list \<Rightarrow> nat \<Rightarrow> bool" where
  "rbit buf i = bit (buf ! (i div 8)) (i mod 8)"

lemma bit_put:
  "k < 8 \<Longrightarrow> bit (if c then x OR push_bit k 1 else x AND NOT (push_bit k 1)) j = (if j = k then c else bit x j)"
  for x :: "8 word"
  by (cases c) (auto simp: bit_simps dest: bit_imp_le_length)

lemma rbit_update:
  assumes "b div 8 < length buf"
  shows "rbit (buf[b div 8 := (if c then buf ! (b div 8) OR push_bit (b mod 8) 1 else buf ! (b div 8) AND NOT (push_bit (b mod 8) 1))]) i =
    (if i = b then c else rbit buf i)"
proof (cases "i div 8 = b div 8")
  case True
  then have "i = b \<longleftrightarrow> i mod 8 = b mod 8" by (metis div_mult_mod_eq)
  with assms True show ?thesis by (simp only: rbit_def nth_list_update_eq bit_put mod_less_divisor zero_less_numeral)
next
  case False
  then have "i \<noteq> b" "b div 8 \<noteq> i div 8" by auto
  then show ?thesis by (auto simp: rbit_def)
qed

lemma set_bits_spec:
  "w + n \<le> 32 \<Longrightarrow> b + n \<le> 8 * length buf \<Longrightarrow>
   \<exists>buf'. set_bits buf n w b v = Some buf' \<and> length buf' = length buf \<and>
     (\<forall>i. rbit buf' i = (if b \<le> i \<and> i < b + n then bit v (w + (i - b)) else rbit buf i))"
proof (induction n arbitrary: buf w b)
  case (Suc n)
  let ?x = "buf ! (b div 8)" and ?m = "push_bit (b mod 8) 1 :: 8 word"
  let ?buf = "buf[b div 8 := (if bit v w then ?x OR ?m else ?x AND NOT ?m)]"
  have b: "b div 8 < length buf" using Suc.prems by linarith
  have "Suc w + n \<le> 32" "Suc b + n \<le> 8 * length ?buf" using Suc.prems by simp_all
  from Suc.IH [OF this] obtain buf' where s: "set_bits ?buf n (Suc w) (Suc b) v = Some buf'" "length buf' = length buf"
    and r: "\<And>i. rbit buf' i = (if Suc b \<le> i \<and> i < Suc b + n then bit v (Suc w + (i - Suc b)) else rbit ?buf i)"
    by (simp only: length_list_update) blast
  have "\<not> (32 \<le> w \<or> length buf \<le> b div 8)" using b Suc.prems by simp
  then have "set_bits buf (Suc n) w b v = Some buf'" using s(1) by (simp only: set_bits.simps Let_def if_False)
  moreover have "rbit buf' i = (if b \<le> i \<and> i < b + Suc n then bit v (w + (i - b)) else rbit buf i)" for i
  proof -
    consider "i < b" | "i = b" | "b < i" by linarith
    then show ?thesis unfolding r rbit_update [OF b] by cases (simp_all add: Suc_diff_Suc)
  qed
  ultimately show ?case using s(2) by blast
qed auto

text \<open>The number that the bits from \<open>b\<close> on are.\<close>

definition field :: "8 word list \<Rightarrow> nat \<Rightarrow> nat \<Rightarrow> int" where
  "field buf b n = horner_sum of_bool 2 (map (\<lambda>j. rbit buf (b + j)) [0..<n])"

lemma field_Suc: "field buf b (Suc n) = of_bool (rbit buf b) + 2 * field buf (Suc b) n"
proof -
  have "[0..<Suc n] = 0 # map Suc [0..<n]" by (simp add: map_Suc_upt upt_conv_Cons)
  then have "map (\<lambda>j. rbit buf (b + j)) [0..<Suc n] = rbit buf b # map (\<lambda>j. rbit buf (Suc b + j)) [0..<n]"
    by (simp only: list.map map_map) (simp add: comp_def)
  then show ?thesis unfolding field_def by (simp only: horner_sum_simps)
qed

lemma shl1_mod: "w < 32 \<Longrightarrow> \<exists>x. shl1 w = Some x \<and> x mod 2 ^ 32 = 2 ^ w mod 2 ^ 32"
proof -
  assume "w < 32"
  then consider "w < 31" | "w = 31" by linarith
  then show ?thesis by cases (simp_all add: shl1_def)
qed

lemma get_bits_spec:
  "w + n \<le> 32 \<Longrightarrow> b + n \<le> 8 * length buf \<Longrightarrow>
   \<exists>r. get_bits buf n w b v = Some r \<and> r mod 2 ^ 32 = (v + 2 ^ w * field buf b n) mod 2 ^ 32"
proof (induction n arbitrary: w b v)
  case (Suc n)
  have b: "b div 8 < length buf" using Suc.prems by linarith
  obtain x where x: "shl1 w = Some x" "x mod 2 ^ 32 = 2 ^ w mod 2 ^ 32" using shl1_mod [of w] Suc.prems by auto
  let ?v = "if rbit buf b then v + x else v"
  obtain r where r: "get_bits buf n (Suc w) (Suc b) ?v = Some r"
    "r mod 2 ^ 32 = (?v + 2 ^ Suc w * field buf (Suc b) n) mod 2 ^ 32"
    using Suc.IH [of "Suc w" "Suc b" ?v] Suc.prems by auto
  have "?v mod 2 ^ 32 = (v + 2 ^ w * of_bool (rbit buf b)) mod 2 ^ 32"
    using x(2) mod_add_cong [OF refl x(2), of v] by simp
  then have "r mod 2 ^ 32 = (v + 2 ^ w * of_bool (rbit buf b) + 2 ^ Suc w * field buf (Suc b) n) mod 2 ^ 32"
    using r(2) by (metis mod_add_cong)
  then have "r mod 2 ^ 32 = (v + 2 ^ w * field buf b (Suc n)) mod 2 ^ 32"
    by (simp add: field_Suc algebra_simps)
  moreover have "get_bits buf (Suc n) w b v = Some r" using r(1) b x(1) by (cases "rbit buf b") (simp_all add: rbit_def not_le)
  ultimately show ?case by blast
qed (simp add: field_def)

lemma field_set:
  assumes "\<And>i. rbit buf' i = (if b \<le> i \<and> i < b + n then bit v (i - b) else rbit buf i)"
  shows "field buf' b n = take_bit n v"
proof -
  have "map (\<lambda>j. rbit buf' (b + j)) [0..<n] = map (bit v) [0..<n]" by (simp add: assms)
  then show ?thesis unfolding field_def by (simp only: horner_sum_bit_eq_take_bit)
qed

lemma field_cong: "(\<And>i. b \<le> i \<Longrightarrow> i < b + n \<Longrightarrow> rbit buf' i = rbit buf i) \<Longrightarrow> field buf' b n = field buf b n"
proof -
  assume "\<And>i. b \<le> i \<Longrightarrow> i < b + n \<Longrightarrow> rbit buf' i = rbit buf i"
  then have "map (\<lambda>j. rbit buf' (b + j)) [0..<n] = map (\<lambda>j. rbit buf (b + j)) [0..<n]" by simp
  then show ?thesis by (simp only: field_def)
qed

section \<open>The number of bits of a number\<close>

lemma hibit_bits_floorlog: "hibit_bits x res = res + floorlog 2 x"
proof (induction x res rule: hibit_bits.induct)
  case (1 x res)
  show ?case
    by (subst hibit_bits.simps, subst compute_floorlog) (use 1 in auto)
qed

lemma floorlog_256: "0xff < x \<Longrightarrow> floorlog 2 x = floorlog 2 (x div 256) + 8"
proof -
  have s: "0 < x \<Longrightarrow> floorlog 2 x = floorlog 2 (x div 2) + 1" for x :: nat by (subst compute_floorlog) simp
  assume "0xff < x"
  then show ?thesis
    using s [of x] s [of "x div 2"] s [of "x div 4"] s [of "x div 8"] s [of "x div 16"] s [of "x div 32"]
      s [of "x div 64"] s [of "x div 128"] by (simp add: div_mult2_eq [symmetric] div_greater_zero_iff flip: div_mult2_eq)
qed

lemma hibit_bytes_floorlog: "hibit_bytes x res = (y, r) \<Longrightarrow> r + floorlog 2 y = res + floorlog 2 x"
proof (induction x res arbitrary: y r rule: hibit_bytes.induct)
  case (1 x res)
  show ?case
  proof (cases "0xff < x")
    case True
    with 1 show ?thesis using hibit_bytes.simps [of x res] floorlog_256 [OF True] by simp
  next
    case False
    with 1 show ?thesis using hibit_bytes.simps [of x res] by simp
  qed
qed

lemma hibit_floorlog: "hibit x = floorlog 2 x"
proof -
  obtain y r where "hibit_bytes x 0 = (y, r)" by force
  with hibit_bytes_floorlog [OF this] show ?thesis by (simp add: hibit_def hibit_bits_floorlog)
qed
lemma low_mask_small: "n \<le> 30 \<Longrightarrow> low_mask n = Some (2 ^ n - 1)"
proof -
  have "(2 :: int) ^ n \<noteq> - 2147483648" using zero_less_power [of "2 :: int" n] by linarith
  then show "n \<le> 30 \<Longrightarrow> low_mask n = Some (2 ^ n - 1)" by (simp add: low_mask_def shl1_def)
qed

lemma get_bits_cong:
  assumes "length buf' = length buf" "\<And>i. b \<le> i \<Longrightarrow> i < b + n \<Longrightarrow> rbit buf' i = rbit buf i"
  shows "get_bits buf' n w b v = get_bits buf n w b v"
  using assms(2)
proof (induction n arbitrary: w b v)
  case (Suc n)
  have "bit (buf' ! (b div 8)) (b mod 8) = bit (buf ! (b div 8)) (b mod 8)" using Suc.prems [of b] by (simp add: rbit_def)
  moreover have "get_bits buf' n w' (Suc b) v' = get_bits buf n w' (Suc b) v'" for w' v'
    using Suc.prems by (intro Suc.IH) simp
  ultimately show ?case by (simp only: get_bits.simps assms(1))
qed simp

section \<open>Reading and writing an object\<close>

text \<open>An object whose bits lie in the report and have a defined value.\<close>

definition in_report :: "hid_data \<Rightarrow> 8 word list \<Rightarrow> bool" where
  "in_report d buf \<longleftrightarrow> Offset d + Size d + 8 \<le> 8 * length buf \<and> Size d \<le> 32"

text \<open>The logical values of an object: at least two, at most as many as its bits can tell apart.\<close>

definition values_ok :: "hid_data \<Rightarrow> bool" where
  "values_ok d \<longleftrightarrow> LogMin d < LogMax d \<and> LogMax d - LogMin d < 2 ^ min 30 (Size d)"

lemma SetValue_spec:
  assumes "in_report d buf"
  obtains buf' where "SetValue d buf v = Some buf'" "length buf' = length buf"
    "\<And>i. rbit buf' i = (if Offset d + 8 \<le> i \<and> i < Offset d + 8 + Size d then bit v (i - (Offset d + 8)) else rbit buf i)"
  using set_bits_spec [of 0 "Size d" "Offset d + 8" buf v] assms that by (auto simp: SetValue_def in_report_def)

lemma GetValue_raw:
  assumes "in_report d buf"
  obtains r where "get_bits buf (Size d) 0 (Offset d + 8) 0 = Some r"
    "r mod 2 ^ 32 = field buf (Offset d + 8) (Size d) mod 2 ^ 32"
  using get_bits_spec [of 0 "Size d" "Offset d + 8" buf 0] assms that by (auto simp: in_report_def)

lemma mod_sign:
  "(if c then v OR NOT (2 ^ b - 1) else v) mod 2 ^ b = v mod (2 ^ b :: int)"
proof -
  have "take_bit b (v OR NOT (2 ^ b - 1)) = take_bit b v"
    by (rule bit_eqI) (auto simp: bit_simps mask_eq_exp_minus_1 [symmetric])
  then show ?thesis by (simp add: take_bit_eq_mod)
qed

text \<open>The heart of \<open>GetValue\<close>: with \<open>b\<close> bits for the values of the object, the result is the one value in
  its range that agrees with the raw value modulo \<open>2 ^ b\<close>, when there is one.\<close>

lemma GetValue_facts:
  assumes "in_report d buf" and "values_ok d"
  defines "B \<equiv> hibit (nat (LogMax d - LogMin d))"
  shows "LogMin d \<le> x \<Longrightarrow> x \<le> LogMax d \<Longrightarrow> x mod 2 ^ B = field buf (Offset d + 8) (Size d) mod 2 ^ B \<Longrightarrow> GetValue buf d = Some x"
    and "Size d \<le> 30 \<Longrightarrow> \<exists>v. GetValue buf d = Some v \<and> LogMin d \<le> v \<and> v \<le> LogMax d"
    and "0 < B \<and> B \<le> 30 \<and> B \<le> Size d"
proof -
  let ?n = "nat (LogMax d - LogMin d)" and ?lo = "LogMin d" and ?hi = "LogMax d" and ?M = "2 ^ B :: int"
  have n: "0 < ?n" "int ?n < 2 ^ min 30 (Size d)" "int ?n = ?hi - ?lo" using assms(2) by (auto simp: values_ok_def)
  have b: "2 ^ (B - 1) \<le> ?n" "?n < 2 ^ B" using floorlog_bounds [OF n(1), of 2] by (simp_all add: B_def hibit_floorlog)
  have "?n < 2 ^ min 30 (Size d)" using n(2) by (metis of_nat_less_iff of_nat_numeral of_nat_power)
  then have "B \<le> min 30 (Size d)" using floorlog_leI [of ?n 2 "min 30 (Size d)"] by (simp add: B_def hibit_floorlog)
  moreover have "0 < B" using b n(1) by (cases B) auto
  ultimately show B: "0 < B \<and> B \<le> 30 \<and> B \<le> Size d" by simp
  have span: "?hi - ?lo < ?M" using b(2) n(3) by (metis of_nat_less_iff of_nat_numeral of_nat_power)
  obtain r where r: "get_bits buf (Size d) 0 (Offset d + 8) 0 = Some r"
    "r mod 2 ^ 32 = field buf (Offset d + 8) (Size d) mod 2 ^ 32" by (rule GetValue_raw [OF assms(1)])
  have rB: "r mod ?M = field buf (Offset d + 8) (Size d) mod ?M"
  proof -
    have "?M dvd 2 ^ 32" using B by (intro le_imp_power_dvd) simp
    then have "y mod ?M = (y mod 2 ^ 32) mod ?M" for y by (simp only: mod_mod_cancel)
    from this [of r] this [of "field buf (Offset d + 8) (Size d)"] show ?thesis unfolding r(2) by (rule trans [OF _ sym])
  qed
  have small: "(?hi - ?lo) mod 4294967296 = ?hi - ?lo"
  proof (rule mod_pos_pos_trivial)
    have "?M \<le> 2 ^ 32" using B by (intro power_increasing) auto
    with span show "?hi - ?lo < 4294967296" by simp
  qed (use n in simp)
  have masks: "low_mask B = Some (?M - 1)" "shl1 (B - 1) = Some (2 ^ (B - 1))" "B \<noteq> 0"
    using B by (auto simp: low_mask_small shl1_def)
  have band: "x AND (?M - 1) = x mod ?M" for x by (simp add: take_bit_eq_mod flip: take_bit_eq_mask mask_eq_exp_minus_1)
  define v where "v = (if ?lo < 0 \<and> (r mod ?M) AND 2 ^ (B - 1) \<noteq> 0 then (r mod ?M) OR NOT (?M - 1) else r mod ?M)"
  have vM: "v mod ?M = r mod ?M" by (simp only: v_def mod_sign mod_mod_trivial)
  have ext: "sign_extend d B (?M - 1) (r mod ?M) = Some v" 
    using masks(2,3) unfolding sign_extend_def v_def by (simp only: if_False option.case)
  let ?m = "(v - ?lo) mod ?M"
  have m: "(?lo + ?m) mod ?M = r mod ?M" using vM by (simp add: mod_add_right_eq)
  have uniq: "x = y" if "?lo \<le> x" "x \<le> ?hi" "?lo \<le> y" "y \<le> ?hi" "x mod ?M = y mod ?M" for x y
  proof -
    have "?M dvd x - y" using that(5) by (simp add: mod_eq_dvd_iff)
    moreover have "\<bar>x - y\<bar> < ?M" using that span by auto
    ultimately show ?thesis using dvd_imp_le_int [of "x - y" ?M] by fastforce
  qed
  have get: "GetValue buf d =
      (if ?lo \<le> v \<and> v \<le> ?hi then Some v else if ?lo + ?m \<le> ?hi then Some (?lo + ?m)
       else case low_mask (Size d) of None \<Rightarrow> None
       | Some msk2 \<Rightarrow> (case sign_extend d (Size d) msk2 r of None \<Rightarrow> None
          | Some r \<Rightarrow> Some (if r < ?lo then ?lo else if ?hi < r then ?hi else r)))"
    using n(1,3) by (simp add: GetValue_def r(1) Let_def small masks(1) band ext flip: B_def)
  show "GetValue buf d = Some x" if "?lo \<le> x" "x \<le> ?hi" "x mod ?M = field buf (Offset d + 8) (Size d) mod ?M"
  proof (cases "?lo \<le> v \<and> v \<le> ?hi")
    case True
    then have "v = x" using uniq [of v x] that vM rB by simp
    with True show ?thesis unfolding get by simp
  next
    case False
    have "?m = x - ?lo"
    proof -
      have "?m = (x - ?lo) mod ?M" using vM rB that(3) by (metis mod_diff_left_eq)
      with that span show ?thesis by (simp add: mod_pos_pos_trivial)
    qed
    with False that(2) show ?thesis unfolding get by auto
  qed
  show "\<exists>v. GetValue buf d = Some v \<and> ?lo \<le> v \<and> v \<le> ?hi" if "Size d \<le> 30"
  proof -
    have "low_mask (Size d) = Some (2 ^ Size d - 1)" "shl1 (Size d - 1) = Some (2 ^ (Size d - 1))" "Size d \<noteq> 0"
      using that B by (auto simp: low_mask_small shl1_def)
    moreover have "0 \<le> ?m" by simp
    ultimately show ?thesis using n unfolding get sign_extend_def by (auto simp: linorder_not_le)
  qed
qed

text \<open>C10: A value written to an object is the value read back. For an object with at most 32 bits, in a report that
  holds them, whose logical values are at least two, at most as many as the bits can tell apart and at most
  2^30 (for wider ranges the mask of \<open>GetValue\<close> is undefined), writing any value of
  its range and reading it gives that value: also for signed ranges and for ranges that do not start at
  zero, where the value is found again from its low bits.\<close>

theorem SetValue_GetValue:
  assumes "in_report d buf" "values_ok d" "LogMin d \<le> v" "v \<le> LogMax d"
  shows "\<exists>buf'. SetValue d buf v = Some buf' \<and> GetValue buf' d = Some v"
proof -
  obtain buf' where s: "SetValue d buf v = Some buf'" "length buf' = length buf"
    and r: "\<And>i. rbit buf' i = (if Offset d + 8 \<le> i \<and> i < Offset d + 8 + Size d then bit v (i - (Offset d + 8)) else rbit buf i)"
    by (rule SetValue_spec [OF assms(1)]) blast
  have i: "in_report d buf'" using assms(1) s(2) by (simp add: in_report_def)
  have "field buf' (Offset d + 8) (Size d) = take_bit (Size d) v" by (rule field_set [OF r])
  then have "v mod 2 ^ B = field buf' (Offset d + 8) (Size d) mod 2 ^ B" if "B \<le> Size d" for B
    using that by (simp flip: take_bit_eq_mod)
  with GetValue_facts(1) [OF i assms(2-4)] GetValue_facts(3) [OF i assms(2)] s(1) show ?thesis by blast
qed

text \<open>C26: Writing an object does not disturb the others: an object whose bits do not overlap with those of the
  written one reads the same before and after, and the report keeps its length.\<close>

theorem SetValue_isolated:
  assumes "in_report d buf" "in_report e buf"
    and "Offset e + Size e \<le> Offset d \<or> Offset d + Size d \<le> Offset e"
  shows "\<exists>buf'. SetValue d buf v = Some buf' \<and> length buf' = length buf \<and> GetValue buf' e = GetValue buf e"
proof -
  obtain buf' where s: "SetValue d buf v = Some buf'" "length buf' = length buf"
    and r: "\<And>i. rbit buf' i = (if Offset d + 8 \<le> i \<and> i < Offset d + 8 + Size d then bit v (i - (Offset d + 8)) else rbit buf i)"
    by (rule SetValue_spec [OF assms(1)]) blast
  have "rbit buf' i = rbit buf i" if "Offset e + 8 \<le> i" "i < Offset e + 8 + Size e" for i
    using that assms(3) by (auto simp: r)
  then have "get_bits buf' (Size e) 0 (Offset e + 8) 0 = get_bits buf (Size e) 0 (Offset e + 8) 0"
    by (rule get_bits_cong [OF s(2)])
  then have "GetValue buf' e = GetValue buf e" by (simp add: GetValue_def)
  with s show ?thesis by blast
qed

section \<open>The run of the parser\<close>

text \<open>What the parts of the parser leave alone.\<close>

lemma node_keeps:
  "push_node u p = Some q \<Longrightarrow> ReportDesc q = ReportDesc p \<and> Pos q = Pos p \<and> Item q = Item p \<and> Value q = Value p \<and>
     Count q = Count p \<and> ReportCount q = ReportCount p \<and> OffsetTab q = OffsetTab p \<and>
     ReportID (Data q) = ReportID (Data p) \<and> Size (Data q) = Size (Data p) \<and> UsageSize q = UsageSize p \<and> UsageTab q = UsageTab p"
  "unstack_usage p = Some q \<Longrightarrow> ReportDesc q = ReportDesc p \<and> Pos q = Pos p \<and> Item q = Item p \<and> Value q = Value p \<and>
     Count q = Count p \<and> ReportCount q = ReportCount p \<and> OffsetTab q = OffsetTab p \<and> Data q = Data p"
  by (auto simp: push_node_def unstack_usage_def Let_def split: if_splits)

lemma do_main_spec:
  assumes "do_main p = Some (ret, p', d)"
  shows "ReportDesc p' = ReportDesc p \<and> Pos p' = Pos p \<and> Item p' = Item p \<and> ReportCount p' = ReportCount p"
    and "Count p' = ((if Count p = 0 then ReportCount p else Count p) + 255) mod 256"
    and "ret = 0 \<or> ret = 1"
    and "ReportID d = ReportID (Data p) \<and> ReportID (Data p') = ReportID (Data p)"
    and "next_offset (OffsetTab p) (ReportID d) (Type d) (Size d) = Some (OffsetTab p', Offset d)"
proof -
  let ?p1 = "if Count p = 0 then p\<lparr>Count := ReportCount p\<rparr> else p"
  obtain p2 p3 where 2: "push_node (UsageTab p ! 0) ?p1 = Some p2" and 3: "unstack_usage p2 = Some p3"
    using assms by (auto simp: do_main_def Let_def split: option.splits)
  note k = node_keeps(1) [OF 2] node_keeps(2) [OF 3]
  obtain tab off where g: "next_offset (OffsetTab p3) (ReportID (Data p3)) (Item p AND ITEM_MASK) (Size (Data p3)) = Some (tab, off)"
    using assms 2 3 by (auto simp: do_main_def Let_def split: option.splits)
  note main = assms [unfolded do_main_def Let_def 2 3 g option.case prod.case]
  have d: "d = (Data p3)\<lparr>Type := Item p AND ITEM_MASK, Attribute := word_of_int (Value p3), Offset := off\<rparr>"
    "ret = (if UsageTab p ! 0 \<noteq> 0 then 1 else 0)"
    "OffsetTab p' = tab \<and> ReportDesc p' = ReportDesc p3 \<and> Pos p' = Pos p3 \<and> Item p' = Item p3 \<and> ReportCount p' = ReportCount p3 \<and>
     Count p' = (Count p3 + 255) mod 256 \<and> ReportID (Data p') = ReportID (Data p3)"
    using main by (auto simp: drop_node_def ResetLocalState_def)
  show "ReportDesc p' = ReportDesc p \<and> Pos p' = Pos p \<and> Item p' = Item p \<and> ReportCount p' = ReportCount p"
    "Count p' = ((if Count p = 0 then ReportCount p else Count p) + 255) mod 256"
    "ReportID d = ReportID (Data p) \<and> ReportID (Data p') = ReportID (Data p)"
    "ret = 0 \<or> ret = 1"
    "next_offset (OffsetTab p) (ReportID d) (Type d) (Size d) = Some (OffsetTab p', Offset d)"
    using k d g by auto
qed

lemma next_item_spec:
  assumes "next_item p = Some q"
  shows "ReportDesc q = ReportDesc p \<and> Count q = Count p \<and> ReportCount q = ReportCount p \<and> OffsetTab q = OffsetTab p \<and> Data q = Data p"
    and "Count p \<noteq> 0 \<Longrightarrow> q = p"
    and "Count p = 0 \<Longrightarrow> Pos p < length (ReportDesc p) \<Longrightarrow> length (ReportDesc p) \<le> 65280 \<Longrightarrow>
      Pos p < Pos q \<and> Pos q \<le> length (ReportDesc p)"
proof -
  show "Pos p < Pos q \<and> Pos q \<le> length (ReportDesc p)"
    if "Count p = 0" "Pos p < length (ReportDesc p)" "length (ReportDesc p) \<le> 65280"
    using that assms by (simp add: next_item_def Let_def split: if_splits) auto
qed (use assms in \<open>auto simp: next_item_def Let_def split: if_splits\<close>)

lemma do_other_spec:
  assumes "do_other p = Some q"
  shows "ReportDesc q = ReportDesc p \<and> Count q = Count p \<and> OffsetTab q = OffsetTab p"
    and "ReportCount p < 256 \<Longrightarrow> ReportCount q < 256"
    and "ReportID (Data p) < 256 \<Longrightarrow> ReportID (Data q) < 256"
    and "Pos p \<le> 65280 \<Longrightarrow> Pos p \<le> Pos q"
proof -
  have coll: "ReportDesc q = ReportDesc p \<and> Count q = Count p \<and> OffsetTab q = OffsetTab p \<and> ReportCount q = ReportCount p \<and>
      ReportID (Data q) = ReportID (Data p) \<and> Pos q = Pos p"
    if "push_usage p = Some q \<or> do_collection p = Some q \<or> do_end_collection p = Some q"
    using that
  proof (elim disjE)
    assume "do_collection p = Some q"
    then obtain p1 p2 where 1: "push_node (UsageTab p ! 0) p = Some p1" "unstack_usage p1 = Some p2"
      by (auto simp: do_collection_def split: option.splits)
    note k = node_keeps(1) [OF 1(1)] node_keeps(2) [OF 1(2)]
    show ?thesis
    proof (cases "0x80 \<le> Value p2")
      case True
      with \<open>do_collection p = Some q\<close> 1 obtain p3 where
        "push_node (0x00ff0000 OR (word_of_int (Value p2) AND 0x7F)) p2 = Some p3" "q = ResetLocalState p3"
        by (auto simp: do_collection_def split: option.splits)
      with node_keeps(1) [OF this(1)] k show ?thesis by (auto simp: ResetLocalState_def)
    next
      case False
      with \<open>do_collection p = Some q\<close> 1 k show ?thesis by (auto simp: do_collection_def ResetLocalState_def)
    qed
  qed (auto simp: push_usage_def do_end_collection_def drop_node_def ResetLocalState_def Let_def split: if_splits)
  have "ReportDesc q = ReportDesc p \<and> Count q = Count p \<and> OffsetTab q = OffsetTab p \<and> (ReportCount p < 256 \<longrightarrow> ReportCount q < 256) \<and>
      (ReportID (Data p) < 256 \<longrightarrow> ReportID (Data q) < 256) \<and> (Pos p \<le> 65280 \<longrightarrow> Pos p \<le> Pos q)"
    if "push_usage p \<noteq> Some q" "do_collection p \<noteq> Some q" "do_end_collection p \<noteq> Some q"
  proof -
    have b: "nat (v mod 256) < 256" for v by (simp add: nat_less_iff)
    have l: "Pos p \<le> 65280 \<Longrightarrow> (Pos p + nat (v mod 256)) mod 65536 = Pos p + nat (v mod 256)" for v using b [of v] by simp
    show ?thesis using assms that b l by (auto simp: do_other_def Let_def split: if_splits)
  qed
  with coll show "ReportDesc q = ReportDesc p \<and> Count q = Count p \<and> OffsetTab q = OffsetTab p"
    "ReportCount p < 256 \<Longrightarrow> ReportCount q < 256" "ReportID (Data p) < 256 \<Longrightarrow> ReportID (Data q) < 256"
    "Pos p \<le> 65280 \<Longrightarrow> Pos p \<le> Pos q"
    by (metis order_refl)+
qed

section \<open>Termination\<close>

definition parser_ok :: "hid_parser \<Rightarrow> bool" where
  "parser_ok p \<longleftrightarrow> length (ReportDesc p) \<le> 65280 \<and> Count p < 256 \<and> ReportCount p < 256 \<and> (Count p \<noteq> 0 \<longrightarrow> is_main (Item p))"

text \<open>What is left to read, counted in objects.\<close>

definition left :: "hid_parser \<Rightarrow> nat" where
  "left p = (length (ReportDesc p) - Pos p) * 256 + Count p"

lemma main_step:
  assumes "parser_ok p" "Pos p < length (ReportDesc p)" "next_item p = Some p1" "is_main (Item p1)" "do_main p1 = Some (ret, p', d)"
  shows "parser_ok p' \<and> left p' < left p"
proof -
  note n = next_item_spec [OF assms(3)] and m = do_main_spec [OF assms(5)]
  have ok: "parser_ok p'" using assms(1,4) n(1) m by (auto simp: parser_ok_def)
  show ?thesis
  proof (cases "Count p = 0")
    case True
    with n(3) assms(1,2) have "Pos p < Pos p1" "Pos p1 \<le> length (ReportDesc p)" by (auto simp: parser_ok_def)
    then have "(length (ReportDesc p) - Pos p') * 256 + 256 \<le> (length (ReportDesc p) - Pos p) * 256" using m by auto
    moreover have "Count p' < 256" using ok by (simp add: parser_ok_def)
    ultimately show ?thesis using ok n m by (simp add: left_def)
  next
    case False
    then have "p1 = p" by (rule n(2))
    moreover have "(c + 255) mod 256 < c" if "0 < c" "c < 256" for c :: nat using that by (cases c) simp_all
    ultimately have "Count p' < Count p" using False m(2) assms(1) by (simp add: parser_ok_def)
    with ok m \<open>p1 = p\<close> show ?thesis by (simp add: left_def)
  qed
qed

lemma HIDParse_ends:
  "parser_ok p \<Longrightarrow> \<exists>r. HIDParse p = Some r \<and>
     (\<forall>ret p' d. r = Some (ret, p', d) \<longrightarrow> ret = -1 \<or> parser_ok p' \<and> left p' < left p)"
proof (induction "left p" arbitrary: p rule: less_induct)
  case less
  show ?case
  proof (cases "length (ReportDesc p) \<le> Pos p \<or> next_item p = None")
    case True
    then show ?thesis by (auto simp: HIDParse.simps [of p])
  next
    case False
    then obtain p1 where 1: "next_item p = Some p1" and pos: "Pos p < length (ReportDesc p)" by auto
    show ?thesis
    proof (cases "is_main (Item p1)")
      case True
      with 1 pos main_step [OF less.prems pos 1 True] show ?thesis by (auto simp: HIDParse.simps [of p])
    next
      case False
      then have c: "Count p = 0" using less.prems next_item_spec(2) [OF 1] by (auto simp: parser_ok_def)
      show ?thesis
      proof (cases "do_other p1")
        case None
        with 1 pos False show ?thesis by (auto simp: HIDParse.simps [of p])
      next
        case (Some p2)
        note n = next_item_spec [OF 1] and o = do_other_spec [OF Some]
        have 2: "parser_ok p2" using less.prems n(1) o c by (simp add: parser_ok_def)
        have "Pos p < Pos p1" "Pos p1 \<le> length (ReportDesc p)" using n(3) c pos less.prems by (auto simp: parser_ok_def)
        then have "Pos p < Pos p2" using o(4) less.prems by (simp add: parser_ok_def)
        then have l: "left p2 < left p" using n(1) o(1) c pos by (simp add: left_def)
        have "HIDParse p = HIDParse p2" using 1 pos False Some by (simp add: HIDParse.simps [of p])
        with less.hyps [OF l 2] l show ?thesis by fastforce
      qed
    qed
  qed
qed

lemma parse_loop_ends: "parser_ok p \<Longrightarrow> \<exists>r. parse_loop p items lens = Some r"
proof (induction "left p" arbitrary: p items lens rule: less_induct)
  case less
  obtain r where r: "HIDParse p = Some r"
    "\<And>ret p' d. r = Some (ret, p', d) \<Longrightarrow> ret = -1 \<or> parser_ok p' \<and> left p' < left p"
    using HIDParse_ends [OF less.prems] by blast
  show ?case
  proof (cases r)
    case None
    with r(1) show ?thesis by (simp add: parse_loop.simps [of p])
  next
    case (Some x)
    obtain ret p' d where x: "x = (ret, p', d)" by (cases x)
    then consider "ret = -1" | "parser_ok p'" "left p' < left p" using r(2) Some by blast
    then show ?thesis
    proof cases
      case 1
      with r(1) Some x show ?thesis by (simp add: parse_loop.simps [of p])
    next
      case 2
      with less.hyps [OF 2(2,1)] r(1) Some x show ?thesis by (simp add: parse_loop.simps [of p] Let_def)
    qed
  qed
qed

text \<open>C25: Parsing ends on every descriptor of at most 65280 bytes, however broken: with objects, with none, or
  at an access outside an array. (From there on a long item can carry the 16-bit position past its
  largest value and back to the start.)\<close>

theorem Parse_ReportDesc_ends:
  assumes "length desc \<le> 65280"
  shows "\<exists>r. Parse_ReportDesc desc = Some r"
proof -
  have "parser_ok (parser_init desc)" using assms by (simp add: parser_ok_def parser_init_def)
  from parse_loop_ends [OF this] obtain r where "parse_loop (parser_init desc) [] (replicate 256 0) = Some r" by blast
  then show ?thesis by (cases r) (auto simp: Parse_ReportDesc_def)
qed
section \<open>The layout of the reports\<close>

text \<open>The next free bit of a report.\<close>

definition free_bit :: "(nat \<times> 8 word \<times> nat) list \<Rightarrow> nat \<Rightarrow> 8 word \<Rightarrow> nat" where
  "free_bit tab rid ty = (case GetReportOffset tab rid ty of None \<Rightarrow> 0 | Some (tab1, k) \<Rightarrow> snd (snd (tab1 ! k)))"

text \<open>All unused entries are at the end.\<close>

fun tab_ok :: "(nat \<times> 8 word \<times> nat) list \<Rightarrow> bool" where
  "tab_ok [] \<longleftrightarrow> True"
| "tab_ok ((i, t, off) # es) \<longleftrightarrow> off < 256 \<and> (if i = 0 then list_all (\<lambda>e. fst e = 0 \<and> snd (snd e) < 256) es else tab_ok es)"

lemma tab_ok_zero: "list_all (\<lambda>e. fst e = 0 \<and> snd (snd e) < 256) es \<Longrightarrow> tab_ok es"
  by (cases es) auto

lemma free_bit_Cons:
  "free_bit ((i, t, off) # es) rid ty =
     (if i = 0 then 0 else if i = rid \<and> t = ty then off else free_bit es rid ty)"
  by (auto simp: free_bit_def split: option.splits prod.splits)

lemma free_bit_zero: "list_all (\<lambda>e. fst e = 0 \<and> snd (snd e) < 256) es \<Longrightarrow> free_bit es rid ty = 0"
  by (cases es) (auto simp: free_bit_Cons, simp add: free_bit_def)

lemma free_bit_less: "tab_ok tab \<Longrightarrow> free_bit tab rid ty < 256"
proof (induction tab)
  case (Cons e es)
  obtain j u o' where "e = (j, u, o')" by (cases e)
  with Cons show ?case by (auto simp: free_bit_Cons split: if_splits)
qed (simp add: free_bit_def)

lemma next_offset_spec:
  assumes "next_offset tab rid ty n = Some (tab', off)" "tab_ok tab"
  shows "off = free_bit tab rid ty \<and> tab_ok tab' \<and>
    (rid \<noteq> 0 \<longrightarrow> free_bit tab' rid ty = (free_bit tab rid ty + n) mod 256) \<and>
    ((i, t) \<noteq> (rid, ty) \<longrightarrow> i \<noteq> 0 \<longrightarrow> free_bit tab' i t = free_bit tab i t)"
  using assms
proof (induction tab arbitrary: tab')
  case (Cons e es)
  obtain j u o' where e: "e = (j, u, o')" by (cases e)
  show ?case
  proof (cases "j = 0 \<or> j = rid \<and> u = ty")
    case True
    with Cons.prems e show ?thesis
      by (auto simp: next_offset_def free_bit_Cons free_bit_zero tab_ok_zero split: if_splits)
  next
    case False
    from Cons.prems(1) e False obtain tab1 k tab2 k2 where g: "GetReportOffset es rid ty = Some (tab1, k)"
      "GetReportOffset tab1 rid ty = Some (tab2, k2)"
      by (auto simp: next_offset_def split: option.splits prod.splits if_splits)
    obtain i2 t2 o2 where n: "tab2 ! k2 = (i2, t2, o2)" by (cases "tab2 ! k2")
    from Cons.prems(1) e False g n have t: "tab' = (j, u, o') # tab2[k2 := (i2, t2, (o2 + n) mod 256)]" "off = snd (snd (tab1 ! k))"
      by (auto simp: next_offset_def)
    have "next_offset es rid ty n = Some (tab2[k2 := (i2, t2, (o2 + n) mod 256)], off)" using g n t(2) by (simp add: next_offset_def)
    moreover have "tab_ok es" "o' < 256" using Cons.prems(2) e False by (simp_all split: if_splits)
    ultimately show ?thesis using Cons.IH False by (auto simp: e t free_bit_Cons)
  qed
qed (simp add: next_offset_def)

lemma no_id_offset: "next_offset tab 0 ty n = Some (tab', off) \<Longrightarrow> off = 0"
proof (induction tab arbitrary: tab')
  case (Cons e es)
  obtain j u o' where e: "e = (j, u, o')" by (cases e)
  show ?case
  proof (cases "j = 0")
    case True
    with Cons.prems e show ?thesis by (auto simp: next_offset_def split: if_splits)
  next
    case False
    from Cons.prems e False obtain tab1 k tab2 k2 where g: "GetReportOffset es 0 ty = Some (tab1, k)"
      "GetReportOffset tab1 0 ty = Some (tab2, k2)"
      by (auto simp: next_offset_def split: option.splits prod.splits if_splits)
    obtain i2 t2 o2 where n: "tab2 ! k2 = (i2, t2, o2)" by (cases "tab2 ! k2")
    have "next_offset es 0 ty n = Some (tab2[k2 := (i2, t2, (o2 + n) mod 256)], off)"
      using Cons.prems e False g n by (auto simp: next_offset_def)
    then show ?thesis by (rule Cons.IH)
  qed
qed (simp add: next_offset_def)

text \<open>An object comes from a main item; the environment stays sound on the way.\<close>

definition env_ok :: "hid_parser \<Rightarrow> bool" where
  "env_ok p \<longleftrightarrow> tab_ok (OffsetTab p) \<and> ReportID (Data p) < 256"

lemma HIDParse_main:
  assumes "HIDParse p = Some (Some (ret, p', d))"
  shows "ret = -1 \<or> (env_ok p \<longrightarrow> (\<exists>p1. do_main p1 = Some (ret, p', d) \<and> OffsetTab p1 = OffsetTab p \<and> env_ok p1))"
proof -
  have "r = Some (ret, p', d) \<Longrightarrow> ret = -1 \<or> (env_ok p \<longrightarrow> (\<exists>p1. do_main p1 = Some (ret, p', d) \<and> OffsetTab p1 = OffsetTab p \<and> env_ok p1))"
    if "HIDParse p = Some r" for r
    using that
  proof (induction rule: HIDParse.raw_induct [rotated, consumes 1])
    case (1 parse p r)
    show ?case
    proof (cases "length (ReportDesc p) \<le> Pos p")
      case False
      then obtain p1 where n: "next_item p = Some p1" using 1 by (auto split: option.splits)
      note s = next_item_spec(1) [OF n]
      show ?thesis
      proof (cases "is_main (Item p1)")
        case True
        with 1 False n have "do_main p1 = Some (ret, p', d)" by simp
        with s show ?thesis by (auto simp: env_ok_def)
      next
        case main: False
        then obtain p2 where o: "do_other p1 = Some p2" using 1 False n by (auto split: option.splits)
        with 1 False n main have "parse p2 = Some r" by simp
        from 1(1) [OF this 1(3)] s do_other_spec [OF o] show ?thesis by (auto simp: env_ok_def)
      qed
    qed (use 1 in auto)
  qed
  with assms show ?thesis by blast
qed

text \<open>The objects that the parser gives one after the other.\<close>

inductive objects_of :: "hid_parser \<Rightarrow> hid_data list \<Rightarrow> hid_parser \<Rightarrow> bool" where
  none: "objects_of p [] p"
| one: "HIDParse p = Some (Some (ret, p1, d)) \<Longrightarrow> ret \<noteq> -1 \<Longrightarrow> objects_of p1 ds p' \<Longrightarrow> objects_of p (d # ds) p'"

abbreviation same_report :: "hid_data \<Rightarrow> hid_data \<Rightarrow> bool" where
  "same_report d e \<equiv> ReportID e = ReportID d \<and> Type e = Type d"

text \<open>The bits that the objects take in the report of an object.\<close>

definition bits_in :: "hid_data \<Rightarrow> hid_data list \<Rightarrow> nat" where
  "bits_in d ds = sum_list (map Size (filter (same_report d) ds))"

lemma object_step:
  assumes "HIDParse p = Some (Some (ret, p1, d))" "ret \<noteq> -1" "env_ok p"
  shows "env_ok p1 \<and> ReportID d < 256 \<and>
    (ReportID d \<noteq> 0 \<longrightarrow> Offset d = free_bit (OffsetTab p) (ReportID d) (Type d)) \<and>
    (ReportID d = 0 \<longrightarrow> Offset d = 0) \<and>
    (ReportID e \<noteq> 0 \<longrightarrow> free_bit (OffsetTab p1) (ReportID e) (Type e) mod 256 =
       (free_bit (OffsetTab p) (ReportID e) (Type e) + (if same_report e d then Size d else 0)) mod 256)"
proof -
  obtain p0 where m: "do_main p0 = Some (ret, p1, d)" "OffsetTab p0 = OffsetTab p" "env_ok p0"
    using HIDParse_main [OF assms(1)] assms(2,3) by blast
  note s = do_main_spec [OF m(1)]
  have o: "next_offset (OffsetTab p) (ReportID d) (Type d) (Size d) = Some (OffsetTab p1, Offset d)" using s(5) m(2) by simp
  have "tab_ok (OffsetTab p)" using assms(3) by (simp add: env_ok_def)
  note n = next_offset_spec [OF o this, of "ReportID e" "Type e"]
  have "ReportID d = 0 \<longrightarrow> Offset d = 0" using o no_id_offset by metis
  moreover have "env_ok p1" "ReportID d < 256" using n s(4) m(3) unfolding env_ok_def by metis+
  moreover have "free_bit (OffsetTab p1) (ReportID e) (Type e) mod 256 =
      (free_bit (OffsetTab p) (ReportID e) (Type e) + (if same_report e d then Size d else 0)) mod 256" if "ReportID e \<noteq> 0"
  proof (cases "same_report e d")
    case True
    then have "free_bit (OffsetTab p1) (ReportID e) (Type e) = (free_bit (OffsetTab p) (ReportID e) (Type e) + Size d) mod 256"
      using n that by metis
    with True show ?thesis by simp
  next
    case False
    then have "(ReportID e, Type e) \<noteq> (ReportID d, Type d)" by auto
    with n that have "free_bit (OffsetTab p1) (ReportID e) (Type e) = free_bit (OffsetTab p) (ReportID e) (Type e)" by blast
    with False show ?thesis by auto
  qed
  ultimately show ?thesis using n by blast
qed

lemma objects_offsets:
  "objects_of p ds p' \<Longrightarrow> env_ok p \<Longrightarrow> i < length ds \<Longrightarrow>
   ReportID (ds ! i) < 256 \<and> (ReportID (ds ! i) = 0 \<longrightarrow> Offset (ds ! i) = 0) \<and>
   (ReportID (ds ! i) \<noteq> 0 \<longrightarrow> Offset (ds ! i) mod 256 =
     (free_bit (OffsetTab p) (ReportID (ds ! i)) (Type (ds ! i)) + bits_in (ds ! i) (take i ds)) mod 256)"
proof (induction arbitrary: i rule: objects_of.induct)
  case (one p ret p1 d ds p')
  note s = object_step [OF one.hyps(1,2) one.prems(1)]
  show ?case
  proof (cases i)
    case 0
    with s show ?thesis by (simp add: bits_in_def)
  next
    case (Suc j)
    let ?e = "ds ! j"
    have j: "j < length ds" using one.prems Suc by simp
    have "env_ok p1" using s by blast
    from one.IH [OF this j] s [of ?e]
    have IH: "ReportID ?e < 256" "ReportID ?e = 0 \<longrightarrow> Offset ?e = 0"
      and o: "ReportID ?e \<noteq> 0 \<longrightarrow> Offset ?e mod 256 = (free_bit (OffsetTab p1) (ReportID ?e) (Type ?e) + bits_in ?e (take j ds)) mod 256"
      and f: "ReportID ?e \<noteq> 0 \<longrightarrow> free_bit (OffsetTab p1) (ReportID ?e) (Type ?e) mod 256 =
        (free_bit (OffsetTab p) (ReportID ?e) (Type ?e) + (if same_report ?e d then Size d else 0)) mod 256"
      by blast+
    have b: "bits_in ?e (take i (d # ds)) = (if same_report ?e d then Size d else 0) + bits_in ?e (take j ds)"
      by (simp add: Suc bits_in_def)
    have "Offset ?e mod 256 = (free_bit (OffsetTab p) (ReportID ?e) (Type ?e) + bits_in ?e (take i (d # ds))) mod 256"
      if "ReportID ?e \<noteq> 0"
      unfolding b using that o f by (metis add.assoc mod_add_left_eq)
    with IH Suc show ?thesis by simp
  qed
qed simp
lemma objects_bound: "objects_of p ds p' \<Longrightarrow> env_ok p \<Longrightarrow> d \<in> set ds \<Longrightarrow> Offset d < 256"
proof (induction rule: objects_of.induct)
  case (one p ret p1 e ds p')
  note s = object_step [OF one.hyps(1,2) one.prems(1)]
  have "free_bit (OffsetTab p) (ReportID e) (Type e) < 256"
    using one.prems(1) by (simp add: env_ok_def free_bit_less)
  with s have "Offset e < 256" by (cases "ReportID e = 0") auto
  with one s show ?case by auto
qed simp

lemma bits_in_split: "i < length ds \<Longrightarrow> same_report d (ds ! i) \<Longrightarrow> bits_in d (take i ds) + Size (ds ! i) = bits_in d (take (Suc i) ds)"
  by (simp add: bits_in_def take_Suc_conv_app_nth)

lemma bits_in_take: "i \<le> j \<Longrightarrow> bits_in d (take i ds) \<le> bits_in d (take j ds)"
proof -
  assume "i \<le> j"
  then have "take j ds = take i ds @ take (j - i) (drop i ds)" by (metis le_add_diff_inverse take_add)
  then show ?thesis by (simp add: bits_in_def)
qed

lemma bits_in_same: "same_report d e \<Longrightarrow> bits_in e ds = bits_in d ds"
  by (simp add: bits_in_def)

lemma subseq_nth2: "subseq xs ys \<Longrightarrow> i < j \<Longrightarrow> j < length xs \<Longrightarrow> \<exists>i' j'. i' < j' \<and> j' < length ys \<and> xs ! i = ys ! i' \<and> xs ! j = ys ! j'"
proof (induction arbitrary: i j rule: list_emb.induct)
  case (list_emb_Cons xs ys y)
  then obtain i' j' where "i' < j'" "j' < length ys" "xs ! i = ys ! i'" "xs ! j = ys ! j'" by blast
  then show ?case by (intro exI [of _ "Suc i'"] exI [of _ "Suc j'"]) simp
next
  case (list_emb_Cons2 x y xs ys)
  show ?case
  proof (cases i)
    case 0
    have "xs ! (j - 1) \<in> set xs" using 0 list_emb_Cons2.prems by simp
    then have "xs ! (j - 1) \<in> set ys" using list_emb_set [OF list_emb_Cons2.hyps(2)] by auto
    then obtain k where "k < length ys" "ys ! k = xs ! (j - 1)" by (auto simp: in_set_conv_nth)
    with 0 list_emb_Cons2 show ?thesis by (intro exI [of _ 0] exI [of _ "Suc k"]) (simp add: nth_Cons')
  next
    case (Suc i0)
    with list_emb_Cons2.prems have "i0 < j - 1" "j - 1 < length xs" by auto
    with list_emb_Cons2.IH obtain i' j' where "i' < j'" "j' < length ys" "xs ! i0 = ys ! i'" "xs ! (j - 1) = ys ! j'" by blast
    with Suc list_emb_Cons2 show ?thesis by (intro exI [of _ "Suc i'"] exI [of _ "Suc j'"]) (simp add: nth_Cons')
  qed
qed simp

text \<open>The loop over the descriptor keeps the objects with a usage and raises the lengths of the reports.\<close>

lemma parse_loop_run:
  assumes "parse_loop p items lens = Some (Some (items', lens'))" "env_ok p" "length lens = 256"
  shows "\<exists>ds p' xs. objects_of p ds p' \<and> subseq xs ds \<and> items' = items @ xs \<and> length lens' = 256 \<and>
    (\<forall>i<256. lens ! i \<le> lens' ! i) \<and> (\<forall>d\<in>set ds. (Offset d + Size d + 7) div 8 \<le> lens' ! ReportID d)"
proof -
  have "r = Some (items', lens') \<longrightarrow> env_ok p \<longrightarrow> length lens = 256 \<longrightarrow>
    (\<exists>ds p' xs. objects_of p ds p' \<and> subseq xs ds \<and> items' = items @ xs \<and> length lens' = 256 \<and>
    (\<forall>i<256. lens ! i \<le> lens' ! i) \<and> (\<forall>d\<in>set ds. (Offset d + Size d + 7) div 8 \<le> lens' ! ReportID d))"
    if "parse_loop p items lens = Some r" for r
    using that
  proof (induction rule: parse_loop.raw_induct [rotated, consumes 1])
    case (1 parse p items lens r)
    have stop: "\<exists>ds p' xs. objects_of p ds p' \<and> subseq xs ds \<and> items = items @ xs \<and> length lens = 256 \<and>
        (\<forall>i<256. lens ! i \<le> lens ! i) \<and> (\<forall>d\<in>set ds. (Offset d + Size d + 7) div 8 \<le> lens ! ReportID d)" if "length lens = 256"
      using that by (intro exI [of _ "[]"] exI [of _ p]) (simp add: objects_of.none)
    show ?case
    proof (intro impI)
      assume r: "r = Some (items', lens')" and ok: "env_ok p" and l: "length lens = 256"
      show "\<exists>ds p' xs. objects_of p ds p' \<and> subseq xs ds \<and> items' = items @ xs \<and> length lens' = 256 \<and>
        (\<forall>i<256. lens ! i \<le> lens' ! i) \<and> (\<forall>d\<in>set ds. (Offset d + Size d + 7) div 8 \<le> lens' ! ReportID d)"
      proof (cases "MAX_REPORT \<le> length items")
        case True
        with 1(2) r stop [OF l] show ?thesis by auto
      next
        case False
        with 1(2) r obtain ret p1 d where h: "HIDParse p = Some (Some (ret, p1, d))"
          by (auto split: option.splits)
        show ?thesis
        proof (cases "ret < 0")
          case True
          with 1(2) r stop [OF l] False h show ?thesis by auto
        next
          case pos: False
          let ?len = "(Offset d + Size d + 7) div 8" and ?items = "if ret = 1 then items @ [d] else items"
          let ?lens = "if lens ! ReportID d < (Offset d + Size d + 7) div 8 then lens[ReportID d := (Offset d + Size d + 7) div 8] else lens"
          from pos have "ret \<noteq> -1" by simp
          note s = object_step [OF h this ok]
          have "parse p1 ?items ?lens = Some r" using 1(2) False h pos by (simp add: Let_def)
          note IH = 1(1) [OF this]
          have "length ?lens = 256" "env_ok p1" using l s by simp_all
          with IH r obtain ds p' xs where
            x: "objects_of p1 ds p'" "subseq xs ds" "items' = ?items @ xs" "length lens' = 256"
            "\<forall>i<256. ?lens ! i \<le> lens' ! i" "\<forall>e\<in>set ds. (Offset e + Size e + 7) div 8 \<le> lens' ! ReportID e"
            by blast
          have o: "objects_of p (d # ds) p'" using h \<open>ret \<noteq> -1\<close> x(1) by (rule objects_of.one)
          have le: "lens ! i \<le> ?lens ! i" if "i < 256" for i using that l s by (auto simp: nth_list_update)
          have "?len \<le> ?lens ! ReportID d" using l s by auto
          then have len: "?len \<le> lens' ! ReportID d" using x(5) s le_trans by blast
          have "\<exists>ys. subseq ys (d # ds) \<and> items' = items @ ys"
            using x(2,3) by (cases "ret = 1") (auto intro: exI [of _ "d # xs"] exI [of _ xs])
          then obtain ys where "subseq ys (d # ds)" "items' = items @ ys" by blast
          moreover have "\<forall>i<256. lens ! i \<le> lens' ! i" using x(5) le le_trans by blast
          ultimately show ?thesis using o x(4,6) len by (intro exI [of _ "d # ds"] exI [of _ p'] exI [of _ ys]) simp
        qed
      qed
    qed
  qed
  with assms show ?thesis by blast
qed

lemma parser_init_ok: "env_ok (parser_init desc)" and parser_init_free: "free_bit (OffsetTab (parser_init desc)) rid ty = 0"
proof -
  have z: "list_all (\<lambda>e. fst e = 0 \<and> snd (snd e) < 256) (replicate n (0 :: nat, 0 :: 8 word, 0 :: nat))" for n by (simp add: list_all_length)
  from tab_ok_zero [OF z] show "env_ok (parser_init desc)" by (simp add: env_ok_def parser_init_def data_zero_def)
  from free_bit_zero [OF z] show "free_bit (OffsetTab (parser_init desc)) rid ty = 0" by (simp add: parser_init_def)
qed

lemma Parse_ReportDesc_run:
  assumes "Parse_ReportDesc desc = Some (Some (Some h))"
  obtains ds p where "objects_of (parser_init desc) ds p" "subseq (item h) ds" "length (replen h) = 256"
    "\<And>d. d \<in> set ds \<Longrightarrow> ReportID d < 256 \<and> Offset d + Size d \<le> 8 * replen h ! ReportID d \<and> Offset d < 256 \<and> (ReportID d = 0 \<longrightarrow> Offset d = 0)"
    "\<And>i. i < length ds \<Longrightarrow> ReportID (ds ! i) \<noteq> 0 \<Longrightarrow> Offset (ds ! i) = bits_in (ds ! i) (take i ds) mod 256"
proof -
  obtain items lens where l: "parse_loop (parser_init desc) [] (replicate 256 0) = Some (Some (items, lens))" "h = \<lparr>item = items, replen = lens\<rparr>"
    using assms by (auto simp: Parse_ReportDesc_def split: option.splits if_splits)
  obtain ds p xs where r: "objects_of (parser_init desc) ds p" "subseq xs ds" "items = xs" "length lens = 256"
    "\<And>d. d \<in> set ds \<Longrightarrow> (Offset d + Size d + 7) div 8 \<le> lens ! ReportID d"
    using parse_loop_run [OF l(1) parser_init_ok] by auto
  note o = objects_offsets [OF r(1) parser_init_ok] and b = objects_bound [OF r(1) parser_init_ok]
  have "ReportID d < 256 \<and> Offset d + Size d \<le> 8 * replen h ! ReportID d \<and> Offset d < 256 \<and> (ReportID d = 0 \<longrightarrow> Offset d = 0)"
    if "d \<in> set ds" for d
  proof -
    from that [unfolded in_set_conv_nth] obtain i where i: "i < length ds" "d = ds ! i" by blast
    have "Offset d + Size d \<le> 8 * lens ! ReportID d" using r(5) [OF that] by linarith
    with o [OF i(1)] b [OF that] i(2) l(2) show ?thesis by simp
  qed
  moreover have "Offset (ds ! i) = bits_in (ds ! i) (take i ds) mod 256" if "i < length ds" "ReportID (ds ! i) \<noteq> 0" for i
    using o [OF that(1)] that b [of "ds ! i"] by (simp add: parser_init_free)
  ultimately show thesis using that [OF r(1)] r(2,3,4) l(2) by simp
qed

lemma Parse_ReportDesc_layout:
  assumes "Parse_ReportDesc desc = Some (Some (Some h))"
  shows "length (replen h) = 256 \<and> list_all (\<lambda>d. ReportID d < 256 \<and> Offset d + Size d \<le> 8 * replen h ! ReportID d) (item h)"
proof -
  obtain ds p where r: "subseq (item h) ds" "length (replen h) = 256"
    "\<And>d. d \<in> set ds \<Longrightarrow> ReportID d < 256 \<and> Offset d + Size d \<le> 8 * replen h ! ReportID d"
    by (rule Parse_ReportDesc_run [OF assms]) blast
  have "set (item h) \<subseteq> set ds" using list_emb_set [OF r(1)] by auto
  with r(2,3) show ?thesis by (auto simp: list_all_iff)
qed

text \<open>C15: Every object of a parsed descriptor lies inside its report, as long as the length that the parser notes for
  it. Two objects of one report and type do not overlap, and they come in the order of the
  descriptor, in every report with an ID other than 0 that has at most 255 bits in all (counting the objects without a
  usage, which are not kept). Objects with the ID 0, which stands for none, are excluded: they all get the offset 0.\<close>

theorem report_layout:
  assumes "Parse_ReportDesc desc = Some (Some (Some h))"
  shows "list_all (\<lambda>d. ReportID d < 256 \<and> Offset d + Size d \<le> 8 * replen h ! ReportID d) (item h) \<and>
    (\<exists>ds p. objects_of (parser_init desc) ds p \<and> subseq (item h) ds \<and>
      (\<forall>i j. i < j \<longrightarrow> j < length (item h) \<longrightarrow> same_report (item h ! i) (item h ! j) \<longrightarrow> ReportID (item h ! i) \<noteq> 0 \<longrightarrow>
         bits_in (item h ! i) ds \<le> 255 \<longrightarrow> Offset (item h ! i) + Size (item h ! i) \<le> Offset (item h ! j)))"
proof -
  obtain ds p where r: "objects_of (parser_init desc) ds p" "subseq (item h) ds"
    and o: "\<And>i. i < length ds \<Longrightarrow> ReportID (ds ! i) \<noteq> 0 \<Longrightarrow> Offset (ds ! i) = bits_in (ds ! i) (take i ds) mod 256"
    using Parse_ReportDesc_run [OF assms] by metis
  note conjunct2 [OF Parse_ReportDesc_layout [OF assms]]
  moreover have "Offset (item h ! i) + Size (item h ! i) \<le> Offset (item h ! j)"
    if "i < j" "j < length (item h)" "same_report (item h ! i) (item h ! j)" "ReportID (item h ! i) \<noteq> 0" "bits_in (item h ! i) ds \<le> 255" for i j
  proof -
    from subseq_nth2 [OF r(2) that(1,2)]
    obtain k l where kl: "k < l" "l < length ds" "item h ! i = ds ! k" "item h ! j = ds ! l" by blast
    let ?b = "\<lambda>n. bits_in (ds ! k) (take n ds)"
    have le: "?b n \<le> 255" for n using that(5) kl(3) bits_in_take [of n "max n (length ds)" "ds ! k" ds] by simp
    have "Offset (ds ! k) = ?b k" using o [of k] kl that(4) le [of k] by simp
    moreover have "Offset (ds ! l) = ?b l"
      using o [of l] kl that(3,4) le [of l] bits_in_same [of "ds ! k" "ds ! l" "take l ds"] by simp
    moreover have "?b k + Size (ds ! k) \<le> ?b l"
      using bits_in_split [of k ds "ds ! k"] bits_in_take [of "Suc k" l "ds ! k" ds] kl by simp
    ultimately show ?thesis using kl by simp
  qed
  ultimately show ?thesis using r by blast
qed

text \<open>Without report IDs the parser loses the layout: every object of a descriptor that has no report ID
  (or the reserved ID 0) gets the offset 0, because an unused entry of the table of offsets is marked with that ID.\<close>

theorem no_report_id_no_layout:
  assumes "Parse_ReportDesc desc = Some (Some (Some h))" "d \<in> set (item h)" "ReportID d = 0"
  shows "Offset d = 0"
proof -
  obtain ds p where r: "subseq (item h) ds" "\<And>d. d \<in> set ds \<Longrightarrow> ReportID d = 0 \<longrightarrow> Offset d = 0"
    using Parse_ReportDesc_run [OF assms(1)] by metis
  have "d \<in> set ds" using list_emb_set [OF r(1) assms(2)] by auto
  with r(2) assms(3) show ?thesis by simp
qed

section \<open>A small descriptor\<close>

text \<open>Two values of a byte, with a usage each; and the same in report 3.\<close>

definition demo_items :: "8 word list" where
  "demo_items = [0x75, 8, 0x95, 1, 0x25, 0x7F, 0x09, 0x30, 0xB1, 2, 0x09, 0x31, 0xB1, 2]"

definition demo_desc :: "8 word list" where
  "demo_desc = [0x85, 3] @ demo_items"

text \<open>The parser on items of one byte.\<close>

lemma next_byte:
  assumes "Count p = 0" "Pos p + 2 \<le> length (ReportDesc p)" "length (ReportDesc p) < 2 ^ 16" "ReportDesc p ! Pos p AND 3 = 1"
  shows "next_item p = Some (p\<lparr>Item := ReportDesc p ! Pos p, Value := uint (ReportDesc p ! (Pos p + 1)), Pos := Pos p + 2\<rparr>)"
proof -
  have "take 1 (drop (Pos p + 1) (ReportDesc p)) = [ReportDesc p ! (Pos p + 1)]"
    using assms(2) by (simp add: take_Suc_conv_app_nth flip: One_nat_def) (simp add: hd_drop_conv_nth take_Suc)
  with assms show ?thesis by (simp add: next_item_def item_size_def SIZE_MASK_def ItemSize_def Let_def)
qed

lemma parse_byte:
  assumes "Count p = 0" "Pos p + 2 \<le> length (ReportDesc p)" "length (ReportDesc p) < 2 ^ 16"
  defines "v \<equiv> uint (ReportDesc p ! (Pos p + 1))"
  shows "ReportDesc p ! Pos p = 0x75 \<Longrightarrow>
      HIDParse p = HIDParse (p\<lparr>Item := 0x75, Value := v, Pos := Pos p + 2, Data := (Data p)\<lparr>Size := nat (v mod 256)\<rparr>\<rparr>)"
    and "ReportDesc p ! Pos p = 0x85 \<Longrightarrow>
      HIDParse p = HIDParse (p\<lparr>Item := 0x85, Value := v, Pos := Pos p + 2, Data := (Data p)\<lparr>ReportID := nat (v mod 256)\<rparr>\<rparr>)"
    and "ReportDesc p ! Pos p = 0x95 \<Longrightarrow>
      HIDParse p = HIDParse (p\<lparr>Item := 0x95, Value := v, Pos := Pos p + 2, ReportCount := nat (v mod 256)\<rparr>)"
    and "ReportDesc p ! Pos p = 0x25 \<Longrightarrow>
      HIDParse p = HIDParse (p\<lparr>Item := 0x25, Value := v, Pos := Pos p + 2, Data := (Data p)\<lparr>LogMax := signed_take_bit 7 v\<rparr>\<rparr>)"
    and "ReportDesc p ! Pos p = 0x09 \<Longrightarrow> UsageSize p < 50 \<Longrightarrow>
      HIDParse p = HIDParse (p\<lparr>Item := 0x09, Value := v, Pos := Pos p + 2,
        UsageTab := (UsageTab p)[UsageSize p := push_bit 16 (word_of_int (UPage p)) OR (word_of_int v AND 0xFFFF)],
        UsageSize := UsageSize p + 1\<rparr>)"
    and "ReportDesc p ! Pos p = 0xB1 \<Longrightarrow> HIDParse p = Some (do_main (p\<lparr>Item := 0xB1, Value := v, Pos := Pos p + 2\<rparr>))"
  using next_byte [OF assms(1-3)] assms(2)
  by (simp_all add: HIDParse.simps [of p] is_main_def item_defs do_other_def push_usage_def USAGE_TAB_SIZE_def FormatValue_def item_size_def ItemSize_def v_def Let_def)

lemma parse_end: "length (ReportDesc p) \<le> Pos p \<Longrightarrow> HIDParse p = Some (Some (-1, p, data_zero))"
  by (simp add: HIDParse.simps [of p])

lemma demo_sizes:
  "replicate MAX_REPORT e = e # replicate (MAX_REPORT - 1) e" "replicate USAGE_TAB_SIZE u = u # u # replicate (USAGE_TAB_SIZE - 2) u"
  "replicate PATH_SIZE u = [u, u, u, u, u, u, u, u, u, u]" "MAX_REPORT \<le> n \<longleftrightarrow> 300 \<le> n" "USAGE_TAB_SIZE \<le> n \<longleftrightarrow> 50 \<le> n"
  "PATH_SIZE \<le> n \<longleftrightarrow> 10 \<le> n" "0 < MAX_REPORT" "\<not> 50 \<le> Suc 0"
  using replicate_Suc [of "MAX_REPORT - 1" e] replicate_Suc [of "USAGE_TAB_SIZE - 1" u] replicate_Suc [of "USAGE_TAB_SIZE - 2" u]
  by (simp_all add: MAX_REPORT_def USAGE_TAB_SIZE_def PATH_SIZE_def numeral_eq_Suc del: replicate_Suc) (simp_all add: replicate_Suc)

lemmas demo_eval = Parse_ReportDesc_def parse_loop.simps parse_byte parse_end demo_sizes parser_init_def ITEM_MASK_def push_node_def unstack_usage_def
  drop_node_def ResetLocalState_def do_main_def next_offset_def data_zero_def path_zero_def Let_def

lemma demo_run:
  "\<exists>h. Parse_ReportDesc demo_desc = Some (Some (Some h)) \<and>
     map (\<lambda>d. (ReportID d, Offset d, Size d, LogMin d, LogMax d)) (item h) = [(3, 0, 8, 0, 127), (3, 8, 8, 0, 127)] \<and> replen h ! 3 = 2"
  by (simp add: demo_eval demo_desc_def demo_items_def)

theorem report_layout_witness:
  "\<exists>h. Parse_ReportDesc demo_desc = Some (Some (Some h)) \<and> length (item h) = 2 \<and>
     list_all (\<lambda>d. ReportID d < 256 \<and> Offset d + Size d \<le> 8 * replen h ! ReportID d) (item h) \<and>
     (\<exists>ds p. objects_of (parser_init demo_desc) ds p \<and> subseq (item h) ds)"
proof -
  from demo_run obtain h where h: "Parse_ReportDesc demo_desc = Some (Some (Some h))"
    "map (\<lambda>d. (ReportID d, Offset d, Size d, LogMin d, LogMax d)) (item h) = [(3, 0, 8, 0, 127), (3, 8, 8, 0, 127)]"
    by (elim exE conjE) (rule that)
  from arg_cong [OF h(2), of length] have "length (item h) = 2" by simp
  with report_layout [OF h(1)] h(1) show ?thesis by blast
qed

theorem no_report_id_no_layout_witness:
  "\<exists>h. Parse_ReportDesc demo_items = Some (Some (Some h)) \<and>
     Offset (item h ! 0) = 0 \<and> Offset (item h ! 1) = 0 \<and> Size (item h ! 0) = 8 \<and> Size (item h ! 1) = 8"
proof -
  have "\<exists>h. Parse_ReportDesc demo_items = Some (Some (Some h)) \<and>
      map (\<lambda>d. (ReportID d, Size d)) (item h) = [(0, 8), (0, 8)]"
    by (simp add: demo_eval demo_items_def)
  then obtain h where h: "Parse_ReportDesc demo_items = Some (Some (Some h))"
    "map (\<lambda>d. (ReportID d, Size d)) (item h) = [(0, 8), (0, 8)]" by (elim exE conjE) (rule that)
  from h(2) obtain a b where i: "item h = [a, b]" "ReportID a = 0" "ReportID b = 0" "Size a = 8" "Size b = 8"
    unfolding map_eq_Cons_conv by auto
  with no_report_id_no_layout [OF h(1), of a] no_report_id_no_layout [OF h(1), of b] h(1) show ?thesis by simp
qed

theorem Parse_ReportDesc_ends_witness: "\<exists>r. Parse_ReportDesc demo_desc = Some r"
  by (rule Parse_ReportDesc_ends) (simp add: demo_desc_def demo_items_def)

definition demo_data :: hid_data where
  "demo_data = data_zero\<lparr>ReportID := 3, Offset := 16, Size := 16, LogMin := -32768, LogMax := 32767\<rparr>"

lemma demo_data_ok:
  "in_report demo_data [3, 0, 0, 0, 0]" "in_report (data_zero\<lparr>ReportID := 3, Size := 16\<rparr>) [3, 0, 0, 0, 0]" "values_ok demo_data"
  by (simp_all add: in_report_def values_ok_def demo_data_def data_zero_def)

theorem SetValue_GetValue_witness:
  "\<exists>buf'. SetValue demo_data [3, 0, 0, 0, 0] (-300) = Some buf' \<and> GetValue buf' demo_data = Some (-300)"
  by (rule SetValue_GetValue [OF demo_data_ok(1,3)]) (simp_all add: demo_data_def)

theorem SetValue_isolated_witness:
  "\<exists>buf'. SetValue demo_data [3, 0, 0, 0, 0] (-300) = Some buf' \<and> length buf' = 5 \<and>
     GetValue buf' (data_zero\<lparr>ReportID := 3, Size := 16\<rparr>) = GetValue [3, 0, 0, 0, 0] (data_zero\<lparr>ReportID := 3, Size := 16\<rparr>)"
proof -
  have "Offset (data_zero\<lparr>ReportID := 3, Size := 16\<rparr>) + Size (data_zero\<lparr>ReportID := 3, Size := 16\<rparr>) \<le> Offset demo_data \<or>
    Offset demo_data + Size demo_data \<le> Offset (data_zero\<lparr>ReportID := 3, Size := 16\<rparr>)"
    by (simp add: demo_data_def data_zero_def)
  from SetValue_isolated [OF demo_data_ok(1,2) this, of "-300"] show ?thesis by (simp add: numeral_eq_Suc)
qed

end
