(* ===== verification/Libhid.thy ===== *)
theory Libhid
  imports Hidparser
begin

text \<open>
  The generic HID layer of the USB drivers (\<open>drivers/libhid.c\<close>, \<open>drivers/libhid.h\<close>): the buffer that
  holds the last copy of each report, reading and writing an object through it, reports that the device
  sends on its own, and the names of objects as text.

  The device is a parameter: what it answers to a request is an argument (the count that the call
  returns and the bytes it has to send), what is sent to it is a result. The call that fetches a report
  (\<open>comm_driver->get_report\<close>) stores as many of the bytes as were asked for. The
  times that \<open>time\<close> gives are arguments. \<^const>\<open>None\<close> is an access outside an array or through a null
  pointer. Memory is taken to suffice. The conversions between logical and physical values are
  calculations with \<open>double\<close> and are not modelled.
\<close>

section \<open>The report buffer\<close>

record reportbuf =
  rb_ts :: "int list"
  rb_len :: "nat list"
  rb_data :: "8 word list option list"



text \<open>Bytes stored at the start of a report.\<close>

definition store :: "reportbuf \<Rightarrow> nat \<Rightarrow> 8 word list \<Rightarrow> reportbuf option" where
  "store rbuf rid bs =
     (if bs = [] then Some rbuf
      else case rb_data rbuf ! rid of
        None \<Rightarrow> None
      | Some old \<Rightarrow>
          if length old < length bs then None
          else Some (rbuf\<lparr>rb_data := (rb_data rbuf)[rid := Some (bs @ drop (length bs) old)]\<rparr>))"

definition sizeof_pointer :: nat where "sizeof_pointer = 8"

text \<open>How many bytes are asked for: with \<open>max_report_size\<close> the size of the pointer to the data.\<close>

definition report_request :: "bool \<Rightarrow> reportbuf \<Rightarrow> hid_data \<Rightarrow> nat" where
  "report_request max_report_size rbuf d = (if max_report_size then sizeof_pointer else rb_len rbuf ! ReportID d)"

text \<open>A control transfer of at most \<open>n\<close> bytes: the device's bytes behind them are not transferred.\<close>

definition get_report :: "reportbuf \<Rightarrow> nat \<Rightarrow> nat \<Rightarrow> 8 word list \<Rightarrow> reportbuf option" where
  "get_report rbuf rid n bs = store rbuf rid (take n bs)"

definition refresh_report_buffer ::
  "bool \<Rightarrow> reportbuf \<Rightarrow> hid_data \<Rightarrow> int \<Rightarrow> int \<Rightarrow> int \<times> 8 word list \<Rightarrow> (reportbuf \<times> int) option" where
  "refresh_report_buffer max_report_size rbuf d age now answer =
     (let rid = ReportID d in
      if now < rb_ts rbuf ! rid + age then Some (rbuf, 0)
      else case get_report rbuf rid (report_request max_report_size rbuf d) (snd answer) of
        None \<Rightarrow> None
      | Some rbuf1 \<Rightarrow> if fst answer \<le> 0 then Some (rbuf1, -1) else Some (rbuf1\<lparr>rb_ts := (rb_ts rbuf1)[rid := now]\<rparr>, 0))"





section \<open>Names\<close>

definition hex_char :: "char \<Rightarrow> bool" where
  "hex_char c \<longleftrightarrow> c \<in> set ''1234567890abcdefABCDEF''"

definition hex_digit_val :: "char \<Rightarrow> int" where
  "hex_digit_val c = (if is_digit c then cc c - 48 else if 97 \<le> cc c then cc c - 87 else cc c - 55)"

text \<open>\<open>strtol(s, NULL, 16)\<close> of a string of hexadecimal digits.\<close>

definition strtol16 :: "string \<Rightarrow> int" where
  "strtol16 s = min (2 ^ 63 - 1) (foldl (\<lambda>v c. 16 * v + hex_digit_val c) 0 s)"

text \<open>The pieces between the dots that are not empty, as \<open>strtok_r\<close> gives them.\<close>

fun dot_words :: "string \<Rightarrow> string list" where
  "dot_words [] = [[]]"
| "dot_words (c # cs) =
     (if c = CHR ''.'' then [] # dot_words cs
      else (case dot_words cs of [] \<Rightarrow> [[c]] | w # ws \<Rightarrow> (c # w) # ws))"

definition strtok_dot :: "string \<Rightarrow> string list" where
  "strtok_dot s = filter (\<lambda>w. w \<noteq> []) (dot_words s)"

definition hid_lookup_usage :: "string \<Rightarrow> (string \<times> node) list list \<Rightarrow> int" where
  "hid_lookup_usage name utab =
     (case find (\<lambda>e. strcaseeq (fst e) name) (concat utab) of None \<Rightarrow> -1 | Some e \<Rightarrow> uint (snd e))"

definition hid_lookup_path :: "node \<Rightarrow> (string \<times> node) list list \<Rightarrow> string option" where
  "hid_lookup_path usage utab = map_option fst (find (\<lambda>e. snd e = usage) (concat utab))"

text \<open>The node a name stands for; \<^const>\<open>None\<close> for a name that is skipped.\<close>

definition token_node :: "(string \<times> node) list list \<Rightarrow> string \<Rightarrow> node option" where
  "token_node utab t =
     (if hid_lookup_usage t utab \<noteq> -1 then Some (word_of_int (hid_lookup_usage t utab))
      else if list_all hex_char t then Some (word_of_int (strtol16 t))
      else if list_all (\<lambda>c. c \<in> set ''[1234567890]'') t then Some (word_of_int (0x00ff0000 + atoi (tl t)))
      else None)"

definition string_to_path :: "node list \<Rightarrow> string \<Rightarrow> (string \<times> node) list list \<Rightarrow> hid_path option" where
  "string_to_path mem s utab =
     (let ns = List.map_filter (token_node utab) (strtok_dot (snprintf SMALLBUF s))
      in if PATH_SIZE < length ns then None else Some \<lparr>PathSize = length ns, Node = ns @ drop (length ns) mem\<rparr>)"

definition hex_digit :: "nat \<Rightarrow> char" where
  "hex_digit n = (if n < 10 then digit_char n else char_of (87 + n))"

text \<open>The conversion \<open>%08x\<close>.\<close>

definition show_hex8 :: "nat \<Rightarrow> string" where
  "show_hex8 n = map (\<lambda>i. hex_digit (n div 16 ^ i mod 16)) [7, 6, 5, 4, 3, 2, 1, 0]"

definition node_text :: "(string \<times> node) list list \<Rightarrow> node \<Rightarrow> string" where
  "node_text utab u =
     (case hid_lookup_path u utab of
        Some p \<Rightarrow> p
      | None \<Rightarrow>
          if is_index u then ''['' @ show_int (uint (u AND 0x0000ffff)) @ '']'' else show_hex8 (unat u))"

fun path_text :: "(string \<times> node) list list \<Rightarrow> nat \<Rightarrow> bool \<Rightarrow> node list \<Rightarrow> string \<Rightarrow> string" where
  "path_text utab sz first [] s = s"
| "path_text utab sz first (u # us) s =
     (let s1 = (if first then s else snprintfcat s sz ''.'')
      in path_text utab sz False us (snprintfcat s1 sz (node_text utab u)))"

definition path_to_string :: "nat \<Rightarrow> hid_path \<Rightarrow> (string \<times> node) list list \<Rightarrow> string" where
  "path_to_string sz path utab = path_text utab sz True (take (PathSize path) (Node path)) (snprintf sz [])"

definition HIDGetDataItem :: "hid_data \<Rightarrow> (string \<times> node) list list \<Rightarrow> string" where
  "HIDGetDataItem d utab = path_to_string 128 (Path d) utab"

definition HIDGetItemData :: "node list \<Rightarrow> hid_desc \<Rightarrow> string \<Rightarrow> (string \<times> node) list list \<Rightarrow> hid_data option option" where
  "HIDGetItemData mem desc hidpath utab =
     (case string_to_path mem hidpath utab of
        None \<Rightarrow> None
      | Some p \<Rightarrow> Some (if PathSize p = 0 then None else FindObject_with_Path desc p ITEM_FEATURE))"

definition HIDDataType :: "hid_data \<Rightarrow> string" where
  "HIDDataType d = (if Type d = ITEM_FEATURE then ''Feature'' else if Type d = ITEM_INPUT then ''Input''
     else if Type d = ITEM_OUTPUT then ''Output'' else ''Unknown'')"

text \<open>The unit exponents of the HID units, and the exponent of an object's value, an \<open>int8_t\<close>.\<close>

definition HIDUnits :: "(int \<times> int) list" where
  "HIDUnits = [(0x00000000, 0), (0x00F0D121, 7), (0x00100001, 0), (0x0000D121, 7), (0x0000D121, 7), (0x00001001, 0),
     (0x00010001, 0), (0x00000000, 0), (0x0000F001, 0), (0x00101001, 0)]"

definition get_unit_expo :: "hid_data \<Rightarrow> int" where
  "get_unit_expo d =
     (case find (\<lambda>e. fst e = Unit d) HIDUnits of None \<Rightarrow> UnitExp d | Some e \<Rightarrow> signed_take_bit 7 (UnitExp d - snd e))"

section \<open>The usages of the HID power device class\<close>

definition hid_usage_lkp :: "(string \<times> node) list" where
  "hid_usage_lkp = [
    (''Undefined'', 0x00840000), (''iName'', 0x00840001), (''PresentStatus'', 0x00840002),
    (''ChangedStatus'', 0x00840003), (''UPS'', 0x00840004), (''PowerSupply'', 0x00840005),
    (''BatterySystem'', 0x00840010), (''BatterySystemID'', 0x00840011), (''Battery'', 0x00840012),
    (''BatteryID'', 0x00840013), (''Charger'', 0x00840014), (''ChargerID'', 0x00840015),
    (''PowerConverter'', 0x00840016), (''PowerConverterID'', 0x00840017), (''OutletSystem'', 0x00840018),
    (''OutletSystemID'', 0x00840019), (''Input'', 0x0084001a), (''InputID'', 0x0084001b), (''Output'', 0x0084001c),
    (''OutputID'', 0x0084001d), (''Flow'', 0x0084001e), (''FlowID'', 0x0084001f), (''Outlet'', 0x00840020),
    (''OutletID'', 0x00840021), (''Gang'', 0x00840022), (''GangID'', 0x00840023), (''PowerSummary'', 0x00840024),
    (''PowerSummaryID'', 0x00840025), (''Voltage'', 0x00840030), (''Current'', 0x00840031),
    (''Frequency'', 0x00840032), (''ApparentPower'', 0x00840033), (''ActivePower'', 0x00840034),
    (''PercentLoad'', 0x00840035), (''Temperature'', 0x00840036), (''Humidity'', 0x00840037),
    (''BadCount'', 0x00840038), (''ConfigVoltage'', 0x00840040), (''ConfigCurrent'', 0x00840041),
    (''ConfigFrequency'', 0x00840042), (''ConfigApparentPower'', 0x00840043), (''ConfigActivePower'', 0x00840044),
    (''ConfigPercentLoad'', 0x00840045), (''ConfigTemperature'', 0x00840046), (''ConfigHumidity'', 0x00840047),
    (''SwitchOnControl'', 0x00840050), (''SwitchOffControl'', 0x00840051), (''ToggleControl'', 0x00840052),
    (''LowVoltageTransfer'', 0x00840053), (''HighVoltageTransfer'', 0x00840054), (''DelayBeforeReboot'', 0x00840055),
    (''DelayBeforeStartup'', 0x00840056), (''DelayBeforeShutdown'', 0x00840057), (''Test'', 0x00840058),
    (''ModuleReset'', 0x00840059), (''AudibleAlarmControl'', 0x0084005a), (''Present'', 0x00840060),
    (''Good'', 0x00840061), (''InternalFailure'', 0x00840062), (''VoltageOutOfRange'', 0x00840063),
    (''FrequencyOutOfRange'', 0x00840064), (''Overload'', 0x00840065), (''OverCharged'', 0x00840066),
    (''OverTemperature'', 0x00840067), (''ShutdownRequested'', 0x00840068), (''ShutdownImminent'', 0x00840069),
    (''SwitchOn/Off'', 0x0084006b), (''Switchable'', 0x0084006c), (''Used'', 0x0084006d), (''Boost'', 0x0084006e),
    (''Buck'', 0x0084006f), (''Initialized'', 0x00840070), (''Tested'', 0x00840071), (''AwaitingPower'', 0x00840072),
    (''CommunicationLost'', 0x00840073), (''iManufacturer'', 0x008400fd), (''iProduct'', 0x008400fe),
    (''iSerialNumber'', 0x008400ff), (''Undefined'', 0x00850000), (''SMBBatteryMode'', 0x00850001),
    (''SMBBatteryStatus'', 0x00850002), (''SMBAlarmWarning'', 0x00850003), (''SMBChargerMode'', 0x00850004),
    (''SMBChargerStatus'', 0x00850005), (''SMBChargerSpecInfo'', 0x00850006), (''SMBSelectorState'', 0x00850007),
    (''SMBSelectorPresets'', 0x00850008), (''SMBSelectorInfo'', 0x00850009), (''OptionalMfgFunction1'', 0x00850010),
    (''OptionalMfgFunction2'', 0x00850011), (''OptionalMfgFunction3'', 0x00850012),
    (''OptionalMfgFunction4'', 0x00850013), (''OptionalMfgFunction5'', 0x00850014),
    (''ConnectionToSMBus'', 0x00850015), (''OutputConnection'', 0x00850016), (''ChargerConnection'', 0x00850017),
    (''BatteryInsertion'', 0x00850018), (''Usenext'', 0x00850019), (''OKToUse'', 0x0085001a),
    (''BatterySupported'', 0x0085001b), (''SelectorRevision'', 0x0085001c), (''ChargingIndicator'', 0x0085001d),
    (''ManufacturerAccess'', 0x00850028), (''RemainingCapacityLimit'', 0x00850029),
    (''RemainingTimeLimit'', 0x0085002a), (''AtRate'', 0x0085002b), (''CapacityMode'', 0x0085002c),
    (''BroadcastToCharger'', 0x0085002d), (''PrimaryBattery'', 0x0085002e), (''ChargeController'', 0x0085002f),
    (''TerminateCharge'', 0x00850040), (''TerminateDischarge'', 0x00850041),
    (''BelowRemainingCapacityLimit'', 0x00850042), (''RemainingTimeLimitExpired'', 0x00850043),
    (''Charging'', 0x00850044), (''Discharging'', 0x00850045), (''FullyCharged'', 0x00850046),
    (''FullyDischarged'', 0x00850047), (''ConditioningFlag'', 0x00850048), (''AtRateOK'', 0x00850049),
    (''SMBErrorCode'', 0x0085004a), (''NeedReplacement'', 0x0085004b), (''AtRateTimeToFull'', 0x00850060),
    (''AtRateTimeToEmpty'', 0x00850061), (''AverageCurrent'', 0x00850062), (''Maxerror'', 0x00850063),
    (''RelativeStateOfCharge'', 0x00850064), (''AbsoluteStateOfCharge'', 0x00850065),
    (''RemainingCapacity'', 0x00850066), (''FullChargeCapacity'', 0x00850067), (''RunTimeToEmpty'', 0x00850068),
    (''AverageTimeToEmpty'', 0x00850069), (''AverageTimeToFull'', 0x0085006a), (''CycleCount'', 0x0085006b),
    (''BattPackModelLevel'', 0x00850080), (''InternalChargeController'', 0x00850081),
    (''PrimaryBatterySupport'', 0x00850082), (''DesignCapacity'', 0x00850083), (''SpecificationInfo'', 0x00850084),
    (''ManufacturerDate'', 0x00850085), (''SerialNumber'', 0x00850086), (''iManufacturerName'', 0x00850087),
    (''iDevicename'', 0x00850088), (''iDeviceChemistry'', 0x00850089), (''ManufacturerData'', 0x0085008a),
    (''Rechargeable'', 0x0085008b), (''WarningCapacityLimit'', 0x0085008c), (''CapacityGranularity1'', 0x0085008d),
    (''CapacityGranularity2'', 0x0085008e), (''iOEMInformation'', 0x0085008f), (''InhibitCharge'', 0x008500c0),
    (''EnablePolling'', 0x008500c1), (''ResetToZero'', 0x008500c2), (''ACPresent'', 0x008500d0),
    (''BatteryPresent'', 0x008500d1), (''PowerFail'', 0x008500d2), (''AlarmInhibited'', 0x008500d3),
    (''ThermistorUnderRange'', 0x008500d4), (''ThermistorHot'', 0x008500d5), (''ThermistorCold'', 0x008500d6),
    (''ThermistorOverRange'', 0x008500d7), (''VoltageOutOfRange'', 0x008500d8), (''CurrentOutOfRange'', 0x008500d9),
    (''CurrentNotRegulated'', 0x008500da), (''VoltageNotRegulated'', 0x008500db), (''MasterMode'', 0x008500dc),
    (''ChargerSelectorSupport'', 0x008500f0), (''ChargerSpec'', 0x008500f1), (''Level2'', 0x008500f2),
    (''Level3'', 0x008500f3)]"

section \<open>The buffer is never left\<close>

text \<open>A descriptor whose objects lie inside their reports.\<close>

definition layout_ok :: "hid_desc \<Rightarrow> bool" where
  "layout_ok h \<longleftrightarrow> length (replen h) = 256 \<and>
     list_all (\<lambda>d. ReportID d < 256 \<and> Offset d + Size d \<le> 8 * replen h ! ReportID d) (item h)"

text \<open>Each report in the buffer has the length of its objects and one byte for its ID.\<close>

definition sized :: "hid_desc \<Rightarrow> reportbuf \<Rightarrow> nat \<Rightarrow> bool" where
  "sized h rb i \<longleftrightarrow> (rb_data rb ! i = None \<longrightarrow> rb_len rb ! i = 0) \<and>
     (\<forall>bs. rb_data rb ! i = Some bs \<longrightarrow> length bs = replen h ! i + 1 \<and> rb_len rb ! i = replen h ! i + 1)"

definition buf_inv :: "hid_desc \<Rightarrow> reportbuf \<Rightarrow> bool" where
  "buf_inv h rb \<longleftrightarrow> length (rb_len rb) = 256 \<and> length (rb_data rb) = 256 \<and> (\<forall>i<256. sized h rb i)"

definition covers :: "hid_desc \<Rightarrow> reportbuf \<Rightarrow> bool" where
  "covers h rb \<longleftrightarrow> list_all (\<lambda>d. rb_data rb ! ReportID d \<noteq> None) (item h)"




lemma covered:
  assumes "buf_inv h rb" "covers h rb" "layout_ok h" "d \<in> set (item h)"
  obtains bs where "rb_data rb ! ReportID d = Some bs" "length bs = replen h ! ReportID d + 1" "ReportID d < 256"
    "rb_len rb ! ReportID d = replen h ! ReportID d + 1" "Size d \<le> 32 \<longrightarrow> in_report d bs"
proof -
  have r: "ReportID d < 256" "Offset d + Size d \<le> 8 * replen h ! ReportID d" using assms(3,4) by (auto simp: layout_ok_def list_all_iff)
  obtain bs where b: "rb_data rb ! ReportID d = Some bs" using assms(2,4) by (auto simp: covers_def list_all_iff)
  have "sized h rb (ReportID d)" using assms(1) r(1) by (simp add: buf_inv_def)
  with that [OF b] r b show thesis by (simp add: sized_def in_report_def)
qed














text \<open>With \<open>max_report_size\<close> a shorter report is left: a device that answers with 8 bytes writes behind it.\<close>

theorem max_report_size_overruns:
  assumes "buf_inv h rb" "covers h rb" "layout_ok h" "d \<in> set (item h)" "replen h ! ReportID d + 1 < sizeof_pointer"
    "length (snd answer) = sizeof_pointer" "rb_ts rb ! ReportID d + age \<le> now"
  shows "refresh_report_buffer True rb d age now answer = None"
proof -
  obtain bs where "rb_data rb ! ReportID d = Some bs" "length bs = replen h ! ReportID d + 1"
    by (rule covered [OF assms(1-4)]) blast
  then show ?thesis
    using assms(5-7) by (auto simp: refresh_report_buffer_def get_report_def report_request_def store_def Let_def)
qed

section \<open>Names and nodes\<close>

lemma map_filter_all: "list_all (\<lambda>x. f x = Some (g x)) xs \<Longrightarrow> List.map_filter f xs = map g xs"
  by (induction xs) (simp_all add: List.map_filter_simps)

text \<open>The words joined with dots.\<close>

fun dotted :: "string list \<Rightarrow> string" where
  "dotted [] = []"
| "dotted [w] = w"
| "dotted (w # v # ws) = w @ CHR ''.'' # dotted (v # ws)"

abbreviation plain_name :: "string \<Rightarrow> bool" where
  "plain_name w \<equiv> w \<noteq> [] \<and> CHR ''.'' \<notin> set w"

lemma dot_words_prefix: "CHR ''.'' \<notin> set w \<Longrightarrow> dot_words (w @ CHR ''.'' # s) = w # dot_words s"
  by (induction w) auto

lemma dot_words_one: "CHR ''.'' \<notin> set w \<Longrightarrow> dot_words w = [w]"
  by (induction w) auto

lemma strtok_dotted: "list_all plain_name ws \<Longrightarrow> strtok_dot (dotted ws) = ws"
proof (induction ws rule: dotted.induct)
  case (3 w v ws)
  then show ?case by (simp add: strtok_dot_def dot_words_prefix)
qed (simp_all add: strtok_dot_def dot_words_one)

lemma path_text_dotted:
  "length s + length (dotted ([] # map (node_text utab) us)) + 2 \<le> sz \<Longrightarrow>
   path_text utab sz False us s = s @ dotted ([] # map (node_text utab) us)"
proof (induction us arbitrary: s)
  case (Cons u us)
  have d: "dotted ([] # map (node_text utab) (u # us)) =
      CHR ''.'' # node_text utab u @ dotted ([] # map (node_text utab) us)"
    by (cases us) simp_all
  have 1: "snprintfcat s sz ''.'' = s @ ''.''" using Cons.prems d by (simp add: snprintfcat_def Let_def)
  have 2: "snprintfcat (s @ ''.'') sz (node_text utab u) = s @ ''.'' @ node_text utab u"
    using Cons.prems d by (simp add: snprintfcat_def Let_def)
  have "length (s @ ''.'' @ node_text utab u) + length (dotted ([] # map (node_text utab) us)) + 2 \<le> sz"
    using Cons.prems d by simp
  from Cons.IH [OF this] show ?case unfolding d by (simp add: 1 2 Let_def)
qed simp

lemma path_to_string_dotted:
  assumes "length (dotted (map (node_text utab) us)) + 2 \<le> sz"
  shows "path_text utab sz True us [] = dotted (map (node_text utab) us)"
proof (cases us)
  case (Cons u vs)
  have d: "dotted (map (node_text utab) us) = node_text utab u @ dotted ([] # map (node_text utab) vs)"
    by (cases vs) (simp_all add: Cons)
  have "snprintfcat [] sz (node_text utab u) = node_text utab u" using assms d by (simp add: snprintfcat_def Let_def)
  moreover have "path_text utab sz False vs (node_text utab u) = node_text utab u @ dotted ([] # map (node_text utab) vs)"
    using assms d by (intro path_text_dotted) simp
  ultimately show ?thesis unfolding d by (simp add: Cons Let_def)
qed simp

lemma hex_digit_ok: "d < 16 \<Longrightarrow> hex_digit_val (hex_digit d) = int d \<and> hex_char (hex_digit d) \<and> hex_digit d \<noteq> CHR ''.''"
proof -
  assume "d < 16"
  then have "d \<in> set [0, 1, 2, 3, 4, 5, 6, 7, 8, 9, 10, 11, 12, 13, 14, 15]" by (auto simp: less_Suc_eq numeral_eq_Suc)
  moreover have "list_all (\<lambda>d. hex_digit_val (hex_digit d) = int d \<and> hex_char (hex_digit d) \<and> hex_digit d \<noteq> CHR ''.'')
      [0, 1, 2, 3, 4, 5, 6, 7, 8, 9, 10, 11, 12, 13, 14, 15]"
    by code_simp
  ultimately show ?thesis by (simp only: list_all_iff) blast
qed

lemma foldl_hex:
  "foldl (\<lambda>v c. 16 * v + hex_digit_val c) (int (n div 16 ^ k)) (map (\<lambda>i. hex_digit (n div 16 ^ i mod 16)) (rev [0..<k])) = int n"
proof (induction k)
  case (Suc k)
  have "n div 16 ^ Suc k = n div 16 ^ k div 16" by (simp only: power_Suc2 div_mult2_eq)
  then have "16 * int (n div 16 ^ Suc k) + int (n div 16 ^ k mod 16) = int (n div 16 ^ k)"
    using div_mult_mod_eq [of "n div 16 ^ k" 16] by linarith
  with Suc show ?case by (simp add: hex_digit_ok)
qed simp

lemma strtol16_show_hex8: "strtol16 (show_hex8 (unat u)) = uint u" for u :: node
proof -
  have "[7, 6, 5, 4, 3, 2, 1, 0] = rev [0..<8]" by (simp add: upt_rec)
  moreover have "unat u div 16 ^ 8 = 0" using unsigned_less [of u, where ?'a = nat] by simp
  ultimately have "foldl (\<lambda>v c. 16 * v + hex_digit_val c) 0 (show_hex8 (unat u)) = uint u"
    using foldl_hex [of "unat u" 8] by (simp only: show_hex8_def) simp
  moreover have "uint u < 2 ^ 63" using unsigned_less [of u, where ?'a = int] by simp
  ultimately show ?thesis by (simp add: strtol16_def)
qed

lemma show_hex8_plain: "list_all hex_char (show_hex8 n) \<and> plain_name (show_hex8 n)"
proof -
  have "CHR ''.'' \<noteq> hex_digit (m mod 16)" for m using hex_digit_ok [of "m mod 16"] by auto
  then show ?thesis by (auto simp: show_hex8_def list_all_iff hex_digit_ok)
qed

lemma digits_val_stop: "list_all is_digit xs \<Longrightarrow> \<not> is_digit c \<Longrightarrow> digits_val acc (xs @ c # ys) = digits_val acc xs"
  by (simp add: digits_val_append)

lemma atoi_index: "k < 2 ^ 16 \<Longrightarrow> atoi (show_nat k @ '']'') = int k"
proof -
  assume k: "k < 2 ^ 16"
  obtain c cs where c: "show_nat k = c # cs" "is_digit c" by (rule show_nat_Cons)
  have "digits_val 0 (show_nat k @ '']'') = int k"
    using digits_val_stop [OF show_nat_digits, of "CHR '']''" 0 k "[]"] by (simp add: is_digit_def)
  with c k is_digit_not_space [OF c(2)] is_digit_not_sign [OF c(2)] show ?thesis
    by (simp add: atoi_def strtol10_def int32_def)
qed

lemma index_node: "is_index u \<Longrightarrow> word_of_int (0x00ff0000 + uint (u AND 0x0000ffff)) = u"
proof -
  assume "is_index u"
  then have "(0x00ff0000 :: node) + (u AND 0x0000ffff) = (u AND 0xffff0000) + (u AND 0x0000ffff)" by (simp add: is_index_def)
  also have "\<dots> = (u AND 0xffff0000) OR (u AND 0x0000ffff)"
    by (rule disjunctive_add_eq_or) (simp add: and.assoc and.left_commute [of "0xffff0000"])
  also have "\<dots> = u AND (0xffff0000 OR 0x0000ffff)" by (simp only: bit.conj_disj_distrib)
  also have "(0xffff0000 OR 0x0000ffff :: node) = - 1" by simp
  also have "u AND - 1 = u" by (rule and.right_neutral)
  finally show ?thesis by simp
qed

text \<open>A node whose name stands for it: a usage that the tables give back, a node whose number or index is no
  usage name.\<close>

definition named :: "(string \<times> node) list list \<Rightarrow> node \<Rightarrow> bool" where
  "named utab u \<longleftrightarrow> (case hid_lookup_path u utab of
     Some p \<Rightarrow> plain_name p \<and> hid_lookup_usage p utab = uint u
   | None \<Rightarrow> hid_lookup_usage (node_text utab u) utab = -1)"

lemma token_node_text:
  assumes "named utab u"
  shows "token_node utab (node_text utab u) = Some u \<and> plain_name (node_text utab u)"
proof (cases "hid_lookup_path u utab")
  case None
  show ?thesis
  proof (cases "is_index u")
    case True
    let ?k = "unat (u AND 0x0000ffff)"
    have "u AND 0x0000ffff \<le> 0x0000ffff" by (rule word_and_le1)
    then have k: "?k < 2 ^ 16" by (simp add: word_le_nat_alt)
    have "show_int (uint (u AND 0x0000ffff)) = show_nat ?k" by (simp add: show_int_def)
    with None True have t: "node_text utab u = ''['' @ show_nat ?k @ '']''" by (simp add: node_text_def)
    have d: "list_all (\<lambda>c. c \<in> set ''1234567890'') (show_nat ?k)"
    proof -
      have "is_digit c \<Longrightarrow> c \<in> set ''1234567890''" for c
      proof -
        assume "is_digit c"
        moreover have "cc c = int (of_char c)" by (rule of_nat_of_char [symmetric])
        ultimately have "(of_char c :: nat) \<in> {48..57}" unfolding is_digit_def by (simp only: atLeastAtMost_iff) linarith
        then have "c \<in> char_of ` {48..57 :: nat}" by (metis char_of_char imageI)
        also have "char_of ` {48..57 :: nat} = set ''1234567890''" by code_simp
        finally show ?thesis .
      qed
      then show ?thesis using show_nat_digits [of ?k] by (auto simp: list_all_iff)
    qed
    have "CHR ''.'' \<notin> set ''1234567890''" by simp
    with d have dot: "CHR ''.'' \<notin> set (show_nat ?k)" unfolding list_all_iff by blast
    have "set ''1234567890'' \<subseteq> set ''[1234567890]''" by simp
    with d have "list_all (\<lambda>c. c \<in> set ''[1234567890]'') (show_nat ?k)" unfolding list_all_iff by blast
    moreover have "CHR ''['' \<in> set ''[1234567890]''" "CHR '']'' \<in> set ''[1234567890]''" "\<not> hex_char CHR ''[''"
      by (simp_all add: hex_char_def)
    ultimately have chars: "list_all (\<lambda>c. c \<in> set ''[1234567890]'') (node_text utab u)" "\<not> list_all hex_char (node_text utab u)"
      unfolding t by (simp_all only: list_all_append list.pred_inject simp_thms)
    have "hid_lookup_usage (node_text utab u) utab = -1" using None assms by (simp add: named_def)
    with chars have "token_node utab (node_text utab u) = Some (word_of_int (0x00ff0000 + atoi (tl (node_text utab u))))"
      by (simp only: token_node_def if_False if_True simp_thms)
    also have "atoi (tl (node_text utab u)) = uint (u AND 0x0000ffff)" using atoi_index [OF k] by (simp add: t)
    finally have "token_node utab (node_text utab u) = Some u" by (simp only: index_node [OF True])
    with dot show ?thesis by (simp add: t)
  next
    case False
    with None assms show ?thesis
      using show_hex8_plain [of "unat u"] by (simp add: node_text_def token_node_def named_def strtol16_show_hex8)
  qed
next
  case (Some p)
  have "uint u \<noteq> -1" using unsigned_greater_eq [of u, where ?'a = int] by linarith
  with Some assms show ?thesis by (simp add: node_text_def token_node_def named_def)
qed

text \<open>C34: Printing the path of an object and reading it back gives the same path, for paths of named nodes whose text
  fits the buffer: usages are printed by name, indexed collections as \<open>[n]\<close> and other nodes as eight
  hexadecimal digits.\<close>

theorem path_roundtrip:
  assumes "list_all (named utab) us" "length us \<le> PATH_SIZE" "length (dotted (map (node_text utab) us)) \<le> 126"
  shows "\<exists>p. string_to_path mem (HIDGetDataItem (d\<lparr>Path := \<lparr>PathSize = length us, Node = us @ rest\<rparr>\<rparr>) utab) utab = Some p \<and>
    PathSize p = length us \<and> take (PathSize p) (Node p) = us"
proof -
  let ?ws = "map (node_text utab) us"
  have t: "HIDGetDataItem (d\<lparr>Path := \<lparr>PathSize = length us, Node = us @ rest\<rparr>\<rparr>) utab = dotted ?ws"
    using path_to_string_dotted [of utab us 128] assms(3) by (simp add: HIDGetDataItem_def path_to_string_def snprintf_def)
  have "list_all plain_name ?ws" using assms(1) token_node_text by (auto simp: list_all_iff)
  then have w: "strtok_dot (snprintf SMALLBUF (dotted ?ws)) = ?ws"
    using assms(3) by (simp add: strtok_dotted snprintf_def SMALLBUF_def)
  have "List.map_filter (token_node utab) ?ws = us"
    using assms(1) by (induction us) (simp_all add: List.map_filter_simps token_node_text)
  with w assms(2) show ?thesis unfolding t by (simp add: string_to_path_def)
qed

text \<open>A table of some of the usages.\<close>

definition demo_usages :: "(string \<times> node) list" where
  "demo_usages = [(''UPS'', 0x00840004), (''BatterySystem'', 0x00840010), (''Voltage'', 0x00840030)]"

definition demo_path :: "node list" where
  "demo_path = [0x00840004, 0x00840010, 0x00ff0002, 0xff860024]"

lemma demo_path_text: "map (node_text [demo_usages]) demo_path = [''UPS'', ''BatterySystem'', ''[2]'', ''ff860024'']"
  by (simp add: demo_path_def demo_usages_def node_text_def hid_lookup_path_def is_index_def show_int_def show_nat.simps digit_char_def
    show_hex8_def hex_digit_def char_of_eq_iff)

theorem path_roundtrip_witness:
  "\<exists>p. string_to_path [] (HIDGetDataItem (data_zero\<lparr>Path := \<lparr>PathSize = 4, Node = demo_path\<rparr>\<rparr>) [demo_usages]) [demo_usages] = Some p \<and>
     PathSize p = 4 \<and> take 4 (Node p) = demo_path"
proof -
  have n: "list_all (named [demo_usages]) demo_path"
    using demo_path_text by (simp add: named_def hid_lookup_path_def hid_lookup_usage_def demo_path_def demo_usages_def strcaseeq_iff tolower_def char_of_eq_iff)
  have l: "length demo_path = 4" by (simp add: demo_path_def)
  have "length demo_path \<le> PATH_SIZE" by (simp add: l PATH_SIZE_def)
  moreover have "length (dotted (map (node_text [demo_usages]) demo_path)) \<le> 126" unfolding demo_path_text by simp
  ultimately show ?thesis
    using path_roundtrip [OF n, where mem = "[]" and d = data_zero and rest = "[]"] unfolding l append_Nil2 by fastforce
qed

lemma find_same_length:
  "find (\<lambda>e. strcaseeq (fst e) n) xs = find (\<lambda>e. strcaseeq (fst e) n) (filter (\<lambda>e. length (fst e) = length n) xs)"
  by (induction xs) (auto simp: strcaseeq_iff dest: map_eq_imp_length_eq)

text \<open>Not every usage of the table comes back from its name: the usage \<open>VoltageOutOfRange\<close> of the battery
  system page is printed with a name that is read as a usage of the power device page, so a path with it
  is looked up as another one.\<close>

theorem usage_names_ambiguous:
  "HIDGetDataItem (data_zero\<lparr>Path := \<lparr>PathSize = 1, Node = [0x008500d8]\<rparr>\<rparr>) [hid_usage_lkp] = ''VoltageOutOfRange'' \<and>
   hid_lookup_usage ''VoltageOutOfRange'' [hid_usage_lkp] = 0x00840063"
proof
  have "hid_lookup_path 0x008500d8 [hid_usage_lkp] = Some ''VoltageOutOfRange''"
    by (simp add: hid_lookup_path_def hid_usage_lkp_def)
  then show "HIDGetDataItem (data_zero\<lparr>Path := \<lparr>PathSize = 1, Node = [0x008500d8]\<rparr>\<rparr>) [hid_usage_lkp] = ''VoltageOutOfRange''"
    by (simp add: HIDGetDataItem_def path_to_string_def node_text_def snprintf_def snprintfcat_def Let_def)
  have short: "filter (\<lambda>e. length (fst e) = length ''VoltageOutOfRange'') hid_usage_lkp =
      [(''ConfigActivePower'', 0x00840044), (''ConfigPercentLoad'', 0x00840045), (''ConfigTemperature'', 0x00840046), (''DelayBeforeReboot'', 0x00840055), (''VoltageOutOfRange'', 0x00840063), (''ShutdownRequested'', 0x00840068), (''CommunicationLost'', 0x00840073), (''ConnectionToSMBus'', 0x00850015), (''ChargerConnection'', 0x00850017), (''ChargingIndicator'', 0x0085001d), (''AtRateTimeToEmpty'', 0x00850061), (''RemainingCapacity'', 0x00850066), (''AverageTimeToFull'', 0x0085006a), (''SpecificationInfo'', 0x00850084), (''iManufacturerName'', 0x00850087), (''VoltageOutOfRange'', 0x008500d8), (''CurrentOutOfRange'', 0x008500d9)]"
    by (simp add: hid_usage_lkp_def)
  show "hid_lookup_usage ''VoltageOutOfRange'' [hid_usage_lkp] = 0x00840063"
    using find_same_length [of "''VoltageOutOfRange''" hid_usage_lkp] short
    by (simp add: hid_lookup_usage_def strcaseeq_iff tolower_def char_of_eq_iff)
qed

end
