(* ===== verification/Spec2Isabelle.thy ===== *)
theory Spec2Isabelle
  imports Prelude Parseconf Conf Drvctl Drvmain Dstate Serverprops Upsclient Endtoend Upsmon Upssched Dummyups Libhid
begin

text \<open>
  Network UPS Tools (NUT): a verification development of the core of the C sources under \<open>src/\<close>.

  \<^bold>\<open>The program.\<close> A driver (\<open>src/drivers\<close>) talks to one UPS and keeps its variables and commands in a
  tree; it sends every change as a line of text over a local socket. The server \<open>upsd\<close> (\<open>src/server\<close>)
  connects to the drivers, keeps a copy of each tree, and answers the clients' requests over the network,
  with users, passwords and permissions. Clients use the library \<open>src/clients/upsclient.c\<close>; the most important one
  is \<open>upsmon\<close>, which decides to shut the host down. All of them read lines and configuration files
  with one parser (\<open>src/common/parseconf.c\<close>), and drivers and server share the tree (\<open>src/common/state.c\<close>).
  Drivers of USB devices use a parser of HID report descriptors (\<open>src/drivers/hidparser.c\<close>) and a report
  buffer above it (\<open>src/drivers/libhid.c\<close>).

  \<^bold>\<open>The theories.\<close>
  \<^item> \<open>Prelude\<close>: C's characters, numbers and bounded printing, list lookups, and the two locales for
    loops over events (\<open>event_loop\<close>, \<open>guarded_loop\<close>) that all components use.
  \<^item> \<open>Parseconf\<close>: \<open>common/parseconf.c\<close>, the character automaton with its buffers, the file and line interfaces, the
    encoder. Lemmas: memory safety of the automaton for any input, equality with a list-based
    tokenizer, encode/parse round trips.
  \<^item> \<open>State\<close>: \<open>common/state.c\<close>, \<open>include/extstate.h\<close>, the tree of variables with flags, enumerations and ranges, and the
    list of commands. Lemmas: the tree is a finite map ordered without regard to case; every operation
    keeps that.
  \<^item> \<open>Sstate\<close>: \<open>server/sstate.c\<close>, the server's side of a driver connection.
  \<^item> \<open>User\<close>, \<open>Desc\<close>: \<open>server/user.c\<close> and \<open>server/desc.c\<close>, loading and checking users, descriptions of variables and commands.
  \<^item> \<open>Server\<close>, \<open>Net\<close>, \<open>Upsd\<close>, \<open>Serverprops\<close>: the server's state, the network commands (\<open>server/net*.c\<close>), the dispatcher and
    the main loop (\<open>server/upsd.c\<close>), and the properties of whole requests: permissions, isolation of clients, which
    clients are removed, what a driver is told.
  \<^item> \<open>Upsconf\<close>: \<open>common/upsconf.c\<close>, the reader of \<open>ups.conf\<close> that calls its user back, with the faults of C as values
    (\<open>fault\<close>). Lemmas: which calls a well-formed file makes, and what every such reader keeps.
  \<^item> \<open>Conf\<close>: \<open>server/conf.c\<close> and the start and reload in \<open>server/upsd.c\<close>. Lemmas: after a reload the server has exactly
    the UPSes of the file, the logins it counts are those of its clients at every moment, and an empty file ends it.
  \<^item> \<open>Drvctl\<close>, \<open>Drvmain\<close>: \<open>drivers/upsdrvctl.c\<close> (the order in which drivers are started and shut down) and
    \<open>drivers/main.c\<close> (settings of a driver, what it publishes before its first round).
  \<^item> \<open>Dstate\<close>: \<open>drivers/dstate.c\<close>, the driver's side: the dump, the broadcasts, status and alarm. Here the driver's
    lines are fed to the server's reader of \<open>Sstate\<close>.
  \<^item> \<open>Upsclient\<close>, \<open>Endtoend\<close>: \<open>clients/upsclient.c\<close>, and a value that goes from a driver through the server to a client.
  \<^item> \<open>Upsmon\<close>: \<open>clients/upsmon.c\<close>, \<open>clients/upsmon.h\<close>, status flags, notifications, the shutdown decision,
    configuration, one round of the main loop.
  \<^item> \<open>Upssched\<close>: \<open>clients/upssched.c\<close>, the timer daemon and the client that upsmon runs. Lemmas: every timer is run once, at
    its time; a line of the configuration becomes this timer in the daemon; what holds in every state of the daemon.
  \<^item> \<open>Dummyups\<close>: \<open>drivers/dummy-ups.c\<close>, \<open>drivers/dummy-ups.h\<close>, a whole driver: the simulated device in its dummy mode. Lemmas: it
    plays the script of its definition file, and the server's copy follows the script.
  \<^item> \<open>Hidparser\<close>, \<open>Libhid\<close>: \<open>drivers/hidparser.c\<close>, \<open>drivers/libhid.c\<close>, descriptors, objects, reports and their names.

  \<^bold>\<open>How state and operations correspond.\<close> A struct is a record with the fields' names; a linked list is a list in the
  order of the links, and a pointer into it is a position; a buffer's contents are a string or a list of
  bytes. Functions keep their names; a loop inside a function is a function of its own, and the map of the
  development names the lines. Integers are numbers with the wrap-around written out where a value can leave its
  range, flags are words. An access outside an array or through a null pointer, or an operation that
  C leaves undefined, is a value of its own (\<open>None\<close>, \<open>Crash\<close>, a \<open>fault\<close>), never a convenient result. Sockets are the
  list of what was written and the list of what a read returns; time, answers of the other side and the
  contents of files are arguments.

  \<^bold>\<open>Bounds and fuel.\<close> No definition uses fuel. The reading loops recurse on what is left to read; the parser of
  descriptors is a partial function, and it is shown to end for descriptors of up to 65280 bytes; the
  buffer of the USB drivers has 6144 (\<open>REPORT_DSC_SIZE\<close>). Buffer sizes are those of the code (\<open>SMALLBUF\<close>, \<open>PCONF_CTX_t\<close> limits, 256 bytes for
  lines to drivers), so truncation is part of the statements.

  \<^bold>\<open>Interfaces.\<close> The locales are interpreted on the models: \<open>event_loop\<close> and \<open>guarded_loop\<close> on the tokenizer's, the server's, the driver's, the
  monitor's, the timer daemon's and the report buffer's steps; \<open>keyed_store\<close> on the tree and the descriptions; \<open>line_reader\<close> on the server's reader of a driver;
  \<open>net_command\<close>, \<open>net_query\<close> and \<open>net_ups_command\<close> on the handlers of network commands; \<open>upsconf_client\<close> and
  \<open>upsconf_values\<close> on the callbacks of the server and of \<open>upsdrvctl\<close>.

  \<^bold>\<open>Not modelled.\<close> The drivers of real devices, which consist of tables and protocols of the hardware, and the
  repeater mode of the simulated one; the
  network scanner; the CGI programs and the small command line clients, which print what the client library
  returns; the C++ client; SSL, processes (their results, a failed fork of \<open>upsdrvctl\<close> included, are inputs); signals, sockets and their addresses; the
  conversion of HID values to physical ones, which is done in floating point; texts that are only logged.
\<close>

end
